(* ===== verification/Prelude.thy ===== *)
theory Prelude
  imports Main "HOL-Library.Monad_Syntax" "HOL-Library.Word"
begin

text \<open>
  Shared vocabulary of the development.

  C++ code with undefined behaviour (an index outside a vector, a null or mistyped pointer, a
  recursion that never returns) is modelled in the option monad: the value is \<^term>\<open>None\<close>
  exactly where the C++ has no defined result, so a theorem that an operation returns
  \<^term>\<open>Some\<close> something is a proof of memory safety and of termination at once.  Error
  returns of the code itself (its \<open>Status\<close> values) are ordinary values.

  \<open>std::vector\<close> and \<open>std::string\<close> are lists; the functions \<open>vec_*\<close> are the
  vector operations of the code with their preconditions.  \<open>for_range\<close> is the counting
  loop.
\<close>

type_synonym bytes = string
type_synonym u8 = "8 word"
type_synonym u32 = "32 word"
type_synonym u64 = "64 word"

named_theorems vec_defs "definitions of the checked vector operations"

section \<open>Vectors\<close>

definition vec_get :: "'a list \<Rightarrow> nat \<Rightarrow> 'a option" where
  [vec_defs]: "vec_get xs i = (if i < length xs then Some (xs ! i) else None)"

definition vec_set :: "'a list \<Rightarrow> nat \<Rightarrow> 'a \<Rightarrow> 'a list option" where
  [vec_defs]: "vec_set xs i x = (if i < length xs then Some (xs[i := x]) else None)"

definition vec_insert :: "'a list \<Rightarrow> nat \<Rightarrow> 'a \<Rightarrow> 'a list option" where
  [vec_defs]: "vec_insert xs p x =
     (if p \<le> length xs then Some (take p xs @ x # drop p xs) else None)"

definition vec_erase :: "'a list \<Rightarrow> nat \<Rightarrow> 'a list option" where
  [vec_defs]: "vec_erase xs p =
     (if p < length xs then Some (take p xs @ drop (Suc p) xs) else None)"

definition vec_front :: "'a list \<Rightarrow> 'a option" where
  [vec_defs]: "vec_front xs = (if xs = [] then None else Some (hd xs))"

definition vec_back :: "'a list \<Rightarrow> 'a option" where
  [vec_defs]: "vec_back xs = (if xs = [] then None else Some (last xs))"

definition vec_pop_back :: "'a list \<Rightarrow> 'a list option" where
  [vec_defs]: "vec_pop_back xs = (if xs = [] then None else Some (butlast xs))"

text \<open>The range from \<open>begin() + p\<close> to \<open>end()\<close>, and what \<open>erase\<close> of it leaves.\<close>

definition vec_from :: "'a list \<Rightarrow> nat \<Rightarrow> 'a list option" where
  [vec_defs]: "vec_from xs p = (if p \<le> length xs then Some (drop p xs) else None)"

definition vec_upto :: "'a list \<Rightarrow> nat \<Rightarrow> 'a list option" where
  [vec_defs]: "vec_upto xs p = (if p \<le> length xs then Some (take p xs) else None)"

section \<open>Counting loops\<close>

text \<open>\<open>for (i = lo; i < lo + n; ++i) s = body(i, s)\<close>, stopping where the body is undefined.\<close>

fun for_range :: "nat \<Rightarrow> nat \<Rightarrow> (nat \<Rightarrow> 's \<Rightarrow> 's option) \<Rightarrow> 's \<Rightarrow> 's option" where
  "for_range lo 0 body s = Some s"
| "for_range lo (Suc n) body s = do { s' \<leftarrow> body lo s; for_range (Suc lo) n body s' }"

lemma for_range_total:
  assumes "\<And>i s. lo \<le> i \<Longrightarrow> i < lo + n \<Longrightarrow> P i s \<Longrightarrow> \<exists>s'. body i s = Some s' \<and> P (Suc i) s'"
    and "P lo s"
  shows "\<exists>s'. for_range lo n body s = Some s' \<and> P (lo + n) s'"
  using assms
proof (induction n arbitrary: lo s)
  case 0
  then show ?case by simp
next
  case (Suc n)
  from Suc.prems(1)[of lo s] Suc.prems(2) obtain s1
    where s1: "body lo s = Some s1" "P (Suc lo) s1" by auto
  have "\<exists>s'. for_range (Suc lo) n body s1 = Some s' \<and> P (Suc lo + n) s'"
    by (rule Suc.IH) (use Suc.prems(1) s1 in auto)
  with s1 show ?case by simp
qed

section \<open>Lists\<close>

lemma concat_map_update:
  assumes "i < length ts"
  shows "concat (map f (ts[i := t])) =
    concat (map f (take i ts)) @ f t @ concat (map f (drop (Suc i) ts))"
  using assms by (simp add: upd_conv_take_nth_drop)

lemma concat_map_split:
  assumes "i < length ts"
  shows "concat (map f ts) =
    concat (map f (take i ts)) @ f (ts ! i) @ concat (map f (drop (Suc i) ts))"
  by (metis assms concat_append concat.simps(2) id_take_nth_drop list.simps(9) map_append)

lemma split_at_nth: "i < length xs \<Longrightarrow> xs = take i xs @ xs ! i # drop (Suc i) xs"
  by (rule id_take_nth_drop)

lemma list_split_pair:
  assumes "Suc i < length xs"
  shows "xs = take i xs @ xs ! i # xs ! Suc i # drop (Suc (Suc i)) xs"
  by (metis Cons_nth_drop_Suc Suc_lessD append_take_drop_id assms)

end
