(* ===== verification/Codec.thy ===== *)
theory Codec
  imports Prelude
begin

unbundle bit_operations_syntax

text \<open>
  Little-endian fixed-width integers, as \<open>src/wal/wal.cpp\<close> and \<open>src/sstable/sstable.cpp\<close>
  encode them.
\<close>

text \<open>\<open>static_cast<char>(v & 0xff)\<close> and \<open>static_cast<unsigned char>(c)\<close>.\<close>

definition char_of_word :: "u32 \<Rightarrow> char" where
  "char_of_word v = char_of (unat (v AND 0xff))"

definition word_of_char :: "char \<Rightarrow> u32" where
  "word_of_char c = of_nat (of_char c)"

definition EncodeFixed32 :: "u32 \<Rightarrow> bytes" where
  "EncodeFixed32 v = [char_of_word v, char_of_word (drop_bit 8 v), char_of_word (drop_bit 16 v), char_of_word (drop_bit 24 v)]"

definition EncodeFixed64 :: "u64 \<Rightarrow> bytes" where
  "EncodeFixed64 v = EncodeFixed32 (ucast (v AND 0xffffffff)) @ EncodeFixed32 (ucast (drop_bit 32 v))"

text \<open>The decoders read from a pointer; fewer bytes than they need is undefined.\<close>

fun DecodeFixed32 :: "bytes \<Rightarrow> u32 option" where
  "DecodeFixed32 (a # b # c # d # rest) =
     Some (word_of_char a OR push_bit 8 (word_of_char b) OR push_bit 16 (word_of_char c) OR push_bit 24 (word_of_char d))"
| "DecodeFixed32 buf = None"

definition DecodeFixed64 :: "bytes \<Rightarrow> u64 option" where
  "DecodeFixed64 buf = do {
     lo \<leftarrow> DecodeFixed32 buf;
     hi \<leftarrow> DecodeFixed32 (drop 4 buf);
     Some (ucast lo OR push_bit 32 (ucast hi))
   }"

lemma length_EncodeFixed [simp]: "length (EncodeFixed32 v) = 4" "length (EncodeFixed64 w) = 8"
  by (simp_all add: EncodeFixed32_def EncodeFixed64_def)

lemma low_byte: "(v :: u32) AND 0xff = take_bit 8 v"
  by (simp add: take_bit_eq_mask mask_eq_exp_minus_1)

lemma low_half: "(v :: u64) AND 0xffffffff = take_bit 32 v"
  by (simp add: take_bit_eq_mask mask_eq_exp_minus_1)

lemma word_of_char_of_word [simp]: "word_of_char (char_of_word v) = take_bit 8 v"
proof -
  have "unat (take_bit 8 v) < 256"
    using take_bit_nat_less_exp [of 8 "unat v"] by (simp add: unsigned_take_bit_eq)
  then show ?thesis by (simp add: word_of_char_def char_of_word_def low_byte)
qed

lemma word_of_bytes: "take_bit 8 v OR push_bit 8 (take_bit 8 (drop_bit 8 v)) OR push_bit 16 (take_bit 8 (drop_bit 16 v))
    OR push_bit 24 (take_bit 8 (drop_bit 24 v)) = (v :: u32)"
proof (rule bit_word_eqI)
  fix n
  assume n: "n < LENGTH(32)"
  consider "n < 8" | "8 \<le> n" "n < 16" | "16 \<le> n" "n < 24" | "24 \<le> n" by linarith
  then show "bit (take_bit 8 v OR push_bit 8 (take_bit 8 (drop_bit 8 v)) OR push_bit 16 (take_bit 8 (drop_bit 16 v))
    OR push_bit 24 (take_bit 8 (drop_bit 24 v))) n = bit v n"
    using n by cases (auto simp: bit_simps)
qed

lemma word_of_halves: "(ucast (ucast (take_bit 32 v) :: u32) :: u64) OR push_bit 32 (ucast (ucast (drop_bit 32 v) :: u32)) = v"
  by (rule bit_word_eqI) (auto simp: bit_simps)

lemma DecodeFixed32_EncodeFixed32 [simp]: "DecodeFixed32 (EncodeFixed32 v @ r) = Some v"
  by (simp add: EncodeFixed32_def word_of_bytes)

lemma DecodeFixed64_EncodeFixed64 [simp]: "DecodeFixed64 (EncodeFixed64 v @ r) = Some v"
  by (simp add: EncodeFixed64_def DecodeFixed64_def low_half word_of_halves)

section \<open>The contract of a field format\<close>

text \<open>
  What the log and the sorted tables need from the encoding of a field: a fixed width, and a decoder
  that reads the field back whatever follows it.
\<close>

locale field_codec =
  fixes enc :: "'a \<Rightarrow> bytes"
    and dec :: "bytes \<Rightarrow> 'a option"
    and width :: nat
  assumes enc_width: "length (enc x) = width"
    and dec_enc: "dec (enc x @ r) = Some x"
begin

lemma dec_last: "dec (enc x) = Some x"
  using dec_enc [of x "[]"] by simp

lemma dec_at: "pos = length pre \<Longrightarrow> dec (drop pos (pre @ enc x @ post)) = Some x"
  by (simp add: dec_enc)

lemma dec_next: "dec (drop width (enc y @ enc x @ post)) = Some x"
  by (rule dec_at) (simp add: enc_width)

lemma enc_unique: "enc x @ r = enc y @ s \<longleftrightarrow> x = y \<and> r = s"
  using dec_enc [of x r] dec_enc [of y s] by (metis same_append_eq option.inject)

end

interpretation fixed32: field_codec EncodeFixed32 DecodeFixed32 4
  by unfold_locales simp_all

interpretation fixed64: field_codec EncodeFixed64 DecodeFixed64 8
  by unfold_locales simp_all

section \<open>Decoding any bytes\<close>

text \<open>Decoding succeeds on any buffer that is long enough.\<close>

lemma DecodeFixed32_long: "4 \<le> length buf \<Longrightarrow> \<exists>v. DecodeFixed32 buf = Some v"
  by (cases buf rule: DecodeFixed32.cases) auto

lemma DecodeFixed64_long:
  assumes "8 \<le> length buf"
  shows "\<exists>v. DecodeFixed64 buf = Some v"
proof -
  have "4 \<le> length buf" "4 \<le> length (drop 4 buf)" using assms by simp_all
  then obtain v w where "DecodeFixed32 buf = Some v" "DecodeFixed32 (drop 4 buf) = Some w"
    using DecodeFixed32_long by metis
  then show ?thesis by (simp add: DecodeFixed64_def)
qed

end
