(* ===== verification/Text.thy ===== *)
theory Text
  imports Prelude
begin

text \<open>
  The parts of the C++ standard library that turn numbers into text and back: \<open>std::to_string\<close>
  of an unsigned integer and \<open>std::stoull\<close> in base 10, as the code uses them for log file
  names, HTTP headers and statistics.
\<close>

definition digit_char :: "nat \<Rightarrow> char" where
  "digit_char d = char_of (48 + d)"

definition is_digit :: "char \<Rightarrow> bool" where
  "is_digit c \<longleftrightarrow> 48 \<le> (of_char c :: nat) \<and> (of_char c :: nat) \<le> 57"

definition digit_val :: "char \<Rightarrow> nat" where
  "digit_val c = (of_char c :: nat) - 48"

text \<open>\<open>std::to_string\<close>.\<close>

fun to_dec :: "nat \<Rightarrow> string" where
  "to_dec n = (if n < 10 then [digit_char n] else to_dec (n div 10) @ [digit_char (n mod 10)])"

declare to_dec.simps [simp del]

definition dec_val :: "string \<Rightarrow> nat" where
  "dec_val ds = foldl (\<lambda>a c. a * 10 + digit_val c) 0 ds"

lemma digit_char_facts:
  assumes "d < 10"
  shows "is_digit (digit_char d)" and "digit_val (digit_char d) = d"
  using assms by (simp_all add: is_digit_def digit_val_def digit_char_def)

lemma to_dec_digits: "\<forall>c\<in>set (to_dec n). is_digit c"
proof (induction n rule: to_dec.induct)
  case (1 n)
  show ?case
  proof (cases "n < 10")
    case True
    then show ?thesis by (subst to_dec.simps) (simp add: digit_char_facts)
  next
    case False
    with 1 show ?thesis by (subst to_dec.simps) (auto simp: digit_char_facts)
  qed
qed

lemma to_dec_not_Nil [simp]: "to_dec n \<noteq> []"
  by (subst to_dec.simps) simp

lemma dec_val_to_dec [simp]: "dec_val (to_dec n) = n"
proof (induction n rule: to_dec.induct)
  case (1 n)
  show ?case
  proof (cases "n < 10")
    case True
    then show ?thesis by (subst to_dec.simps) (simp add: digit_char_facts dec_val_def)
  next
    case False
    with 1 show ?thesis by (subst to_dec.simps) (simp add: digit_char_facts dec_val_def)
  qed
qed

lemma to_dec_inj: "to_dec m = to_dec n \<Longrightarrow> m = n"
  by (metis dec_val_to_dec)

text \<open>
  \<open>std::stoull(s, &used)\<close>: the value and the number of characters used, or \<^term>\<open>None\<close> where
  it throws (no digits, or a value that does not fit).  It skips white space and accepts a sign;
  a negated value wraps.
\<close>

definition is_space :: "char \<Rightarrow> bool" where
  "is_space c \<longleftrightarrow> c = CHR '' '' \<or> 9 \<le> (of_char c :: nat) \<and> (of_char c :: nat) \<le> 13"

definition stoull :: "string \<Rightarrow> (u64 \<times> nat) option" where
  "stoull s =
     (let s1 = dropWhile is_space s;
          neg = (s1 \<noteq> [] \<and> hd s1 = CHR ''-'');
          s2 = (if s1 \<noteq> [] \<and> (hd s1 = CHR ''-'' \<or> hd s1 = CHR ''+'') then tl s1 else s1);
          ds = takeWhile is_digit s2;
          v = dec_val ds
      in if ds = [] \<or> 2 ^ 64 \<le> v then None
         else Some (if neg then - of_nat v else of_nat v, length s - length s2 + length ds))"

lemma digit_not_space: "is_digit c \<Longrightarrow> \<not> is_space c"
  by (auto simp: is_digit_def is_space_def)

lemma stoull_to_dec:
  assumes "n < 2 ^ 64"
  shows "stoull (to_dec n) = Some (of_nat n, length (to_dec n))"
proof -
  define t where "t = to_dec n"
  have t: "t \<noteq> []" "\<forall>x\<in>set t. is_digit x" "dec_val t = n"
    by (simp_all add: t_def to_dec_digits)
  then have c: "is_digit (hd t)" by simp
  have "dropWhile is_space t = t" using digit_not_space [OF c] t(1) by (cases t) simp_all
  moreover have tw: "takeWhile is_digit t = t" using t(2) by (simp add: takeWhile_eq_all_conv)
  moreover have "hd t \<noteq> CHR ''-''" "hd t \<noteq> CHR ''+''" using c by (auto simp: is_digit_def)
  ultimately show ?thesis using assms t by (simp add: stoull_def Let_def tw flip: t_def)
qed

end
