(* ===== verification/Status.thy ===== *)
theory Status
  imports Prelude
begin

text \<open>
  \<open>include/error/status.h\<close>: the error codes, the \<open>Status\<close> value every operation
  returns, its factories, and its rendering as text.
\<close>

datatype ErrorCode =
    OK | NOT_FOUND | CORRUPTION | NOT_SUPPORTED | INVALID_ARGUMENT | IO_ERROR
  | ALREADY_EXISTS | ABORTED | BUSY | EXPIRED | FULL | OUT_OF_MEMORY | INTERNAL_ERROR

record Status =
  code :: ErrorCode
  message :: string

definition Status_make :: "ErrorCode \<Rightarrow> string \<Rightarrow> Status" where
  "Status_make c m = \<lparr>code = c, message = m\<rparr>"

definition Status_OK :: Status where
  "Status_OK = Status_make OK ''''"

definition Status_NotFound :: "string \<Rightarrow> Status" where
  "Status_NotFound m = Status_make NOT_FOUND m"

definition Status_Corruption :: "string \<Rightarrow> Status" where
  "Status_Corruption m = Status_make CORRUPTION m"

definition Status_NotSupported :: "string \<Rightarrow> Status" where
  "Status_NotSupported m = Status_make NOT_SUPPORTED m"

definition Status_InvalidArgument :: "string \<Rightarrow> Status" where
  "Status_InvalidArgument m = Status_make INVALID_ARGUMENT m"

definition Status_IOError :: "string \<Rightarrow> Status" where
  "Status_IOError m = Status_make IO_ERROR m"

definition Status_AlreadyExists :: "string \<Rightarrow> Status" where
  "Status_AlreadyExists m = Status_make ALREADY_EXISTS m"

definition Status_Aborted :: "string \<Rightarrow> Status" where
  "Status_Aborted m = Status_make ABORTED m"

definition Status_Busy :: "string \<Rightarrow> Status" where
  "Status_Busy m = Status_make BUSY m"

definition Status_Expired :: "string \<Rightarrow> Status" where
  "Status_Expired m = Status_make EXPIRED m"

definition Status_Full :: "string \<Rightarrow> Status" where
  "Status_Full m = Status_make FULL m"

definition Status_OutOfMemory :: "string \<Rightarrow> Status" where
  "Status_OutOfMemory m = Status_make OUT_OF_MEMORY m"

definition Status_InternalError :: "string \<Rightarrow> Status" where
  "Status_InternalError m = Status_make INTERNAL_ERROR m"

lemmas status_factories =
  Status_OK_def Status_NotFound_def Status_Corruption_def Status_NotSupported_def
  Status_InvalidArgument_def Status_IOError_def Status_AlreadyExists_def
  Status_InternalError_def Status_Aborted_def Status_Busy_def Status_Expired_def Status_Full_def
  Status_OutOfMemory_def Status_make_def

definition Status_ok :: "Status \<Rightarrow> bool" where
  "Status_ok s \<longleftrightarrow> code s = OK"

lemma Status_ok_simps [simp]:
  "Status_ok Status_OK"
  "\<not> Status_ok (Status_NotFound m)"
  "\<not> Status_ok (Status_Corruption m)"
  "\<not> Status_ok (Status_NotSupported m)"
  "\<not> Status_ok (Status_InvalidArgument m)"
  "\<not> Status_ok (Status_IOError m)"
  "\<not> Status_ok (Status_AlreadyExists m)"
  "\<not> Status_ok (Status_InternalError m)"
  "\<not> Status_ok (Status_Aborted m)"
  "\<not> Status_ok (Status_Busy m)"
  "\<not> Status_ok (Status_Expired m)"
  "\<not> Status_ok (Status_Full m)"
  "\<not> Status_ok (Status_OutOfMemory m)"
  by (simp_all add: Status_ok_def status_factories)

text \<open>The \<open>switch\<close> of \<open>Status::ToString\<close>; its \<open>OK\<close> case falls to the default.\<close>

fun ErrorCode_type :: "ErrorCode \<Rightarrow> string" where
  "ErrorCode_type NOT_FOUND = ''NotFound''"
| "ErrorCode_type CORRUPTION = ''Corruption''"
| "ErrorCode_type NOT_SUPPORTED = ''NotSupported''"
| "ErrorCode_type INVALID_ARGUMENT = ''InvalidArgument''"
| "ErrorCode_type IO_ERROR = ''IOError''"
| "ErrorCode_type ALREADY_EXISTS = ''AlreadyExists''"
| "ErrorCode_type ABORTED = ''Aborted''"
| "ErrorCode_type BUSY = ''Busy''"
| "ErrorCode_type EXPIRED = ''Expired''"
| "ErrorCode_type FULL = ''Full''"
| "ErrorCode_type OUT_OF_MEMORY = ''OutOfMemory''"
| "ErrorCode_type INTERNAL_ERROR = ''InternalError''"
| "ErrorCode_type OK = ''Unknown''"

definition Status_ToString :: "Status \<Rightarrow> string" where
  "Status_ToString s =
     (if Status_ok s then ''OK''
      else if message s = [] then ErrorCode_type (code s)
      else ErrorCode_type (code s) @ '': '' @ message s)"

lemma ErrorCode_type_no_colon: "CHR '':'' \<notin> set (ErrorCode_type c)"
  by (cases c) simp_all

lemma ErrorCode_type_inj: "ErrorCode_type c = ErrorCode_type d \<Longrightarrow> c = d"
  by (cases c; cases d) simp_all

lemma ErrorCode_type_not_OK: "ErrorCode_type c \<noteq> ''OK''"
  by (cases c) simp_all

lemma takeWhile_type:
  "takeWhile (\<lambda>x. x \<noteq> CHR '':'') (ErrorCode_type c @ '': '' @ m) = ErrorCode_type c"
proof -
  have "\<forall>x \<in> set (ErrorCode_type c). x \<noteq> CHR '':''"
    using ErrorCode_type_no_colon by metis
  then show ?thesis by (simp add: takeWhile_append)
qed

lemma ToString_head:
  "\<not> Status_ok s \<Longrightarrow> takeWhile (\<lambda>x. x \<noteq> CHR '':'') (Status_ToString s) = ErrorCode_type (code s)"
  using takeWhile_type [of "code s" "message s"] takeWhile_type [of "code s" "[]"]
  by (simp add: Status_ToString_def takeWhile_eq_all_conv)
     (metis ErrorCode_type_no_colon takeWhile_eq_all_conv)

end
