(* ===== verification/Wal.thy ===== *)
theory Wal
  imports Codec Text Status "HOL-Library.AList"
begin

text \<open>
  The write-ahead log, \<open>include/wal/wal.h\<close> and \<open>src/wal/wal.cpp\<close>.

  The file system is explicit.  \<open>wal_disk\<close> lists the regular files of the log directory by
  name, with their content as the operating system holds it (\<open>content\<close>) and the number of
  leading bytes that an \<open>fsync\<close> has made durable.  \<open>pending\<close> are the bytes the output stream
  has taken and not handed to the operating system; the stream may do so earlier than
  \<open>flush\<close> and \<open>close\<close>, which the crash images of \<open>Wal_Crash\<close> allow for.  What the system calls
  answer in one operation is a \<open>WalEnv\<close>.  zlib's \<open>crc32\<close> is the parameter \<open>crc\<close>.
  \<open>size_t\<close> lengths are natural numbers; a copy past the end of the buffer is \<^term>\<open>None\<close>.
\<close>

definition kPut :: u8 where "kPut = 1"
definition kDelete :: u8 where "kDelete = 2"
definition kBeginTransaction :: u8 where "kBeginTransaction = 3"
definition kCommitTransaction :: u8 where "kCommitTransaction = 4"
definition kRollbackTransaction :: u8 where "kRollbackTransaction = 5"

lemmas record_types = kPut_def kDelete_def kBeginTransaction_def kCommitTransaction_def kRollbackTransaction_def

record WalRecordHeader =
  rec_type :: u8
  rec_sequence_number :: u64
  rec_timestamp :: u64
  rec_key_size :: u32
  rec_value_size :: u32
  rec_crc32 :: u32

definition kHeaderSize :: nat where
  "kHeaderSize = 1 + 8 + 8 + 4 + 4 + 4"

record WalOptions =
  wal_dir :: string
  max_file_size :: nat
  wal_buffer_size :: nat
  wal_sync_on_write :: bool
  enable_compression :: bool
  compression_threshold :: u32

definition WalOptions_default :: WalOptions where
  "WalOptions_default = \<lparr>wal_dir = ''./wal'', max_file_size = 64 * 1024 * 1024,
     wal_buffer_size = 4 * 1024 * 1024, wal_sync_on_write = True, enable_compression = False,
     compression_threshold = 1024\<rparr>"

section \<open>Files and the system calls\<close>

record DiskFile =
  content :: bytes
  durable :: nat

type_synonym disk = "(string \<times> DiskFile) list"

record WalEnv =
  open_ok :: bool
  close_limit :: "nat option"
  flush_limit :: "nat option"
  fd_ok :: bool
  fsync_ok :: bool
  now :: u64

text \<open>A limit says how many bytes the file takes before a write fails; \<^term>\<open>None\<close> is no failure.\<close>

definition accepted :: "nat option \<Rightarrow> bytes \<Rightarrow> bytes" where
  "accepted lim bs = (case lim of None \<Rightarrow> bs | Some n \<Rightarrow> take n bs)"

definition accepts_all :: "nat option \<Rightarrow> bytes \<Rightarrow> bool" where
  "accepts_all lim bs \<longleftrightarrow> (case lim of None \<Rightarrow> True | Some n \<Rightarrow> length bs \<le> n)"

text \<open>\<open>std::filesystem::path(p).filename()\<close>, and the path of an entry of a directory.\<close>

definition basename :: "string \<Rightarrow> string" where
  "basename p = rev (takeWhile (\<lambda>c. c \<noteq> CHR ''/'') (rev p))"

definition entry_path :: "string \<Rightarrow> string \<Rightarrow> string" where
  "entry_path dir name = (if dir \<noteq> [] \<and> last dir = CHR ''/'' then dir @ name else dir @ ''/'' @ name)"

definition disk_create :: "string \<Rightarrow> disk \<Rightarrow> disk" where
  "disk_create name d = (case map_of d name of None \<Rightarrow> d @ [(name, \<lparr>content = [], durable = 0\<rparr>)] | Some f \<Rightarrow> d)"

definition disk_append :: "string \<Rightarrow> bytes \<Rightarrow> disk \<Rightarrow> disk" where
  "disk_append name bs d =
     (case map_of d name of None \<Rightarrow> d | Some f \<Rightarrow> AList.update name (f\<lparr>content := content f @ bs\<rparr>) d)"

definition disk_fsync :: "string \<Rightarrow> disk \<Rightarrow> disk" where
  "disk_fsync name d =
     (case map_of d name of None \<Rightarrow> d | Some f \<Rightarrow> AList.update name (f\<lparr>durable := length (content f)\<rparr>) d)"

definition file_size :: "string \<Rightarrow> disk \<Rightarrow> nat" where
  "file_size name d = (case map_of d name of None \<Rightarrow> 0 | Some f \<Rightarrow> length (content f))"

section \<open>The log object\<close>

record Wal =
  wal_options :: WalOptions
  file_open :: bool
  file_good :: bool
  pending :: bytes
  current_file_number :: u64
  current_file_size :: nat
  write_buffer :: bytes
  buffer_offset :: nat
  current_filename :: string
  wal_sequence_number :: u64
  total_writes :: u64
  total_bytes_written :: u64
  total_syncs :: u64
  wal_disk :: disk

text \<open>\<open>CalculateCRC32\<close>: the length is cast to \<open>uInt\<close>, so only its low 32 bits count.\<close>

definition CalculateCRC32 :: "(bytes \<Rightarrow> u32) \<Rightarrow> bytes \<Rightarrow> u32" where
  "CalculateCRC32 crc data = crc (take (length data mod 2 ^ 32) data)"

text \<open>\<open>current_file.close()\<close>.\<close>

definition close_stream :: "WalEnv \<Rightarrow> Wal \<Rightarrow> Wal" where
  "close_stream e w = w\<lparr>file_open := False, pending := [],
     file_good := file_good w \<and> accepts_all (close_limit e) (pending w),
     wal_disk := disk_append (basename (current_filename w)) (accepted (close_limit e) (pending w)) (wal_disk w)\<rparr>"

definition OpenNewLogFile :: "WalEnv \<Rightarrow> Wal \<Rightarrow> Wal" where
  "OpenNewLogFile e w =
     (let w = (if file_open w then close_stream e w else w);
          path = wal_dir (wal_options w) @ ''/wal_'' @ to_dec (unat (current_file_number w)) @ ''.log'';
          w = w\<lparr>current_filename := path, current_file_size := 0\<rparr>
      in if open_ok e
         then let d = disk_create (basename path) (wal_disk w)
              in w\<lparr>file_open := True, file_good := True, pending := [], wal_disk := d,
                   current_file_size := file_size (basename path) d\<rparr>
         else w\<lparr>file_good := False\<rparr>)"

text \<open>
  The file names the constructor accepts, and the highest number among them.  A number that
  \<open>stoull\<close> does not consume to its end is skipped.
\<close>

definition has_wal_prefix :: "string \<Rightarrow> bool" where
  "has_wal_prefix name \<longleftrightarrow> take 4 name = ''wal_''"

definition has_log_suffix :: "string \<Rightarrow> bool" where
  "has_log_suffix name \<longleftrightarrow> drop (length name - 4) name = ''.log''"

definition number_part :: "string \<Rightarrow> string" where
  "number_part name = take (length name - 8) (drop 4 name)"

fun highest_number :: "string list \<Rightarrow> u64 option \<Rightarrow> u64 option" where
  "highest_number [] best = best"
| "highest_number (name # names) best =
     (if \<not> has_wal_prefix name \<or> length name \<le> 8 \<or> \<not> has_log_suffix name then highest_number names best
      else let number = number_part name in
        case stoull number of
          None \<Rightarrow> highest_number names best
        | Some (n, used) \<Rightarrow>
            if used = length number \<and> (case best of None \<Rightarrow> True | Some h \<Rightarrow> h < n)
            then highest_number names (Some n) else highest_number names best)"

definition Wal_new :: "WalEnv \<Rightarrow> WalOptions \<Rightarrow> disk \<Rightarrow> Wal" where
  "Wal_new e opts d = OpenNewLogFile e
     \<lparr>wal_options = opts, file_open = False, file_good = True, pending = [],
      current_file_number = (case highest_number (map fst d) None of Some n \<Rightarrow> n | None \<Rightarrow> 0),
      current_file_size = 0, write_buffer = replicate (max 1 (wal_buffer_size opts)) (char_of (0::nat)),
      buffer_offset = 0, current_filename = [], wal_sequence_number = 0, total_writes = 0,
      total_bytes_written = 0, total_syncs = 0, wal_disk = d\<rparr>"

text \<open>A write to a stream in a failed state does nothing, and the buffer is emptied all the same.\<close>

definition FlushBuffer :: "Wal \<Rightarrow> Wal" where
  "FlushBuffer w =
     (if buffer_offset w > 0 \<and> file_open w
      then w\<lparr>pending := (if file_good w then pending w @ take (buffer_offset w) (write_buffer w) else pending w),
             buffer_offset := 0\<rparr>
      else w)"

text \<open>The destructor.\<close>

definition Wal_destroy :: "WalEnv \<Rightarrow> Wal \<Rightarrow> Wal" where
  "Wal_destroy e w = (if file_open w then close_stream e (FlushBuffer w) else w)"

definition Wal_Sync :: "WalEnv \<Rightarrow> Wal \<Rightarrow> Status \<times> Wal" where
  "Wal_Sync e w =
     (if \<not> file_open w then (Status_IOError ''WAL file is not open'', w)
      else
        let w = FlushBuffer w;
            moved = (if file_good w then accepted (flush_limit e) (pending w) else []);
            w = w\<lparr>file_good := file_good w \<and> accepts_all (flush_limit e) (pending w),
                  pending := drop (length moved) (pending w),
                  wal_disk := disk_append (basename (current_filename w)) moved (wal_disk w)\<rparr>
        in if \<not> file_good w then (Status_IOError ''Failed to flush WAL'', w)
           else if \<not> fd_ok e then (Status_IOError ''Failed to open WAL for durable sync'', w)
           else if \<not> fsync_ok e then (Status_IOError ''Failed to sync WAL to disk'', w)
           else (Status_OK, w\<lparr>total_syncs := total_syncs w + 1,
                   wal_disk := disk_fsync (basename (current_filename w)) (wal_disk w)\<rparr>))"

definition Wal_RotateLog :: "WalEnv \<Rightarrow> Wal \<Rightarrow> Status \<times> Wal" where
  "Wal_RotateLog e w =
     (let w = FlushBuffer w;
          w = (if file_open w then close_stream e w else w);
          w = w\<lparr>current_file_number := current_file_number w + 1\<rparr>
      in (Status_OK, OpenNewLogFile e w))"

section \<open>Writing a record\<close>

definition header_prefix :: "WalRecordHeader \<Rightarrow> bytes" where
  "header_prefix h =
     char_of_word (ucast (rec_type h)) # EncodeFixed64 (rec_sequence_number h) @ EncodeFixed64 (rec_timestamp h) @
     EncodeFixed32 (rec_key_size h) @ EncodeFixed32 (rec_value_size h)"

text \<open>The header a call of \<open>WriteRecord\<close> fills in.\<close>

definition new_header :: "(bytes \<Rightarrow> u32) \<Rightarrow> u8 \<Rightarrow> u64 \<Rightarrow> u64 \<Rightarrow> bytes \<Rightarrow> bytes \<Rightarrow> WalRecordHeader" where
  "new_header crc kind seq time key val =
     (let h = \<lparr>rec_type = kind, rec_sequence_number = seq, rec_timestamp = time,
               rec_key_size = of_nat (length key), rec_value_size = of_nat (length val), rec_crc32 = 0\<rparr>
      in h\<lparr>rec_crc32 := CalculateCRC32 crc (header_prefix h @ key @ val)\<rparr>)"

text \<open>
  Make room for the next piece of the record, then copy it: the three blocks
  \<open>if (buffer_offset + n > write_buffer.size()) FlushBuffer(); std::memcpy(...); buffer_offset += n\<close>.
\<close>

definition buffer_piece :: "bytes \<Rightarrow> Wal \<Rightarrow> Wal option" where
  "buffer_piece bs w =
     (let w = (if buffer_offset w + length bs > length (write_buffer w) then FlushBuffer w else w)
      in if bs = [] then Some w
         else if buffer_offset w + length bs \<le> length (write_buffer w)
         then Some (w\<lparr>write_buffer := take (buffer_offset w) (write_buffer w) @ bs @
                        drop (buffer_offset w + length bs) (write_buffer w),
                      buffer_offset := buffer_offset w + length bs\<rparr>)
         else None)"

definition WriteRecord ::
  "(bytes \<Rightarrow> u32) \<Rightarrow> WalEnv \<Rightarrow> u8 \<Rightarrow> bytes \<Rightarrow> bytes \<Rightarrow> u64 \<Rightarrow> Wal \<Rightarrow> (Status \<times> Wal) option" where
  "WriteRecord crc e kind key val seq w =
     (if length key > 2 ^ 32 - 1 \<or> length val > 2 ^ 32 - 1
      then Some (Status_InvalidArgument ''WAL key/value is too large'', w)
      else
        let record_size = kHeaderSize + length key + length val;
            (s, w) = (if current_file_size w + record_size > max_file_size (wal_options w)
                      then Wal_RotateLog e w else (Status_OK, w))
        in if \<not> Status_ok s then Some (s, w)
           else do {
             let h = new_header crc kind seq (now e) key val;
             w \<leftarrow> buffer_piece (header_prefix h @ EncodeFixed32 (rec_crc32 h)) w;
             w \<leftarrow> buffer_piece key w;
             w \<leftarrow> buffer_piece val w;
             let w = w\<lparr>current_file_size := current_file_size w + record_size,
                       total_writes := total_writes w + 1,
                       total_bytes_written := total_bytes_written w + of_nat record_size\<rparr>;
             let w = (if wal_sync_on_write (wal_options w) then snd (Wal_Sync e (FlushBuffer w)) else w);
             Some (Status_OK, w)
           })"

definition Wal_Put :: "(bytes \<Rightarrow> u32) \<Rightarrow> WalEnv \<Rightarrow> bytes \<Rightarrow> bytes \<Rightarrow> u64 \<Rightarrow> Wal \<Rightarrow> (Status \<times> Wal) option" where
  "Wal_Put crc e key val seq w = WriteRecord crc e kPut key val seq w"

definition Wal_Delete :: "(bytes \<Rightarrow> u32) \<Rightarrow> WalEnv \<Rightarrow> bytes \<Rightarrow> u64 \<Rightarrow> Wal \<Rightarrow> (Status \<times> Wal) option" where
  "Wal_Delete crc e key seq w = WriteRecord crc e kDelete key [] seq w"

definition BeginTransaction :: "(bytes \<Rightarrow> u32) \<Rightarrow> WalEnv \<Rightarrow> u64 \<Rightarrow> Wal \<Rightarrow> (Status \<times> Wal) option" where
  "BeginTransaction crc e seq w = WriteRecord crc e kBeginTransaction [] [] seq w"

definition CommitTransaction :: "(bytes \<Rightarrow> u32) \<Rightarrow> WalEnv \<Rightarrow> u64 \<Rightarrow> Wal \<Rightarrow> (Status \<times> Wal) option" where
  "CommitTransaction crc e seq w = WriteRecord crc e kCommitTransaction [] [] seq w"

definition RollbackTransaction :: "(bytes \<Rightarrow> u32) \<Rightarrow> WalEnv \<Rightarrow> u64 \<Rightarrow> Wal \<Rightarrow> (Status \<times> Wal) option" where
  "RollbackTransaction crc e seq w = WriteRecord crc e kRollbackTransaction [] [] seq w"

definition Wal_Flush :: "Wal \<Rightarrow> Status \<times> Wal" where
  "Wal_Flush w = (Status_OK, FlushBuffer w)"

record WalStats =
  st_total_writes :: u64
  st_total_bytes_written :: u64
  st_total_syncs :: u64
  st_current_file_number :: u64
  st_current_file_size :: nat

definition Wal_GetStats :: "Wal \<Rightarrow> WalStats" where
  "Wal_GetStats w = \<lparr>st_total_writes = total_writes w, st_total_bytes_written = total_bytes_written w,
     st_total_syncs = total_syncs w, st_current_file_number = current_file_number w,
     st_current_file_size = current_file_size w\<rparr>"

definition CurrentFileNumber :: "Wal \<Rightarrow> u64" where
  "CurrentFileNumber w = current_file_number w"

definition CurrentFileSize :: "Wal \<Rightarrow> nat" where
  "CurrentFileSize w = current_file_size w"

section \<open>Recovery\<close>

type_synonym wal_record = "WalRecordHeader \<times> bytes \<times> bytes"

definition decode_header :: "bytes \<Rightarrow> WalRecordHeader option" where
  "decode_header buf = do {
     t \<leftarrow> vec_get buf 0;
     seq \<leftarrow> DecodeFixed64 (drop 1 buf);
     time \<leftarrow> DecodeFixed64 (drop 9 buf);
     ks \<leftarrow> DecodeFixed32 (drop 17 buf);
     vs \<leftarrow> DecodeFixed32 (drop 21 buf);
     c \<leftarrow> DecodeFixed32 (drop 25 buf);
     Some \<lparr>rec_type = of_nat (of_char t), rec_sequence_number = seq, rec_timestamp = time, rec_key_size = ks,
           rec_value_size = vs, rec_crc32 = c\<rparr>
   }"

definition kMaxFieldSize :: u32 where
  "kMaxFieldSize = 256 * 1024 * 1024"

text \<open>One turn of the loop over a file, from the bytes not read yet.\<close>

datatype read_result =
    Incomplete
  | InvalidFieldSize
  | CrcMismatch
  | ReadRecord WalRecordHeader bytes bytes bytes

definition read_record :: "(bytes \<Rightarrow> u32) \<Rightarrow> bytes \<Rightarrow> read_result option" where
  "read_record crc bs =
     (if length bs < kHeaderSize then Some Incomplete
      else do {
        let header_buf = take kHeaderSize bs;
        h \<leftarrow> decode_header header_buf;
        if rec_key_size h > kMaxFieldSize \<or> rec_value_size h > kMaxFieldSize then Some InvalidFieldSize
        else do {
          let ks = unat (rec_key_size h);
          let vs = unat (rec_value_size h);
          let body = drop kHeaderSize bs;
          if length body < ks \<or> length (drop ks body) < vs then Some Incomplete
          else do {
            let key = take ks body;
            let val = take vs (drop ks body);
            if CalculateCRC32 crc (take (kHeaderSize - 4) header_buf @ key @ val) \<noteq> rec_crc32 h then Some CrcMismatch
            else Some (ReadRecord h key val (drop (ks + vs) body))
          }
        }
      })"

lemma decode_header_long:
  assumes "kHeaderSize \<le> length buf"
  shows "\<exists>h. decode_header buf = Some h"
proof -
  have "\<exists>v. DecodeFixed64 (drop 1 buf) = Some v" "\<exists>v. DecodeFixed64 (drop 9 buf) = Some v"
    "\<exists>v. DecodeFixed32 (drop 17 buf) = Some v" "\<exists>v. DecodeFixed32 (drop 21 buf) = Some v"
    "\<exists>v. DecodeFixed32 (drop 25 buf) = Some v"
    using assms by (auto intro!: DecodeFixed64_long DecodeFixed32_long simp: kHeaderSize_def)
  moreover have "0 < length buf" using assms by (cases buf) (simp_all add: kHeaderSize_def)
  ultimately show ?thesis by (auto simp: decode_header_def vec_get_def)
qed

lemma read_record_shorter: "read_record crc bs = Some (ReadRecord h k v rest) \<Longrightarrow> length rest < length bs"
  by (auto simp: read_record_def Let_def kHeaderSize_def split: bind_splits if_splits)

text \<open>The loop over a file: the records handed to the callback, and how it ended.\<close>

function read_file :: "(bytes \<Rightarrow> u32) \<Rightarrow> bytes \<Rightarrow> (wal_record list \<times> read_result) option" where
  "read_file crc bs =
     (case read_record crc bs of
        None \<Rightarrow> None
      | Some (ReadRecord h key val rest) \<Rightarrow> do {
          (rs, stop) \<leftarrow> read_file crc rest;
          Some ((h, key, val) # rs, stop)
        }
      | Some stop \<Rightarrow> Some ([], stop))"
  by auto
termination
  by (relation "measure (length \<circ> snd)") (auto dest: read_record_shorter)

declare read_file.simps [simp del]

text \<open>The log files of the directory, in the order \<open>std::sort\<close> puts them.\<close>

definition recover_files :: "disk \<Rightarrow> string list" where
  "recover_files d = [name \<leftarrow> map fst d. has_wal_prefix name \<and> length name > 4 \<and> has_log_suffix name]"

definition file_number :: "string \<Rightarrow> u64" where
  "file_number name = (case stoull (number_part name) of Some (n, used) \<Rightarrow> n | None \<Rightarrow> 0)"

fun max_seq_of :: "wal_record list \<Rightarrow> u64 \<Rightarrow> u64" where
  "max_seq_of [] m = m"
| "max_seq_of ((h, key, val) # rs) m =
     max_seq_of rs (if rec_sequence_number h > m then rec_sequence_number h else m)"

text \<open>
  The loop over the files.  \<open>readable\<close> says which of them the input stream can open.  The result
  is the status, the records handed to the callback, and \<open>max_seq\<close>.
\<close>

fun recover_loop ::
  "(bytes \<Rightarrow> u32) \<Rightarrow> (string \<Rightarrow> bool) \<Rightarrow> string \<Rightarrow> disk \<Rightarrow> string list \<Rightarrow> u64 \<Rightarrow>
   (Status \<times> wal_record list \<times> u64) option" where
  "recover_loop crc readable dir d [] m = Some (Status_OK, [], m)"
| "recover_loop crc readable dir d (name # names) m =
     (case map_of d name of
        None \<Rightarrow> recover_loop crc readable dir d names m
      | Some f \<Rightarrow>
          if \<not> readable name then recover_loop crc readable dir d names m
          else do {
            (rs, stop) \<leftarrow> read_file crc (content f);
            let m = max_seq_of rs m;
            case stop of
              InvalidFieldSize \<Rightarrow> Some (Status_Corruption ''WAL record contains an invalid field size'', rs, m)
            | CrcMismatch \<Rightarrow> Some (Status_Corruption (''WAL CRC32 mismatch in '' @ entry_path dir name), rs, m)
            | _ \<Rightarrow> do {
                (s, rs', m) \<leftarrow> recover_loop crc readable dir d names m;
                Some (s, rs @ rs', m)
              }
          })"

text \<open>\<open>Recover\<close>: status, the callback's records, and what \<open>*max_sequence\<close> holds afterwards.\<close>

definition Wal_Recover ::
  "(bytes \<Rightarrow> u32) \<Rightarrow> (string \<Rightarrow> bool) \<Rightarrow> u64 \<Rightarrow> Wal \<Rightarrow> (Status \<times> wal_record list \<times> u64) option" where
  "Wal_Recover crc readable max_sequence w = do {
     (s, rs, m) \<leftarrow> recover_loop crc readable (wal_dir (wal_options w)) (wal_disk w)
       (sort_key file_number (recover_files (wal_disk w))) 0;
     Some (s, rs, if Status_ok s then m else max_sequence)
   }"

end
