(* ===== verification/Wal_Log.thy ===== *)
theory Wal_Log
  imports Wal "HOL-Library.Sublist"
begin

text \<open>
  The format of a log file: what \<open>WriteRecord\<close> emits for one record, and that the loop of
  \<open>Recover\<close> reads back any sequence of such records, up to a last one cut short.
\<close>

fun encode_record :: "wal_record \<Rightarrow> bytes" where
  "encode_record (h, key, val) = header_prefix h @ EncodeFixed32 (rec_crc32 h) @ key @ val"

abbreviation encode_log :: "wal_record list \<Rightarrow> bytes" where
  "encode_log rs \<equiv> concat (map encode_record rs)"

text \<open>A record whose header agrees with its key and value and whose fields are not too large.\<close>

fun sealed :: "(bytes \<Rightarrow> u32) \<Rightarrow> wal_record \<Rightarrow> bool" where
  "sealed crc (h, key, val) \<longleftrightarrow>
     rec_key_size h = of_nat (length key) \<and> rec_value_size h = of_nat (length val) \<and>
     length key \<le> unat kMaxFieldSize \<and> length val \<le> unat kMaxFieldSize \<and>
     rec_crc32 h = CalculateCRC32 crc (header_prefix h @ key @ val)"

lemma max_field: "unat kMaxFieldSize = 268435456"
  by (simp add: kMaxFieldSize_def)

lemma length_header_prefix [simp]: "length (header_prefix h) = 25"
  by (simp add: header_prefix_def)

lemma length_encode_record: "length (encode_record (h, key, val)) = kHeaderSize + length key + length val"
  by (simp add: kHeaderSize_def)

lemma encode_record_not_Nil [simp]: "encode_record r \<noteq> []"
proof -
  obtain h key val where "r = (h, key, val)" by (metis prod_cases3)
  then have "0 < length (encode_record r)" by (simp add: length_encode_record kHeaderSize_def)
  then show ?thesis by auto
qed

lemma type_byte: "of_nat (of_char (char_of_word (ucast (t :: u8)))) = t"
proof -
  have "of_char (char_of_word (ucast t :: u32)) = unat (take_bit 8 (ucast t :: u32))"
    using word_of_char_of_word [of "ucast t"] take_bit_nat_less_exp [of 8 "unat (ucast t :: u32)"]
    by (simp add: char_of_word_def low_byte unsigned_take_bit_eq)
  moreover have "take_bit 8 (ucast t :: u32) = ucast t"
    by (rule bit_word_eqI) (auto simp: bit_simps dest: bit_imp_le_length)
  moreover have "(ucast (ucast t :: u32) :: u8) = t" by (rule bit_word_eqI) (auto simp: bit_simps)
  ultimately show ?thesis by simp
qed

lemma decode_header_prefix:
  "decode_header (header_prefix h @ EncodeFixed32 (rec_crc32 h) @ rest) = Some h"
  by (simp add: decode_header_def header_prefix_def vec_get_def type_byte)

text \<open>The whole header is a field like the integers in it.\<close>

interpretation record_header: field_codec "\<lambda>h. header_prefix h @ EncodeFixed32 (rec_crc32 h)" decode_header kHeaderSize
  by unfold_locales (simp_all add: decode_header_prefix, simp add: header_prefix_def kHeaderSize_def)

lemma decode_header_take:
  assumes "kHeaderSize \<le> length bs"
  shows "decode_header (take kHeaderSize bs) = decode_header bs"
proof -
  have len: "length (take kHeaderSize bs) = kHeaderSize" using assms by simp
  have 32: "DecodeFixed32 (take (Suc (Suc (Suc (Suc n)))) xs) = DecodeFixed32 xs" for n xs
    by (cases xs rule: DecodeFixed32.cases) auto
  have 64: "DecodeFixed64 (take (8 + n) xs) = DecodeFixed64 xs" for n xs
    using 32 [of "4 + n" xs] 32 [of n "drop 4 xs"]
    by (simp add: DecodeFixed64_def drop_take numeral_eq_Suc)
  show ?thesis
    using assms 64 [of 20 "drop 1 bs"] 64 [of 12 "drop 9 bs"] 32 [of 8 "drop 17 bs"] 32 [of 4 "drop 21 bs"] 32 [of 0 "drop 25 bs"]
    by (simp add: decode_header_def vec_get_def drop_take kHeaderSize_def numeral_eq_Suc)
qed

lemma sealed_sizes:
  assumes "sealed crc (h, key, val)"
  shows "unat (rec_key_size h) = length key" "unat (rec_value_size h) = length val"
    "rec_key_size h \<le> kMaxFieldSize" "rec_value_size h \<le> kMaxFieldSize"
proof -
  have "length key < 2 ^ 32" "length val < 2 ^ 32" using assms by (simp_all add: max_field)
  then show s: "unat (rec_key_size h) = length key" "unat (rec_value_size h) = length val"
    using assms by (simp_all add: unsigned_of_nat take_bit_nat_eq_self)
  then show "rec_key_size h \<le> kMaxFieldSize" "rec_value_size h \<le> kMaxFieldSize"
    using assms by (simp_all add: word_le_nat_alt)
qed

lemma read_record_encode:
  assumes s: "sealed crc (h, key, val)"
  shows "read_record crc (encode_record (h, key, val) @ tail) = Some (ReadRecord h key val tail)"
proof -
  have hd: "take kHeaderSize (encode_record (h, key, val) @ tail) = header_prefix h @ EncodeFixed32 (rec_crc32 h)"
    and tl: "drop kHeaderSize (encode_record (h, key, val) @ tail) = key @ val @ tail"
    by (simp_all add: kHeaderSize_def)
  have "decode_header (header_prefix h @ EncodeFixed32 (rec_crc32 h)) = Some h"
    using decode_header_prefix [of h "[]"] by simp
  moreover have "\<not> kMaxFieldSize < rec_key_size h" "\<not> kMaxFieldSize < rec_value_size h"
    using sealed_sizes [OF s] by (simp_all add: not_less)
  moreover have "\<not> length (encode_record (h, key, val) @ tail) < kHeaderSize"
    by (simp add: kHeaderSize_def)
  moreover have "take (kHeaderSize - 4) (header_prefix h @ EncodeFixed32 (rec_crc32 h)) = header_prefix h"
    by (simp add: kHeaderSize_def)
  moreover have "CalculateCRC32 crc (header_prefix h @ key @ val) = rec_crc32 h" using s by simp
  ultimately show ?thesis
    unfolding read_record_def hd tl by (simp add: Let_def sealed_sizes [OF s])
qed

text \<open>A record cut short is never taken for a record.\<close>

lemma read_record_partial:
  assumes s: "sealed crc r" and p: "strict_prefix p (encode_record r)"
  shows "read_record crc p = Some Incomplete"
proof (cases "length p < kHeaderSize")
  case True
  then show ?thesis by (simp add: read_record_def)
next
  case False
  obtain h key val where r: "r = (h, key, val)" by (metis prod_cases3)
  obtain q where q: "encode_record r = p @ q" "q \<noteq> []" using p by (auto simp: strict_prefix_def prefix_def)
  have "take kHeaderSize p = take kHeaderSize (encode_record r)" using False q(1) by simp
  then have hd: "take kHeaderSize p = header_prefix h @ EncodeFixed32 (rec_crc32 h)"
    by (simp add: r kHeaderSize_def)
  have dec: "decode_header (header_prefix h @ EncodeFixed32 (rec_crc32 h)) = Some h"
    using decode_header_prefix [of h "[]"] by simp
  have "length (drop kHeaderSize p) < length key + length val"
  proof -
    have "length p < length (encode_record r)" using q by simp
    then show ?thesis using False unfolding r length_encode_record by simp
  qed
  moreover have "\<not> kMaxFieldSize < rec_key_size h" "\<not> kMaxFieldSize < rec_value_size h"
    using sealed_sizes [OF s [unfolded r]] by (simp_all add: not_less)
  ultimately show ?thesis
    using False unfolding read_record_def hd
    by (auto simp: Let_def dec r sealed_sizes [OF s [unfolded r]])
qed

lemma read_file_Nil [simp]: "read_file crc [] = Some ([], Incomplete)"
  by (simp add: read_file.simps read_record_def kHeaderSize_def)

lemma read_file_Cons:
  assumes "sealed crc r"
  shows "read_file crc (encode_record r @ tail) =
    (case read_file crc tail of None \<Rightarrow> None | Some (rs, stop) \<Rightarrow> Some (r # rs, stop))"
proof -
  obtain h key val where r: "r = (h, key, val)" by (metis prod_cases3)
  show ?thesis
    by (subst read_file.simps) (simp add: r read_record_encode [OF assms [unfolded r]] del: encode_record.simps split: option.splits)
qed

lemma read_file_append:
  assumes "\<forall>r\<in>set rs. sealed crc r"
  shows "read_file crc (encode_log rs @ tail) =
    (case read_file crc tail of None \<Rightarrow> None | Some (rs', stop) \<Rightarrow> Some (rs @ rs', stop))"
  using assms
  by (induction rs) (auto simp: read_file_Cons simp del: encode_record.simps split: option.splits)

lemma read_file_log:
  assumes "\<forall>r\<in>set rs. sealed crc r"
  shows "read_file crc (encode_log rs) = Some (rs, Incomplete)"
  using read_file_append [OF assms, of "[]"] by simp

lemma read_file_partial:
  assumes "\<forall>r\<in>set rs. sealed crc r" "sealed crc r" "strict_prefix p (encode_record r)"
  shows "read_file crc (encode_log rs @ p) = Some (rs, Incomplete)"
proof -
  have "read_file crc p = Some ([], Incomplete)"
    by (subst read_file.simps) (simp add: read_record_partial [OF assms(2,3)])
  then show ?thesis by (simp add: read_file_append [OF assms(1)])
qed

text \<open>The records that lie wholly in the first \<open>n\<close> bytes of a log, and what reading those bytes gives.\<close>

fun whole :: "nat \<Rightarrow> wal_record list \<Rightarrow> wal_record list" where
  "whole n [] = []"
| "whole n (r # rs) =
     (if length (encode_record r) \<le> n then r # whole (n - length (encode_record r)) rs else [])"

lemma read_file_take:
  assumes "\<forall>r\<in>set rs. sealed crc r"
  shows "read_file crc (take n (encode_log rs)) = Some (whole n rs, Incomplete)"
  using assms
proof (induction rs arbitrary: n)
  case (Cons r rs)
  show ?case
  proof (cases "length (encode_record r) \<le> n")
    case True
    then show ?thesis using Cons by (simp add: read_file_Cons del: encode_record.simps)
  next
    case False
    then have "strict_prefix (take n (encode_record r)) (encode_record r)"
      by (metis append_take_drop_id length_take min.absorb2 nat_le_linear prefixI order_refl strict_prefix_def)
    then have "read_record crc (take n (encode_record r)) = Some Incomplete"
      using Cons.prems by (intro read_record_partial) auto
    then show ?thesis using False by (subst read_file.simps) (simp del: encode_record.simps)
  qed
qed simp

lemma whole_all: "length (encode_log rs) \<le> n \<Longrightarrow> whole n rs = rs"
  by (induction rs arbitrary: n) (simp_all del: encode_record.simps)

lemma whole_prefix: "prefix (whole n rs) rs"
  by (induction rs arbitrary: n) simp_all

lemma whole_contains: "length (encode_log xs) \<le> n \<Longrightarrow> prefix xs (whole n (xs @ ys))"
  by (induction xs arbitrary: n) (simp_all del: encode_record.simps)

end
