(* ===== verification/Wal_Correct.thy ===== *)
theory Wal_Correct
  imports Wal_Log
begin

text \<open>
  The log as a sequence of records.  \<open>wal_log crc w L\<close>: the open log \<open>w\<close> consists of the files
  with the numbers \<^term>\<open>map fst L\<close>, in ascending order, the last of them being written; file
  \<open>n\<close> holds the records paired with \<open>n\<close>, where the bytes of the last file are those on disk,
  those in the stream and those in the buffer.
\<close>

definition log_name :: "nat \<Rightarrow> string" where
  "log_name n = ''wal_'' @ to_dec n @ ''.log''"

definition is_log_file :: "string \<Rightarrow> bool" where
  "is_log_file name \<longleftrightarrow> has_wal_prefix name \<and> length name > 4 \<and> has_log_suffix name"

definition unwritten :: "Wal \<Rightarrow> bytes" where
  "unwritten w = pending w @ take (buffer_offset w) (write_buffer w)"

definition file_bytes :: "Wal \<Rightarrow> nat \<Rightarrow> bytes option" where
  "file_bytes w n =
     (case map_of (wal_disk w) (log_name n) of None \<Rightarrow> None
      | Some f \<Rightarrow> Some (content f @ (if n = unat (current_file_number w) then unwritten w else [])))"

definition stream_ok :: "Wal \<Rightarrow> bool" where
  "stream_ok w \<longleftrightarrow> file_open w \<and> file_good w \<and> buffer_offset w \<le> length (write_buffer w) \<and>
     basename (current_filename w) = log_name (unat (current_file_number w))"

definition log_files :: "disk \<Rightarrow> nat set \<Rightarrow> bool" where
  "log_files d N \<longleftrightarrow> distinct (map fst d) \<and> {name \<in> set (map fst d). is_log_file name} = log_name ` N"

definition wal_log :: "(bytes \<Rightarrow> u32) \<Rightarrow> Wal \<Rightarrow> (nat \<times> wal_record list) list \<Rightarrow> bool" where
  "wal_log crc w L \<longleftrightarrow>
     stream_ok w \<and> L \<noteq> [] \<and> sorted_wrt (<) (map fst L) \<and> fst (last L) = unat (current_file_number w) \<and>
     log_files (wal_disk w) (set (map fst L)) \<and>
     (\<forall>(n, rs) \<in> set L. (\<forall>r\<in>set rs. sealed crc r) \<and> file_bytes w n = Some (encode_log rs)) \<and>
     current_file_size w = length (encode_log (snd (last L)))"

definition records_of :: "(nat \<times> wal_record list) list \<Rightarrow> wal_record list" where
  "records_of L = concat (map snd L)"

text \<open>System calls that do not fail.\<close>

definition healthy :: "WalEnv \<Rightarrow> bool" where
  "healthy e \<longleftrightarrow> open_ok e \<and> close_limit e = None \<and> flush_limit e = None"

lemma healthy_simps:
  assumes "healthy e"
  shows "open_ok e" "accepted (close_limit e) bs = bs" "accepted (flush_limit e) bs = bs"
    "accepts_all (close_limit e) bs" "accepts_all (flush_limit e) bs"
  using assms by (simp_all add: healthy_def accepted_def accepts_all_def)

section \<open>File names\<close>

lemma digits_no_slash: "CHR ''/'' \<notin> set (to_dec n)"
  using to_dec_digits [of n] by (auto simp: is_digit_def)

lemma basename_path: "CHR ''/'' \<notin> set name \<Longrightarrow> basename (dir @ CHR ''/'' # name) = name"
  by (auto simp: basename_def takeWhile_append)

lemma basename_log: "basename (dir @ ''/wal_'' @ to_dec n @ ''.log'') = log_name n"
  using basename_path [of "log_name n" dir] digits_no_slash [of n] by (simp add: log_name_def)

lemmas basename_log_simps [simp] = basename_log basename_log [simplified]

lemma log_name_facts [simp]:
  "has_wal_prefix (log_name n)" "has_log_suffix (log_name n)" "8 < length (log_name n)" "4 < length (log_name n)"
  "number_part (log_name n) = to_dec n" "is_log_file (log_name n)"
proof -
  have "0 < length (to_dec n)" using to_dec_not_Nil [of n] by blast
  then show "has_wal_prefix (log_name n)" "has_log_suffix (log_name n)" "8 < length (log_name n)" "4 < length (log_name n)"
    "number_part (log_name n) = to_dec n" "is_log_file (log_name n)"
    by (simp_all add: has_wal_prefix_def has_log_suffix_def log_name_def number_part_def is_log_file_def numeral_eq_Suc)
qed

lemma log_name_inj [simp]: "log_name m = log_name n \<longleftrightarrow> m = n"
  using to_dec_inj by (auto simp: log_name_def)

lemma file_number_log_name: "n < 2 ^ 64 \<Longrightarrow> file_number (log_name n) = of_nat n"
  by (simp add: file_number_def stoull_to_dec)

section \<open>The buffer and the stream\<close>

lemma FlushBuffer_eq:
  assumes "file_open w" "file_good w"
  shows "FlushBuffer w = w\<lparr>pending := unwritten w, buffer_offset := 0\<rparr>"
  using assms by (simp add: FlushBuffer_def unwritten_def)

lemma unwritten_upd:
  "unwritten (w\<lparr>pending := p, write_buffer := b, buffer_offset := j\<rparr>) = p @ take j b"
  "unwritten (w\<lparr>pending := p, buffer_offset := j\<rparr>) = p @ take j (write_buffer w)"
  by (simp_all add: unwritten_def)

lemma buffer_piece_ok:
  assumes w: "file_open w" "file_good w" "buffer_offset w \<le> length (write_buffer w)"
    and bs: "length bs \<le> length (write_buffer w)"
  shows "\<exists>p b j. buffer_piece bs w = Some (w\<lparr>pending := p, write_buffer := b, buffer_offset := j\<rparr>) \<and>
    j \<le> length b \<and> length b = length (write_buffer w) \<and> p @ take j b = unwritten w @ bs"
proof -
  define v where "v = (if buffer_offset w + length bs > length (write_buffer w) then FlushBuffer w else w)"
  have v: "v = w\<lparr>pending := pending v, write_buffer := write_buffer w, buffer_offset := buffer_offset v\<rparr>"
    "unwritten v = unwritten w" "buffer_offset v + length bs \<le> length (write_buffer w)"
    using w bs by (auto simp: v_def FlushBuffer_eq unwritten_def)
  have wb: "write_buffer v = write_buffer w" by (simp add: v_def FlushBuffer_eq [OF w(1,2)])
  show ?thesis
  proof (cases "bs = []")
    case True
    then have "buffer_piece bs w = Some v" by (simp add: buffer_piece_def v_def Let_def)
    then show ?thesis
      using v wb True
      by (intro exI [of _ "pending v"] exI [of _ "write_buffer w"] exI [of _ "buffer_offset v"]) (auto simp: unwritten_def)
  next
    case False
    define b where "b = take (buffer_offset v) (write_buffer w) @ bs @ drop (buffer_offset v + length bs) (write_buffer w)"
    have "buffer_piece bs w = Some (v\<lparr>write_buffer := b, buffer_offset := buffer_offset v + length bs\<rparr>)"
      using v(3) False by (simp add: buffer_piece_def b_def Let_def wb flip: v_def)
    moreover have "v\<lparr>write_buffer := b, buffer_offset := buffer_offset v + length bs\<rparr> =
        w\<lparr>pending := pending v, write_buffer := b, buffer_offset := buffer_offset v + length bs\<rparr>"
      by (subst v(1)) simp
    moreover have "length b = length (write_buffer w)" using v(3) by (simp add: b_def)
    moreover have "take (buffer_offset v + length bs) b = take (buffer_offset v) (write_buffer w) @ bs"
      using v(3) by (simp add: b_def)
    ultimately show ?thesis
      using v(2,3)
      by (intro exI [of _ "pending v"] exI [of _ b] exI [of _ "buffer_offset v + length bs"]) (simp add: unwritten_def wb)
  qed
qed

text \<open>The three pieces of a record.\<close>

lemma buffer_record_ok:
  assumes w: "file_open w" "file_good w" "buffer_offset w \<le> length (write_buffer w)"
    and len: "kHeaderSize \<le> length (write_buffer w)" "length key \<le> length (write_buffer w)" "length val \<le> length (write_buffer w)"
  shows "\<exists>p b j. do { v \<leftarrow> buffer_piece (header_prefix h @ EncodeFixed32 (rec_crc32 h)) w; v \<leftarrow> buffer_piece key v; buffer_piece val v }
      = Some (w\<lparr>pending := p, write_buffer := b, buffer_offset := j\<rparr>) \<and>
    j \<le> length b \<and> length b = length (write_buffer w) \<and> p @ take j b = unwritten w @ encode_record (h, key, val)"
proof -
  have "length (header_prefix h @ EncodeFixed32 (rec_crc32 h)) \<le> length (write_buffer w)"
    using len(1) by (simp add: kHeaderSize_def)
  from buffer_piece_ok [OF w this] obtain p1 b1 j1 where 1:
    "buffer_piece (header_prefix h @ EncodeFixed32 (rec_crc32 h)) w = Some (w\<lparr>pending := p1, write_buffer := b1, buffer_offset := j1\<rparr>)"
    "j1 \<le> length b1" "length b1 = length (write_buffer w)"
    "p1 @ take j1 b1 = unwritten w @ header_prefix h @ EncodeFixed32 (rec_crc32 h)" by blast
  let ?v1 = "w\<lparr>pending := p1, write_buffer := b1, buffer_offset := j1\<rparr>"
  have "\<exists>p b j. buffer_piece key ?v1 = Some (?v1\<lparr>pending := p, write_buffer := b, buffer_offset := j\<rparr>) \<and>
    j \<le> length b \<and> length b = length (write_buffer ?v1) \<and> p @ take j b = unwritten ?v1 @ key"
    by (rule buffer_piece_ok) (use w len 1 in simp_all)
  then obtain p2 b2 j2 where 2: "buffer_piece key ?v1 = Some (w\<lparr>pending := p2, write_buffer := b2, buffer_offset := j2\<rparr>)"
    "j2 \<le> length b2" "length b2 = length (write_buffer w)"
    "p2 @ take j2 b2 = unwritten w @ header_prefix h @ EncodeFixed32 (rec_crc32 h) @ key"
    using 1 by (auto simp: unwritten_upd)
  let ?v2 = "w\<lparr>pending := p2, write_buffer := b2, buffer_offset := j2\<rparr>"
  have "\<exists>p b j. buffer_piece val ?v2 = Some (?v2\<lparr>pending := p, write_buffer := b, buffer_offset := j\<rparr>) \<and>
    j \<le> length b \<and> length b = length (write_buffer ?v2) \<and> p @ take j b = unwritten ?v2 @ val"
    by (rule buffer_piece_ok) (use w len 2 in simp_all)
  then obtain p3 b3 j3 where "buffer_piece val ?v2 = Some (w\<lparr>pending := p3, write_buffer := b3, buffer_offset := j3\<rparr>)"
    "j3 \<le> length b3" "length b3 = length (write_buffer w)"
    "p3 @ take j3 b3 = unwritten w @ header_prefix h @ EncodeFixed32 (rec_crc32 h) @ key @ val"
    using 2 by (auto simp: unwritten_upd)
  then show ?thesis
    using 1(1) 2(1) by (intro exI [of _ p3] exI [of _ b3] exI [of _ j3]) simp
qed

section \<open>The disk\<close>

lemma disk_names [simp]:
  "map fst (disk_append name bs d) = map fst d" "map fst (disk_fsync name d) = map fst d"
proof -
  have keys: "map_of d name = Some f \<Longrightarrow> map fst (AList.update name g d) = map fst d" for f g
    using map_of_SomeD [of d name f] by (force simp: AList.update_keys)
  show "map fst (disk_append name bs d) = map fst d" "map fst (disk_fsync name d) = map fst d"
    by (auto simp: disk_append_def disk_fsync_def keys split: option.splits)
qed

lemma map_of_disk_append:
  "map_of (disk_append name bs d) m =
     (if m = name then map_option (\<lambda>f. f\<lparr>content := content f @ bs\<rparr>) (map_of d m) else map_of d m)"
  by (auto simp: disk_append_def AList.update_conv' split: option.splits)

lemma map_of_disk_fsync:
  "map_of (disk_fsync name d) m =
     (if m = name then map_option (\<lambda>f. f\<lparr>durable := length (content f)\<rparr>) (map_of d m) else map_of d m)"
  by (auto simp: disk_fsync_def AList.update_conv' split: option.splits)

lemma map_of_disk_create:
  "map_of (disk_create name d) m =
     (if m = name \<and> map_of d name = None then Some \<lparr>content = [], durable = 0\<rparr> else map_of d m)"
  by (auto simp: disk_create_def map_add_def split: option.splits)

lemma disk_create_names:
  "map fst (disk_create name d) = (if name \<in> set (map fst d) then map fst d else map fst d @ [name])"
  by (auto simp: disk_create_def map_of_eq_None_iff split: option.splits) (metis map_of_eq_None_iff option.simps(3))

lemma log_files_disk [simp]:
  "log_files (disk_append name bs d) N = log_files d N" "log_files (disk_fsync name d) N = log_files d N"
  by (simp_all add: log_files_def)

lemma log_files_mem: "log_files d N \<Longrightarrow> n \<in> N \<Longrightarrow> log_name n \<in> set (map fst d)"
  unfolding log_files_def by blast

lemma log_files_name: "log_files d N \<Longrightarrow> name \<in> set (map fst d) \<Longrightarrow> is_log_file name \<Longrightarrow> \<exists>n\<in>N. name = log_name n"
  unfolding log_files_def by blast

lemma log_files_create:
  assumes "log_files d N" "n \<notin> N"
  shows "log_name n \<notin> set (map fst d)" "log_files (disk_create (log_name n) d) (insert n N)"
proof -
  show fresh: "log_name n \<notin> set (map fst d)"
  proof
    assume "log_name n \<in> set (map fst d)"
    then have "log_name n \<in> log_name ` N" using assms(1) log_name_facts(6) unfolding log_files_def by blast
    then show False using assms(2) by auto
  qed
  have "{name \<in> set (map fst (disk_create (log_name n) d)). is_log_file name} =
      insert (log_name n) {name \<in> set (map fst d). is_log_file name}"
    using fresh by (auto simp: disk_create_names)
  then show "log_files (disk_create (log_name n) d) (insert n N)"
    using assms fresh by (simp add: log_files_def disk_create_names)
qed

section \<open>Steps of the log\<close>

text \<open>A step that changes the last file only.\<close>

lemma wal_log_last:
  assumes log: "wal_log crc w (K @ [(n, rs)])"
    and w': "stream_ok w'" "current_file_number w' = current_file_number w"
      "map fst (wal_disk w') = map fst (wal_disk w)"
      "\<And>m. m \<noteq> n \<Longrightarrow> map_of (wal_disk w') (log_name m) = map_of (wal_disk w) (log_name m)"
    and rs': "\<forall>r\<in>set rs'. sealed crc r" "file_bytes w' n = Some (encode_log rs')"
      "current_file_size w' = length (encode_log rs')"
  shows "wal_log crc w' (K @ [(n, rs')])"
proof -
  have n: "n = unat (current_file_number w)" using log by (simp add: wal_log_def)
  have "(\<forall>r\<in>set xs. sealed crc r) \<and> file_bytes w' m = Some (encode_log xs)" if "(m, xs) \<in> set K" for m xs
  proof -
    have "m < n" using log that by (auto simp: wal_log_def sorted_wrt_append)
    then have "file_bytes w' m = file_bytes w m" using w'(2,4) n by (simp add: file_bytes_def)
    then show ?thesis using log that by (auto simp: wal_log_def)
  qed
  then show ?thesis using log w' rs' by (auto simp: wal_log_def log_files_def)
qed

lemma wal_log_snoc:
  assumes "wal_log crc w L"
  obtains K rs where "L = K @ [(unat (current_file_number w), rs)]"
proof -
  have L: "L \<noteq> []" "fst (last L) = unat (current_file_number w)" using assms by (simp_all add: wal_log_def)
  then have "L = butlast L @ [(unat (current_file_number w), snd (last L))]"
    by (metis append_butlast_last_id prod.collapse)
  then show thesis by (rule that)
qed

lemma stream_facts:
  assumes "wal_log crc w L"
  shows "file_open w" "file_good w" "buffer_offset w \<le> length (write_buffer w)"
    "basename (current_filename w) = log_name (unat (current_file_number w))"
  using assms by (auto simp: wal_log_def stream_ok_def)

lemma last_file_bytes:
  assumes "wal_log crc w (K @ [(n, rs)])"
  obtains f where "map_of (wal_disk w) (log_name n) = Some f" "content f @ unwritten w = encode_log rs"
    "n = unat (current_file_number w)" "\<forall>r\<in>set rs. sealed crc r"
  using assms that by (auto simp: wal_log_def file_bytes_def split: option.splits)

lemma FlushBuffer_log:
  assumes "wal_log crc w L"
  shows "wal_log crc (FlushBuffer w) L" "unwritten (FlushBuffer w) = unwritten w"
    "wal_disk (FlushBuffer w) = wal_disk w" "pending (FlushBuffer w) = unwritten w"
proof -
  obtain K rs where L: "L = K @ [(unat (current_file_number w), rs)]" using wal_log_snoc [OF assms] .
  note f = FlushBuffer_eq [OF stream_facts(1,2) [OF assms]]
  show u: "unwritten (FlushBuffer w) = unwritten w" by (simp add: f unwritten_upd)
  show "wal_disk (FlushBuffer w) = wal_disk w" "pending (FlushBuffer w) = unwritten w" by (simp_all add: f)
  obtain g where "map_of (wal_disk w) (log_name (unat (current_file_number w))) = Some g"
    "content g @ unwritten w = encode_log rs" "\<forall>r\<in>set rs. sealed crc r"
    using assms unfolding L by (rule last_file_bytes)
  then show "wal_log crc (FlushBuffer w) L"
    unfolding L
    by (intro wal_log_last [OF assms [unfolded L]])
       (use assms u L in \<open>auto simp: f wal_log_def stream_ok_def file_bytes_def unwritten_upd\<close>)
qed

lemma Sync_log:
  assumes log: "wal_log crc w L" and e: "healthy e"
  shows "wal_log crc (snd (Wal_Sync e w)) L" "unwritten (snd (Wal_Sync e w)) = []"
    "fst (Wal_Sync e w) = (if \<not> fd_ok e then Status_IOError ''Failed to open WAL for durable sync''
       else if \<not> fsync_ok e then Status_IOError ''Failed to sync WAL to disk'' else Status_OK)"
proof -
  obtain K rs where L: "L = K @ [(unat (current_file_number w), rs)]" using wal_log_snoc [OF log] .
  note o = stream_facts [OF log]
  note f = FlushBuffer_eq [OF o(1,2)] and h = healthy_simps [OF e]
  obtain g where g: "map_of (wal_disk w) (log_name (unat (current_file_number w))) = Some g"
    "content g @ unwritten w = encode_log rs" "\<forall>r\<in>set rs. sealed crc r"
    using log unfolding L by (rule last_file_bytes)
  define v where "v = w\<lparr>pending := [], buffer_offset := 0, file_good := True,
    wal_disk := disk_append (log_name (unat (current_file_number w))) (unwritten w) (wal_disk w)\<rparr>"
  have s: "Wal_Sync e w = (if \<not> fd_ok e then (Status_IOError ''Failed to open WAL for durable sync'', v)
       else if \<not> fsync_ok e then (Status_IOError ''Failed to sync WAL to disk'', v)
       else (Status_OK, v\<lparr>total_syncs := total_syncs v + 1,
         wal_disk := disk_fsync (log_name (unat (current_file_number w))) (wal_disk v)\<rparr>))"
    using o by (simp add: Wal_Sync_def f h v_def Let_def)
  show "fst (Wal_Sync e w) = (if \<not> fd_ok e then Status_IOError ''Failed to open WAL for durable sync''
       else if \<not> fsync_ok e then Status_IOError ''Failed to sync WAL to disk'' else Status_OK)"
    by (simp add: s)
  show "unwritten (snd (Wal_Sync e w)) = []" by (simp add: s v_def unwritten_def)
  have v: "wal_log crc v L"
    unfolding L by (rule wal_log_last [OF log [unfolded L]])
      (use g log o L in \<open>auto simp: v_def stream_ok_def file_bytes_def unwritten_def map_of_disk_append wal_log_def\<close>)
  have "wal_log crc (v\<lparr>total_syncs := total_syncs v + 1,
         wal_disk := disk_fsync (log_name (unat (current_file_number w))) (wal_disk v)\<rparr>) L"
    unfolding L by (rule wal_log_last [OF v [unfolded L]])
      (use g log o L in \<open>auto simp: v_def stream_ok_def file_bytes_def unwritten_def map_of_disk_append map_of_disk_fsync wal_log_def\<close>)
  then show "wal_log crc (snd (Wal_Sync e w)) L" using v by (simp add: s)
qed

text \<open>Closing the last file and starting the next one.\<close>

lemma RotateLog_log:
  assumes log: "wal_log crc w L" and e: "healthy e" and room: "current_file_number w + 1 \<noteq> 0"
  shows "\<exists>w'. Wal_RotateLog e w = (Status_OK, w') \<and>
    wal_log crc w' (L @ [(Suc (unat (current_file_number w)), [])]) \<and>
    unwritten w' = [] \<and> write_buffer w' = write_buffer w \<and> buffer_offset w' = 0 \<and>
    wal_options w' = wal_options w \<and> current_file_number w' = current_file_number w + 1 \<and> current_file_size w' = 0"
proof -
  define n where "n = unat (current_file_number w)"
  define name where "name = log_name (Suc n)"
  have Suc_n: "unat (current_file_number w + 1) = Suc n"
    using room unatSuc [of "current_file_number w"] by (simp add: n_def add.commute)
  obtain K rs where L: "L = K @ [(n, rs)]" using wal_log_snoc [OF log] by (metis n_def)
  note o = stream_facts [OF log, folded n_def]
  note f = FlushBuffer_eq [OF o(1,2)] and h = healthy_simps [OF e]
  obtain g where g: "map_of (wal_disk w) (log_name n) = Some g" "content g @ unwritten w = encode_log rs"
    "\<forall>r\<in>set rs. sealed crc r"
    using log unfolding L by (rule last_file_bytes)
  have below: "m < Suc n" if "(m, xs) \<in> set L" for m xs
    using log that by (auto simp: wal_log_def L sorted_wrt_append)
  then have fresh: "Suc n \<notin> set (map fst L)" by force
  have files: "log_files (wal_disk w) (set (map fst L))" using log by (simp add: wal_log_def)
  define d where "d = disk_append (log_name n) (unwritten w) (wal_disk w)"
  have d: "log_files d (set (map fst L))" using files by (simp add: d_def)
  define w' where "w' = snd (Wal_RotateLog e w)"
  have new: "file_size name (disk_create name d) = 0" "map_of (disk_create name d) name = Some \<lparr>content = [], durable = 0\<rparr>"
    using log_files_create(1) [OF d fresh] by (simp_all add: file_size_def map_of_disk_create name_def map_of_eq_None_iff)
  have w': "Wal_RotateLog e w = (Status_OK, w')" "file_open w'" "file_good w'" "pending w' = []" "buffer_offset w' = 0"
    "write_buffer w' = write_buffer w" "basename (current_filename w') = name" "wal_options w' = wal_options w"
    "wal_disk w' = disk_create name d" "current_file_number w' = current_file_number w + 1" "current_file_size w' = 0"
    using o by (simp_all add: w'_def Wal_RotateLog_def f h close_stream_def OpenNewLogFile_def Suc_n name_def d_def new Let_def
        new [unfolded name_def d_def])
  have un: "unwritten w' = []" by (simp add: unwritten_def w')
  have old: "(\<forall>r\<in>set xs. sealed crc r) \<and> file_bytes w' m = Some (encode_log xs)" if m: "(m, xs) \<in> set L" for m xs
  proof -
    have ne: "log_name m \<noteq> name" "m \<noteq> Suc n" using below [OF m] by (auto simp: name_def)
    have "file_bytes w m = Some (encode_log xs)" "\<forall>r\<in>set xs. sealed crc r" using log m by (auto simp: wal_log_def)
    then show ?thesis
      using ne by (auto simp: file_bytes_def w' Suc_n n_def d_def un map_of_disk_create map_of_disk_append split: option.splits)
  qed
  have "log_files (wal_disk w') (insert (Suc n) (set (map fst L)))"
    using log_files_create(2) [OF d fresh] by (simp add: w' name_def)
  moreover have "file_bytes w' (Suc n) = Some []" using new by (simp add: file_bytes_def w' Suc_n un name_def)
  moreover have "sorted_wrt (<) (map fst (L @ [(Suc n, [])]))"
    using log below by (auto simp: wal_log_def sorted_wrt_append)
  ultimately have "wal_log crc w' (L @ [(Suc n, [])])"
    using old by (auto simp: wal_log_def stream_ok_def w' Suc_n name_def)
  then show ?thesis using w' un by (auto simp: n_def)
qed

text \<open>Appending a record to the last file.\<close>

definition add_record :: "wal_record \<Rightarrow> (nat \<times> wal_record list) list \<Rightarrow> (nat \<times> wal_record list) list" where
  "add_record r L = butlast L @ [(fst (last L), snd (last L) @ [r])]"

lemma records_of_add: "L \<noteq> [] \<Longrightarrow> records_of (add_record r L) = records_of L @ [r]"
  by (cases L rule: rev_cases) (auto simp: records_of_def add_record_def)

lemma records_of_rotate: "records_of (L @ [(n, [])]) = records_of L"
  by (simp add: records_of_def)

text \<open>What a record must satisfy for the buffer and for \<open>Recover\<close>.\<close>

definition fits :: "Wal \<Rightarrow> bytes \<Rightarrow> bytes \<Rightarrow> bool" where
  "fits w key val \<longleftrightarrow> kHeaderSize \<le> length (write_buffer w) \<and>
     length key \<le> min (length (write_buffer w)) (unat kMaxFieldSize) \<and>
     length val \<le> min (length (write_buffer w)) (unat kMaxFieldSize)"

definition new_record :: "(bytes \<Rightarrow> u32) \<Rightarrow> WalEnv \<Rightarrow> u8 \<Rightarrow> bytes \<Rightarrow> bytes \<Rightarrow> u64 \<Rightarrow> wal_record" where
  "new_record crc e kind key val seq = (new_header crc kind seq (now e) key val, key, val)"

lemma new_record_sealed:
  assumes "length key \<le> unat kMaxFieldSize" "length val \<le> unat kMaxFieldSize"
  shows "sealed crc (new_record crc e kind key val seq)"
  using assms by (simp add: new_record_def new_header_def Let_def header_prefix_def)

definition rotates :: "Wal \<Rightarrow> bytes \<Rightarrow> bytes \<Rightarrow> bool" where
  "rotates w key val \<longleftrightarrow> max_file_size (wal_options w) < current_file_size w + (kHeaderSize + length key + length val)"

lemma append_log:
  assumes log: "wal_log crc w L" and r: "sealed crc r"
    and w': "stream_ok w'" "current_file_number w' = current_file_number w" "wal_disk w' = wal_disk w"
      "unwritten w' = unwritten w @ encode_record r" "current_file_size w' = current_file_size w + length (encode_record r)"
  shows "wal_log crc w' (add_record r L)"
proof -
  obtain K rs where L: "L = K @ [(unat (current_file_number w), rs)]" using wal_log_snoc [OF log] .
  obtain g where g: "map_of (wal_disk w) (log_name (unat (current_file_number w))) = Some g"
    "content g @ unwritten w = encode_log rs" "\<forall>r\<in>set rs. sealed crc r"
    using log unfolding L by (rule last_file_bytes)
  have "wal_log crc w' (K @ [(unat (current_file_number w), rs @ [r])])"
  proof (rule wal_log_last [OF log [unfolded L] w'(1,2)])
    show "file_bytes w' (unat (current_file_number w)) = Some (encode_log (rs @ [r]))"
      using g by (simp add: file_bytes_def w' flip: append_assoc)
    show "current_file_size w' = length (encode_log (rs @ [r]))" using log by (simp add: w' L wal_log_def)
  qed (use g r w' in auto)
  then show ?thesis by (simp add: add_record_def L)
qed

theorem WriteRecord_log:
  fixes kind :: u8 and seq :: u64
  assumes log: "wal_log crc w L" and e: "healthy e" and fits: "fits w key val"
    and room: "rotates w key val \<Longrightarrow> current_file_number w + 1 \<noteq> 0"
  defines "r \<equiv> new_record crc e kind key val seq"
  shows "\<exists>w' L'. WriteRecord crc e kind key val seq w = Some (Status_OK, w') \<and> wal_log crc w' L' \<and>
    L' = (if rotates w key val then add_record r (L @ [(Suc (unat (current_file_number w)), [])]) else add_record r L) \<and>
    length (write_buffer w') = length (write_buffer w) \<and> wal_options w' = wal_options w \<and>
    (wal_sync_on_write (wal_options w) \<longrightarrow> unwritten w' = []) \<and>
    (\<exists>u. wal_log crc u L' \<and> wal_disk u = wal_disk (if rotates w key val then snd (Wal_RotateLog e w) else w) \<and>
      current_filename u = current_filename (if rotates w key val then snd (Wal_RotateLog e w) else w) \<and>
      w' = (if wal_sync_on_write (wal_options w) then snd (Wal_Sync e (FlushBuffer u)) else u))"
proof -
  have small: "\<not> 2 ^ 32 - 1 < length key" "\<not> 2 ^ 32 - 1 < length val"
    using fits by (simp_all add: fits_def max_field)
  have r: "sealed crc r" using fits by (simp add: r_def fits_def new_record_sealed)
  define v L1 where "v = (if rotates w key val then snd (Wal_RotateLog e w) else w)"
    and "L1 = (if rotates w key val then L @ [(Suc (unat (current_file_number w)), [])] else L)"
  have v: "wal_log crc v L1" "length (write_buffer v) = length (write_buffer w)" "wal_options v = wal_options w"
      "rotates w key val \<Longrightarrow> Wal_RotateLog e w = (Status_OK, v)"
    using log RotateLog_log [OF log e room] by (auto simp: v_def L1_def)
  define h where "h = new_header crc kind seq (now e) key val"
  have rh: "r = (h, key, val)" by (simp add: r_def new_record_def h_def)
  have "kHeaderSize \<le> length (write_buffer v)" "length key \<le> length (write_buffer v)" "length val \<le> length (write_buffer v)"
    using fits v(2) by (simp_all add: fits_def)
  then obtain p b j where buf: "do { u \<leftarrow> buffer_piece (header_prefix h @ EncodeFixed32 (rec_crc32 h)) v; u \<leftarrow> buffer_piece key u; buffer_piece val u }
      = Some (v\<lparr>pending := p, write_buffer := b, buffer_offset := j\<rparr>)" "j \<le> length b" "length b = length (write_buffer v)"
      "p @ take j b = unwritten v @ encode_record r"
    using buffer_record_ok [OF stream_facts(1,2,3) [OF v(1)], of key val h] unfolding rh by blast
  define size where "size = kHeaderSize + length key + length val"
  define u where "u = v\<lparr>pending := p, write_buffer := b, buffer_offset := j, current_file_size := current_file_size v + size,
    total_writes := total_writes v + 1, total_bytes_written := total_bytes_written v + of_nat size\<rparr>"
  have u: "wal_log crc u (add_record r L1)"
  proof (rule append_log [OF v(1) r])
    show "stream_ok u" using stream_facts [OF v(1)] buf(2) by (simp add: u_def stream_ok_def)
    show "unwritten u = unwritten v @ encode_record r" using buf(4) by (simp add: u_def unwritten_def)
    show "current_file_size u = current_file_size v + length (encode_record r)"
      unfolding rh length_encode_record by (simp add: u_def size_def)
  qed (simp_all add: u_def)
  define z where "z = (if wal_sync_on_write (wal_options w) then snd (Wal_Sync e (FlushBuffer u)) else u)"
  have fl: "wal_log crc (FlushBuffer u) (add_record r L1)" using FlushBuffer_log [OF u] by simp
  have z: "wal_log crc z (add_record r L1)" "wal_sync_on_write (wal_options w) \<longrightarrow> unwritten z = []"
    using u Sync_log [OF fl e] by (simp_all add: z_def)
  have keep: "write_buffer (snd (Wal_Sync e x)) = write_buffer x" "wal_options (snd (Wal_Sync e x)) = wal_options x" 
    "write_buffer (FlushBuffer x) = write_buffer x" "wal_options (FlushBuffer x) = wal_options x" for x
    by (simp_all add: Wal_Sync_def FlushBuffer_def Let_def)
  have "length (write_buffer z) = length (write_buffer w)" "wal_options z = wal_options w"
    using v(2,3) buf(3) by (simp_all add: z_def keep u_def)
  moreover have "WriteRecord crc e kind key val seq w = Some (Status_OK, z)"
  proof -
    have "(if rotates w key val then Wal_RotateLog e w else (Status_OK, w)) = (Status_OK, v)"
      using v(4) by (auto simp: v_def)
    then have 1: "WriteRecord crc e kind key val seq w = do {
        u1 \<leftarrow> buffer_piece (header_prefix h @ EncodeFixed32 (rec_crc32 h)) v; u2 \<leftarrow> buffer_piece key u1; u3 \<leftarrow> buffer_piece val u2;
        let u4 = u3\<lparr>current_file_size := current_file_size u3 + size, total_writes := total_writes u3 + 1,
                       total_bytes_written := total_bytes_written u3 + of_nat size\<rparr>;
        let u5 = (if wal_sync_on_write (wal_options u4) then snd (Wal_Sync e (FlushBuffer u4)) else u4);
        Some (Status_OK, u5) }"
      using small by (simp add: WriteRecord_def Let_def h_def size_def rotates_def)
    have 2: "(do { u1 \<leftarrow> A; u2 \<leftarrow> B u1; u3 \<leftarrow> C u2; F u3 }) = Option.bind (do { u1 \<leftarrow> A; u2 \<leftarrow> B u1; C u2 }) F"
      for A :: "Wal option" and B C and F :: "Wal \<Rightarrow> (Status \<times> Wal) option" by simp
    show ?thesis unfolding 1 2 buf(1) using v(3) by (simp add: Let_def u_def z_def)
  qed
  moreover have "wal_disk u = wal_disk v" "current_filename u = current_filename v" by (simp_all add: u_def)
  ultimately show ?thesis
    using z u unfolding v_def
    by (intro exI [of _ z] exI [of _ "add_record r L1"] conjI exI [of _ u]) (auto simp: L1_def z_def)
qed

end
