(* ===== verification/Wal_Crash.thy ===== *)
theory Wal_Crash
  imports Wal_Correct "HOL-Library.Multiset"
begin

text \<open>
  Running a log, crashing and recovering.  \<open>log_run crc w rs v\<close>: calls on the log \<open>w\<close>, with
  system calls that do not fail, have written the records \<open>rs\<close> and led to the log \<open>v\<close>.
  \<open>crash_disk\<close> is the disk that a crash after the last call leaves: of each file at least the durable bytes, and
  any number of those handed over after them; \<open>Wal_Reopen\<close> adds the crashes inside a call.

  A run carries its conditions with it: the system calls satisfy \<open>ok\<close>, the fields fit the write buffer and
  the limit of the reader (\<open>fits\<close>; without that \<open>WriteRecord\<close> copies past its buffer), and the file numbers
  do not wrap.
\<close>

section \<open>Runs\<close>

inductive log_run :: "(bytes \<Rightarrow> u32) \<Rightarrow> (WalEnv \<Rightarrow> bool) \<Rightarrow> Wal \<Rightarrow> wal_record list \<Rightarrow> Wal \<Rightarrow> bool" for crc ok w where
  start: "log_run crc ok w [] w"
| append: "log_run crc ok w rs v \<Longrightarrow> ok e \<Longrightarrow> fits v key val \<Longrightarrow> current_file_number v + 1 \<noteq> 0 \<Longrightarrow>
    WriteRecord crc e kind key val seq v = Some (s, v') \<Longrightarrow>
    log_run crc ok w (rs @ [new_record crc e kind key val seq]) v'"
| flush: "log_run crc ok w rs v \<Longrightarrow> log_run crc ok w rs (snd (Wal_Flush v))"
| sync: "log_run crc ok w rs v \<Longrightarrow> ok e \<Longrightarrow> log_run crc ok w rs (snd (Wal_Sync e v))"
| rotate: "log_run crc ok w rs v \<Longrightarrow> ok e \<Longrightarrow> current_file_number v + 1 \<noteq> 0 \<Longrightarrow>
    log_run crc ok w rs (snd (Wal_RotateLog e v))"

text \<open>System calls that do not fail, including those of \<open>Sync\<close>.\<close>

definition reliable :: "WalEnv \<Rightarrow> bool" where
  "reliable e \<longleftrightarrow> healthy e \<and> fd_ok e \<and> fsync_ok e"

text \<open>A log grows at its last file and by further files.\<close>

definition grown :: "(nat \<times> wal_record list) list \<Rightarrow> (nat \<times> wal_record list) list \<Rightarrow> bool" where
  "grown L L' \<longleftrightarrow> (\<exists>K n rs xs M. L = K @ [(n, rs)] \<and> L' = K @ (n, rs @ xs) # M)"

lemma grown_simps:
  "L \<noteq> [] \<Longrightarrow> grown L L"
  "grown L L1 \<Longrightarrow> grown L (L1 @ xs)"
  "grown L L1 \<Longrightarrow> grown L (add_record r L1)"
proof -
  show "L \<noteq> [] \<Longrightarrow> grown L L" by (cases L rule: rev_cases) (force simp: grown_def)+
  show "grown L L1 \<Longrightarrow> grown L (L1 @ xs)" by (fastforce simp: grown_def)
  assume "grown L L1"
  then obtain K n rs ys M where L: "L = K @ [(n, rs)]" "L1 = K @ (n, rs @ ys) # M" by (auto simp: grown_def)
  show "grown L (add_record r L1)"
  proof (cases M rule: rev_cases)
    case Nil
    then have "add_record r L1 = K @ (n, rs @ (ys @ [r])) # []" by (simp add: add_record_def L)
    then show ?thesis unfolding grown_def using L(1) by blast
  next
    case (snoc M' m)
    then have "add_record r L1 = K @ (n, rs @ ys) # M' @ [(fst m, snd m @ [r])]" by (simp add: add_record_def L butlast_append)
    then show ?thesis unfolding grown_def using L(1) by blast
  qed
qed

lemma log_run_grown:
  assumes "log_run crc ok w rs v" and "wal_log crc w L" and "\<forall>e. ok e \<longrightarrow> healthy e"
  shows "\<exists>L'. wal_log crc v L' \<and> records_of L' = records_of L @ rs \<and> grown L L'"
  using assms
proof (induction rule: log_run.induct)
  case start
  then show ?case using grown_simps(1) by (auto simp: wal_log_def)
next
  case (append rs v e key val kind seq s v')
  then obtain L1 where 1: "wal_log crc v L1" "records_of L1 = records_of L @ rs" "grown L L1" by blast
  have e: "healthy e" using append by blast
  obtain u L2 where 2: "WriteRecord crc e kind key val seq v = Some (Status_OK, u)" "wal_log crc u L2"
    "L2 = (if rotates v key val then add_record (new_record crc e kind key val seq) (L1 @ [(Suc (unat (current_file_number v)), [])])
       else add_record (new_record crc e kind key val seq) L1)"
    using WriteRecord_log [OF 1(1) e append.hyps(3)] append.hyps(4) by blast
  have "L1 \<noteq> []" using 1(1) by (simp add: wal_log_def)
  then have "records_of L2 = records_of L @ rs @ [new_record crc e kind key val seq]" "grown L L2"
    using 1(2,3) by (simp_all add: 2(3) records_of_add records_of_rotate grown_simps)
  then show ?case using 2(1,2) append.hyps(5) by auto
next
  case (flush rs v)
  then obtain L1 where 1: "wal_log crc v L1" "records_of L1 = records_of L @ rs" "grown L L1" by blast
  then show ?case using FlushBuffer_log(1) [OF 1(1)] by (auto simp: Wal_Flush_def)
next
  case (sync rs v e)
  then show ?case using Sync_log(1) by blast
next
  case (rotate rs v e)
  then obtain L1 where 1: "wal_log crc v L1" "records_of L1 = records_of L @ rs" "grown L L1" by blast
  have "healthy e" using rotate by blast
  then show ?case
    using RotateLog_log [OF 1(1) _ rotate.hyps(3), of e] 1(2,3) grown_simps(2) [of L L1] by (auto simp: records_of_rotate)
qed

lemma log_run_log:
  assumes "log_run crc ok w rs v" and "wal_log crc w L" and "\<forall>e. ok e \<longrightarrow> healthy e"
  shows "\<exists>L'. wal_log crc v L' \<and> records_of L' = records_of L @ rs"
  using log_run_grown [OF assms] by blast

lemma log_run_mono: "log_run crc ok w rs v \<Longrightarrow> (\<And>e. ok e \<Longrightarrow> ok' e) \<Longrightarrow> log_run crc ok' w rs v"
  by (induction rule: log_run.induct) (auto intro: log_run.intros)

section \<open>What a crash leaves\<close>

text \<open>
  \<open>kept name\<close>: how many bytes of the file \<open>name\<close> survive, if more than the durable ones.  What survives
  is a prefix of what was written to the file: a file system that extends files out of order is not covered.
\<close>

definition survive :: "nat \<Rightarrow> bytes \<Rightarrow> DiskFile \<Rightarrow> DiskFile" where
  "survive k extra f = (let bs = take (max (durable f) k) (content f @ extra) in \<lparr>content = bs, durable = length bs\<rparr>)"

definition extra_of :: "Wal \<Rightarrow> string \<Rightarrow> bytes" where
  "extra_of w name = (if name = basename (current_filename w) then unwritten w else [])"

definition crash_disk :: "(string \<Rightarrow> nat) \<Rightarrow> Wal \<Rightarrow> disk" where
  "crash_disk kept w = map (\<lambda>(name, f). (name, survive (kept name) (extra_of w name) f)) (wal_disk w)"

lemma map_of_map_pairs: "map_of (map (\<lambda>(x, f). (x, g x f)) d) x = map_option (g x) (map_of d x)"
  by (induction d) auto

lemma crash_disk_names [simp]: "map fst (crash_disk kept w) = map fst (wal_disk w)"
  by (simp add: crash_disk_def comp_def split_def)

lemma map_of_crash_disk:
  "map_of (crash_disk kept w) name = map_option (survive (kept name) (extra_of w name)) (map_of (wal_disk w) name)"
  unfolding crash_disk_def by (rule map_of_map_pairs)

section \<open>Recovery\<close>

lemma recover_files_log:
  assumes "log_files d (set ns)" and "sorted_wrt (<) ns" and "\<forall>n\<in>set ns. n < 2 ^ 64"
  shows "sort_key file_number (recover_files d) = map log_name ns"
proof -
  have set: "set (recover_files d) = log_name ` set ns" and dist: "distinct (recover_files d)"
    using assms(1) by (auto simp: log_files_def recover_files_def is_log_file_def simp flip: set_map)
  have num: "file_number (log_name n) = of_nat n" if "n \<in> set ns" for n
    using that assms(3) by (simp add: file_number_log_name)
  have word_mono: "(of_nat m :: u64) < of_nat n" if "m < n" "n < 2 ^ 64" for m n
    using that by (simp add: word_less_nat_alt unsigned_of_nat take_bit_nat_eq_self)
  have "sorted_wrt (<) (map (file_number \<circ> log_name) ns)"
    unfolding sorted_wrt_map
  proof (rule sorted_wrt_mono_rel [OF _ assms(2)])
    fix m n assume "m \<in> set ns" "n \<in> set ns" "m < n"
    then show "(file_number \<circ> log_name) m < (file_number \<circ> log_name) n"
      using word_mono [of m n] assms(3) num by simp
  qed
  then have sd: "sorted (map file_number (map log_name ns))" "distinct (map file_number (map log_name ns))"
    by (simp_all add: strict_sorted_iff)
  show ?thesis
  proof (rule sort_key_inj_key_eq)
    have "distinct (map log_name ns)" using sd(2) distinct_map [of file_number "map log_name ns"] by blast
    then show "mset (recover_files d) = mset (map log_name ns)"
      using set_eq_iff_mset_eq_distinct [OF dist] set by (metis set_map)
    show "inj_on file_number (set (recover_files d))" using sd(2) distinct_map [of file_number "map log_name ns"] set by (metis set_map)
  qed (rule sd(1))
qed

lemma max_seq_of_append: "max_seq_of (xs @ ys) m = max_seq_of ys (max_seq_of xs m)"
  by (induction xs m rule: max_seq_of.induct) auto

lemma recover_loop_logs:
  assumes "\<forall>(n, rs)\<in>set L. (\<forall>r\<in>set rs. sealed crc r) \<and> readable (log_name n) \<and>
    (\<exists>f. map_of d (log_name n) = Some f \<and> content f = take (k n) (encode_log rs))"
  defines "out \<equiv> concat (map (\<lambda>(n, rs). whole (k n) rs) L)"
  shows "recover_loop crc readable dir d (map (log_name \<circ> fst) L) m = Some (Status_OK, out, max_seq_of out m)"
  using assms(1) unfolding out_def
proof (induction L arbitrary: m)
  case (Cons x L)
  obtain n rs where x: "x = (n, rs)" by (metis prod.exhaust)
  then obtain f where "map_of d (log_name n) = Some f" "content f = take (k n) (encode_log rs)"
    "readable (log_name n)" "\<forall>r\<in>set rs. sealed crc r" using Cons.prems by auto
  then show ?case
    using Cons by (simp add: x read_file_take max_seq_of_append Let_def del: encode_record.simps)
qed simp

text \<open>
  Recovery after a crash returns, of every file, the records that survived whole, in the order
  they were written.
\<close>

definition survivors :: "(string \<Rightarrow> nat) \<Rightarrow> Wal \<Rightarrow> (nat \<times> wal_record list) list \<Rightarrow> wal_record list" where
  "survivors kept w L = concat (map (\<lambda>(n, rs).
     whole (max (case map_of (wal_disk w) (log_name n) of Some f \<Rightarrow> durable f | None \<Rightarrow> 0) (kept (log_name n))) rs) L)"

lemma wal_log_numbers:
  assumes "wal_log crc w L"
  shows "sorted_wrt (<) (map fst L)" "\<forall>n\<in>set (map fst L). n < 2 ^ 64" "log_files (wal_disk w) (set (map fst L))"
proof -
  obtain K rs where L: "L = K @ [(unat (current_file_number w), rs)]" using wal_log_snoc [OF assms] .
  show s: "sorted_wrt (<) (map fst L)" "log_files (wal_disk w) (set (map fst L))" using assms by (auto simp: wal_log_def)
  have "unat (current_file_number w) < 2 ^ 64" using unsigned_less [of "current_file_number w"] by simp
  then show "\<forall>n\<in>set (map fst L). n < 2 ^ 64" using s(1) by (auto simp: L sorted_wrt_append)
qed

lemma file_bytes_content:
  assumes "wal_log crc w L" "(n, rs) \<in> set L"
  obtains f where "map_of (wal_disk w) (log_name n) = Some f"
    "content f @ extra_of w (log_name n) = encode_log rs"
    "\<forall>r\<in>set rs. sealed crc r"
  using assms stream_facts(4) [OF assms(1)] that
  by (fastforce simp: wal_log_def extra_of_def file_bytes_def split: option.splits)

lemma crash_recover:
  assumes log: "wal_log crc w L" and rd: "\<forall>name. readable name"
    and v: "wal_disk v = crash_disk kept w"
  shows "Wal_Recover crc readable ms v = Some (Status_OK, survivors kept w L, max_seq_of (survivors kept w L) 0)"
proof -
  note n = wal_log_numbers [OF log]
  have names: "sort_key file_number (recover_files (wal_disk v)) = map (log_name \<circ> fst) L"
    using recover_files_log [of "wal_disk v" "map fst L"] n by (simp add: v log_files_def comp_def)
  define k where "k n = max (case map_of (wal_disk w) (log_name n) of Some f \<Rightarrow> durable f | None \<Rightarrow> 0) (kept (log_name n))" for n
  have "(\<forall>r\<in>set rs. sealed crc r) \<and> readable (log_name n) \<and>
      (\<exists>f. map_of (wal_disk v) (log_name n) = Some f \<and> content f = take (k n) (encode_log rs))"
    if m: "(n, rs) \<in> set L" for n rs
  proof -
    obtain f where "map_of (wal_disk w) (log_name n) = Some f" "\<forall>r\<in>set rs. sealed crc r"
      "content f @ extra_of w (log_name n) = encode_log rs"
      using file_bytes_content [OF log m] by blast
    then show ?thesis using rd by (simp add: v map_of_crash_disk k_def survive_def Let_def del: take_append)
  qed
  then have all: "\<forall>(n, rs)\<in>set L. (\<forall>r\<in>set rs. sealed crc r) \<and> readable (log_name n) \<and>
      (\<exists>f. map_of (wal_disk v) (log_name n) = Some f \<and> content f = take (k n) (encode_log rs))" by auto
  have "survivors kept w L = concat (map (\<lambda>(n, rs). whole (k n) rs) L)" by (simp add: survivors_def k_def)
  with recover_loop_logs [OF all] have "recover_loop crc readable (wal_dir (wal_options v)) (wal_disk v)
      (map (log_name \<circ> fst) L) 0 = Some (Status_OK, survivors kept w L, max_seq_of (survivors kept w L) 0)" by simp
  then show ?thesis by (simp add: Wal_Recover_def names)
qed

section \<open>Nothing is lost\<close>

text \<open>Everything written so far has reached durable storage; the closed files have.\<close>

definition fully_durable :: "Wal \<Rightarrow> bool" where
  "fully_durable w \<longleftrightarrow> unwritten w = [] \<and> (\<forall>(name, f)\<in>set (wal_disk w). length (content f) \<le> durable f)"

definition closed_durable :: "Wal \<Rightarrow> bool" where
  "closed_durable w \<longleftrightarrow> (\<forall>(name, f)\<in>set (wal_disk w).
     name \<noteq> basename (current_filename w) \<longrightarrow> length (content f) \<le> durable f)"

lemma survivors_all:
  assumes log: "wal_log crc w L"
    and k: "\<And>name f. map_of (wal_disk w) name = Some f \<Longrightarrow> length (content f @ extra_of w name) \<le> max (durable f) (kept name)"
  shows "survivors kept w L = records_of L"
proof -
  have "whole (max (case map_of (wal_disk w) (log_name n) of Some f \<Rightarrow> durable f | None \<Rightarrow> 0) (kept (log_name n))) rs = rs"
    if m: "(n, rs) \<in> set L" for n rs
  proof -
    obtain f where f: "map_of (wal_disk w) (log_name n) = Some f" "content f @ extra_of w (log_name n) = encode_log rs"
      using file_bytes_content [OF log m] by blast
    then show ?thesis using k [OF f(1)] by (simp add: whole_all)
  qed
  then have "map (\<lambda>(n, rs). whole (max (case map_of (wal_disk w) (log_name n) of Some f \<Rightarrow> durable f | None \<Rightarrow> 0)
      (kept (log_name n))) rs) L = map snd L" by (auto intro!: map_cong)
  then show ?thesis by (simp only: survivors_def records_of_def)
qed

lemma fully_durable_survivors:
  assumes log: "wal_log crc w L" and d: "fully_durable w"
  shows "survivors kept w L = records_of L"
proof (rule survivors_all [OF log])
  fix name f assume "map_of (wal_disk w) name = Some f"
  then show "length (content f @ extra_of w name) \<le> max (durable f) (kept name)"
    using d map_of_SomeD [of "wal_disk w" name f] by (auto simp: fully_durable_def extra_of_def)
qed

text \<open>A crash of the process alone loses what is in its buffer and stream.\<close>

lemma flushed_survivors:
  assumes "wal_log crc w L" and "unwritten w = []" and "\<And>name. file_size name (wal_disk w) \<le> kept name"
  shows "survivors kept w L = records_of L"
proof (rule survivors_all [OF assms(1)])
  fix name f assume "map_of (wal_disk w) name = Some f"
  then show "length (content f @ extra_of w name) \<le> max (durable f) (kept name)"
    using assms(2) assms(3) [of name] by (auto simp: file_size_def extra_of_def)
qed

lemma closed_durable_map_of:
  assumes "distinct (map fst (wal_disk w))"
  shows "closed_durable w \<longleftrightarrow> (\<forall>name f. map_of (wal_disk w) name = Some f \<longrightarrow>
    name \<noteq> basename (current_filename w) \<longrightarrow> length (content f) \<le> durable f)"
  using assms by (auto simp: closed_durable_def map_of_eq_Some_iff)

lemma fully_durable_map_of:
  assumes "distinct (map fst (wal_disk w))"
  shows "fully_durable w \<longleftrightarrow> unwritten w = [] \<and> (\<forall>name f. map_of (wal_disk w) name = Some f \<longrightarrow> length (content f) \<le> durable f)"
  using assms by (auto simp: fully_durable_def map_of_eq_Some_iff)

lemma wal_log_distinct: "wal_log crc w L \<Longrightarrow> distinct (map fst (wal_disk w))"
  by (simp add: wal_log_def log_files_def)

lemma Sync_durable:
  assumes log: "wal_log crc w L" and e: "healthy e" "fd_ok e" "fsync_ok e" and c: "closed_durable w"
  shows "fully_durable (snd (Wal_Sync e w))"
proof -
  note o = stream_facts [OF log]
  note h = healthy_simps [OF e(1)] and f = FlushBuffer_eq [OF o(1,2)]
  have d: "wal_disk (snd (Wal_Sync e w)) = disk_fsync (basename (current_filename w))
      (disk_append (basename (current_filename w)) (unwritten w) (wal_disk w))"
    using o e by (simp add: Wal_Sync_def f h Let_def)
  have "distinct (map fst (wal_disk (snd (Wal_Sync e w))))" using wal_log_distinct [OF log] by (simp add: d)
  then show ?thesis
    using c Sync_log(2) [OF log e(1)]
    by (auto simp: fully_durable_map_of closed_durable_map_of [OF wal_log_distinct [OF log]] d
        map_of_disk_fsync map_of_disk_append)
qed

text \<open>With \<open>sync_on_write\<close> every record is durable when \<open>WriteRecord\<close> returns, across rotations.\<close>

lemma fully_durable_rotate:
  assumes log: "wal_log crc w L" and e: "healthy e" and room: "current_file_number w + 1 \<noteq> 0" and d: "fully_durable w"
  shows "fully_durable (snd (Wal_RotateLog e w))"
proof -
  obtain v where v: "Wal_RotateLog e w = (Status_OK, v)" "unwritten v = []"
    "wal_log crc v (L @ [(Suc (unat (current_file_number w)), [])])"
    using RotateLog_log [OF log e room] by blast
  note o = stream_facts [OF log]
  note h = healthy_simps [OF e] and f = FlushBuffer_eq [OF o(1,2)]
  have un: "unwritten w = []" using d by (simp add: fully_durable_def)
  have "\<exists>name. wal_disk v = disk_create name (disk_append (basename (current_filename w)) [] (wal_disk w))"
    using v(1) o un by (auto simp: Wal_RotateLog_def f h close_stream_def OpenNewLogFile_def Let_def)
  then obtain name where dv: "wal_disk v = disk_create name (disk_append (basename (current_filename w)) [] (wal_disk w))"
    by blast
  show ?thesis
    using d v(2) unfolding v(1) snd_conv
    by (auto simp: fully_durable_map_of [OF wal_log_distinct [OF v(3)]] fully_durable_map_of [OF wal_log_distinct [OF log]]
        dv map_of_disk_create map_of_disk_append split: if_splits)
qed

lemma closed_durable_FlushBuffer: "closed_durable (FlushBuffer w) = closed_durable w"
  by (simp add: closed_durable_def FlushBuffer_def)

lemma FlushBuffer_disk [simp]: "wal_disk (FlushBuffer w) = wal_disk w"
  by (simp add: FlushBuffer_def)

lemma closed_durable_same: "fully_durable v \<Longrightarrow> wal_disk u = wal_disk v \<Longrightarrow> closed_durable (FlushBuffer u)"
  by (auto simp: closed_durable_FlushBuffer closed_durable_def fully_durable_def)

lemma WriteRecord_closed:
  fixes kind :: u8 and seq :: u64
  assumes log: "wal_log crc w L" and e: "healthy e" and f: "fits w key val"
    and room: "current_file_number w + 1 \<noteq> 0" and d: "fully_durable w"
    and wr: "WriteRecord crc e kind key val seq w = Some (s, w')"
  obtains u M where "wal_log crc u M" "closed_durable u"
    "w' = (if wal_sync_on_write (wal_options w) then snd (Wal_Sync e (FlushBuffer u)) else u)"
proof -
  let ?v = "if rotates w key val then snd (Wal_RotateLog e w) else w"
  obtain u M where u: "wal_log crc u M" "wal_disk u = wal_disk ?v" 
    "w' = (if wal_sync_on_write (wal_options w) then snd (Wal_Sync e (FlushBuffer u)) else u)"
    using WriteRecord_log [OF log e f, where kind = kind and seq = seq] room wr by auto
  have "fully_durable ?v" using fully_durable_rotate [OF log e room d] d by simp
  then have "closed_durable u" using u(2) closed_durable_same closed_durable_FlushBuffer by blast
  with u show thesis by (intro that)
qed

lemma WriteRecord_durable:
  fixes kind :: u8 and seq :: u64
  assumes log: "wal_log crc w L" and e: "healthy e" "fd_ok e" "fsync_ok e" and f: "fits w key val"
    and room: "current_file_number w + 1 \<noteq> 0"
    and sync: "wal_sync_on_write (wal_options w)" and d: "fully_durable w"
    and wr: "WriteRecord crc e kind key val seq w = Some (s, w')"
  shows "fully_durable w'"
proof -
  obtain u M where u: "wal_log crc u M" "closed_durable u" "w' = snd (Wal_Sync e (FlushBuffer u))"
    using WriteRecord_closed [OF log e(1) f room d wr] sync by auto
  show ?thesis
    unfolding u(3) using FlushBuffer_log(1) [OF u(1)] e u(2)
    by (intro Sync_durable) (simp_all add: closed_durable_FlushBuffer)
qed

lemma WriteRecord_options:
  fixes kind :: u8 and seq :: u64
  assumes "wal_log crc w L" "healthy e" "fits w key val" "current_file_number w + 1 \<noteq> 0"
    "WriteRecord crc e kind key val seq w = Some (s, w')"
  shows "wal_options w' = wal_options w" "length (write_buffer w') = length (write_buffer w)"
  using WriteRecord_log [OF assms(1-3), where kind = kind and seq = seq] assms(4,5) by auto

lemma log_run_durable:
  assumes "log_run crc reliable w rs v" and log: "wal_log crc w L" and "fully_durable w"
    and "wal_sync_on_write (wal_options w)"
  shows "fully_durable v \<and> wal_options v = wal_options w"
  using assms
proof (induction rule: log_run.induct)
  case (append rs v e key val kind seq s v')
  then obtain M where M: "wal_log crc v M" using log_run_log [of crc reliable w rs v] by (auto simp: reliable_def)
  have e: "healthy e" "fd_ok e" "fsync_ok e" using append.hyps(2) by (simp_all add: reliable_def)
  show ?case
    using append.IH append.prems WriteRecord_options [OF M e(1) append.hyps(3-5)]
      WriteRecord_durable [OF M e append.hyps(3,4) _ _ append.hyps(5)] by simp
next
  case (flush rs v)
  then obtain M where M: "wal_log crc v M" using log_run_log [of crc reliable w rs v] by (auto simp: reliable_def)
  have "unwritten v = []" using flush by (simp add: fully_durable_def)
  then show ?case
    using flush FlushBuffer_log [OF M] by (simp add: Wal_Flush_def fully_durable_def) (simp add: FlushBuffer_def)
next
  case (sync rs v e)
  then obtain M where M: "wal_log crc v M" using log_run_log [of crc reliable w rs v] by (auto simp: reliable_def)
  have "closed_durable v" using sync by (auto simp: fully_durable_def closed_durable_def)
  then have "fully_durable (snd (Wal_Sync e v))" using sync M by (intro Sync_durable) (auto simp: reliable_def)
  then show ?case using sync by (simp add: Wal_Sync_def FlushBuffer_def Let_def)
next
  case (rotate rs v e)
  then obtain M where M: "wal_log crc v M" using log_run_log [of crc reliable w rs v] by (auto simp: reliable_def)
  have "fully_durable (snd (Wal_RotateLog e v))" using rotate by (intro fully_durable_rotate [OF M]) (auto simp: reliable_def)
  then show ?case using rotate RotateLog_log [OF M _ rotate.hyps(3), of e] by (auto simp: reliable_def)
qed simp

section \<open>Reopening\<close>

text \<open>A directory whose log files are those of \<open>L\<close>, none of them torn.\<close>

definition disk_log :: "(bytes \<Rightarrow> u32) \<Rightarrow> disk \<Rightarrow> (nat \<times> wal_record list) list \<Rightarrow> bool" where
  "disk_log crc d L \<longleftrightarrow> sorted_wrt (<) (map fst L) \<and> (\<forall>n\<in>set (map fst L). n < 2 ^ 64) \<and> log_files d (set (map fst L)) \<and>
     (\<forall>(n, rs)\<in>set L. (\<forall>r\<in>set rs. sealed crc r) \<and>
        map_option content (map_of d (log_name n)) = Some (encode_log rs))"

lemma disk_log_empty: "disk_log crc [] []"
  by (simp add: disk_log_def log_files_def)

lemma crash_disk_log:
  assumes log: "wal_log crc w L"
    and k: "\<And>name f. map_of (wal_disk w) name = Some f \<Longrightarrow> length (content f @ extra_of w name) \<le> max (durable f) (kept name)"
  shows "disk_log crc (crash_disk kept w) L"
proof -
  have "(\<forall>r\<in>set rs. sealed crc r) \<and> map_option content (map_of (crash_disk kept w) (log_name n)) = Some (encode_log rs)"
    if m: "(n, rs) \<in> set L" for n rs
  proof -
    obtain f where f: "map_of (wal_disk w) (log_name n) = Some f" "content f @ extra_of w (log_name n) = encode_log rs"
      "\<forall>r\<in>set rs. sealed crc r" using file_bytes_content [OF log m] by blast
    then show ?thesis using k [OF f(1)] by (simp add: map_of_crash_disk survive_def Let_def del: take_append)
  qed
  then show ?thesis using wal_log_numbers [OF log] by (auto simp: disk_log_def log_files_def)
qed

lemma highest_number_none: "\<forall>name\<in>set names. \<not> is_log_file name \<Longrightarrow> highest_number names best = best"
  by (induction names best rule: highest_number.induct) (auto simp: is_log_file_def)

lemma highest_number_max:
  assumes "\<forall>name\<in>set names. is_log_file name \<longrightarrow> (\<exists>n\<le>M. name = log_name n)" and M: "M < 2 ^ 64"
    and "best = None \<or> (\<exists>b\<le>M. best = Some (of_nat b))" and "log_name M \<in> set names \<or> best = Some (of_nat M)"
  shows "highest_number names best = Some (of_nat M :: u64)"
  using assms(1,3,4)
proof (induction names arbitrary: best)
  case (Cons name names)
  show ?case
  proof (cases "is_log_file name")
    case False
    then have "name \<noteq> log_name M" by auto
    moreover have "\<not> (has_wal_prefix name \<and> 8 < length name \<and> has_log_suffix name)"
      using False by (auto simp: is_log_file_def)
    ultimately show ?thesis using Cons by (auto simp: not_less)
  next
    case True
    then obtain n where n: "n \<le> M" "name = log_name n" using Cons.prems(1) by auto
    have less: "(of_nat a :: u64) < of_nat b \<longleftrightarrow> a < b" if "a \<le> M" "b \<le> M" for a b
      using that M by (simp add: word_less_nat_alt unsigned_of_nat take_bit_nat_eq_self)
    define best' where "best' = (if best = None \<or> (\<exists>h. best = Some h \<and> h < of_nat n) then Some (of_nat n) else best)"
    have ln: "\<not> length (log_name n) \<le> 8" using log_name_facts(3) [of n] by linarith
    have step: "highest_number (name # names) best = highest_number names best'"
      using n M by (auto simp: stoull_to_dec best'_def ln split: option.splits)
    have "best' = None \<or> (\<exists>b\<le>M. best' = Some (of_nat b))" using Cons.prems(2) n(1) by (auto simp: best'_def)
    moreover have "best' = Some (of_nat M)" if b: "best = Some (of_nat M)"
      using less [of M n] n(1) by (simp add: best'_def b)
    moreover have "best' = Some (of_nat M)" if M: "n = M"
    proof (cases best)
      case (Some h)
      then obtain b where b: "b \<le> M" "h = of_nat b" using Cons.prems(2) by auto
      then show ?thesis using less [of b M] Some by (cases "b = M") (simp_all add: best'_def M)
    qed (simp add: best'_def M)
    ultimately have *: "best' = None \<or> (\<exists>b\<le>M. best' = Some (of_nat b))"
        "log_name M \<in> set names \<or> best' = Some (of_nat M)"
      using Cons.prems(3) n(2) by auto
    then show ?thesis unfolding step by (intro Cons.IH) (use Cons.prems(1) in auto)
  qed
qed auto

lemma highest_number_log:
  assumes files: "log_files d (set ns)" and ns: "sorted_wrt (<) ns" "\<forall>n\<in>set ns. n < 2 ^ 64"
  shows "(case highest_number (map fst d) None of Some n \<Rightarrow> n | None \<Rightarrow> 0) =
    (of_nat (if ns = [] then 0 else last ns) :: u64)"
proof (cases "ns = []")
  case True
  then have "\<forall>name\<in>set (map fst d). \<not> is_log_file name" using files by (auto simp: log_files_def)
  then show ?thesis by (simp add: highest_number_none True del: set_map)
next
  case False
  have "log_name (last ns) \<in> set (map fst d)" using False by (intro log_files_mem [OF files]) simp
  moreover have "m \<le> last ns" if "m \<in> set ns" for m
    using that ns(1) False by (cases ns rule: rev_cases) (auto simp: sorted_wrt_append)
  then have "\<forall>name\<in>set (map fst d). is_log_file name \<longrightarrow> (\<exists>m\<le>last ns. name = log_name m)"
    using log_files_name [OF files] by metis
  ultimately show ?thesis using highest_number_max [of "map fst d" "last ns" None] ns(2) False by simp
qed

lemma Wal_new_disk:
  assumes files: "log_files d (set ns)" and ns: "sorted_wrt (<) ns" "\<forall>n\<in>set ns. n < 2 ^ 64" "ns \<noteq> []"
    and e: "healthy e"
  shows "wal_disk (Wal_new e opts d) = d"
proof -
  have "last ns < 2 ^ 64" using ns by simp
  then have un: "unat (of_nat (last ns) :: u64) = last ns" by (simp add: unsigned_of_nat take_bit_nat_eq_self)
  have "wal_disk (Wal_new e opts d) = disk_create (log_name (last ns)) d"
    using e highest_number_log [OF files ns(1,2)] ns(3)
    by (simp add: Wal_new_def OpenNewLogFile_def un healthy_def Let_def)
  moreover have "log_name (last ns) \<in> set (map fst d)" using ns(3) by (intro log_files_mem [OF files]) simp
  ultimately show ?thesis by (auto simp: disk_create_def map_of_eq_None_iff split: option.splits)
qed

lemma Wal_new_log:
  assumes d: "disk_log crc d L" and e: "healthy e"
  shows "\<exists>L'. wal_log crc (Wal_new e opts d) L' \<and> records_of L' = records_of L \<and>
    L' = (if L = [] then [(0, [])] else L) \<and>
    unwritten (Wal_new e opts d) = [] \<and> wal_options (Wal_new e opts d) = opts \<and>
    length (write_buffer (Wal_new e opts d)) = max 1 (wal_buffer_size opts) \<and>
    wal_disk (Wal_new e opts d) = (if L = [] then d @ [(log_name 0, \<lparr>content = [], durable = 0\<rparr>)] else d)"
proof -
  define w where "w = Wal_new e opts d"
  define n where "n = (if L = [] then 0 else fst (last L))"
  have files: "log_files d (set (map fst L))" using d by (simp add: disk_log_def)
  have n64: "n < 2 ^ 64" using d by (simp add: n_def disk_log_def)
  have num: "(case highest_number (map fst d) None of Some n \<Rightarrow> n | None \<Rightarrow> 0) = (of_nat n :: u64)"
    using highest_number_log [OF files] d by (simp add: disk_log_def n_def last_map)
  have un: "unat (of_nat n :: u64) = n" using n64 by (simp add: unsigned_of_nat take_bit_nat_eq_self)
  have w: "file_open w" "file_good w" "pending w = []" "buffer_offset w = 0" "current_file_number w = of_nat n"
    "basename (current_filename w) = log_name n" "wal_disk w = disk_create (log_name n) d" "wal_options w = opts"
    "current_file_size w = file_size (log_name n) (disk_create (log_name n) d)"
    "length (write_buffer w) = max 1 (wal_buffer_size opts)"
    using e by (simp_all add: w_def Wal_new_def OpenNewLogFile_def num un healthy_def Let_def)
  have uw: "unwritten w = []" by (simp add: unwritten_def w)
  define L' where "L' = (if L = [] then [(0, [])] else L)"
  have "wal_log crc w L' \<and> wal_disk w = (if L = [] then d @ [(log_name 0, \<lparr>content = [], durable = 0\<rparr>)] else d)"
  proof (cases "L = []")
    case True
    have fr: "log_name 0 \<notin> set (map fst d)" "log_files (disk_create (log_name 0) d) {0}"
      using log_files_create [of d "{}" 0] files True by auto
    then have none: "map_of d (log_name 0) = None" by (simp add: map_of_eq_None_iff)
    have new: "map_of (wal_disk w) (log_name 0) = Some \<lparr>content = [], durable = 0\<rparr>"
      using none by (simp add: w n_def True map_of_disk_create)
    have wd: "wal_disk w = d @ [(log_name 0, \<lparr>content = [], durable = 0\<rparr>)]"
      "disk_create (log_name 0) d = d @ [(log_name 0, \<lparr>content = [], durable = 0\<rparr>)]"
      using none by (simp_all add: w n_def True disk_create_def)
    have "file_size (log_name 0) (wal_disk w) = 0" "file_bytes w 0 = Some []"
      using new uw by (simp_all add: file_size_def file_bytes_def)
    then show ?thesis
      using True fr(2) w(9) wd by (simp add: wal_log_def stream_ok_def L'_def w(1-6) un n_def)
  next
    case False
    then have mem: "(n, snd (last L)) \<in> set L" by (simp add: n_def)
    then have "map_option content (map_of d (log_name n)) = Some (encode_log (snd (last L)))"
      using d by (auto simp: disk_log_def)
    then have old: "disk_create (log_name n) d = d" "file_size (log_name n) d = length (encode_log (snd (last L)))"
      by (auto simp: disk_create_def file_size_def split: option.splits)
    have "file_bytes w m = Some (encode_log rs) \<and> (\<forall>r\<in>set rs. sealed crc r)" if "(m, rs) \<in> set L" for m rs
      using that d by (auto simp: disk_log_def file_bytes_def uw w old split: option.splits)
    moreover have "current_file_size w = length (encode_log (snd (last L)))" using old by (simp add: w)
    ultimately show ?thesis
      using False d by (auto simp: wal_log_def stream_ok_def L'_def w(1-8) un n_def [symmetric] old disk_log_def) (simp add: n_def)
  qed
  then show ?thesis using w uw by (auto simp: L'_def records_of_def simp flip: w_def)
qed

end
