(* ===== verification/Wal_Reopen.thy ===== *)
theory Wal_Reopen
  imports Wal_Crash
begin

text \<open>
  What recovery finds on the disk of a log that was closed or that a crash cut short.
  \<open>crash_between w w' d\<close>: \<open>d\<close> is what a crash may leave that comes between the states \<open>w\<close> and
  \<open>w'\<close> of the log, for instance inside the call that leads from the one to the other.  Every file
  keeps at least what was synced in \<open>w\<close> and holds a prefix of what was handed over by \<open>w'\<close>; a file
  of which nothing was synced may be missing.  The code never syncs the directory: that the name of a file
  survives together with its synced bytes is an assumption about the file system.
\<close>

section \<open>From the disk of a log to its records\<close>

lemma wal_log_disk:
  assumes log: "wal_log crc w L" and un: "unwritten w = []"
  shows "disk_log crc (wal_disk w) L"
proof -
  have "(\<forall>r\<in>set rs. sealed crc r) \<and> map_option content (map_of (wal_disk w) (log_name n)) = Some (encode_log rs)"
    if m: "(n, rs) \<in> set L" for n rs
  proof -
    obtain f where "map_of (wal_disk w) (log_name n) = Some f" "content f @ extra_of w (log_name n) = encode_log rs"
      "\<forall>r\<in>set rs. sealed crc r" using file_bytes_content [OF log m] by blast
    moreover have "extra_of w (log_name n) = []" by (simp add: extra_of_def un)
    ultimately show ?thesis by simp
  qed
  then show ?thesis using wal_log_numbers [OF log] by (auto simp: disk_log_def)
qed

lemma disk_log_recover:
  assumes d: "disk_log crc (wal_disk v) L"
  shows "Wal_Recover crc (\<lambda>name. True) ms v = Some (Status_OK, records_of L, max_seq_of (records_of L) 0)"
proof -
  have names: "sort_key file_number (recover_files (wal_disk v)) = map (log_name \<circ> fst) L"
    using recover_files_log [of "wal_disk v" "map fst L"] d by (simp add: disk_log_def comp_def)
  define k where "k = (\<lambda>n. length (case map_of (wal_disk v) (log_name n) of Some f \<Rightarrow> content f | None \<Rightarrow> []))"
  have f: "\<exists>f. map_of (wal_disk v) (log_name n) = Some f \<and> content f = encode_log rs \<and> k n = length (encode_log rs)"
    and s: "\<forall>r\<in>set rs. sealed crc r" if "(n, rs) \<in> set L" for n rs
    using d that by (auto simp: disk_log_def k_def split: option.splits)
  have "\<forall>(n, rs)\<in>set L. (\<forall>r\<in>set rs. sealed crc r) \<and> True \<and>
    (\<exists>f. map_of (wal_disk v) (log_name n) = Some f \<and> content f = take (k n) (encode_log rs))"
    using f s by fastforce
  note loop = recover_loop_logs [OF this]
  have "map (\<lambda>(n, rs). whole (k n) rs) L = map snd L"
  proof (intro map_cong refl)
    fix x assume x: "x \<in> set L"
    obtain n rs where nr: "x = (n, rs)" by (metis prod.exhaust)
    then have "k n = length (encode_log rs)" using f [of n rs] x by blast
    then show "(case x of (n, rs) \<Rightarrow> whole (k n) rs) = snd x" by (simp add: nr whole_all)
  qed
  then have "concat (map (\<lambda>(n, rs). whole (k n) rs) L) = records_of L" by (simp only: records_of_def)
  with loop show ?thesis by (simp add: Wal_Recover_def names)
qed

lemma reopen_recover:
  assumes d: "disk_log crc d L" and e: "healthy e"
  shows "Wal_Recover crc (\<lambda>name. True) ms (Wal_new e opts d) = Some (Status_OK, records_of L, max_seq_of (records_of L) 0)"
proof -
  obtain L' where L': "wal_log crc (Wal_new e opts d) L'" "records_of L' = records_of L" "unwritten (Wal_new e opts d) = []"
    using Wal_new_log [OF d e] by blast
  show ?thesis using disk_log_recover [OF wal_log_disk [OF L'(1,3)]] L'(2) by simp
qed

lemma destroy_disk:
  assumes log: "wal_log crc w L" and e: "healthy e"
  shows "disk_log crc (wal_disk (Wal_destroy e w)) L"
proof -
  note o = stream_facts [OF log]
  note h = healthy_simps [OF e] and f = FlushBuffer_eq [OF o(1,2)]
  have d: "wal_disk (Wal_destroy e w) = disk_append (basename (current_filename w)) (unwritten w) (wal_disk w)"
    using o by (simp add: Wal_destroy_def close_stream_def f h)
  have "(\<forall>r\<in>set rs. sealed crc r) \<and> map_option content (map_of (wal_disk (Wal_destroy e w)) (log_name n)) = Some (encode_log rs)"
    if m: "(n, rs) \<in> set L" for n rs
  proof -
    obtain f where "map_of (wal_disk w) (log_name n) = Some f" "content f @ extra_of w (log_name n) = encode_log rs"
      "\<forall>r\<in>set rs. sealed crc r" using file_bytes_content [OF log m] by blast
    then show ?thesis by (cases "log_name n = basename (current_filename w)") (simp_all add: extra_of_def d map_of_disk_append)
  qed
  then show ?thesis using wal_log_numbers [OF log] by (auto simp: disk_log_def d)
qed

lemma new_log:
  assumes "healthy e"
  shows "\<exists>L. wal_log crc (Wal_new e opts []) L \<and> records_of L = [] \<and> fully_durable (Wal_new e opts []) \<and>
    wal_options (Wal_new e opts []) = opts"
proof -
  note n = Wal_new_log [OF disk_log_empty assms, simplified]
  then have "wal_log crc (Wal_new e opts []) [(0, [])]" "fully_durable (Wal_new e opts [])"
    "wal_options (Wal_new e opts []) = opts" by (simp_all add: fully_durable_def)
  moreover have "records_of [(0, [])] = []" by (simp add: records_of_def)
  ultimately show ?thesis by blast
qed

lemma run_from_new:
  assumes "healthy e" "log_run crc ok (Wal_new e opts []) rs w" "\<forall>e. ok e \<longrightarrow> healthy e"
  obtains L where "wal_log crc w L" "records_of L = rs"
  using new_log [OF assms(1)] log_run_log [OF assms(2) _ assms(3)] by (metis append_Nil)

lemma survivors_subseq: "subseq (survivors kept w L) (records_of L)"
  unfolding survivors_def records_of_def
proof (induction L)
  case (Cons x L)
  obtain n rs where "x = (n, rs)" by (metis prod.exhaust)
  with Cons show ?case by (simp add: list_emb_append_mono [OF prefix_imp_subseq [OF whole_prefix]])
qed simp

lemma crash_reopen:
  assumes log: "wal_log crc w L" and e: "healthy e"
  shows "Wal_Recover crc (\<lambda>name. True) ms (Wal_new e opts (crash_disk kept w)) =
    Some (Status_OK, survivors kept w L, max_seq_of (survivors kept w L) 0)"
proof -
  note n = wal_log_numbers [OF log]
  have ne: "map fst L \<noteq> []" using log by (simp add: wal_log_def)
  have "log_files (crash_disk kept w) (set (map fst L))" using n(3) by (simp add: log_files_def)
  from Wal_new_disk [OF this n(1,2) ne e] have "wal_disk (Wal_new e opts (crash_disk kept w)) = crash_disk kept w" .
  from crash_recover [OF log _ this] show ?thesis by simp
qed

section \<open>A crash at any moment\<close>

definition synced_part :: "DiskFile \<Rightarrow> bytes" where
  "synced_part f = take (durable f) (content f)"

definition crash_between :: "Wal \<Rightarrow> Wal \<Rightarrow> disk \<Rightarrow> bool" where
  "crash_between w w' d \<longleftrightarrow> distinct (map fst d) \<and>
     (\<forall>(name, f)\<in>set d. durable f = length (content f) \<and>
        (\<exists>g. map_of (wal_disk w') name = Some g \<and> prefix (content f) (content g @ extra_of w' name))) \<and>
     (\<forall>(name, g)\<in>set (wal_disk w). synced_part g \<noteq> [] \<longrightarrow>
        (\<exists>f. map_of d name = Some f \<and> prefix (synced_part g) (content f)))"

text \<open>The records that recovery finds in \<open>d\<close>, if \<open>L\<close> says what the files were to hold.\<close>

definition found_in :: "disk \<Rightarrow> nat \<times> wal_record list \<Rightarrow> wal_record list" where
  "found_in d nr = (case map_of d (log_name (fst nr)) of Some f \<Rightarrow> whole (length (content f)) (snd nr) | None \<Rightarrow> [])"

definition crash_records :: "disk \<Rightarrow> (nat \<times> wal_record list) list \<Rightarrow> wal_record list" where
  "crash_records d L = concat (map (found_in d) L)"

lemma whole_everything: "whole n rs = rs \<Longrightarrow> length (encode_log rs) \<le> n"
proof (induction rs arbitrary: n)
  case (Cons r rs)
  then have n: "length (encode_record r) \<le> n" "whole (n - length (encode_record r)) rs = rs"
    by (simp_all del: encode_record.simps split: if_splits)
  from Cons.IH [OF n(2)] n(1) have "length (encode_record r) + length (encode_log rs) \<le> n" by linarith
  then show ?case by (simp del: encode_record.simps)
qed simp

lemma found_in_prefix: "prefix (found_in d nr) (snd nr)"
  by (simp add: found_in_def whole_prefix split: option.splits)

lemma crash_records_subseq: "subseq (crash_records d L) (records_of L)"
  unfolding crash_records_def records_of_def
  by (induction L) (simp_all add: list_emb_append_mono [OF prefix_imp_subseq [OF found_in_prefix]])

text \<open>Recovery of files that are cut somewhere.\<close>

lemma recover_cut:
  assumes files: "log_files (wal_disk v) (set (map fst L))" "sorted_wrt (<) (map fst L)" "\<forall>n\<in>set (map fst L). n < 2 ^ 64"
    and cut: "\<forall>(n, rs)\<in>set L. (\<forall>r\<in>set rs. sealed crc r) \<and>
      (\<exists>f. map_of (wal_disk v) (log_name n) = Some f \<and> prefix (content f) (encode_log rs))"
  shows "Wal_Recover crc (\<lambda>name. True) ms v =
    Some (Status_OK, crash_records (wal_disk v) L, max_seq_of (crash_records (wal_disk v) L) 0)"
proof -
  define k where "k n = length (case map_of (wal_disk v) (log_name n) of Some f \<Rightarrow> content f | None \<Rightarrow> [])" for n
  have names: "sort_key file_number (recover_files (wal_disk v)) = map (log_name \<circ> fst) L"
    using recover_files_log [OF files] by (simp add: comp_def)
  have one: "(\<forall>r\<in>set rs. sealed crc r) \<and> (\<exists>f. map_of (wal_disk v) (log_name n) = Some f \<and> content f = take (k n) (encode_log rs)) \<and>
      found_in (wal_disk v) (n, rs) = whole (k n) rs" if "(n, rs) \<in> set L" for n rs
    using cut that by (force simp: k_def found_in_def prefix_def)
  then have all: "\<forall>(n, rs)\<in>set L. (\<forall>r\<in>set rs. sealed crc r) \<and> True \<and>
      (\<exists>f. map_of (wal_disk v) (log_name n) = Some f \<and> content f = take (k n) (encode_log rs))" by blast
  have "crash_records (wal_disk v) L = concat (map (\<lambda>(n, rs). whole (k n) rs) L)"
    unfolding crash_records_def using one by (intro arg_cong [of _ _ concat] map_cong) auto
  with recover_loop_logs [OF all] show ?thesis by (simp add: Wal_Recover_def names)
qed

definition kept_files :: "disk \<Rightarrow> (nat \<times> wal_record list) list \<Rightarrow> (nat \<times> wal_record list) list" where
  "kept_files d L = filter (\<lambda>nr. map_of d (log_name (fst nr)) \<noteq> None) L"

lemma crash_records_kept [simp]: "crash_records d (kept_files d L) = crash_records d L"
  by (induction L) (auto simp: crash_records_def kept_files_def found_in_def)

lemma kept_files_facts:
  assumes log: "wal_log crc w' L" and d: "crash_between w w' d"
  shows "log_files d (set (map fst (kept_files d L)))" "sorted_wrt (<) (map fst (kept_files d L))"
    "\<forall>n\<in>set (map fst (kept_files d L)). n < 2 ^ 64"
    "\<forall>(n, rs)\<in>set (kept_files d L). (\<forall>r\<in>set rs. sealed crc r) \<and>
      (\<exists>f. map_of d (log_name n) = Some f \<and> prefix (content f) (encode_log rs))"
proof -
  note n = wal_log_numbers [OF log]
  have sub: "set (map fst d) \<subseteq> set (map fst (wal_disk w'))"
  proof
    fix name assume "name \<in> set (map fst d)"
    then obtain f where "(name, f) \<in> set d" by auto
    then obtain g where "map_of (wal_disk w') name = Some g" using d unfolding crash_between_def by blast
    then show "name \<in> set (map fst (wal_disk w'))" by (metis map_of_eq_None_iff option.distinct(1) set_map)
  qed
  have mem: "set (map fst (kept_files d L)) = {n \<in> set (map fst L). log_name n \<in> set (map fst d)}"
    by (auto simp: kept_files_def map_of_eq_None_iff image_iff)
  have "{name \<in> set (map fst d). is_log_file name} = {name \<in> {name \<in> set (map fst (wal_disk w')). is_log_file name}. name \<in> set (map fst d)}"
    using sub by blast
  also have "\<dots> = {name \<in> log_name ` set (map fst L). name \<in> set (map fst d)}"
    using n(3) by (simp only: log_files_def)
  also have "\<dots> = log_name ` set (map fst (kept_files d L))" unfolding mem by blast
  finally show "log_files d (set (map fst (kept_files d L)))"
    using d by (simp add: log_files_def crash_between_def)
  show "sorted_wrt (<) (map fst (kept_files d L))"
    using n(1) unfolding kept_files_def sorted_wrt_map by (rule sorted_wrt_filter)
  show "\<forall>n\<in>set (map fst (kept_files d L)). n < 2 ^ 64" using n(2) by (auto simp: kept_files_def)
  have "(\<forall>r\<in>set rs. sealed crc r) \<and> prefix (content f) (encode_log rs)"
    if nr: "(n, rs) \<in> set L" and f: "map_of d (log_name n) = Some f" for n rs f
  proof -
    obtain g where g: "map_of (wal_disk w') (log_name n) = Some g" "content g @ extra_of w' (log_name n) = encode_log rs"
      "\<forall>r\<in>set rs. sealed crc r" using file_bytes_content [OF log nr] by blast
    obtain h where "map_of (wal_disk w') (log_name n) = Some h" "prefix (content f) (content h @ extra_of w' (log_name n))"
      using d map_of_SomeD [OF f] unfolding crash_between_def by blast
    with g show ?thesis by simp
  qed
  then show "\<forall>(n, rs)\<in>set (kept_files d L). (\<forall>r\<in>set rs. sealed crc r) \<and>
      (\<exists>f. map_of d (log_name n) = Some f \<and> prefix (content f) (encode_log rs))" by (auto simp: kept_files_def)
qed

lemma crash_between_recover:
  assumes log: "wal_log crc w' L" and d: "crash_between w w' d" and e: "healthy e"
  shows "Wal_Recover crc (\<lambda>name. True) ms (Wal_new e opts d) =
    Some (Status_OK, crash_records d L, max_seq_of (crash_records d L) 0)"
proof (cases "kept_files d L = []")
  case True
  have "disk_log crc d []" using kept_files_facts(1) [OF log d] by (simp add: True disk_log_def)
  from reopen_recover [OF this e] have "Wal_Recover crc (\<lambda>name. True) ms (Wal_new e opts d) = Some (Status_OK, [], max_seq_of [] 0)"
    by (simp add: records_of_def)
  moreover have "crash_records d L = []" using crash_records_kept [of d L] by (simp add: True) (simp add: crash_records_def)
  ultimately show ?thesis by simp
next
  case False
  note k = kept_files_facts [OF log d]
  have "wal_disk (Wal_new e opts d) = d" using Wal_new_disk [OF k(1-3) _ e] False by simp
  then show ?thesis using recover_cut [of "Wal_new e opts d" "kept_files d L" crc ms] k by simp
qed

section \<open>Durable records\<close>

definition held :: "(nat \<times> wal_record list) list \<Rightarrow> Wal \<Rightarrow> bool" where
  "held L w \<longleftrightarrow> (\<forall>(n, rs)\<in>set L. \<exists>f. map_of (wal_disk w) (log_name n) = Some f \<and> prefix (encode_log rs) (synced_part f))"

text \<open>Durable bytes stay durable.\<close>

definition synced_grows :: "disk \<Rightarrow> disk \<Rightarrow> bool" where
  "synced_grows d d' \<longleftrightarrow> (\<forall>name f. map_of d name = Some f \<longrightarrow>
     (\<exists>f'. map_of d' name = Some f' \<and> prefix (synced_part f) (synced_part f')))"

lemma synced_grows_refl [simp]: "synced_grows d d"
  by (simp add: synced_grows_def)

lemma synced_grows_trans: "synced_grows d1 d2 \<Longrightarrow> synced_grows d2 d3 \<Longrightarrow> synced_grows d1 d3"
  unfolding synced_grows_def by (meson prefix_order.trans)

lemma synced_grows_disk:
  "synced_grows d (disk_append name bs d)" "synced_grows d (disk_fsync name d)" "synced_grows d (disk_create name d)"
  by (auto simp: synced_grows_def synced_part_def map_of_disk_append map_of_disk_fsync map_of_disk_create take_is_prefix)

lemma held_grows: "held L w \<Longrightarrow> synced_grows (wal_disk w) (wal_disk v) \<Longrightarrow> held L v"
  unfolding held_def synced_grows_def by (fast intro: prefix_order.trans)

lemma synced_grows_Sync: "synced_grows (wal_disk w) (wal_disk (snd (Wal_Sync e w)))"
  by (auto simp: Wal_Sync_def Let_def intro: synced_grows_trans [OF synced_grows_disk(1) synced_grows_disk(2)] synced_grows_disk)

lemma synced_grows_RotateLog: "synced_grows (wal_disk w) (wal_disk (snd (Wal_RotateLog e w)))"
  by (auto simp: Wal_RotateLog_def OpenNewLogFile_def close_stream_def Let_def
      intro: synced_grows_trans [OF synced_grows_disk(1) synced_grows_disk(3)] synced_grows_disk)

lemma log_run_synced:
  assumes "log_run crc ok w rs v" and log: "wal_log crc w L" and ok: "\<forall>e. ok e \<longrightarrow> healthy e"
  shows "synced_grows (wal_disk w) (wal_disk v)"
  using assms(1)
proof (induction rule: log_run.induct)
  case (append rs v e key val kind seq s v')
  obtain M where M: "wal_log crc v M" using log_run_log [OF append.hyps(1) log ok] by blast
  obtain u where u: "wal_disk u = wal_disk (if rotates v key val then snd (Wal_RotateLog e v) else v)"
      "v' = (if wal_sync_on_write (wal_options v) then snd (Wal_Sync e (FlushBuffer u)) else u)"
    using WriteRecord_log [OF M _ append.hyps(3), of e kind seq] append.hyps(2,4,5) ok by auto
  have "synced_grows (wal_disk v) (wal_disk u)" using u(1) by (simp add: synced_grows_RotateLog)
  moreover have "synced_grows (wal_disk u) (wal_disk v')"
    using synced_grows_Sync [of "FlushBuffer u" e] by (simp add: u(2))
  ultimately show ?case using append.IH synced_grows_trans by blast
next
  case (flush rs v)
  then show ?case by (simp add: Wal_Flush_def)
qed (auto intro: synced_grows_trans synced_grows_Sync synced_grows_RotateLog)

lemma fully_durable_held:
  assumes log: "wal_log crc w L" and d: "fully_durable w"
  shows "held L w"
  unfolding held_def
proof clarify
  fix n rs assume "(n, rs) \<in> set L"
  then obtain f where f: "map_of (wal_disk w) (log_name n) = Some f" "content f @ extra_of w (log_name n) = encode_log rs"
    using file_bytes_content [OF log] by blast
  moreover have "extra_of w (log_name n) = []" "length (content f) \<le> durable f"
    using d map_of_SomeD [OF f(1)] by (auto simp: fully_durable_def extra_of_def)
  ultimately show "\<exists>f. map_of (wal_disk w) (log_name n) = Some f \<and> prefix (encode_log rs) (synced_part f)"
    by (auto simp: synced_part_def)
qed

lemma found_in_held:
  assumes "held L w" "crash_between w w' d" "(n, rs) \<in> set L"
  shows "prefix rs (found_in d (n, rs @ xs))"
proof -
  obtain g where g: "map_of (wal_disk w) (log_name n) = Some g" "prefix (encode_log rs) (synced_part g)"
    using assms(1,3) unfolding held_def by blast
  show ?thesis
  proof (cases "synced_part g = []")
    case True
    then have "rs = []" using g(2) by (cases rs) (auto simp: kHeaderSize_def)
    then show ?thesis by simp
  next
    case False
    then obtain f where "map_of d (log_name n) = Some f" "prefix (synced_part g) (content f)"
      using assms(2) map_of_SomeD [OF g(1)] unfolding crash_between_def by blast
    moreover from this(2) g(2) have "length (encode_log rs) \<le> length (content f)"
      by (meson prefix_length_le prefix_order.trans)
    ultimately show ?thesis by (simp add: found_in_def whole_contains)
  qed
qed

lemma held_survives:
  assumes "held L w" "crash_between w w' d" "grown L L'"
  shows "prefix (records_of L) (crash_records d L')"
proof -
  obtain K n rs xs M where L: "L = K @ [(n, rs)]" "L' = K @ (n, rs @ xs) # M" using assms(3) by (auto simp: grown_def)
  have "found_in d nr = snd nr" if "nr \<in> set K" for nr
    using found_in_held [OF assms(1,2), of "fst nr" "snd nr" "[]"] found_in_prefix [of d nr] that
    by (simp add: L(1) prefix_order.antisym)
  then have "map (found_in d) K = map snd K" by simp
  then have "crash_records d L' = concat (map snd K) @ found_in d (n, rs @ xs) @ crash_records d M"
    by (simp only: crash_records_def L(2) map_append concat_append list.map concat.simps append_assoc)
  moreover have "prefix rs (found_in d (n, rs @ xs))" by (rule found_in_held [OF assms(1,2)]) (simp add: L(1))
  ultimately show ?thesis by (auto simp: records_of_def L(1) prefix_def)
qed

text \<open>What a crash leaves when everything before the last calls is durable.\<close>

lemma prefixes_equal:
  assumes "\<forall>x\<in>set xs. prefix (f x) (g x)" and "concat (map f xs) = concat (map g xs)"
  shows "\<forall>x\<in>set xs. f x = g x"
  using assms
proof (induction xs)
  case (Cons x xs)
  obtain z where z: "g x = f x @ z" using Cons.prems(1) by (auto simp: prefix_def)
  have "length (concat (map f xs)) \<le> length (concat (map g xs))"
    using Cons.prems(1) by (induction xs) (auto simp: add_mono prefix_length_le)
  moreover have "concat (map f xs) = z @ concat (map g xs)" using Cons.prems(2) z by simp
  ultimately have "z = []" by auto
  then show ?case using Cons z by simp
qed simp

definition torn :: "(bytes \<Rightarrow> u32) \<Rightarrow> disk \<Rightarrow> bool" where
  "torn crc d \<longleftrightarrow> \<not> (\<exists>L. disk_log crc d L)"

lemma all_found_disk_log:
  assumes log: "wal_log crc w' L" and d: "crash_between w w' d" and all: "crash_records d L = records_of L"
  shows "disk_log crc d (kept_files d L)"
proof -
  have eq: "\<forall>nr\<in>set L. found_in d nr = snd nr"
    using prefixes_equal [of L "found_in d" snd] all found_in_prefix by (simp add: crash_records_def records_of_def)
  note k = kept_files_facts [OF log d]
  have "map_option content (map_of d (log_name n)) = Some (encode_log rs)" if nr: "(n, rs) \<in> set (kept_files d L)" for n rs
  proof -
    obtain f where f: "map_of d (log_name n) = Some f" "prefix (content f) (encode_log rs)" using k(4) nr by blast
    have "whole (length (content f)) rs = rs" using eq nr f(1) by (auto simp: kept_files_def found_in_def)
    then have "length (encode_log rs) \<le> length (content f)" by (rule whole_everything)
    then have "content f = encode_log rs" using f(2) by (auto simp: prefix_def)
    then show ?thesis using f(1) by simp
  qed
  with k show ?thesis by (auto simp: disk_log_def)
qed

lemma crash_log_durable:
  assumes log: "wal_log crc w L" and run: "log_run crc ok w r w'" "length r \<le> 1" and ok: "\<forall>e. ok e \<longrightarrow> healthy e"
    and held: "held L w" and d: "crash_between w w' d" and e: "healthy e"
  shows "\<exists>k. (\<forall>ms. Wal_Recover crc (\<lambda>name. True) ms (Wal_new e opts d) =
      Some (Status_OK, records_of L @ take k r, max_seq_of (records_of L @ take k r) 0)) \<and>
    k \<le> length r \<and> (torn crc d \<longrightarrow> k < length r) \<and>
    (\<not> torn crc d \<longrightarrow> (\<exists>M. disk_log crc d M \<and> records_of M = records_of L @ take k r))"
proof -
  obtain L' where L': "wal_log crc w' L'" "records_of L' = records_of L @ r" "grown L L'"
    using log_run_grown [OF run(1) log ok] by blast
  define X where "X = crash_records d L'"
  note rec = crash_between_recover [OF L'(1) d, folded X_def]
  obtain Z where Z: "X = records_of L @ Z" using held_survives [OF held d L'(3)] by (auto simp: X_def prefix_def)
  have "subseq Z r" using crash_records_subseq [of d L'] by (simp add: L'(2) Z subseq_append' flip: X_def)
  have "Z = [] \<or> Z = r"
  proof (cases "length Z = length r")
    case False
    then have "length Z < length r" using list_emb_length [OF \<open>subseq Z r\<close>] by simp
    then show ?thesis using run(2) by (cases Z) simp_all
  qed (use \<open>subseq Z r\<close> subseq_same_length in blast)
  then obtain k where k: "Z = take k r" "k = 0 \<or> k = length r" using take_0 take_all [OF order_refl] by metis
  have whole: "\<exists>M. disk_log crc d M \<and> records_of M = X" if t: "\<not> torn crc d"
  proof -
    obtain M where M: "disk_log crc d M" using t by (auto simp: torn_def)
    from reopen_recover [OF M e, of 0 opts] rec [OF e, of 0 opts] M show ?thesis by auto
  qed
  moreover have "\<not> torn crc d" if "k = length r"
    using all_found_disk_log [OF L'(1) d] that k(1) by (auto simp: torn_def L'(2) Z simp flip: X_def)
  moreover have "k \<le> length r" using k(2) by auto
  ultimately show ?thesis using rec [OF e] k(2) by (intro exI [of _ k]) (auto simp: Z k(1) dest: whole)
qed

definition synced :: "disk \<Rightarrow> bool" where
  "synced d \<longleftrightarrow> (\<forall>(name, f)\<in>set d. length (content f) \<le> durable f)"

lemma crash_between_synced: "crash_between w w' d \<Longrightarrow> synced d"
  by (auto simp: crash_between_def synced_def)

lemma Wal_new_durable:
  assumes d: "disk_log crc d L" "synced d" and e: "healthy e"
  shows "fully_durable (Wal_new e opts d)"
  using Wal_new_log [OF d(1) e, of opts] d(2) by (auto simp: fully_durable_def synced_def split: if_splits)

end
