(* ===== verification/Wal_Actions.thy ===== *)
theory Wal_Actions
  imports Wal_Reopen
begin

text \<open>
  Why \<open>crash_between\<close> covers the crashes inside a call: the calls of the log are sequences of
  elementary actions, and what a crash leaves between two of them is what \<open>crash_between\<close> allows.
\<close>

section \<open>The moments of a call\<close>

text \<open>
  The elementary actions a call of the log consists of, as long as no system call fails: copying into the buffer,
  handing the buffer to the stream and the stream's bytes to the operating system, \<open>fsync\<close>, starting a file,
  and changes of the counters and flags.
\<close>

inductive wal_action :: "Wal \<Rightarrow> Wal \<Rightarrow> bool" where
  copy: "buffer_offset w + length bs \<le> length (write_buffer w) \<Longrightarrow>
    wal_action w (w\<lparr>write_buffer := take (buffer_offset w) (write_buffer w) @ bs @ drop (buffer_offset w + length bs) (write_buffer w),
      buffer_offset := buffer_offset w + length bs\<rparr>)"
| flush: "file_good w \<Longrightarrow> wal_action w (FlushBuffer w)"
| store: "wal_action w (w\<lparr>pending := drop n (pending w),
      wal_disk := disk_append (basename (current_filename w)) (take n (pending w)) (wal_disk w)\<rparr>)"
| fsync: "wal_action w (w\<lparr>wal_disk := disk_fsync (basename (current_filename w)) (wal_disk w)\<rparr>)"
| create: "pending w = [] \<Longrightarrow> buffer_offset w = 0 \<Longrightarrow>
    wal_action w (w\<lparr>current_filename := path, wal_disk := disk_create (basename path) (wal_disk w)\<rparr>)"
| count: "pending v = pending w \<Longrightarrow> write_buffer v = write_buffer w \<Longrightarrow> buffer_offset v = buffer_offset w \<Longrightarrow>
    current_filename v = current_filename w \<Longrightarrow> wal_disk v = wal_disk w \<Longrightarrow> wal_action w v"

definition wal_extends :: "Wal \<Rightarrow> Wal \<Rightarrow> bool" where
  "wal_extends w v \<longleftrightarrow> (\<forall>name f. map_of (wal_disk w) name = Some f \<longrightarrow> (\<exists>g. map_of (wal_disk v) name = Some g \<and>
     prefix (synced_part f) (synced_part g) \<and> prefix (content f @ extra_of w name) (content g @ extra_of v name)))"

lemma wal_extends_refl: "wal_extends w w"
  by (auto simp: wal_extends_def)

lemma wal_extends_trans: "wal_extends w v \<Longrightarrow> wal_extends v u \<Longrightarrow> wal_extends w u"
  unfolding wal_extends_def by (meson prefix_order.trans)

lemma wal_action_extends: "wal_action w v \<Longrightarrow> wal_extends w v"
proof (induction rule: wal_action.induct)
  case (copy w bs)
  then show ?case by (auto simp: wal_extends_def extra_of_def unwritten_def)
next
  case (flush w)
  then show ?case by (auto simp: wal_extends_def extra_of_def unwritten_def FlushBuffer_def)
next
  case (store w n)
  have "prefix (pending w @ x) (take n (pending w) @ drop n (pending w) @ x)" for x
    by (metis append_assoc append_take_drop_id prefix_order.order_refl)
  then show ?case by (auto simp: wal_extends_def extra_of_def unwritten_def map_of_disk_append synced_part_def)
next
  case (fsync w)
  then show ?case by (auto simp: wal_extends_def extra_of_def unwritten_def map_of_disk_fsync synced_part_def take_is_prefix)
next
  case (create w path)
  then show ?case by (auto simp: wal_extends_def extra_of_def unwritten_def map_of_disk_create)
next
  case (count v w)
  then show ?case by (auto simp: wal_extends_def extra_of_def unwritten_def)
qed

lemma wal_actions_extend: "wal_action\<^sup>*\<^sup>* w v \<Longrightarrow> wal_extends w v"
  by (induction rule: rtranclp_induct) (auto intro: wal_extends_refl wal_extends_trans wal_action_extends)

lemma prefix_take: "m \<le> n \<Longrightarrow> prefix (take m xs) (take n xs @ ys)"
  by (metis min.absorb1 prefix_prefix take_is_prefix take_take)

text \<open>A crash between two actions is covered by \<open>crash_between\<close>.\<close>

lemma crash_disk_between:
  assumes "wal_extends w u" "wal_extends u w'" "distinct (map fst (wal_disk w))" "distinct (map fst (wal_disk u))"
  shows "crash_between w w' (crash_disk kept u)"
  unfolding crash_between_def
proof (intro conjI ballI; clarify?)
  show "distinct (map fst (crash_disk kept u))" using assms(4) by simp
next
  fix name f assume "(name, f) \<in> set (crash_disk kept u)"
  then obtain g where g: "map_of (wal_disk u) name = Some g" "f = survive (kept name) (extra_of u name) g"
    using assms(4) by (auto simp: crash_disk_def)
  then obtain h where "map_of (wal_disk w') name = Some h" "prefix (content g @ extra_of u name) (content h @ extra_of w' name)"
    using assms(2) by (fastforce simp: wal_extends_def)
  moreover have "prefix (content f) (content g @ extra_of u name)" by (simp add: g(2) survive_def Let_def take_is_prefix del: take_append)
  ultimately show "durable f = length (content f) \<and>
      (\<exists>g. map_of (wal_disk w') name = Some g \<and> prefix (content f) (content g @ extra_of w' name))"
    using prefix_order.trans by (auto simp: g(2) survive_def Let_def simp del: take_append)
next
  fix name g assume "(name, g) \<in> set (wal_disk w)" 
  then have "map_of (wal_disk w) name = Some g" using assms(3) by simp
  then obtain h where h: "map_of (wal_disk u) name = Some h" "prefix (synced_part g) (synced_part h)"
    using assms(1) by (fastforce simp: wal_extends_def)
  have "prefix (synced_part h) (content (survive (kept name) (extra_of u name) h))"
    using prefix_take [of "durable h" "max (durable h) (kept name)" "content h"]
    by (simp add: survive_def synced_part_def Let_def)
  then show "\<exists>f. map_of (crash_disk kept u) name = Some f \<and> prefix (synced_part g) (content f)"
    using h prefix_order.trans by (auto simp: map_of_crash_disk)
qed

text \<open>The calls of the log are made of these actions.\<close>

lemma actions_trans: "wal_action\<^sup>*\<^sup>* u v \<Longrightarrow> wal_action\<^sup>*\<^sup>* v w \<Longrightarrow> wal_action\<^sup>*\<^sup>* u w"
  by (rule rtranclp_trans)

lemma count_action:
  "pending v = pending w \<Longrightarrow> write_buffer v = write_buffer w \<Longrightarrow> buffer_offset v = buffer_offset w \<Longrightarrow>
    current_filename v = current_filename w \<Longrightarrow> wal_disk v = wal_disk w \<Longrightarrow> wal_action\<^sup>*\<^sup>* w v"
  by (blast intro: wal_action.count)

lemma store_all: 
  "wal_action w (w\<lparr>pending := [], wal_disk := disk_append (basename (current_filename w)) (pending w) (wal_disk w)\<rparr>)"
  using wal_action.store [of w "length (pending w)"] by simp

lemma Sync_actions:
  assumes "file_open w" "file_good w" and e: "reliable e"
  shows "wal_action\<^sup>*\<^sup>* w (snd (Wal_Sync e w))"
proof -
  have h: "healthy e" "fd_ok e" "fsync_ok e" using e by (simp_all add: reliable_def)
  define u where "u = FlushBuffer w"
  have u: "file_open u" "file_good u" using assms by (simp_all add: u_def FlushBuffer_def)
  define v where "v = u\<lparr>pending := [], wal_disk := disk_append (basename (current_filename u)) (pending u) (wal_disk u)\<rparr>"
  have "wal_action w u" unfolding u_def using assms(2) by (rule wal_action.flush)
  moreover have "wal_action u v" unfolding v_def by (rule store_all)
  moreover have "wal_action v (v\<lparr>wal_disk := disk_fsync (basename (current_filename v)) (wal_disk v)\<rparr>)" by (rule wal_action.fsync)
  moreover have "wal_action\<^sup>*\<^sup>* (v\<lparr>wal_disk := disk_fsync (basename (current_filename v)) (wal_disk v)\<rparr>) (snd (Wal_Sync e w))"
    using assms(1) u h
    by (intro count_action) (simp_all add: Wal_Sync_def Let_def healthy_simps [OF h(1)] v_def flip: u_def)
  ultimately show ?thesis by (meson converse_rtranclp_into_rtranclp)
qed

lemma RotateLog_actions:
  assumes "file_open w" "file_good w" "healthy e"
  shows "wal_action\<^sup>*\<^sup>* w (snd (Wal_RotateLog e w))"
proof -
  define u where "u = FlushBuffer w"
  have u: "file_open u" "file_good u" "buffer_offset u = 0" using assms by (simp_all add: u_def FlushBuffer_def)
  define v where "v = u\<lparr>pending := [], wal_disk := disk_append (basename (current_filename u)) (pending u) (wal_disk u)\<rparr>"
  define path where "path = current_filename (snd (Wal_RotateLog e w))"
  have "wal_action w u" unfolding u_def using assms(2) by (rule wal_action.flush)
  moreover have "wal_action u v" unfolding v_def by (rule store_all)
  moreover have "wal_action v (v\<lparr>current_filename := path, wal_disk := disk_create (basename path) (wal_disk v)\<rparr>)"
    using u(3) by (intro wal_action.create) (simp_all add: v_def)
  moreover have "wal_action\<^sup>*\<^sup>* (v\<lparr>current_filename := path, wal_disk := disk_create (basename path) (wal_disk v)\<rparr>) (snd (Wal_RotateLog e w))"
    using u healthy_simps [OF assms(3)]
    by (intro count_action)
      (simp_all add: path_def Wal_RotateLog_def OpenNewLogFile_def close_stream_def Let_def v_def flip: u_def)
  ultimately show ?thesis by (meson converse_rtranclp_into_rtranclp)
qed

lemma buffer_piece_actions:
  assumes "buffer_piece bs w = Some v" "file_open w" "file_good w"
  shows "wal_action\<^sup>*\<^sup>* w v" "file_open v" "file_good v"
proof -
  define u where "u = (if buffer_offset w + length bs > length (write_buffer w) then FlushBuffer w else w)"
  have u: "wal_action\<^sup>*\<^sup>* w u" "file_open u" "file_good u"
    using assms(2,3) wal_action.flush [of w] by (auto simp: u_def FlushBuffer_def)
  have v: "v = u \<or> buffer_offset u + length bs \<le> length (write_buffer u) \<and> 
      v = u\<lparr>write_buffer := take (buffer_offset u) (write_buffer u) @ bs @ drop (buffer_offset u + length bs) (write_buffer u),
        buffer_offset := buffer_offset u + length bs\<rparr>"
    using assms(1) unfolding buffer_piece_def u_def [symmetric] Let_def by (auto split: if_splits)
  then show "wal_action\<^sup>*\<^sup>* w v" using u(1) wal_action.copy [of u bs] by (metis rtranclp.rtrancl_into_rtrancl)
  show "file_open v" "file_good v" using v u(2,3) by auto
qed

lemma WriteRecord_actions:
  assumes log: "wal_log crc w L" and e: "reliable e" and fit: "fits w key val" and room: "current_file_number w + 1 \<noteq> 0"
    and r: "WriteRecord crc e kind key val seq w = Some (s, w')"
  shows "wal_action\<^sup>*\<^sup>* w w'"
proof -
  have h: "healthy e" using e by (simp add: reliable_def)
  note o = stream_facts(1,2) [OF log]
  define v where "v = (if rotates w key val then snd (Wal_RotateLog e w) else w)"
  have v: "wal_action\<^sup>*\<^sup>* w v" "file_open v" "file_good v" "(if rotates w key val then Wal_RotateLog e w else (Status_OK, w)) = (Status_OK, v)"
    using RotateLog_actions [OF o h] RotateLog_log [OF log h room] o stream_facts(1,2) unfolding v_def by auto
  have small: "\<not> 2 ^ 32 - 1 < length key" "\<not> 2 ^ 32 - 1 < length val"
    using fit by (simp_all add: fits_def max_field)
  define hd where "hd = new_header crc kind seq (now e) key val"
  obtain a b c where p: "buffer_piece (header_prefix hd @ EncodeFixed32 (rec_crc32 hd)) v = Some a" "buffer_piece key a = Some b" "buffer_piece val b = Some c"
    and w': "w' = (let u = c\<lparr>current_file_size := current_file_size c + (kHeaderSize + length key + length val),
        total_writes := total_writes c + 1, total_bytes_written := total_bytes_written c + of_nat (kHeaderSize + length key + length val)\<rparr>
      in if wal_sync_on_write (wal_options u) then snd (Wal_Sync e (FlushBuffer u)) else u)"
    using r small v(4) by (auto simp: WriteRecord_def Let_def hd_def rotates_def simp del: of_nat_add split: bind_splits)
  note a = buffer_piece_actions [OF p(1) v(2,3)]
  note b = buffer_piece_actions [OF p(2) a(2,3)]
  note c = buffer_piece_actions [OF p(3) b(2,3)]
  define u where "u = c\<lparr>current_file_size := current_file_size c + (kHeaderSize + length key + length val),
    total_writes := total_writes c + 1, total_bytes_written := total_bytes_written c + of_nat (kHeaderSize + length key + length val)\<rparr>"
  have u: "wal_action\<^sup>*\<^sup>* c u" "file_open u" "file_good u" using c(2,3) by (auto simp: u_def intro!: count_action)
  have "wal_action\<^sup>*\<^sup>* u (snd (Wal_Sync e (FlushBuffer u)))"
    using wal_action.flush [OF u(3)] Sync_actions [of "FlushBuffer u" e] u(2,3) e
    by (simp add: FlushBuffer_def converse_rtranclp_into_rtranclp)
  moreover have "w' = (if wal_sync_on_write (wal_options u) then snd (Wal_Sync e (FlushBuffer u)) else u)"
    unfolding w' Let_def u_def ..
  ultimately have "wal_action\<^sup>*\<^sup>* u w'" by simp
  with v(1) a(1) b(1) c(1) u(1) show ?thesis by (meson rtranclp_trans)
qed

lemma log_run_actions:
  assumes "log_run crc reliable w rs v" and log: "wal_log crc w L"
  shows "wal_action\<^sup>*\<^sup>* w v"
  using assms(1)
proof (induction rule: log_run.induct)
  case (append rs v e key val kind seq s v')
  then obtain M where "wal_log crc v M" using log_run_log [OF append.hyps(1) log] by (auto simp: reliable_def)
  from WriteRecord_actions [OF this append.hyps(2-5)] append.IH show ?case by simp
next
  case (flush rs v)
  then obtain M where "wal_log crc v M" using log_run_log [OF flush.hyps(1) log] by (auto simp: reliable_def)
  from wal_action.flush [OF stream_facts(2) [OF this]] flush.IH show ?case by (simp add: Wal_Flush_def)
next
  case (sync rs v e)
  then obtain M where "wal_log crc v M" using log_run_log [OF sync.hyps(1) log] by (auto simp: reliable_def)
  from Sync_actions [OF stream_facts(1,2) [OF this] sync.hyps(2)] sync.IH show ?case by simp
next
  case (rotate rs v e)
  then obtain M where "wal_log crc v M" using log_run_log [OF rotate.hyps(1) log] by (auto simp: reliable_def)
  from RotateLog_actions [OF stream_facts(1,2) [OF this], of e] rotate show ?case by (auto simp: reliable_def)
qed simp

text \<open>So a crash at any moment of a run is covered, and a crash after it as well.\<close>

lemma crash_inside:
  assumes "wal_log crc w L" "wal_action\<^sup>*\<^sup>* w u" "wal_action\<^sup>*\<^sup>* u w'" "distinct (map fst (wal_disk u))"
  shows "crash_between w w' (crash_disk kept u)"
  using crash_disk_between [OF wal_actions_extend wal_actions_extend] assms(2-4) wal_log_distinct [OF assms(1)] by blast

lemma crash_after:
  assumes run: "log_run crc reliable w rs v" and log: "wal_log crc w L"
  shows "crash_between w v (crash_disk kept v)"
proof -
  obtain M where "wal_log crc v M" using log_run_log [OF run log] by (auto simp: reliable_def)
  with crash_inside [OF log log_run_actions [OF run log]] wal_log_distinct show ?thesis by blast
qed

end
