(* ===== verification/Wal_Properties.thy ===== *)
theory Wal_Properties
  imports Wal_Actions
begin

text \<open>
  The properties of the write-ahead log, stated over its operations: a log is opened on an empty
  directory, used, and reopened; \<open>Recover\<close> delivers what was written.
\<close>

text \<open>
  C8. A log that was opened on an empty directory, written with working system calls and destroyed, is recovered completely and in order: \<open>Recover\<close> on the reopened directory delivers exactly the records written, across all rotated files, and the highest sequence number.
\<close>

theorem wal_shutdown_recovers:
  assumes "log_run crc healthy (Wal_new e opts []) rs w" and "healthy e" "healthy e1" "healthy e2"
  shows "Wal_Recover crc (\<lambda>name. True) ms (Wal_new e2 opts2 (wal_disk (Wal_destroy e1 w))) =
    Some (Status_OK, rs, max_seq_of rs 0)"
proof -
  obtain L where L: "wal_log crc w L" "records_of L = rs" using run_from_new [OF assms(2,1)] by blast
  from reopen_recover [OF destroy_disk [OF L(1) assms(3)] assms(4)] show ?thesis by (simp add: L(2))
qed

text \<open>
  C6. With \<open>sync_on_write\<close>, starting from a directory whose log files consist of whole records that
  are durable (an empty one, or one that earlier runs left), and as long as no system call fails and every
  field fits into the write buffer: after a crash at any moment, also inside a call, recovery delivers the records the
  log was opened with, every record whose \<open>WriteRecord\<close> returned, and besides at most the one record that was
  being written.  Unless the crash tore that record, the directory is again one to start from.
\<close>

theorem wal_sync_on_write_durable:
  assumes "wal_sync_on_write opts" "healthy e" "healthy e2" and "disk_log crc d0 L" "synced d0"
    and "log_run crc reliable (Wal_new e opts d0) rs w"
    and "log_run crc reliable w r w'" "length r \<le> 1" and "crash_between w w' d"
  shows "\<exists>k. Wal_Recover crc (\<lambda>name. True) ms (Wal_new e2 opts2 d) =
      Some (Status_OK, records_of L @ rs @ take k r, max_seq_of (records_of L @ rs @ take k r) 0) \<and>
    k \<le> length r \<and> synced d \<and> (torn crc d \<longrightarrow> k < length r) \<and>
    (\<not> torn crc d \<longrightarrow> (\<exists>M. disk_log crc d M \<and> records_of M = records_of L @ rs @ take k r))"
proof -
  have ok: "\<forall>e. reliable e \<longrightarrow> healthy e" by (simp add: reliable_def)
  obtain L0 where L0: "wal_log crc (Wal_new e opts d0) L0" "records_of L0 = records_of L" "wal_options (Wal_new e opts d0) = opts"
    using Wal_new_log [OF assms(4,2)] by blast
  obtain L1 where L1: "wal_log crc w L1" "records_of L1 = records_of L @ rs"
    using log_run_log [OF assms(6) L0(1) ok] L0(2) by auto
  have "fully_durable w" using log_run_durable [OF assms(6) L0(1) Wal_new_durable [OF assms(4,5,2)]] L0(3) assms(1) by simp
  from crash_log_durable [OF L1(1) assms(7,8) ok fully_durable_held [OF L1(1) this] assms(9,3), of opts2]
  show ?thesis using crash_between_synced [OF assms(9)] by (auto simp: L1(2))
qed

text \<open>
  C11. Starting from a directory whose log files consist of whole records (an empty one, or one left by earlier runs
  that tore no record), and as long as writing does not fail and every field fits into the write buffer: after a
  crash at any moment, also inside a call, recovery succeeds.  It never reports corruption, delivers no record that
  was not written and keeps the order; if the log has a single file, it delivers a prefix of what was written.
\<close>

theorem wal_crash_prefix:
  assumes "healthy e" "healthy e2" "disk_log crc d0 L" and "log_run crc healthy (Wal_new e opts d0) rs w"
    and "log_run crc healthy w r w'" and "crash_between w w' d"
  shows "\<exists>rs'. Wal_Recover crc (\<lambda>name. True) ms (Wal_new e2 opts2 d) = Some (Status_OK, rs', max_seq_of rs' 0) \<and>
    subseq rs' (records_of L @ rs @ r) \<and>
    (length (recover_files (wal_disk w')) = 1 \<longrightarrow> prefix rs' (records_of L @ rs @ r))"
proof -
  have ok: "\<forall>e. healthy e \<longrightarrow> healthy e" by simp
  obtain L0 where L0: "wal_log crc (Wal_new e opts d0) L0" "records_of L0 = records_of L"
    using Wal_new_log [OF assms(3,1)] by blast
  obtain L1 where L1: "wal_log crc w L1" "records_of L1 = records_of L @ rs"
    using log_run_log [OF assms(4) L0(1) ok] L0(2) by auto
  obtain L2 where L2: "wal_log crc w' L2" "records_of L2 = records_of L @ rs @ r"
    using log_run_log [OF assms(5) L1(1) ok] L1(2) by auto
  note rec = crash_between_recover [OF L2(1) assms(6,2), of ms opts2]
  have "prefix (crash_records d L2) (records_of L2)" if one: "length (recover_files (wal_disk w')) = 1"
  proof -
    note n = wal_log_numbers [OF L2(1)]
    have "length (map log_name (map fst L2)) = 1"
      using recover_files_log [OF n(3,1,2)] one by (metis length_sort)
    then obtain nr where "L2 = [nr]" by (auto simp: length_Suc_conv)
    then show ?thesis by (simp add: crash_records_def records_of_def found_in_prefix)
  qed
  then show ?thesis using rec crash_records_subseq [of d L2] by (simp add: L2(2))
qed

text \<open>Corruption.\<close>

lemma read_file_mismatch:
  assumes rs: "\<forall>r\<in>set rs. sealed crc r" and bad: "read_record crc bs = Some stop" "\<forall>h k v t. stop \<noteq> ReadRecord h k v t"
  shows "read_file crc (encode_log rs @ bs) = Some (rs, stop)"
proof -
  have "read_file crc bs = Some ([], stop)"
    using bad by (subst read_file.simps) (cases stop, auto)
  then show ?thesis by (simp add: read_file_append [OF rs])
qed


text \<open>A record whose header promises \<open>n\<close> bytes takes the next \<open>n\<close> bytes of the file, whatever they are.\<close>

lemma read_record_header:
  assumes "rec_key_size h \<le> kMaxFieldSize" "rec_value_size h \<le> kMaxFieldSize"
    and "unat (rec_key_size h) + unat (rec_value_size h) \<le> length body"
    and "CalculateCRC32 crc (header_prefix h @ take (unat (rec_key_size h) + unat (rec_value_size h)) body) \<noteq> rec_crc32 h"
  shows "read_record crc (header_prefix h @ EncodeFixed32 (rec_crc32 h) @ body) = Some CrcMismatch"
proof -
  have hd: "take kHeaderSize (header_prefix h @ EncodeFixed32 (rec_crc32 h) @ body) = header_prefix h @ EncodeFixed32 (rec_crc32 h)"
    and tl: "drop kHeaderSize (header_prefix h @ EncodeFixed32 (rec_crc32 h) @ body) = body"
    by (simp_all add: kHeaderSize_def)
  have dec: "decode_header (header_prefix h @ EncodeFixed32 (rec_crc32 h)) = Some h"
    using decode_header_prefix [of h "[]"] by simp
  have "\<not> length (header_prefix h @ EncodeFixed32 (rec_crc32 h) @ body) < kHeaderSize" by (simp add: kHeaderSize_def)
  moreover have "take (kHeaderSize - 4) (header_prefix h @ EncodeFixed32 (rec_crc32 h)) = header_prefix h"
    by (simp add: kHeaderSize_def)
  moreover have "\<not> kMaxFieldSize < rec_key_size h" "\<not> kMaxFieldSize < rec_value_size h" using assms by (simp_all add: not_less)
  moreover have "take (unat (rec_key_size h)) body @ take (unat (rec_value_size h)) (drop (unat (rec_key_size h)) body) =
      take (unat (rec_key_size h) + unat (rec_value_size h)) body" by (simp add: take_add)
  ultimately show ?thesis
    using assms(3,4) unfolding read_record_def hd tl by (simp add: Let_def dec)
qed

text \<open>
  C21. If a log file holds a complete record whose CRC does not match, \<open>Recover\<close> delivers the records before it, returns \<open>Corruption\<close> naming the file, and leaves \<open>*max_sequence\<close> alone.
\<close>

theorem wal_rejects_corruption:
  assumes "\<forall>r\<in>set rs. sealed crc r"
    and "rec_key_size h = of_nat (length key)" "rec_value_size h = of_nat (length val)"
    and "length key \<le> unat kMaxFieldSize" "length val \<le> unat kMaxFieldSize"
    and "CalculateCRC32 crc (header_prefix h @ key @ val) \<noteq> rec_crc32 h"
    and "wal_disk w = [(log_name 0, f)]" "content f = encode_log rs @ encode_record (h, key, val) @ tail"
  shows "Wal_Recover crc (\<lambda>name. True) ms w =
    Some (Status_Corruption (''WAL CRC32 mismatch in '' @ entry_path (wal_dir (wal_options w)) (log_name 0)), rs, ms)"
proof -
  have n: "length key < 2 ^ 32" "length val < 2 ^ 32" using assms(4,5) by (simp_all add: max_field)
  then have sz: "unat (rec_key_size h) = length key" "unat (rec_value_size h) = length val"
    using assms(2,3) by (simp_all add: unsigned_of_nat take_bit_nat_eq_self)
  have "read_record crc (header_prefix h @ EncodeFixed32 (rec_crc32 h) @ key @ val @ tail) = Some CrcMismatch"
    using assms(4-6) sz by (intro read_record_header) (simp_all add: word_le_nat_alt)
  from read_file_mismatch [OF assms(1) this] have "read_file crc (content f) = Some (rs, CrcMismatch)"
    by (simp add: assms(8))
  moreover have "recover_files (wal_disk w) = [log_name 0]" by (simp add: assms(7) recover_files_def)
  ultimately show ?thesis by (simp add: Wal_Recover_def assms(7) Let_def)
qed

text \<open>
  The log reopens a file with a torn last record in append mode. Unless its CRC happens to match, the torn record swallows what follows: no record written after the restart into that file is ever delivered, whatever is appended.
\<close>

theorem wal_torn_tail_hides_later_records:
  assumes "\<forall>r\<in>set rs. sealed crc r" and "sealed crc (h, key, val)"
    and "wal_disk w = [(log_name 0, f)]"
    and "content f = encode_log rs @ take n (encode_record (h, key, val)) @ tail"
    and "kHeaderSize \<le> n" "n < length (encode_record (h, key, val))"
    and "CalculateCRC32 crc (header_prefix h @ take (length key + length val)
      (drop kHeaderSize (take n (encode_record (h, key, val))) @ tail)) \<noteq> rec_crc32 h"
  shows "\<exists>s m. Wal_Recover crc (\<lambda>name. True) ms w = Some (s, rs, m)"
proof -
  define q where "q = drop kHeaderSize (take n (encode_record (h, key, val)))"
  define body where "body = q @ tail"
  have hp: "take kHeaderSize (take n (encode_record (h, key, val))) = header_prefix h @ EncodeFixed32 (rec_crc32 h)"
    using assms(5) by (simp add: min_def kHeaderSize_def)
  have tn: "take n (encode_record (h, key, val)) = (header_prefix h @ EncodeFixed32 (rec_crc32 h)) @ q"
    unfolding hp [symmetric] q_def by (rule append_take_drop_id [symmetric])
  then have c: "content f = encode_log rs @ header_prefix h @ EncodeFixed32 (rec_crc32 h) @ body"
    unfolding assms(4) body_def tn by (simp only: append.assoc)
  note sz = sealed_sizes [OF assms(2)]
  have "\<exists>stop. read_record crc (header_prefix h @ EncodeFixed32 (rec_crc32 h) @ body) = Some stop \<and>
      (stop = CrcMismatch \<or> stop = Incomplete)"
  proof (cases "length key + length val \<le> length body")
    case True
    have "CalculateCRC32 crc (header_prefix h @ take (length key + length val) body) \<noteq> rec_crc32 h"
      using assms(7) unfolding body_def q_def .
    then have "read_record crc (header_prefix h @ EncodeFixed32 (rec_crc32 h) @ body) = Some CrcMismatch"
      using True sz by (intro read_record_header) simp_all
    then show ?thesis by simp
  next
    case False
    have hd: "take kHeaderSize (header_prefix h @ EncodeFixed32 (rec_crc32 h) @ body) = header_prefix h @ EncodeFixed32 (rec_crc32 h)"
      and tl: "drop kHeaderSize (header_prefix h @ EncodeFixed32 (rec_crc32 h) @ body) = body"
      by (simp_all add: kHeaderSize_def)
    have "decode_header (header_prefix h @ EncodeFixed32 (rec_crc32 h)) = Some h"
      using decode_header_prefix [of h "[]"] by simp
    then show ?thesis using False sz unfolding read_record_def hd tl by (auto simp: Let_def not_less)
  qed
  then obtain stop where st: "read_record crc (header_prefix h @ EncodeFixed32 (rec_crc32 h) @ body) = Some stop"
    "stop = CrcMismatch \<or> stop = Incomplete" by blast
  then have "read_file crc (content f) = Some (rs, stop)"
    unfolding c by (intro read_file_mismatch [OF assms(1)]) auto
  moreover have "recover_files (wal_disk w) = [log_name 0]" by (simp add: assms(3) recover_files_def)
  ultimately show ?thesis using st(2) by (auto simp: Wal_Recover_def assms(3) Let_def)
qed

text \<open>
  A key or value longer than the write buffer makes \<open>WriteRecord\<close> copy past the end of the buffer.
\<close>

theorem wal_large_field_undefined:
  assumes "length (write_buffer w) < length key \<or> length (write_buffer w) < length val"
    and "length key \<le> 2 ^ 32 - 1" "length val \<le> 2 ^ 32 - 1"
  shows "WriteRecord crc e kind key val seq w = None"
proof -
  have keep: "length (write_buffer u) = length (write_buffer v)" if "buffer_piece bs v = Some u" for bs v u
    using that by (auto simp: buffer_piece_def FlushBuffer_def Let_def split: if_splits)
  have none: "buffer_piece bs v = None" if "length (write_buffer v) < length bs" for bs v
    using that by (auto simp: buffer_piece_def FlushBuffer_def Let_def)
  have rot: "length (write_buffer (snd (Wal_RotateLog e w))) = length (write_buffer w)" "fst (Wal_RotateLog e w) = Status_OK"
    by (simp_all add: Wal_RotateLog_def OpenNewLogFile_def close_stream_def FlushBuffer_def Let_def)
  have pieces: "do { a \<leftarrow> buffer_piece x v; b \<leftarrow> buffer_piece key a; c \<leftarrow> buffer_piece val b; F c } = None"
    if l: "length (write_buffer v) = length (write_buffer w)" for x v and F :: "Wal \<Rightarrow> (Status \<times> Wal) option"
  proof (cases "buffer_piece x v")
    case (Some a)
    note a = keep [OF Some]
    show ?thesis
    proof (cases "buffer_piece key a")
      case b: (Some b)
      then have "\<not> length (write_buffer w) < length key" using none [of a key] a l by auto
      then have "buffer_piece val b = None" using none [of b val] keep [OF b] a l assms(1) by simp
      then show ?thesis by (simp add: Some b)
    qed (simp add: Some)
  qed simp
  show ?thesis
    using assms(2,3) rot by (auto simp: WriteRecord_def Let_def split_beta pieces)
qed


section \<open>Durability across a rotation\<close>

definition durable_of :: "Wal \<Rightarrow> nat \<Rightarrow> nat" where
  "durable_of w n = (case map_of (wal_disk w) (log_name n) of Some f \<Rightarrow> durable f | None \<Rightarrow> 0)"

lemma durable_of_RotateLog: "durable_of (snd (Wal_RotateLog e w)) n = durable_of w n"
  by (auto simp: durable_of_def Wal_RotateLog_def OpenNewLogFile_def close_stream_def FlushBuffer_def Let_def
      map_of_disk_create map_of_disk_append split: option.splits)

lemma durable_of_Sync:
  assumes "basename (current_filename w) \<noteq> log_name n"
  shows "durable_of (snd (Wal_Sync e w)) n = durable_of w n"
  using assms
  by (auto simp: durable_of_def Wal_Sync_def FlushBuffer_def Let_def
      map_of_disk_fsync map_of_disk_append split: option.splits)

lemma durable_of_synced:
  assumes log: "wal_log crc w (K @ [(n, rs)])" and e: "reliable e"
  shows "durable_of (snd (Wal_Sync e w)) n = length (encode_log rs)"
proof -
  note o = stream_facts [OF log]
  have e': "healthy e" "fd_ok e" "fsync_ok e" using e by (simp_all add: reliable_def)
  note h = healthy_simps [OF e'(1)] and f = FlushBuffer_eq [OF o(1,2)]
  obtain g where g: "map_of (wal_disk w) (log_name n) = Some g" "content g @ unwritten w = encode_log rs"
    "n = unat (current_file_number w)" using last_file_bytes [OF log] by blast
  have d: "wal_disk (snd (Wal_Sync e w)) = disk_fsync (log_name n) (disk_append (log_name n) (unwritten w) (wal_disk w))"
    using o e' g(3) by (simp add: Wal_Sync_def f h Let_def)
  have "length (content g) + length (unwritten w) = length (encode_log rs)" by (metis g(2) length_append)
  then show ?thesis using g(1) by (simp add: durable_of_def d map_of_disk_fsync map_of_disk_append del: length_concat)
qed

text \<open>
  Rotation does not sync the file it closes, and \<open>Sync\<close> syncs the current file only. After two writes with a rotation between them and a \<open>Sync\<close> that returned OK, a crash can lose the first record and keep the second.
\<close>

theorem wal_rotation_gap:
  assumes e: "reliable e" and opts: "\<not> wal_sync_on_write opts"
    and w1: "WriteRecord crc e kind1 key1 val1 seq1 (Wal_new e opts []) = Some (st1, w1)"
      "fits (Wal_new e opts []) key1 val1" "\<not> rotates (Wal_new e opts []) key1 val1"
    and w2: "Wal_RotateLog e w1 = (st2, w2)"
    and w3: "WriteRecord crc e kind2 key2 val2 seq2 w2 = Some (st3, w3)" "fits w2 key2 val2" "\<not> rotates w2 key2 val2"
    and w4: "Wal_Sync e w3 = (st4, w4)"
  shows "st4 = Status_OK \<and>
    Wal_Recover crc (\<lambda>name. True) ms (Wal_new e opts (crash_disk (\<lambda>name. 0) w4)) =
      Some (Status_OK, [new_record crc e kind2 key2 val2 seq2], max_seq_of [new_record crc e kind2 key2 val2 seq2] 0)"
proof -
  have h: "healthy e" "fd_ok e" "fsync_ok e" using e by (simp_all add: reliable_def)
  define r1 r2 where "r1 = new_record crc e kind1 key1 val1 seq1" and "r2 = new_record crc e kind2 key2 val2 seq2"
  note new = Wal_new_log [OF disk_log_empty [of crc] h(1), of opts, simplified]
  have n0: "current_file_number (Wal_new e opts []) = 0"
    using stream_facts(4) new by (simp add: Wal_new_def OpenNewLogFile_def Let_def)
  have l1: "wal_log crc w1 [(0, [r1])]" "wal_disk w1 = wal_disk (Wal_new e opts [])" "wal_options w1 = opts"
    using WriteRecord_log [OF conjunct1 [OF new] h(1) w1(2), where kind = kind1 and seq = seq1] w1 opts new
    by (auto simp: add_record_def r1_def)
  then have n1: "current_file_number w1 = 0" by (simp add: wal_log_def unat_eq_zero)
  from RotateLog_log [OF l1(1) h(1)] w2 n1 l1(3) have l2: "wal_log crc w2 [(0, [r1]), (1, [])]" "wal_options w2 = opts"
    "current_file_number w2 = 1" by auto
  have l3: "wal_log crc w3 ([(0, [r1])] @ [(1, [r2])])" "wal_disk w3 = wal_disk w2"
    using WriteRecord_log [OF l2(1) h(1) w3(2), where kind = kind2 and seq = seq2] w3 opts l2(2)
    by (auto simp: add_record_def r2_def)
  have w4': "w4 = snd (Wal_Sync e w3)" using w4 by simp
  have l4: "wal_log crc w4 [(0, [r1]), (1, [r2])]" using Sync_log(1) [OF l3(1) h(1)] by (simp add: w4')
  have "durable_of w4 0 = durable_of w3 0"
  proof -
    have "basename (current_filename w3) = log_name 1" using stream_facts(4) [OF l3(1)] l3(1) by (simp add: wal_log_def)
    then show ?thesis unfolding w4' by (intro durable_of_Sync) simp
  qed
  also have "\<dots> = durable_of w1 0" using l3(2) durable_of_RotateLog [of e w1 0] w2 by (simp add: durable_of_def)
  also have "\<dots> = 0" using l1(2) new by (simp add: durable_of_def)
  finally have "survivors (\<lambda>name. 0) w4 [(0, [r1]), (1, [r2])] = [r2]"
    using durable_of_synced [OF l3(1) e] by (simp add: survivors_def w4' whole_all flip: durable_of_def)
  with crash_reopen [OF l4 h(1), of ms opts "\<lambda>name. 0"] Sync_log(3) [OF l3(1) h(1)] h w4 show ?thesis by (simp add: r2_def)
qed

text \<open>
  With \<open>sync_on_write\<close>, \<open>WriteRecord\<close> ignores the status of \<open>Sync\<close>: when \<open>fsync\<close> fails it still returns OK, and a crash loses the record.
\<close>

theorem wal_ignores_failed_sync:
  assumes "healthy e" "\<not> fsync_ok e" and "wal_sync_on_write opts"
    and "fits (Wal_new e opts []) key val"
  shows "\<exists>w. WriteRecord crc e kind key val seq (Wal_new e opts []) = Some (Status_OK, w) \<and>
    Wal_Recover crc (\<lambda>name. True) ms (Wal_new e opts (crash_disk (\<lambda>name. 0) w)) = Some (Status_OK, [], 0)"
proof -
  define r where "r = new_record crc e kind key val seq"
  note new = Wal_new_log [OF disk_log_empty [of crc] assms(1), of opts, simplified]
  have n0: "current_file_number (Wal_new e opts []) = 0" using new by (simp add: wal_log_def unat_eq_zero)
  define v where "v = (if rotates (Wal_new e opts []) key val then snd (Wal_RotateLog e (Wal_new e opts [])) else Wal_new e opts [])"
  obtain w L' u where w: "WriteRecord crc e kind key val seq (Wal_new e opts []) = Some (Status_OK, w)" "wal_log crc w L'"
    "wal_disk u = wal_disk v" "w = snd (Wal_Sync e (FlushBuffer u))"
    using WriteRecord_log [OF conjunct1 [OF new] assms(1) assms(4), where kind = kind and seq = seq] n0 new assms(3)
    unfolding v_def by (metis (no_types, lifting) add_0 zero_neq_one)
  have "durable_of w n = 0" for n
  proof -
    have "durable_of w n = durable_of u n"
      using assms(2) by (auto simp: w(4) durable_of_def Wal_Sync_def FlushBuffer_def Let_def map_of_disk_append split: option.splits)
    also have "\<dots> = durable_of (Wal_new e opts []) n"
      using w(3) durable_of_RotateLog [of e "Wal_new e opts []" n] by (auto simp: v_def durable_of_def)
    also have "\<dots> = 0" using new by (simp add: durable_of_def)
    finally show ?thesis .
  qed
  moreover have "whole 0 rs = []" for rs by (cases rs) auto
  ultimately have "survivors (\<lambda>name. 0) w L' = []"
    unfolding survivors_def durable_of_def [symmetric] by (auto simp: split_beta)
  with crash_reopen [OF w(2) assms(1), of ms opts "\<lambda>name. 0"] w(1) show ?thesis by auto
qed

section \<open>Concrete instances\<close>

definition byte_sum :: "bytes \<Rightarrow> u32" where
  "byte_sum bs = of_nat (sum_list (map of_char bs))"

definition quiet :: WalEnv where
  "quiet = \<lparr>open_ok = True, close_limit = None, flush_limit = None, fd_ok = True, fsync_ok = True, now = 5\<rparr>"

definition small_wal :: "bool \<Rightarrow> WalOptions" where
  "small_wal sync = \<lparr>wal_dir = ''wal'', max_file_size = 64, wal_buffer_size = 40, wal_sync_on_write = sync,
     enable_compression = False, compression_threshold = 1024\<rparr>"

lemma quiet_ok [simp]: "healthy quiet" "reliable quiet"
  by (simp_all add: healthy_def reliable_def quiet_def)

lemma fits_new: "healthy e \<Longrightarrow> fits (Wal_new e (small_wal b) []) key val \<longleftrightarrow> length key \<le> 40 \<and> length val \<le> 40"
  using Wal_new_log [OF disk_log_empty [of byte_sum], of e "small_wal b"]
  by (auto simp: fits_def small_wal_def kHeaderSize_def max_field)

lemma number_new: "healthy e \<Longrightarrow> current_file_number (Wal_new e opts []) = 0"
  using Wal_new_log [OF disk_log_empty [of byte_sum], of e opts] by (simp add: wal_log_def unat_eq_zero)

lemma run_one:
  fixes kind :: u8 and seq :: u64
  assumes e: "healthy e" "ok e" and f: "length key \<le> 40" "length val \<le> 40"
  shows "\<exists>w. log_run crc ok (Wal_new e (small_wal b) []) [new_record crc e kind key val seq] w"
proof -
  have fit: "fits (Wal_new e (small_wal b) []) key val" using f e(1) by (simp add: fits_new)
  obtain w where "WriteRecord crc e kind key val seq (Wal_new e (small_wal b) []) = Some (Status_OK, w)"
    using WriteRecord_log [OF conjunct1 [OF Wal_new_log [OF disk_log_empty e(1), simplified]] e(1) fit,
      where kind = kind and seq = seq] number_new [OF e(1)] by auto
  then have "log_run crc ok (Wal_new e (small_wal b) []) ([] @ [new_record crc e kind key val seq]) w"
    using number_new [OF e(1)] fit e(2)
    by (intro log_run.append [where e = e and v = "Wal_new e (small_wal b) []"] log_run.start) auto
  then show ?thesis by auto
qed

abbreviation sample_record :: wal_record where
  "sample_record \<equiv> new_record byte_sum quiet kPut ''k'' ''v'' 1"

lemma sample_run: "ok quiet \<Longrightarrow> \<exists>w. log_run byte_sum ok (Wal_new quiet (small_wal b) []) [sample_record] w"
  by (rule run_one) simp_all

lemma sample_seq: "max_seq_of [sample_record] 0 = 1"
  by (simp add: new_record_def new_header_def Let_def)

theorem wal_shutdown_recovers_witness:
  "\<exists>w. log_run byte_sum healthy (Wal_new quiet (small_wal False) []) [sample_record] w \<and>
     Wal_Recover byte_sum (\<lambda>name. True) 0 (Wal_new quiet (small_wal False) (wal_disk (Wal_destroy quiet w))) =
       Some (Status_OK, [sample_record], 1)"
proof -
  obtain w where "log_run byte_sum healthy (Wal_new quiet (small_wal False) []) [sample_record] w"
    using sample_run [of healthy] quiet_ok by blast
  then show ?thesis
    using wal_shutdown_recovers [of byte_sum quiet "small_wal False" "[sample_record]" w quiet quiet 0] sample_seq by auto
qed

text \<open>The crash comes after the only call, and nothing survives but what was synced.\<close>

theorem wal_sync_on_write_durable_witness:
  "\<exists>w d. log_run byte_sum reliable (Wal_new quiet (small_wal True) []) [sample_record] w \<and> crash_between w w d \<and>
     Wal_Recover byte_sum (\<lambda>name. True) 0 (Wal_new quiet (small_wal True) d) = Some (Status_OK, [sample_record], 1)"
proof -
  have opts: "wal_sync_on_write (small_wal True)" by (simp add: small_wal_def)
  obtain w where w: "log_run byte_sum reliable (Wal_new quiet (small_wal True) []) [sample_record] w"
    using sample_run [of reliable] quiet_ok by blast
  obtain L where L: "wal_log byte_sum w L" using run_from_new [OF quiet_ok(1) w] by (auto simp: reliable_def)
  have d: "crash_between w w (crash_disk (\<lambda>name. 0) w)" by (rule crash_after [OF log_run.start L])
  from wal_sync_on_write_durable [OF opts quiet_ok(1,1) disk_log_empty _ w log_run.start _ d, of 0 "small_wal True"] w d
  show ?thesis using sample_seq by (auto simp: synced_def records_of_def)
qed

text \<open>The crash comes somewhere in the first call.\<close>

theorem wal_crash_prefix_witness:
  "\<exists>w d rs'. log_run byte_sum healthy (Wal_new quiet (small_wal False) []) [sample_record] w \<and>
     crash_between (Wal_new quiet (small_wal False) []) w d \<and>
     Wal_Recover byte_sum (\<lambda>name. True) 0 (Wal_new quiet (small_wal False) d) = Some (Status_OK, rs', max_seq_of rs' 0) \<and>
     subseq rs' [sample_record]"
proof -
  obtain w where w: "log_run byte_sum reliable (Wal_new quiet (small_wal False) []) [sample_record] w"
    using sample_run [of reliable] quiet_ok by blast
  then have h: "log_run byte_sum healthy (Wal_new quiet (small_wal False) []) [sample_record] w"
    by (rule log_run_mono) (simp add: reliable_def)
  obtain L where L: "wal_log byte_sum (Wal_new quiet (small_wal False) []) L" using new_log [OF quiet_ok(1)] by blast
  have d: "crash_between (Wal_new quiet (small_wal False) []) w (crash_disk (\<lambda>name. 3) w)" by (rule crash_after [OF w L])
  from wal_crash_prefix [OF quiet_ok(1,1) disk_log_empty log_run.start h d, of 0 "small_wal False"] h d
  show ?thesis by (auto simp: records_of_def)
qed

definition bad_header :: WalRecordHeader where
  "bad_header = \<lparr>rec_type = 1, rec_sequence_number = 1, rec_timestamp = 0, rec_key_size = 1, rec_value_size = 1, rec_crc32 = 77\<rparr>"

definition bad_wal :: "bytes \<Rightarrow> Wal" where
  "bad_wal bs = (Wal_new quiet (small_wal True) [])\<lparr>wal_disk := [(log_name 0, \<lparr>content = bs, durable = 0\<rparr>)]\<rparr>"

lemma bad_header_sum: "CalculateCRC32 byte_sum (header_prefix bad_header @ ''k'' @ ''v'') \<noteq> rec_crc32 bad_header"
  by (simp add: CalculateCRC32_def byte_sum_def header_prefix_def bad_header_def EncodeFixed32_def EncodeFixed64_def char_of_word_def)

theorem wal_rejects_corruption_witness:
  "Wal_Recover byte_sum (\<lambda>name. True) 0 (bad_wal (encode_log [sample_record] @ encode_record (bad_header, ''k'', ''v''))) =
    Some (Status_Corruption (''WAL CRC32 mismatch in '' @ entry_path ''wal'' (log_name 0)), [sample_record], 0)"
proof -
  let ?w = "bad_wal (encode_log [sample_record] @ encode_record (bad_header, ''k'', ''v''))"
  have "wal_dir (wal_options ?w) = ''wal''"
    using Wal_new_log [OF disk_log_empty, of quiet byte_sum "small_wal True"] by (simp add: bad_wal_def small_wal_def)
  moreover have "Wal_Recover byte_sum (\<lambda>name. True) 0 ?w =
      Some (Status_Corruption (''WAL CRC32 mismatch in '' @ entry_path (wal_dir (wal_options ?w)) (log_name 0)), [sample_record], 0)"
  proof (rule wal_rejects_corruption)
    show "\<forall>r\<in>set [sample_record]. sealed byte_sum r" using new_record_sealed [of "''k''" "''v''"] by (simp add: max_field)
    show "rec_key_size bad_header = of_nat (length ''k'')" "rec_value_size bad_header = of_nat (length ''v'')"
      by (simp_all add: bad_header_def)
    show "wal_disk ?w = [(log_name 0, \<lparr>content = encode_log [sample_record] @ encode_record (bad_header, ''k'', ''v'') @ [], durable = 0\<rparr>)]"
      by (simp add: bad_wal_def)
  qed (use bad_header_sum in \<open>simp_all add: max_field\<close>)
  ultimately show ?thesis by simp
qed

definition good_header :: WalRecordHeader where
  "good_header = bad_header\<lparr>rec_crc32 := 229\<rparr>"

lemma good_header_sum: "CalculateCRC32 byte_sum (header_prefix good_header @ ''k'' @ ''v'') = rec_crc32 good_header"
  by (simp add: CalculateCRC32_def byte_sum_def header_prefix_def good_header_def bad_header_def EncodeFixed32_def EncodeFixed64_def char_of_word_def)

lemma good_header_torn: "CalculateCRC32 byte_sum (header_prefix good_header @ ''kw'') \<noteq> rec_crc32 good_header"
  by (simp add: CalculateCRC32_def byte_sum_def header_prefix_def good_header_def bad_header_def EncodeFixed32_def EncodeFixed64_def char_of_word_def)

theorem wal_torn_tail_hides_later_records_witness:
  "\<exists>s m. Wal_Recover byte_sum (\<lambda>name. True) 0
     (bad_wal (encode_log [] @ take 30 (encode_record (good_header, ''k'', ''v'')) @ ''wxyz'')) = Some (s, [], m)"
proof (rule wal_torn_tail_hides_later_records)
  let ?r = "encode_record (good_header, ''k'', ''v'')"
  show "sealed byte_sum (good_header, ''k'', ''v'')"
    using good_header_sum by (simp add: max_field good_header_def bad_header_def)
  show "wal_disk (bad_wal (encode_log [] @ take 30 ?r @ ''wxyz'')) =
      [(log_name 0, \<lparr>content = encode_log [] @ take 30 ?r @ ''wxyz'', durable = 0\<rparr>)]" by (simp add: bad_wal_def)
  have "?r = (header_prefix good_header @ EncodeFixed32 (rec_crc32 good_header)) @ ''kv''" by simp
  moreover have "length (header_prefix good_header @ EncodeFixed32 (rec_crc32 good_header)) = 29" by simp
  ultimately have "drop kHeaderSize (take 30 ?r) = ''k''" by (simp add: kHeaderSize_def del: encode_record.simps)
  then show "CalculateCRC32 byte_sum (header_prefix good_header @ take (length ''k'' + length ''v'')
      (drop kHeaderSize (take 30 ?r) @ ''wxyz'')) \<noteq> rec_crc32 good_header"
    using good_header_torn by (simp del: encode_record.simps)
qed (simp_all add: kHeaderSize_def)

theorem wal_large_field_undefined_witness:
  "WriteRecord byte_sum quiet kPut (replicate 41 CHR ''k'') [] 1 (Wal_new quiet (small_wal False) []) = None"
proof (rule wal_large_field_undefined)
  have "length (write_buffer (Wal_new quiet (small_wal False) [])) = 40"
    using Wal_new_log [OF disk_log_empty, of quiet byte_sum "small_wal False"] by (simp add: small_wal_def)
  then show "length (write_buffer (Wal_new quiet (small_wal False) [])) < length (replicate 41 CHR ''k'') \<or>
    length (write_buffer (Wal_new quiet (small_wal False) [])) < length ([] :: string)" by simp
qed simp_all

theorem wal_ignores_failed_sync_witness:
  "\<exists>w. WriteRecord byte_sum (quiet\<lparr>fsync_ok := False\<rparr>) kPut ''k'' ''v'' 1
      (Wal_new (quiet\<lparr>fsync_ok := False\<rparr>) (small_wal True) []) = Some (Status_OK, w) \<and>
    Wal_Recover byte_sum (\<lambda>name. True) 0 (Wal_new (quiet\<lparr>fsync_ok := False\<rparr>) (small_wal True) (crash_disk (\<lambda>name. 0) w)) =
      Some (Status_OK, [], 0)"
proof (rule wal_ignores_failed_sync)
  show h: "healthy (quiet\<lparr>fsync_ok := False\<rparr>)" by (simp add: healthy_def quiet_def)
  then show "fits (Wal_new (quiet\<lparr>fsync_ok := False\<rparr>) (small_wal True) []) ''k'' ''v''" by (simp add: fits_new)
qed (simp_all add: small_wal_def)

theorem wal_rotation_gap_witness:
  "\<exists>w1 w2 w3 w4.
     WriteRecord byte_sum quiet kPut ''k'' ''v'' 1 (Wal_new quiet (small_wal False) []) = Some (Status_OK, w1) \<and>
     Wal_RotateLog quiet w1 = (Status_OK, w2) \<and>
     WriteRecord byte_sum quiet kPut ''l'' ''u'' 2 w2 = Some (Status_OK, w3) \<and> Wal_Sync quiet w3 = (Status_OK, w4) \<and>
     Wal_Recover byte_sum (\<lambda>name. True) 0 (Wal_new quiet (small_wal False) (crash_disk (\<lambda>name. 0) w4)) =
       Some (Status_OK, [new_record byte_sum quiet kPut ''l'' ''u'' 2], max_seq_of [new_record byte_sum quiet kPut ''l'' ''u'' 2] 0)"
proof -
  let ?w0 = "Wal_new quiet (small_wal False) []"
  note new = Wal_new_log [OF disk_log_empty [of byte_sum] quiet_ok(1), of "small_wal False", simplified]
  have rot: "\<not> rotates w ''k'' ''v''" "\<not> rotates w ''l'' ''u''" if "current_file_size w = 0" "wal_options w = small_wal False" for w
    using that by (simp_all add: rotates_def kHeaderSize_def small_wal_def)
  have f0: "fits ?w0 ''k'' ''v''" by (simp add: fits_new)
  have s0: "current_file_size ?w0 = 0" "wal_options ?w0 = small_wal False" using new by (simp_all add: wal_log_def)
  have r0: "\<not> rotates ?w0 ''k'' ''v''" using s0 by (rule rot)
  obtain w1 where w1: "WriteRecord byte_sum quiet kPut ''k'' ''v'' 1 ?w0 = Some (Status_OK, w1)"
      "wal_log byte_sum w1 [(0, [sample_record])]" "length (write_buffer w1) = 40" "wal_options w1 = small_wal False"
    using WriteRecord_log [OF conjunct1 [OF new] quiet_ok(1) f0, of kPut 1] r0 new by (auto simp: add_record_def small_wal_def)
  then have "current_file_number w1 = 0" by (simp add: wal_log_def unat_eq_zero)
  from RotateLog_log [OF w1(2) quiet_ok(1)] this w1(3,4) obtain w2 where w2: "Wal_RotateLog quiet w1 = (Status_OK, w2)"
      "wal_log byte_sum w2 [(0, [sample_record]), (1, [])]" "length (write_buffer w2) = 40" "current_file_size w2 = 0"
      "wal_options w2 = small_wal False" by auto
  have f2: "fits w2 ''l'' ''u''" using w2(3) by (simp add: fits_def kHeaderSize_def max_field)
  have r2: "\<not> rotates w2 ''l'' ''u''" using w2(4,5) by (rule rot)
  obtain w3 L3 where w3: "WriteRecord byte_sum quiet kPut ''l'' ''u'' 2 w2 = Some (Status_OK, w3)" "wal_log byte_sum w3 L3"
    using WriteRecord_log [OF w2(2) quiet_ok(1) f2, of kPut 2] r2 by auto
  have "fst (Wal_Sync quiet w3) = Status_OK"
    using Sync_log(3) [OF w3(2) quiet_ok(1)] by (simp add: quiet_def)
  then obtain w4 where w4: "Wal_Sync quiet w3 = (Status_OK, w4)" by (metis prod.collapse)
  have "\<not> wal_sync_on_write (small_wal False)" by (simp add: small_wal_def)
  from wal_rotation_gap [OF quiet_ok(2) this w1(1) f0 r0 w2(1) w3(1) f2 r2 w4, of 0] w1(1) w2(1) w3(1) w4
  show ?thesis by blast
qed

text \<open>
  C29. Reading back a record that \<open>WriteRecord\<close> has laid out, wherever it stands in a file, gives its
  header, key and value, and leaves the bytes after it.
\<close>

theorem wal_record_roundtrip:
  assumes "length key \<le> unat kMaxFieldSize" "length val \<le> unat kMaxFieldSize"
  shows "read_record crc (encode_record (new_record crc e kind key val seq) @ tail) =
    Some (ReadRecord (new_header crc kind seq (now e) key val) key val tail)"
  using read_record_encode [of crc "new_header crc kind seq (now e) key val" key val tail]
    new_record_sealed [OF assms, of crc e kind seq] by (simp add: new_record_def del: encode_record.simps sealed.simps)

theorem wal_record_roundtrip_witness:
  "read_record byte_sum (encode_record (new_record byte_sum quiet kPut ''key'' ''value'' 7) @ ''rest'') =
    Some (ReadRecord (new_header byte_sum kPut 7 (now quiet) ''key'' ''value'') ''key'' ''value'' ''rest'')"
  by (rule wal_record_roundtrip) (simp_all add: max_field)

end
