(* ===== verification/Slice.thy ===== *)
theory Slice
  imports Prelude
begin

text \<open>
  \<open>include/kv_types.h\<close>: \<open>Slice\<close>, the byte-wise comparison and the \<open>Comparator\<close>
  interface.  A slice is the byte string it refers to; the null slice is the empty string.
  \<open>memcmp\<close> is the C library's: only the sign of its result is specified, and the model
  returns the difference of the first differing bytes, read as \<open>unsigned char\<close>.
  A comparator is its \<open>Compare\<close> method; a null comparator pointer is \<^term>\<open>None\<close>.

  The locale \<open>key_order\<close> is the contract the rest of the store needs from a comparator
  (a total order whose ties are equal keys); it is interpreted on the default ordering and on
  \<open>BytewiseComparator\<close>.
\<close>

definition byte_val :: "char \<Rightarrow> int" where
  "byte_val c = int (of_char c)"

lemma byte_val_inj [simp]: "byte_val a = byte_val b \<longleftrightarrow> a = b"
  by (simp add: byte_val_def)

fun memcmp :: "bytes \<Rightarrow> bytes \<Rightarrow> nat \<Rightarrow> int" where
  "memcmp (a # as) (b # bs) (Suc n) = (if a = b then memcmp as bs n else byte_val a - byte_val b)"
| "memcmp _ _ _ = 0"

definition Slice_compare :: "bytes \<Rightarrow> bytes \<Rightarrow> int" where
  "Slice_compare a b =
     (let min_size = (if length a < length b then length a else length b);
          r = memcmp a b min_size
      in if r = 0
         then (if length a < length b then -1 else if length a > length b then 1 else r)
         else r)"

definition Slice_eq :: "bytes \<Rightarrow> bytes \<Rightarrow> bool" where
  "Slice_eq a b \<longleftrightarrow> length a = length b \<and> memcmp a b (length a) = 0"

definition Slice_less :: "bytes \<Rightarrow> bytes \<Rightarrow> bool" where
  "Slice_less a b \<longleftrightarrow> Slice_compare a b < 0"

definition Slice_remove_prefix :: "bytes \<Rightarrow> nat \<Rightarrow> bytes" where
  "Slice_remove_prefix s n = (let n = (if n > length s then length s else n) in drop n s)"

type_synonym Comparator = "bytes \<Rightarrow> bytes \<Rightarrow> int"

definition BytewiseComparator :: Comparator where
  "BytewiseComparator a b = Slice_compare a b"

text \<open>\<open>Compare\<close> of the anonymous namespace of \<open>btree.cpp\<close>.\<close>

definition Compare :: "Comparator option \<Rightarrow> bytes \<Rightarrow> bytes \<Rightarrow> int" where
  "Compare comparator a b =
     (case comparator of Some c \<Rightarrow> c a b | None \<Rightarrow> Slice_compare a b)"

section \<open>The bytewise order\<close>

text \<open>The comparison by recursion on both strings, which the proofs use.\<close>

fun lex_compare :: "bytes \<Rightarrow> bytes \<Rightarrow> int" where
  "lex_compare [] [] = 0"
| "lex_compare [] (b # bs) = -1"
| "lex_compare (a # as) [] = 1"
| "lex_compare (a # as) (b # bs) = (if a = b then lex_compare as bs else byte_val a - byte_val b)"

lemma Slice_compare_Cons:
  "Slice_compare (a # as) (b # bs) =
     (if a = b then Slice_compare as bs else byte_val a - byte_val b)"
  by (auto simp: Slice_compare_def Let_def)

lemma Slice_compare_lex: "Slice_compare a b = lex_compare a b"
proof (induction a b rule: lex_compare.induct)
  case (4 a as b bs)
  then show ?case by (simp add: Slice_compare_Cons)
qed (simp_all add: Slice_compare_def)

lemma lex_compare_eq_0 [simp]: "lex_compare a b = 0 \<longleftrightarrow> a = b"
  by (induction a b rule: lex_compare.induct) auto

lemma lex_compare_swap: "lex_compare a b < 0 \<longleftrightarrow> lex_compare b a > 0"
  by (induction a b rule: lex_compare.induct) auto

lemma lex_compare_trans: "lex_compare a b < 0 \<Longrightarrow> lex_compare b c < 0 \<Longrightarrow> lex_compare a c < 0"
proof (induction a b arbitrary: c rule: lex_compare.induct)
  case (4 a as b bs)
  then show ?case by (cases c) (auto split: if_splits)
next
  case (2 b bs)
  then show ?case by (cases c) auto
qed auto

lemma memcmp_eq_0: "length a = length b \<Longrightarrow> memcmp a b (length a) = 0 \<longleftrightarrow> a = b"
  by (induction a b rule: list_induct2) auto

section \<open>The contract of a comparator\<close>

locale key_order =
  fixes comparator :: "Comparator option"
  assumes cmp_eq: "Compare comparator a b = 0 \<longleftrightarrow> a = b"
    and cmp_swap: "Compare comparator a b < 0 \<longleftrightarrow> Compare comparator b a > 0"
    and cmp_trans: "Compare comparator a b < 0 \<Longrightarrow> Compare comparator b c < 0 \<Longrightarrow> Compare comparator a c < 0"

definition key_lt :: "Comparator option \<Rightarrow> bytes \<Rightarrow> bytes \<Rightarrow> bool" where
  "key_lt cmp a b \<longleftrightarrow> Compare cmp a b < 0"

context key_order begin

abbreviation lt :: "bytes \<Rightarrow> bytes \<Rightarrow> bool" where "lt \<equiv> key_lt comparator"

lemma lt_irrefl [simp]: "\<not> lt a a"
  using cmp_eq [of a a] by (simp add: key_lt_def)

lemma lt_trans: "lt a b \<Longrightarrow> lt b c \<Longrightarrow> lt a c"
  by (simp add: key_lt_def cmp_trans)

lemma lt_asym: "lt a b \<Longrightarrow> \<not> lt b a"
  using lt_trans lt_irrefl by blast

lemma lt_total: "\<not> lt a b \<Longrightarrow> a \<noteq> b \<Longrightarrow> lt b a"
  using cmp_eq [of a b] cmp_swap [of b a] by (auto simp: key_lt_def)

lemma not_lt: "\<not> lt a b \<longleftrightarrow> a = b \<or> lt b a"
  using lt_total lt_asym lt_irrefl by blast

lemma cmp_le: "Compare comparator a b \<le> 0 \<longleftrightarrow> \<not> lt b a"
  using cmp_swap [of b a] by (auto simp: key_lt_def)

lemma cmp_ge: "Compare comparator a b \<ge> 0 \<longleftrightarrow> \<not> lt a b"
  by (auto simp: key_lt_def)

lemma cmp_lt: "Compare comparator a b < 0 \<longleftrightarrow> lt a b"
  by (simp add: key_lt_def)

lemma lt_le_trans: "lt a b \<Longrightarrow> \<not> lt c b \<Longrightarrow> lt a c"
  using lt_total lt_trans by blast

lemma le_lt_trans: "\<not> lt b a \<Longrightarrow> lt b c \<Longrightarrow> lt a c"
  using lt_total lt_trans by blast

end

lemma key_order_lex:
  assumes "\<And>a b. Compare c a b = lex_compare a b"
  shows "key_order c"
  using lex_compare_swap lex_compare_trans by unfold_locales (auto simp: assms)

interpretation default_order: key_order None
  by (rule key_order_lex) (simp add: Compare_def Slice_compare_lex)

interpretation bytewise_order: key_order "Some BytewiseComparator"
  by (rule key_order_lex) (simp add: Compare_def BytewiseComparator_def Slice_compare_lex)

end
