(* ===== verification/Key_Search.thy ===== *)
theory Key_Search
  imports Slice
begin

text \<open>
  The binary searches of \<open>src/btree/btree.cpp\<close> (anonymous namespace): \<open>LowerBound\<close>,
  \<open>UpperBound\<close> and \<open>KeysStrictlyIncreasing\<close>.  Their loops are recursive functions that
  terminate because \<open>hi - lo\<close> shrinks.  Both are shown to compute the partition point of a
  predicate, and under the laws of \<open>key_order\<close> to agree with a linear scan.
\<close>

function LowerBound_loop :: "bytes list \<Rightarrow> bytes \<Rightarrow> Comparator option \<Rightarrow> nat \<Rightarrow> nat \<Rightarrow> nat" where
  "LowerBound_loop keys key cmp lo hi =
     (if lo < hi then
        (let mid = lo + (hi - lo) div 2 in
         if Compare cmp (keys ! mid) key < 0
         then LowerBound_loop keys key cmp (mid + 1) hi
         else LowerBound_loop keys key cmp lo mid)
      else lo)"
  by pat_completeness auto
termination
  by (relation "measure (\<lambda>(keys, key, cmp, lo, hi). hi - lo)") auto

definition LowerBound :: "bytes list \<Rightarrow> bytes \<Rightarrow> Comparator option \<Rightarrow> nat" where
  "LowerBound keys key cmp = LowerBound_loop keys key cmp 0 (length keys)"

function UpperBound_loop :: "bytes list \<Rightarrow> bytes \<Rightarrow> Comparator option \<Rightarrow> nat \<Rightarrow> nat \<Rightarrow> nat" where
  "UpperBound_loop keys key cmp lo hi =
     (if lo < hi then
        (let mid = lo + (hi - lo) div 2 in
         if Compare cmp (keys ! mid) key \<le> 0
         then UpperBound_loop keys key cmp (mid + 1) hi
         else UpperBound_loop keys key cmp lo mid)
      else lo)"
  by pat_completeness auto
termination
  by (relation "measure (\<lambda>(keys, key, cmp, lo, hi). hi - lo)") auto

definition UpperBound :: "bytes list \<Rightarrow> bytes \<Rightarrow> Comparator option \<Rightarrow> nat" where
  "UpperBound keys key cmp = UpperBound_loop keys key cmp 0 (length keys)"

fun KeysStrictlyIncreasing :: "bytes list \<Rightarrow> Comparator option \<Rightarrow> bool" where
  "KeysStrictlyIncreasing (a # b # ks) cmp =
     (if Compare cmp a b \<ge> 0 then False else KeysStrictlyIncreasing (b # ks) cmp)"
| "KeysStrictlyIncreasing _ cmp = True"

declare LowerBound_loop.simps [simp del] UpperBound_loop.simps [simp del]

lemma loops_stop [simp]:
  "\<not> lo < hi \<Longrightarrow> LowerBound_loop keys key cmp lo hi = lo"
  "\<not> lo < hi \<Longrightarrow> UpperBound_loop keys key cmp lo hi = lo"
  by (subst LowerBound_loop.simps, simp) (subst UpperBound_loop.simps, simp)

section \<open>Partition points\<close>

text \<open>
  What a binary search for the first index where \<open>P\<close> fails returns, provided \<open>P\<close>
  holds on an initial segment of the list.
\<close>

definition partition_point :: "('a \<Rightarrow> bool) \<Rightarrow> 'a list \<Rightarrow> nat \<Rightarrow> bool" where
  "partition_point P xs n \<longleftrightarrow>
     n \<le> length xs \<and> (\<forall>i<n. P (xs ! i)) \<and> (\<forall>i. n \<le> i \<and> i < length xs \<longrightarrow> \<not> P (xs ! i))"

definition down_closed :: "('a \<Rightarrow> bool) \<Rightarrow> 'a list \<Rightarrow> bool" where
  "down_closed P xs \<longleftrightarrow> (\<forall>i j. i < j \<and> j < length xs \<and> P (xs ! j) \<longrightarrow> P (xs ! i))"

lemma partition_point_unique: "partition_point P xs m \<Longrightarrow> partition_point P xs n \<Longrightarrow> m = n"
  unfolding partition_point_def by (metis nat_neq_iff order.strict_trans2 order_refl)

lemma partition_point_takeWhile:
  assumes "partition_point P xs n" shows "n = length (takeWhile P xs)"
proof -
  have "partition_point P xs n \<Longrightarrow> n = length (takeWhile P xs)" for n
  proof (induction xs arbitrary: n)
    case Nil then show ?case by (simp add: partition_point_def)
  next
    case (Cons x xs)
    show ?case
    proof (cases n)
      case 0
      with Cons.prems show ?thesis by (auto simp: partition_point_def)
    next
      case (Suc m)
      have "P x" using Cons.prems Suc by (auto simp: partition_point_def)
      moreover have "partition_point P xs m"
        using Cons.prems Suc unfolding partition_point_def
        by (metis Suc_le_mono Suc_less_eq length_Cons nth_Cons_Suc)
      ultimately show ?thesis using Cons.IH Suc by simp
    qed
  qed
  with assms show ?thesis by blast
qed

lemma partition_point_filter:
  assumes "partition_point P xs n"
  shows "take n xs = filter P xs" and "drop n xs = filter (\<lambda>x. \<not> P x) xs"
proof -
  have 1: "\<forall>x \<in> set (take n xs). P x" and 2: "\<forall>x \<in> set (drop n xs). \<not> P x"
    using assms by (auto simp: partition_point_def in_set_conv_nth)
  have "filter P xs = filter P (take n xs @ drop n xs)" by simp
  also have "\<dots> = take n xs" using 1 2 by (simp only: filter_append) (simp add: filter_False)
  finally show "take n xs = filter P xs" by simp
  have "filter (\<lambda>x. \<not> P x) xs = filter (\<lambda>x. \<not> P x) (take n xs @ drop n xs)" by simp
  also have "\<dots> = drop n xs" using 1 2 by (simp only: filter_append) (simp add: filter_False)
  finally show "drop n xs = filter (\<lambda>x. \<not> P x) xs" by simp
qed

lemma mid_range: "(lo::nat) < hi \<Longrightarrow> lo \<le> lo + (hi - lo) div 2 \<and> lo + (hi - lo) div 2 < hi"
  by linarith

lemma LowerBound_loop_range:
  "lo \<le> hi \<Longrightarrow> lo \<le> LowerBound_loop keys key cmp lo hi \<and> LowerBound_loop keys key cmp lo hi \<le> hi"
proof (induction keys key cmp lo hi rule: LowerBound_loop.induct)
  case (1 keys key cmp lo hi)
  show ?case
  proof (cases "lo < hi")
    case True
    with "1.IH" [OF True refl] mid_range [OF True] show ?thesis
      by (fastforce simp: LowerBound_loop.simps [of keys key cmp lo hi] Let_def)
  qed (use "1.prems" in \<open>simp add: LowerBound_loop.simps [of keys key cmp lo hi]\<close>)
qed

lemma UpperBound_loop_range:
  "lo \<le> hi \<Longrightarrow> lo \<le> UpperBound_loop keys key cmp lo hi \<and> UpperBound_loop keys key cmp lo hi \<le> hi"
proof (induction keys key cmp lo hi rule: UpperBound_loop.induct)
  case (1 keys key cmp lo hi)
  show ?case
  proof (cases "lo < hi")
    case True
    with "1.IH" [OF True refl] mid_range [OF True] show ?thesis
      by (fastforce simp: UpperBound_loop.simps [of keys key cmp lo hi] Let_def)
  qed (use "1.prems" in \<open>simp add: UpperBound_loop.simps [of keys key cmp lo hi]\<close>)
qed

lemma LowerBound_le [simp]: "LowerBound keys key cmp \<le> length keys"
  using LowerBound_loop_range [of 0 "length keys"] by (simp add: LowerBound_def)

lemma UpperBound_le [simp]: "UpperBound keys key cmp \<le> length keys"
  using UpperBound_loop_range [of 0 "length keys"] by (simp add: UpperBound_def)

lemma down_closedD: "down_closed P xs \<Longrightarrow> P (xs ! j) \<Longrightarrow> i \<le> j \<Longrightarrow> j < length xs \<Longrightarrow> P (xs ! i)"
  by (metis down_closed_def le_neq_implies_less)

lemma LowerBound_loop_partition:
  "down_closed (\<lambda>x. Compare cmp x key < 0) keys \<Longrightarrow> lo \<le> hi \<Longrightarrow> hi \<le> length keys \<Longrightarrow>
   (\<forall>i<lo. Compare cmp (keys ! i) key < 0) \<Longrightarrow>
   (\<forall>i. hi \<le> i \<and> i < length keys \<longrightarrow> \<not> Compare cmp (keys ! i) key < 0) \<Longrightarrow>
   partition_point (\<lambda>x. Compare cmp x key < 0) keys (LowerBound_loop keys key cmp lo hi)"
proof (induction keys key cmp lo hi rule: LowerBound_loop.induct)
  case (1 keys key cmp lo hi)
  show ?case
  proof (cases "lo < hi")
    case True
    define mid where "mid = lo + (hi - lo) div 2"
    have m: "lo \<le> mid" "mid < hi" using mid_range [OF True] by (simp_all add: mid_def)
    show ?thesis
    proof (cases "Compare cmp (keys ! mid) key < 0")
      case less: True
      have "\<forall>i<mid + 1. Compare cmp (keys ! i) key < 0"
        using down_closedD [OF "1.prems"(1), of mid] less m "1.prems"(3) by auto
      then show ?thesis
        using "1.IH"(1) [OF True mid_def less] "1.prems" m less True
        by (simp add: LowerBound_loop.simps [of keys key cmp lo hi] Let_def flip: mid_def)
    next
      case ge: False
      have "\<forall>i. mid \<le> i \<and> i < length keys \<longrightarrow> \<not> Compare cmp (keys ! i) key < 0"
        using down_closedD [OF "1.prems"(1), of _ mid] ge by auto
      then show ?thesis
        using "1.IH"(2) [OF True mid_def ge] "1.prems" m ge True
        by (simp add: LowerBound_loop.simps [of keys key cmp lo hi] Let_def flip: mid_def)
    qed
  next
    case False
    with "1.prems" show ?thesis
      by (auto simp: partition_point_def)
  qed
qed

lemma UpperBound_loop_partition:
  "down_closed (\<lambda>x. Compare cmp x key \<le> 0) keys \<Longrightarrow> lo \<le> hi \<Longrightarrow> hi \<le> length keys \<Longrightarrow>
   (\<forall>i<lo. Compare cmp (keys ! i) key \<le> 0) \<Longrightarrow>
   (\<forall>i. hi \<le> i \<and> i < length keys \<longrightarrow> \<not> Compare cmp (keys ! i) key \<le> 0) \<Longrightarrow>
   partition_point (\<lambda>x. Compare cmp x key \<le> 0) keys (UpperBound_loop keys key cmp lo hi)"
proof (induction keys key cmp lo hi rule: UpperBound_loop.induct)
  case (1 keys key cmp lo hi)
  show ?case
  proof (cases "lo < hi")
    case True
    define mid where "mid = lo + (hi - lo) div 2"
    have m: "lo \<le> mid" "mid < hi" using mid_range [OF True] by (simp_all add: mid_def)
    show ?thesis
    proof (cases "Compare cmp (keys ! mid) key \<le> 0")
      case le: True
      have "\<forall>i<mid + 1. Compare cmp (keys ! i) key \<le> 0"
        using down_closedD [OF "1.prems"(1), of mid] le m "1.prems"(3) by auto
      then show ?thesis
        using "1.IH"(1) [OF True mid_def le] "1.prems" m le True
        by (simp add: UpperBound_loop.simps [of keys key cmp lo hi] Let_def flip: mid_def)
    next
      case gt: False
      have "\<forall>i. mid \<le> i \<and> i < length keys \<longrightarrow> \<not> Compare cmp (keys ! i) key \<le> 0"
        using down_closedD [OF "1.prems"(1), of _ mid] gt by auto
      then show ?thesis
        using "1.IH"(2) [OF True mid_def gt] "1.prems" m gt True
        by (simp add: UpperBound_loop.simps [of keys key cmp lo hi] Let_def flip: mid_def)
    qed
  next
    case False
    with "1.prems" show ?thesis
      by (auto simp: partition_point_def)
  qed
qed

section \<open>Searching sorted keys\<close>

context key_order begin

abbreviation sorted_keys :: "bytes list \<Rightarrow> bool" where
  "sorted_keys \<equiv> sorted_wrt lt"

lemma down_closed_lt: "sorted_keys keys \<Longrightarrow> down_closed (\<lambda>x. lt x key) keys"
  by (auto simp: down_closed_def sorted_wrt_iff_nth_less intro: lt_trans)

lemma down_closed_le: "sorted_keys keys \<Longrightarrow> down_closed (\<lambda>x. \<not> lt key x) keys"
  by (auto simp: down_closed_def sorted_wrt_iff_nth_less intro: lt_trans)

lemma LowerBound_partition:
  assumes "sorted_keys keys"
  shows "partition_point (\<lambda>x. lt x key) keys (LowerBound keys key comparator)"
  using LowerBound_loop_partition [of comparator key keys 0 "length keys"] down_closed_lt [OF assms, of key]
  by (simp add: LowerBound_def key_lt_def)

lemma UpperBound_partition:
  assumes "sorted_keys keys"
  shows "partition_point (\<lambda>x. \<not> lt key x) keys (UpperBound keys key comparator)"
  using UpperBound_loop_partition [of comparator key keys 0 "length keys"] down_closed_le [OF assms, of key]
  by (force simp: UpperBound_def cmp_le)

lemma KeysStrictlyIncreasing_iff: "KeysStrictlyIncreasing keys comparator \<longleftrightarrow> sorted_keys keys"
proof (induction keys rule: induct_list012)
  case (3 a b ks)
  show ?case
  proof (cases "lt a b")
    case True
    then have "\<forall>x \<in> set ks. lt a x" if "sorted_keys (b # ks)"
      using that lt_trans by auto
    with True 3 show ?thesis by (auto simp: cmp_ge)
  qed (simp add: cmp_ge)
qed auto

text \<open>The hit test of the code: the key at the lower bound compares equal.\<close>

lemma LowerBound_hit:
  fixes key
  assumes s: "sorted_keys keys"
  defines "p \<equiv> LowerBound keys key comparator"
  shows "p < length keys \<and> Compare comparator (keys ! p) key = 0 \<longleftrightarrow> key \<in> set keys"
proof
  assume "p < length keys \<and> Compare comparator (keys ! p) key = 0"
  then show "key \<in> set keys" using cmp_eq nth_mem by metis
next
  assume "key \<in> set keys"
  then obtain i where i: "i < length keys" "keys ! i = key" by (auto simp: in_set_conv_nth)
  have pp: "partition_point (\<lambda>x. lt x key) keys p" unfolding p_def by (rule LowerBound_partition [OF s])
  have "\<not> i < p" using pp i unfolding partition_point_def by auto
  moreover have "\<not> p < i"
  proof
    assume "p < i"
    then have "lt (keys ! p) key" using s i by (auto simp: sorted_wrt_iff_nth_less)
    with pp \<open>p < i\<close> i show False by (auto simp: partition_point_def)
  qed
  ultimately show "p < length keys \<and> Compare comparator (keys ! p) key = 0"
    using i cmp_eq [of "keys ! p"] by (metis nat_neq_iff)
qed

end

text \<open>
  The binary search of the tree's nodes is a partition of the sorted keys: everything before
  \<open>LowerBound\<close> is smaller than the key, everything from it on is not; the same with
  \<open>UpperBound\<close> for \<open>\<le>\<close>.  Holds for every comparator that is a total order.
\<close>

theorem LowerBound_UpperBound_split:
  assumes "key_order cmp" and "sorted_wrt (key_lt cmp) keys"
  shows "take (LowerBound keys key cmp) keys = filter (\<lambda>x. key_lt cmp x key) keys \<and>
    drop (LowerBound keys key cmp) keys = filter (\<lambda>x. \<not> key_lt cmp x key) keys \<and>
    take (UpperBound keys key cmp) keys = filter (\<lambda>x. \<not> key_lt cmp key x) keys \<and>
    drop (UpperBound keys key cmp) keys = filter (\<lambda>x. key_lt cmp key x) keys"
  using partition_point_filter [OF key_order.LowerBound_partition [OF assms]]
    partition_point_filter [OF key_order.UpperBound_partition [OF assms]]
  by simp

theorem LowerBound_UpperBound_split_witness:
  "take (LowerBound [''a'', ''c'', ''e''] ''c'' None) [''a'', ''c'', ''e''] =
     filter (\<lambda>x. key_lt None x ''c'') [''a'', ''c'', ''e'']"
proof -
  have "sorted_wrt (key_lt None) [''a'', ''c'', ''e'']" by code_simp
  then show ?thesis
    using LowerBound_UpperBound_split [OF default_order.key_order_axioms] by blast
qed

end
