(* ===== verification/BTree_Nodes.thy ===== *)
theory BTree_Nodes
  imports Key_Search Status
begin

text \<open>
  \<open>include/btree/btree.h\<close> and the node arena \<open>BPlusTree::Impl\<close> of
  \<open>src/btree/btree.cpp\<close>: leaf and internal nodes, the vector of owned nodes with its
  free list, and \<open>AllocateNode\<close>, \<open>FreeNode\<close>, \<open>GetNode\<close>.  A node id is an index
  into the arena; id 0 is the null id.  \<open>nodes\<close>, \<open>node_is_leaf\<close> and
  \<open>node_free\<close> grow together (\<open>arena_ok\<close>).

  The lemmas view the arena as a partial function from ids to nodes: allocation adds a fresh id,
  freeing removes one, writing through a node pointer updates one.
\<close>

section \<open>Nodes\<close>

record InternalNode =
  inner_keys :: "bytes list"
  inner_children :: "nat list"
  inner_max_keys :: nat

record LeafNode =
  leaf_keys :: "bytes list"
  leaf_values :: "bytes list"
  leaf_next :: nat
  leaf_max_keys :: nat

datatype BTreeNode = Internal InternalNode | Leaf LeafNode

definition InternalNode_new :: "nat \<Rightarrow> InternalNode" where
  "InternalNode_new capacity = \<lparr>inner_keys = [], inner_children = [], inner_max_keys = capacity\<rparr>"

definition LeafNode_new :: "nat \<Rightarrow> LeafNode" where
  "LeafNode_new capacity = \<lparr>leaf_keys = [], leaf_values = [], leaf_next = 0, leaf_max_keys = capacity\<rparr>"

fun IsLeaf :: "BTreeNode \<Rightarrow> bool" where
  "IsLeaf (Internal _) = False"
| "IsLeaf (Leaf _) = True"

fun Size :: "BTreeNode \<Rightarrow> nat" where
  "Size (Internal n) = length (inner_keys n)"
| "Size (Leaf l) = length (leaf_keys l)"

fun Capacity :: "BTreeNode \<Rightarrow> nat" where
  "Capacity (Internal n) = inner_max_keys n"
| "Capacity (Leaf l) = leaf_max_keys l"

definition IsFull :: "BTreeNode \<Rightarrow> bool" where
  "IsFull n \<longleftrightarrow> Size n \<ge> Capacity n"

definition IsUnderflow :: "BTreeNode \<Rightarrow> bool" where
  "IsUnderflow n \<longleftrightarrow> Size n < (Capacity n + 1) div 2"

section \<open>The arena\<close>

record Impl =
  nodes :: "BTreeNode option list"
  node_is_leaf :: "bool list"
  node_free :: "bool list"
  free_list :: "nat list"
  next_node_id :: nat
  impl_max_keys :: nat

definition Impl_new :: "nat \<Rightarrow> Impl" where
  "Impl_new max_keys =
     \<lparr>nodes = [None], node_is_leaf = [False], node_free = [True], free_list = [],
      next_node_id = 1, impl_max_keys = max 3 max_keys\<rparr>"

definition new_node :: "bool \<Rightarrow> nat \<Rightarrow> BTreeNode" where
  "new_node is_leaf max_keys =
     (if is_leaf then Leaf (LeafNode_new max_keys) else Internal (InternalNode_new max_keys))"

definition Impl_AllocateNode :: "bool \<Rightarrow> Impl \<Rightarrow> (nat \<times> Impl) option" where
  "Impl_AllocateNode is_leaf I =
     (if free_list I \<noteq> [] then do {
        nid \<leftarrow> vec_back (free_list I);
        fl \<leftarrow> vec_pop_back (free_list I);
        ns \<leftarrow> vec_set (nodes I) nid (Some (new_node is_leaf (impl_max_keys I)));
        isl \<leftarrow> vec_set (node_is_leaf I) nid is_leaf;
        fr \<leftarrow> vec_set (node_free I) nid False;
        Some (nid, I\<lparr>nodes := ns, node_is_leaf := isl, node_free := fr, free_list := fl\<rparr>)
      } else
        let nid = next_node_id I in
        Some (nid, I\<lparr>nodes := nodes I @ [Some (new_node is_leaf (impl_max_keys I))],
                    node_is_leaf := node_is_leaf I @ [is_leaf],
                    node_free := node_free I @ [False],
                    next_node_id := Suc nid\<rparr>))"

definition Impl_FreeNode :: "nat \<Rightarrow> Impl \<Rightarrow> Impl" where
  "Impl_FreeNode nid I =
     (if nid \<noteq> 0 \<and> nid < length (nodes I) \<and> \<not> node_free I ! nid
      then I\<lparr>nodes := (nodes I)[nid := None], node_free := (node_free I)[nid := True],
             free_list := free_list I @ [nid]\<rparr>
      else I)"

definition Impl_GetNode :: "Impl \<Rightarrow> nat \<Rightarrow> BTreeNode option" where
  "Impl_GetNode I nid =
     (if nid \<noteq> 0 \<and> nid < length (nodes I) \<and> \<not> node_free I ! nid then nodes I ! nid else None)"

text \<open>A write through the pointer that \<open>GetNode\<close> returned.\<close>

definition Impl_SetNode :: "nat \<Rightarrow> BTreeNode \<Rightarrow> Impl \<Rightarrow> Impl" where
  "Impl_SetNode nid n I = I\<lparr>nodes := (nodes I)[nid := Some n]\<rparr>"

section \<open>The arena as a heap\<close>

text \<open>\<open>arena_ok I U\<close>: the three vectors agree, exactly the ids of \<open>U\<close> are in use,
  and the other nodes are gone.\<close>

definition arena_ok :: "Impl \<Rightarrow> nat set \<Rightarrow> bool" where
  "arena_ok I U \<longleftrightarrow>
     length (node_free I) = length (nodes I) \<and> length (node_is_leaf I) = length (nodes I) \<and>
     next_node_id I = length (nodes I) \<and> 0 < length (nodes I) \<and>
     (\<forall>i < length (nodes I). node_free I ! i \<longleftrightarrow> i \<notin> U) \<and>
     (\<forall>i < length (nodes I). i \<notin> U \<longrightarrow> nodes I ! i = None) \<and>
     (\<forall>i \<in> U. 0 < i \<and> i < length (nodes I) \<and> nodes I ! i \<noteq> None) \<and>
     distinct (free_list I) \<and> set (free_list I) = {i. 0 < i \<and> i < length (nodes I) \<and> i \<notin> U}"

lemma arena_ok_new: "arena_ok (Impl_new m) {}"
  by (auto simp: arena_ok_def Impl_new_def)

lemma GetNode_dom: "arena_ok I U \<Longrightarrow> Impl_GetNode I i \<noteq> None \<longleftrightarrow> i \<in> U"
  by (auto simp: arena_ok_def Impl_GetNode_def)

lemma arena_ok_finite: "arena_ok I U \<Longrightarrow> finite U"
  by (rule finite_subset [of _ "{..<length (nodes I)}"]) (auto simp: arena_ok_def)

lemma arena_ok_card: "arena_ok I U \<Longrightarrow> card U < length (nodes I)"
proof -
  assume a: "arena_ok I U"
  then have "U \<subseteq> {1..<length (nodes I)}" by (auto simp: arena_ok_def Suc_leI)
  then have "card U \<le> length (nodes I) - 1"
    using card_mono [of "{1..<length (nodes I)}" U] by simp
  moreover have "0 < length (nodes I)" using a by (simp add: arena_ok_def)
  ultimately show ?thesis by linarith
qed

lemma SetNode_ok:
  assumes "arena_ok I U" and "i \<in> U"
  shows "arena_ok (Impl_SetNode i n I) U"
    and "Impl_GetNode (Impl_SetNode i n I) = (Impl_GetNode I)(i \<mapsto> n)"
    and "impl_max_keys (Impl_SetNode i n I) = impl_max_keys I"
  using assms
  by (auto simp: arena_ok_def Impl_SetNode_def Impl_GetNode_def nth_list_update fun_eq_iff)

lemma FreeNode_ok:
  assumes a: "arena_ok I U" and i: "i \<in> U"
  shows "arena_ok (Impl_FreeNode i I) (U - {i})"
    and "Impl_GetNode (Impl_FreeNode i I) = (Impl_GetNode I)(i := None)"
    and "impl_max_keys (Impl_FreeNode i I) = impl_max_keys I"
proof -
  have g: "i \<noteq> 0 \<and> i < length (nodes I) \<and> \<not> node_free I ! i"
    using a i by (auto simp: arena_ok_def)
  show "arena_ok (Impl_FreeNode i I) (U - {i})"
    using a i g by (auto simp: arena_ok_def Impl_FreeNode_def nth_list_update)
  show "Impl_GetNode (Impl_FreeNode i I) = (Impl_GetNode I)(i := None)"
    using a g by (auto simp: arena_ok_def Impl_FreeNode_def Impl_GetNode_def nth_list_update fun_eq_iff)
  show "impl_max_keys (Impl_FreeNode i I) = impl_max_keys I"
    by (simp add: Impl_FreeNode_def)
qed

lemma AllocateNode_ok:
  assumes a: "arena_ok I U"
  shows "\<exists>i I'. Impl_AllocateNode l I = Some (i, I') \<and> i \<notin> U \<and> 0 < i \<and>
    arena_ok I' (insert i U) \<and> impl_max_keys I' = impl_max_keys I \<and>
    Impl_GetNode I' = (Impl_GetNode I)(i \<mapsto> new_node l (impl_max_keys I))"
proof (cases "free_list I = []")
  case True
  let ?I = "I\<lparr>nodes := nodes I @ [Some (new_node l (impl_max_keys I))],
    node_is_leaf := node_is_leaf I @ [l], node_free := node_free I @ [False],
    next_node_id := Suc (next_node_id I)\<rparr>"
  have all: "i \<in> U" if "0 < i" "i < length (nodes I)" for i
    using a that True by (auto simp: arena_ok_def)
  have "Impl_AllocateNode l I = Some (length (nodes I), ?I)"
    using a True by (simp add: Impl_AllocateNode_def arena_ok_def Let_def)
  moreover have "arena_ok ?I (insert (length (nodes I)) U)"
    using a True all by (auto simp: arena_ok_def nth_append less_Suc_eq)
  moreover have "Impl_GetNode ?I = (Impl_GetNode I)(length (nodes I) \<mapsto> new_node l (impl_max_keys I))"
    using a by (auto simp: arena_ok_def Impl_GetNode_def nth_append fun_eq_iff less_Suc_eq)
  moreover have "length (nodes I) \<notin> U" "0 < length (nodes I)"
    using a by (auto simp: arena_ok_def)
  ultimately show ?thesis by auto
next
  case False
  then obtain fs i where fs: "free_list I = fs @ [i]" by (metis rev_exhaust)
  then have i: "0 < i" "i < length (nodes I)" "i \<notin> U" using a by (auto simp: arena_ok_def)
  let ?I = "I\<lparr>nodes := (nodes I)[i := Some (new_node l (impl_max_keys I))],
    node_is_leaf := (node_is_leaf I)[i := l], node_free := (node_free I)[i := False],
    free_list := fs\<rparr>"
  have "Impl_AllocateNode l I = Some (i, ?I)"
    using a fs i by (simp add: Impl_AllocateNode_def arena_ok_def vec_defs)
  moreover have "arena_ok ?I (insert i U)"
    using a i fs by (auto simp: arena_ok_def nth_list_update)
  moreover have "Impl_GetNode ?I = (Impl_GetNode I)(i \<mapsto> new_node l (impl_max_keys I))"
    using a i by (auto simp: arena_ok_def Impl_GetNode_def nth_list_update fun_eq_iff)
  ultimately show ?thesis using i by auto
qed

end
