(* ===== verification/BTree.thy ===== *)
theory BTree
  imports BTree_Nodes
begin

text \<open>
  \<open>BPlusTree\<close> of \<open>src/btree/btree.cpp\<close>: construction, lookup, insertion with splits,
  deletion with redistribution and merging.

  The recursive lambdas \<open>insert\<close>, \<open>erase\<close>, \<open>first_key_of_subtree\<close> and the loop of
  \<open>FindLeaf\<close> walk node ids, so nothing but the shape of the arena bounds them.  They take a
  fuel argument, one unit per node visited, and the operations start them with
  \<open>length nodes\<close> units (\<open>tree_fuel\<close>).  A walk that visits more nodes than the arena has
  slots visits one twice; the walk down is determined by the node and the key, and the arena is
  not written on the way down, so it never returns in the C++ either.  Out of fuel is the
  undefined result \<^term>\<open>None\<close>, and \<open>BTree_Refine\<close> shows that it is never reached from a
  well-formed tree.

  The mutex is not modelled: every operation holds it from start to end.
\<close>

record BTreeOptions =
  page_size :: nat
  max_keys_per_node :: nat
  comparator :: "Comparator option"

definition BTreeOptions_default :: BTreeOptions where
  "BTreeOptions_default = \<lparr>page_size = 4096, max_keys_per_node = 128, comparator = None\<rparr>"

record BPlusTree =
  tree_impl :: Impl
  root_id :: nat
  root_is_leaf :: bool
  tree_options :: BTreeOptions
  tree_size :: nat
  node_count :: nat
  tree_height :: nat

abbreviation tree_max :: "BPlusTree \<Rightarrow> nat" where
  "tree_max T \<equiv> max_keys_per_node (tree_options T)"

abbreviation tree_cmp :: "BPlusTree \<Rightarrow> Comparator option" where
  "tree_cmp T \<equiv> comparator (tree_options T)"

definition BPlusTree_new :: "BTreeOptions \<Rightarrow> BPlusTree option" where
  "BPlusTree_new options = do {
     let opts = (if max_keys_per_node options < 3 then options\<lparr>max_keys_per_node := 3\<rparr> else options);
     let I = (Impl_new (max_keys_per_node options))\<lparr>impl_max_keys := max_keys_per_node opts\<rparr>;
     (root, I) \<leftarrow> Impl_AllocateNode True I;
     Some \<lparr>tree_impl = I, root_id = root, root_is_leaf = True, tree_options = opts,
           tree_size = 0, node_count = 1, tree_height = 1\<rparr>
   }"

section \<open>Node management\<close>

definition AllocateNode :: "bool \<Rightarrow> BPlusTree \<Rightarrow> (nat \<times> BPlusTree) option" where
  "AllocateNode is_leaf T = do {
     (nid, I) \<leftarrow> Impl_AllocateNode is_leaf (tree_impl T);
     Some (nid, T\<lparr>node_count := node_count T + 1, tree_impl := I\<rparr>)
   }"

definition GetNode :: "BPlusTree \<Rightarrow> nat \<Rightarrow> BTreeNode option" where
  "GetNode T nid = Impl_GetNode (tree_impl T) nid"

definition FreeNode :: "nat \<Rightarrow> BPlusTree \<Rightarrow> BPlusTree" where
  "FreeNode nid T =
     (if GetNode T nid \<noteq> None
      then T\<lparr>tree_impl := Impl_FreeNode nid (tree_impl T),
             node_count := (if node_count T > 0 then node_count T - 1 else node_count T)\<rparr>
      else T)"

text \<open>
  Writing through a node pointer, and the two \<open>static_cast\<close>s: a null pointer or a node of
  the other kind is undefined behaviour.
\<close>

definition SetNode :: "nat \<Rightarrow> BTreeNode \<Rightarrow> BPlusTree \<Rightarrow> BPlusTree" where
  "SetNode nid n T = T\<lparr>tree_impl := Impl_SetNode nid n (tree_impl T)\<rparr>"

definition as_leaf :: "BTreeNode option \<Rightarrow> LeafNode option" where
  "as_leaf p = (case p of Some (Leaf l) \<Rightarrow> Some l | _ \<Rightarrow> None)"

definition as_internal :: "BTreeNode option \<Rightarrow> InternalNode option" where
  "as_internal p = (case p of Some (Internal n) \<Rightarrow> Some n | _ \<Rightarrow> None)"

definition BinarySearchKeys :: "BPlusTree \<Rightarrow> bytes list \<Rightarrow> bytes \<Rightarrow> int" where
  "BinarySearchKeys T keys key = sint (of_nat (LowerBound keys key (tree_cmp T)) :: 32 word)"

text \<open>The overload for slices has a loop of its own, the same as that of \<open>LowerBound\<close>.\<close>

definition BinarySearchKeys_slices :: "BPlusTree \<Rightarrow> bytes list \<Rightarrow> bytes \<Rightarrow> int" where
  "BinarySearchKeys_slices T keys key = sint (of_nat (LowerBound_loop keys key (tree_cmp T) 0 (length keys)) :: 32 word)"

definition tree_fuel :: "BPlusTree \<Rightarrow> nat" where
  "tree_fuel T = length (nodes (tree_impl T))"

section \<open>Lookup\<close>

fun FindLeaf_loop :: "nat \<Rightarrow> BPlusTree \<Rightarrow> bytes \<Rightarrow> nat \<Rightarrow> nat option" where
  "FindLeaf_loop 0 T key current = None"
| "FindLeaf_loop (Suc n) T key current =
     (if current \<noteq> 0 then
        (case GetNode T current of
           None \<Rightarrow> Some 0
         | Some (Leaf _) \<Rightarrow> Some current
         | Some (Internal internal) \<Rightarrow>
             let idx = UpperBound (inner_keys internal) key (tree_cmp T) in
             if idx \<ge> length (inner_children internal) then Some 0
             else FindLeaf_loop n T key (inner_children internal ! idx))
      else Some 0)"

definition FindLeaf :: "BPlusTree \<Rightarrow> bytes \<Rightarrow> nat option" where
  "FindLeaf T key = FindLeaf_loop (tree_fuel T) T key (root_id T)"

text \<open>
  The out parameter \<open>std::string* value\<close> is an optional string: \<^term>\<open>None\<close> is the null
  pointer, and the second component of the result is what it holds afterwards.
\<close>

definition BPlusTree_Get :: "BPlusTree \<Rightarrow> bytes \<Rightarrow> bytes option \<Rightarrow> (Status \<times> bytes option) option" where
  "BPlusTree_Get T key value =
     (if value = None then Some (Status_InvalidArgument ''value output cannot be null'', value)
      else do {
        leaf_id \<leftarrow> FindLeaf T key;
        if leaf_id = 0 \<or> GetNode T leaf_id = None
        then Some (Status_InternalError ''Leaf not found'', value)
        else do {
          leaf \<leftarrow> as_leaf (GetNode T leaf_id);
          let pos = LowerBound (leaf_keys leaf) key (tree_cmp T);
          if pos < length (leaf_keys leaf) \<and> Compare (tree_cmp T) (leaf_keys leaf ! pos) key = 0
          then do { v \<leftarrow> vec_get (leaf_values leaf) pos; Some (Status_OK, Some v) }
          else Some (Status_NotFound ''Key not found'', value)
        }
      })"

section \<open>Insertion\<close>

record SplitResult =
  sr_split :: bool
  sr_separator :: bytes
  sr_right :: nat

definition SplitResult_init :: SplitResult where
  "SplitResult_init = \<lparr>sr_split = False, sr_separator = [], sr_right = 0\<rparr>"

type_synonym insert_result = "Status \<times> SplitResult \<times> bool \<times> BPlusTree"

text \<open>The part of the leaf case after \<open>inserted = true\<close>: the leaf is over-full and splits.\<close>

definition split_leaf :: "nat \<Rightarrow> BPlusTree \<Rightarrow> insert_result option" where
  "split_leaf node_id T = do {
     (right_id, T) \<leftarrow> AllocateNode True T;
     leaf \<leftarrow> as_leaf (GetNode T node_id);
     r \<leftarrow> as_leaf (GetNode T right_id);
     let mid = length (leaf_keys leaf) div 2;
     rks \<leftarrow> vec_from (leaf_keys leaf) mid;
     rvs \<leftarrow> vec_from (leaf_values leaf) mid;
     lks \<leftarrow> vec_upto (leaf_keys leaf) mid;
     lvs \<leftarrow> vec_upto (leaf_values leaf) mid;
     let T = SetNode right_id (Leaf (r\<lparr>leaf_keys := rks, leaf_values := rvs, leaf_next := leaf_next leaf\<rparr>)) T;
     let T = SetNode node_id (Leaf (leaf\<lparr>leaf_keys := lks, leaf_values := lvs, leaf_next := right_id\<rparr>)) T;
     sep \<leftarrow> vec_front rks;
     Some (Status_OK, \<lparr>sr_split = True, sr_separator = sep, sr_right = right_id\<rparr>, True, T)
   }"

definition insert_into_leaf ::
  "bytes \<Rightarrow> bytes \<Rightarrow> nat \<Rightarrow> LeafNode \<Rightarrow> SplitResult \<Rightarrow> bool \<Rightarrow> BPlusTree \<Rightarrow> insert_result option" where
  "insert_into_leaf key value node_id leaf result inserted T = do {
     let pos = LowerBound (leaf_keys leaf) key (tree_cmp T);
     if pos < length (leaf_keys leaf) \<and> Compare (tree_cmp T) (leaf_keys leaf ! pos) key = 0
     then do {
       vs \<leftarrow> vec_set (leaf_values leaf) pos value;
       Some (Status_OK, result, inserted, SetNode node_id (Leaf (leaf\<lparr>leaf_values := vs\<rparr>)) T)
     } else do {
       ks \<leftarrow> vec_insert (leaf_keys leaf) pos key;
       vs \<leftarrow> vec_insert (leaf_values leaf) pos value;
       let T = SetNode node_id (Leaf (leaf\<lparr>leaf_keys := ks, leaf_values := vs\<rparr>)) T;
       if length ks \<le> tree_max T then Some (Status_OK, result, True, T)
       else split_leaf node_id T
     }
   }"

definition split_internal :: "nat \<Rightarrow> bool \<Rightarrow> BPlusTree \<Rightarrow> insert_result option" where
  "split_internal node_id inserted T = do {
     (right_id, T) \<leftarrow> AllocateNode False T;
     internal \<leftarrow> as_internal (GetNode T node_id);
     r \<leftarrow> as_internal (GetNode T right_id);
     let mid = length (inner_keys internal) div 2;
     sep \<leftarrow> vec_get (inner_keys internal) mid;
     rks \<leftarrow> vec_from (inner_keys internal) (mid + 1);
     rcs \<leftarrow> vec_from (inner_children internal) (mid + 1);
     lks \<leftarrow> vec_upto (inner_keys internal) mid;
     lcs \<leftarrow> vec_upto (inner_children internal) (mid + 1);
     let T = SetNode right_id (Internal (r\<lparr>inner_keys := rks, inner_children := rcs\<rparr>)) T;
     let T = SetNode node_id (Internal (internal\<lparr>inner_keys := lks, inner_children := lcs\<rparr>)) T;
     Some (Status_OK, \<lparr>sr_split = True, sr_separator = sep, sr_right = right_id\<rparr>, inserted, T)
   }"

text \<open>The internal case after a child has split: the new separator and child go in.\<close>

definition insert_into_internal ::
  "nat \<Rightarrow> SplitResult \<Rightarrow> SplitResult \<Rightarrow> bool \<Rightarrow> BPlusTree \<Rightarrow> insert_result option" where
  "insert_into_internal node_id child_result result inserted T = do {
     internal \<leftarrow> as_internal (GetNode T node_id);
     let pos = LowerBound (inner_keys internal) (sr_separator child_result) (tree_cmp T);
     ks \<leftarrow> vec_insert (inner_keys internal) pos (sr_separator child_result);
     cs \<leftarrow> vec_insert (inner_children internal) (pos + 1) (sr_right child_result);
     let T = SetNode node_id (Internal (internal\<lparr>inner_keys := ks, inner_children := cs\<rparr>)) T;
     if length ks \<le> tree_max T then Some (Status_OK, result, inserted, T)
     else split_internal node_id inserted T
   }"

text \<open>The lambda \<open>insert\<close>; \<open>result\<close> and \<open>inserted\<close> are its reference parameters.\<close>

fun insert_node ::
  "nat \<Rightarrow> bytes \<Rightarrow> bytes \<Rightarrow> nat \<Rightarrow> SplitResult \<Rightarrow> bool \<Rightarrow> BPlusTree \<Rightarrow> insert_result option" where
  "insert_node 0 key value node_id result inserted T = None"
| "insert_node (Suc n) key value node_id result inserted T =
     (case GetNode T node_id of
        None \<Rightarrow> Some (Status_InternalError ''Invalid node during insert'', result, inserted, T)
      | Some (Leaf leaf) \<Rightarrow> insert_into_leaf key value node_id leaf result inserted T
      | Some (Internal internal) \<Rightarrow>
          let child_idx = UpperBound (inner_keys internal) key (tree_cmp T) in
          if child_idx \<ge> length (inner_children internal)
          then Some (Status_InternalError ''Invalid child index'', result, inserted, T)
          else do {
            (s, child_result, inserted, T) \<leftarrow>
              insert_node n key value (inner_children internal ! child_idx) SplitResult_init inserted T;
            if \<not> Status_ok s then Some (s, result, inserted, T)
            else if \<not> sr_split child_result then Some (Status_OK, result, inserted, T)
            else insert_into_internal node_id child_result result inserted T
          })"

definition grow_root :: "SplitResult \<Rightarrow> BPlusTree \<Rightarrow> BPlusTree option" where
  "grow_root result T = do {
     (new_root_id, T) \<leftarrow> AllocateNode False T;
     root \<leftarrow> as_internal (GetNode T new_root_id);
     let root = root\<lparr>inner_keys := inner_keys root @ [sr_separator result],
                     inner_children := inner_children root @ [root_id T] @ [sr_right result]\<rparr>;
     let T = SetNode new_root_id (Internal root) T;
     Some (T\<lparr>root_id := new_root_id, root_is_leaf := False, tree_height := tree_height T + 1\<rparr>)
   }"

definition BPlusTree_Put :: "bytes \<Rightarrow> bytes \<Rightarrow> BPlusTree \<Rightarrow> (Status \<times> BPlusTree) option" where
  "BPlusTree_Put key value T =
     (if key = [] then Some (Status_InvalidArgument ''Key cannot be empty'', T)
      else do {
        (s, result, inserted, T) \<leftarrow>
          insert_node (tree_fuel T) key value (root_id T) SplitResult_init False T;
        if \<not> Status_ok s then Some (s, T)
        else do {
          let T = (if inserted then T\<lparr>tree_size := tree_size T + 1\<rparr> else T);
          if sr_split result then do { T \<leftarrow> grow_root result T; Some (Status_OK, T) }
          else Some (Status_OK, T)
        }
      })"

section \<open>Deletion\<close>

record DeleteResult =
  dr_removed :: bool
  dr_underflow :: bool
  dr_first_key :: bytes

definition DeleteResult_init :: DeleteResult where
  "DeleteResult_init = \<lparr>dr_removed = False, dr_underflow = False, dr_first_key = []\<rparr>"

type_synonym erase_result = "Status \<times> DeleteResult \<times> BPlusTree"

definition erase_from_leaf ::
  "bytes \<Rightarrow> nat \<Rightarrow> LeafNode \<Rightarrow> bool \<Rightarrow> DeleteResult \<Rightarrow> BPlusTree \<Rightarrow> erase_result option" where
  "erase_from_leaf key node_id leaf is_root out T = do {
     let pos = LowerBound (leaf_keys leaf) key (tree_cmp T);
     if pos \<ge> length (leaf_keys leaf) \<or> Compare (tree_cmp T) (leaf_keys leaf ! pos) key \<noteq> 0
     then Some (Status_NotFound ''Key not found'', out, T)
     else do {
       ks \<leftarrow> vec_erase (leaf_keys leaf) pos;
       vs \<leftarrow> vec_erase (leaf_values leaf) pos;
       let out = \<lparr>dr_removed = True,
                  dr_underflow = \<not> is_root \<and> length ks < tree_max T div 2,
                  dr_first_key = (if ks = [] then [] else hd ks)\<rparr>;
       Some (Status_OK, out, SetNode node_id (Leaf (leaf\<lparr>leaf_keys := ks, leaf_values := vs\<rparr>)) T)
     }
   }"

fun first_key_of_subtree :: "nat \<Rightarrow> BPlusTree \<Rightarrow> nat \<Rightarrow> bytes option" where
  "first_key_of_subtree 0 T nid = None"
| "first_key_of_subtree (Suc n) T nid =
     (case GetNode T nid of
        None \<Rightarrow> Some []
      | Some (Leaf lf) \<Rightarrow> Some (if leaf_keys lf = [] then [] else hd (leaf_keys lf))
      | Some (Internal inn) \<Rightarrow>
          if inner_children inn = [] then Some []
          else first_key_of_subtree n T (hd (inner_children inn)))"

text \<open>
  Assigning to one separator of the internal node \<open>node_id\<close>, and the lambda
  \<open>update_separator\<close>.
\<close>

definition set_separator :: "nat \<Rightarrow> nat \<Rightarrow> bytes \<Rightarrow> BPlusTree \<Rightarrow> BPlusTree option" where
  "set_separator node_id i k T = do {
     internal \<leftarrow> as_internal (GetNode T node_id);
     ks \<leftarrow> vec_set (inner_keys internal) i k;
     Some (SetNode node_id (Internal (internal\<lparr>inner_keys := ks\<rparr>)) T)
   }"

definition update_separator :: "nat \<Rightarrow> nat \<Rightarrow> BPlusTree \<Rightarrow> BPlusTree option" where
  "update_separator node_id child_index T = do {
     internal \<leftarrow> as_internal (GetNode T node_id);
     if child_index > 0 \<and> child_index - 1 < length (inner_keys internal) then do {
       c \<leftarrow> vec_get (inner_children internal) child_index;
       first \<leftarrow> first_key_of_subtree (tree_fuel T) T c;
       if first \<noteq> [] then set_separator node_id (child_index - 1) first T else Some T
     } else Some T
   }"

text \<open>
  Redistribution from the left sibling.  The boolean of the result is \<open>child.underflow\<close>
  afterwards.
\<close>

definition borrow_from_left :: "nat \<Rightarrow> nat \<Rightarrow> nat \<Rightarrow> BPlusTree \<Rightarrow> (bool \<times> BPlusTree) option" where
  "borrow_from_left node_id idx child_id T = do {
     internal \<leftarrow> as_internal (GetNode T node_id);
     left_id \<leftarrow> vec_get (inner_children internal) (idx - 1);
     child_node \<leftarrow> GetNode T child_id;
     (case GetNode T left_id of
        None \<Rightarrow> Some (True, T)
      | Some left \<Rightarrow>
          if Size left > tree_max T div 2 then do {
            T \<leftarrow> (case child_node of
              Leaf r \<Rightarrow> do {
                l \<leftarrow> as_leaf (Some left);
                k \<leftarrow> vec_back (leaf_keys l);
                v \<leftarrow> vec_back (leaf_values l);
                lks \<leftarrow> vec_pop_back (leaf_keys l);
                lvs \<leftarrow> vec_pop_back (leaf_values l);
                let T = SetNode child_id (Leaf (r\<lparr>leaf_keys := k # leaf_keys r, leaf_values := v # leaf_values r\<rparr>)) T;
                Some (SetNode left_id (Leaf (l\<lparr>leaf_keys := lks, leaf_values := lvs\<rparr>)) T)
              }
            | Internal r \<Rightarrow> do {
                l \<leftarrow> as_internal (Some left);
                c \<leftarrow> vec_back (inner_children l);
                sep \<leftarrow> vec_get (inner_keys internal) (idx - 1);
                k \<leftarrow> vec_back (inner_keys l);
                ks \<leftarrow> vec_set (inner_keys internal) (idx - 1) k;
                lcs \<leftarrow> vec_pop_back (inner_children l);
                lks \<leftarrow> vec_pop_back (inner_keys l);
                let T = SetNode child_id (Internal (r\<lparr>inner_children := c # inner_children r, inner_keys := sep # inner_keys r\<rparr>)) T;
                let T = SetNode node_id (Internal (internal\<lparr>inner_keys := ks\<rparr>)) T;
                Some (SetNode left_id (Internal (l\<lparr>inner_children := lcs, inner_keys := lks\<rparr>)) T)
              });
            T \<leftarrow> update_separator node_id idx T;
            Some (False, T)
          } else Some (True, T))
   }"

definition borrow_from_right :: "nat \<Rightarrow> nat \<Rightarrow> nat \<Rightarrow> BPlusTree \<Rightarrow> (bool \<times> BPlusTree) option" where
  "borrow_from_right node_id idx child_id T = do {
     internal \<leftarrow> as_internal (GetNode T node_id);
     right_id \<leftarrow> vec_get (inner_children internal) (idx + 1);
     child_node \<leftarrow> GetNode T child_id;
     (case GetNode T right_id of
        None \<Rightarrow> Some (True, T)
      | Some right \<Rightarrow>
          if Size right > tree_max T div 2 then do {
            T \<leftarrow> (case child_node of
              Leaf l \<Rightarrow> do {
                r \<leftarrow> as_leaf (Some right);
                k \<leftarrow> vec_front (leaf_keys r);
                v \<leftarrow> vec_front (leaf_values r);
                rks \<leftarrow> vec_erase (leaf_keys r) 0;
                rvs \<leftarrow> vec_erase (leaf_values r) 0;
                first \<leftarrow> vec_front rks;
                ks \<leftarrow> vec_set (inner_keys internal) idx first;
                let T = SetNode child_id (Leaf (l\<lparr>leaf_keys := leaf_keys l @ [k], leaf_values := leaf_values l @ [v]\<rparr>)) T;
                let T = SetNode right_id (Leaf (r\<lparr>leaf_keys := rks, leaf_values := rvs\<rparr>)) T;
                Some (SetNode node_id (Internal (internal\<lparr>inner_keys := ks\<rparr>)) T)
              }
            | Internal l \<Rightarrow> do {
                r \<leftarrow> as_internal (Some right);
                sep \<leftarrow> vec_get (inner_keys internal) idx;
                c \<leftarrow> vec_front (inner_children r);
                k \<leftarrow> vec_front (inner_keys r);
                ks \<leftarrow> vec_set (inner_keys internal) idx k;
                rks \<leftarrow> vec_erase (inner_keys r) 0;
                rcs \<leftarrow> vec_erase (inner_children r) 0;
                let T = SetNode child_id (Internal (l\<lparr>inner_keys := inner_keys l @ [sep], inner_children := inner_children l @ [c]\<rparr>)) T;
                let T = SetNode node_id (Internal (internal\<lparr>inner_keys := ks\<rparr>)) T;
                Some (SetNode right_id (Internal (r\<lparr>inner_keys := rks, inner_children := rcs\<rparr>)) T)
              });
            Some (False, T)
          } else Some (True, T))
   }"

text \<open>Merging the node \<open>children[i + 1]\<close> into its left neighbour \<open>children[i]\<close>.\<close>

definition merge_into_left :: "nat \<Rightarrow> nat \<Rightarrow> BTreeNode \<Rightarrow> nat \<Rightarrow> BTreeNode \<Rightarrow> nat \<Rightarrow> BPlusTree \<Rightarrow> BPlusTree option" where
  "merge_into_left node_id i child_node left_id left right_id T = do {
     internal \<leftarrow> as_internal (GetNode T node_id);
     right \<leftarrow> GetNode T right_id;
     T \<leftarrow> (if IsLeaf child_node then do {
         l \<leftarrow> as_leaf (Some left);
         r \<leftarrow> as_leaf (Some right);
         Some (SetNode left_id (Leaf (l\<lparr>leaf_keys := leaf_keys l @ leaf_keys r,
                 leaf_values := leaf_values l @ leaf_values r, leaf_next := leaf_next r\<rparr>)) T)
       } else do {
         l \<leftarrow> as_internal (Some left);
         r \<leftarrow> as_internal (Some right);
         sep \<leftarrow> vec_get (inner_keys internal) i;
         Some (SetNode left_id (Internal (l\<lparr>inner_keys := inner_keys l @ [sep] @ inner_keys r,
                 inner_children := inner_children l @ inner_children r\<rparr>)) T)
       });
     ks \<leftarrow> vec_erase (inner_keys internal) i;
     cs \<leftarrow> vec_erase (inner_children internal) (i + 1);
     let T = SetNode node_id (Internal (internal\<lparr>inner_keys := ks, inner_children := cs\<rparr>)) T;
     Some (FreeNode right_id T)
   }"

definition merge_child :: "nat \<Rightarrow> nat \<Rightarrow> nat \<Rightarrow> BPlusTree \<Rightarrow> BPlusTree option" where
  "merge_child node_id idx child_id T = do {
     internal \<leftarrow> as_internal (GetNode T node_id);
     child_node \<leftarrow> GetNode T child_id;
     if idx > 0 then do {
       left_id \<leftarrow> vec_get (inner_children internal) (idx - 1);
       (case GetNode T left_id of
          None \<Rightarrow> Some T
        | Some left \<Rightarrow> merge_into_left node_id (idx - 1) child_node left_id left child_id T)
     } else if idx + 1 < length (inner_children internal) then do {
       right_id \<leftarrow> vec_get (inner_children internal) (idx + 1);
       (case GetNode T right_id of
          None \<Rightarrow> Some T
        | Some right \<Rightarrow> merge_into_left node_id idx child_node child_id child_node right_id T)
     } else Some T
   }"

definition rebalance_child :: "nat \<Rightarrow> nat \<Rightarrow> nat \<Rightarrow> BPlusTree \<Rightarrow> BPlusTree option" where
  "rebalance_child node_id idx child_id T = do {
     (u, T) \<leftarrow> (if idx > 0 then borrow_from_left node_id idx child_id T else Some (True, T));
     internal \<leftarrow> as_internal (GetNode T node_id);
     (u, T) \<leftarrow> (if u \<and> idx + 1 < length (inner_children internal)
                then borrow_from_right node_id idx child_id T else Some (u, T));
     if u then merge_child node_id idx child_id T else Some T
   }"

text \<open>The loop that recomputes every separator.\<close>

definition refresh_separator :: "nat \<Rightarrow> nat \<Rightarrow> BPlusTree \<Rightarrow> BPlusTree option" where
  "refresh_separator node_id i T = do {
     internal \<leftarrow> as_internal (GetNode T node_id);
     c \<leftarrow> vec_get (inner_children internal) i;
     first \<leftarrow> first_key_of_subtree (tree_fuel T) T c;
     if first \<noteq> [] then set_separator node_id (i - 1) first T else Some T
   }"

text \<open>The internal case of \<open>erase\<close> after the recursive call succeeded.\<close>

definition erase_from_internal ::
  "nat \<Rightarrow> nat \<Rightarrow> bool \<Rightarrow> DeleteResult \<Rightarrow> DeleteResult \<Rightarrow> BPlusTree \<Rightarrow> erase_result option" where
  "erase_from_internal node_id idx is_root child out T = do {
     internal \<leftarrow> as_internal (GetNode T node_id);
     child_id \<leftarrow> vec_get (inner_children internal) idx;
     if GetNode T child_id = None then Some (Status_InternalError ''Deleted child missing'', out, T)
     else do {
       T \<leftarrow> (if idx > 0 \<and> dr_first_key child \<noteq> [] then set_separator node_id (idx - 1) (dr_first_key child) T
             else Some T);
       T \<leftarrow> (if dr_underflow child then rebalance_child node_id idx child_id T else Some T);
       internal \<leftarrow> as_internal (GetNode T node_id);
       T \<leftarrow> for_range 1 (length (inner_children internal) - 1) (refresh_separator node_id) T;
       internal \<leftarrow> as_internal (GetNode T node_id);
       first \<leftarrow> (if inner_children internal = [] then Some []
                  else first_key_of_subtree (tree_fuel T) T (hd (inner_children internal)));
       let out = \<lparr>dr_removed = True,
                  dr_underflow = \<not> is_root \<and> length (inner_keys internal) < tree_max T div 2,
                  dr_first_key = first\<rparr>;
       Some (Status_OK, out, T)
     }
   }"

text \<open>The lambda \<open>erase\<close>; \<open>out\<close> is its reference parameter.\<close>

fun erase_node :: "nat \<Rightarrow> bytes \<Rightarrow> nat \<Rightarrow> bool \<Rightarrow> DeleteResult \<Rightarrow> BPlusTree \<Rightarrow> erase_result option" where
  "erase_node 0 key node_id is_root out T = None"
| "erase_node (Suc n) key node_id is_root out T =
     (case GetNode T node_id of
        None \<Rightarrow> Some (Status_InternalError ''Invalid node during delete'', out, T)
      | Some (Leaf leaf) \<Rightarrow> erase_from_leaf key node_id leaf is_root out T
      | Some (Internal internal) \<Rightarrow>
          let idx = UpperBound (inner_keys internal) key (tree_cmp T) in
          if idx \<ge> length (inner_children internal)
          then Some (Status_InternalError ''Invalid child index'', out, T)
          else do {
            (s, child, T) \<leftarrow> erase_node n key (inner_children internal ! idx) False DeleteResult_init T;
            if \<not> Status_ok s then Some (s, out, T)
            else if \<not> dr_removed child then Some (Status_NotFound ''Key not found'', out, T)
            else erase_from_internal node_id idx is_root child out T
          })"

definition collapse_root :: "BPlusTree \<Rightarrow> BPlusTree option" where
  "collapse_root T =
     (if root_is_leaf T then Some T
      else if GetNode T (root_id T) = None then Some T
      else do {
        root \<leftarrow> as_internal (GetNode T (root_id T));
        if length (inner_children root) = 1 then
          let old_root = root_id T;
              T = T\<lparr>root_id := hd (inner_children root)\<rparr>;
              T = T\<lparr>root_is_leaf := (case GetNode T (root_id T) of None \<Rightarrow> False | Some n \<Rightarrow> IsLeaf n)\<rparr>;
              T = (if tree_height T > 1 then T\<lparr>tree_height := tree_height T - 1\<rparr> else T)
          in Some (FreeNode old_root T)
        else if inner_children root = [] then do {
          let T = FreeNode (root_id T) T;
          (nid, T) \<leftarrow> AllocateNode True T;
          Some (T\<lparr>root_id := nid, root_is_leaf := True, tree_height := 1\<rparr>)
        } else Some T
      })"

definition BPlusTree_Delete :: "bytes \<Rightarrow> BPlusTree \<Rightarrow> (Status \<times> BPlusTree) option" where
  "BPlusTree_Delete key T =
     (if tree_size T = 0 then Some (Status_NotFound ''Key not found'', T)
      else do {
        (s, result, T) \<leftarrow> erase_node (tree_fuel T) key (root_id T) True DeleteResult_init T;
        if \<not> Status_ok s then Some (s, T)
        else if \<not> dr_removed result then Some (Status_NotFound ''Key not found'', T)
        else do {
          T \<leftarrow> collapse_root (T\<lparr>tree_size := tree_size T - 1\<rparr>);
          Some (Status_OK, T)
        }
      })"

end
