(* ===== verification/Ordered_Lists.thy ===== *)
theory Ordered_Lists
  imports Key_Search
begin

text \<open>
  The abstract contents of the store: association lists sorted by key, with insertion
  (\<open>put_spec\<close>) and removal (\<open>del_spec\<close>).  Both are written with filters, so they
  distribute over the concatenation of a tree's leaves, and both are shown to act on the map
  that the list denotes as update and removal do.
\<close>

type_synonym entry = "bytes \<times> bytes"

definition put_spec :: "Comparator option \<Rightarrow> bytes \<Rightarrow> bytes \<Rightarrow> entry list \<Rightarrow> entry list" where
  "put_spec c k v xs =
     filter (\<lambda>e. key_lt c (fst e) k) xs @ (k, v) # filter (\<lambda>e. key_lt c k (fst e)) xs"

definition del_spec :: "bytes \<Rightarrow> entry list \<Rightarrow> entry list" where
  "del_spec k xs = filter (\<lambda>e. fst e \<noteq> k) xs"

definition keys_of :: "entry list \<Rightarrow> bytes list" where
  "keys_of xs = map fst xs"

lemma keys_of_simps [simp]:
  "keys_of [] = []" "keys_of (x # xs) = fst x # keys_of xs"
  "keys_of (xs @ ys) = keys_of xs @ keys_of ys" "length (keys_of xs) = length xs"
  "keys_of (take n xs) = take n (keys_of xs)" "keys_of (drop n xs) = drop n (keys_of xs)"
  "i < length xs \<Longrightarrow> keys_of xs ! i = fst (xs ! i)" "keys_of xs = [] \<longleftrightarrow> xs = []"
  by (simp_all add: keys_of_def take_map drop_map)

lemma hd_keys_of: "xs \<noteq> [] \<Longrightarrow> hd (keys_of xs) = fst (hd xs)"
  by (simp add: keys_of_def hd_map)

lemma map_of_filter_key:
  "map_of (filter (\<lambda>e. P (fst e)) xs) k = (if P k then map_of xs k else None)"
  by (induction xs) auto

lemma map_of_del_spec: "map_of (del_spec k xs) = (map_of xs)(k := None)"
  by (auto simp: del_spec_def map_of_filter_key [of "\<lambda>x. x \<noteq> k"] fun_eq_iff)

lemma del_spec_append [simp]: "del_spec k (xs @ ys) = del_spec k xs @ del_spec k ys"
  by (simp add: del_spec_def)

lemma del_spec_absent: "k \<notin> set (keys_of xs) \<Longrightarrow> del_spec k xs = xs"
  by (auto simp: del_spec_def keys_of_def filter_id_conv)

lemma set_del_spec: "set (keys_of (del_spec k xs)) = set (keys_of xs) - {k}"
  by (auto simp: del_spec_def keys_of_def)

context key_order begin

abbreviation ordered :: "entry list \<Rightarrow> bool" where
  "ordered xs \<equiv> sorted_keys (keys_of xs)"

lemma ordered_distinct: "ordered xs \<Longrightarrow> distinct (keys_of xs)"
  by (simp add: sorted_wrt_iff_nth_less distinct_conv_nth) (metis lt_irrefl nat_neq_iff)

lemma ordered_append:
  "ordered (xs @ ys) \<longleftrightarrow> ordered xs \<and> ordered ys \<and> (\<forall>x\<in>set (keys_of xs). \<forall>y\<in>set (keys_of ys). lt x y)"
  by (simp add: sorted_wrt_append)

lemma ordered_filter: "ordered xs \<Longrightarrow> ordered (filter P xs)"
  by (simp add: keys_of_def sorted_wrt_map sorted_wrt_filter)

lemma map_of_put_spec: "map_of (put_spec comparator k v xs) = (map_of xs)(k \<mapsto> v)"
proof
  fix k'
  show "map_of (put_spec comparator k v xs) k' = ((map_of xs)(k \<mapsto> v)) k'"
    using lt_total [of k' k] lt_asym [of k k']
    by (cases "k' = k")
      (auto simp: put_spec_def map_add_def map_of_filter_key [of "\<lambda>x. lt x k"]
        map_of_filter_key [of "\<lambda>x. lt k x"] split: option.splits)
qed

lemma set_put_spec: "set (keys_of (put_spec comparator k v xs)) = insert k (set (keys_of xs))"
  using lt_total by (auto simp: put_spec_def keys_of_def image_iff)

lemma ordered_put_spec: "ordered xs \<Longrightarrow> ordered (put_spec comparator k v xs)"
  by (auto simp: put_spec_def sorted_wrt_append ordered_filter keys_of_def intro: lt_trans)
    (auto simp: sorted_wrt_map sorted_wrt_filter)

lemma ordered_del_spec: "ordered xs \<Longrightarrow> ordered (del_spec k xs)"
  by (simp add: del_spec_def ordered_filter)

text \<open>A run whose neighbours lie entirely below and above the key absorbs the update.\<close>

lemma put_spec_mid:
  assumes "\<forall>x\<in>set (keys_of A). lt x k" and "\<forall>x\<in>set (keys_of B). lt k x"
  shows "put_spec comparator k v (A @ C @ B) = A @ put_spec comparator k v C @ B"
proof -
  have "filter (\<lambda>e. lt (fst e) k) A = A" "filter (\<lambda>e. lt k (fst e)) A = []"
    "filter (\<lambda>e. lt (fst e) k) B = []" "filter (\<lambda>e. lt k (fst e)) B = B"
    using assms lt_asym by (auto simp: keys_of_def filter_id_conv filter_empty_conv)
  then show ?thesis by (simp add: put_spec_def)
qed

lemma del_spec_mid:
  assumes "\<forall>x\<in>set (keys_of A). lt x k" and "\<forall>x\<in>set (keys_of B). lt k x"
  shows "del_spec k (A @ C @ B) = A @ del_spec k C @ B"
proof -
  have "k \<notin> set (keys_of A)" "k \<notin> set (keys_of B)" using assms lt_irrefl by blast+
  then show ?thesis by (simp add: del_spec_absent)
qed

lemma mem_mid:
  assumes "\<forall>x\<in>set (keys_of A). lt x k" and "\<forall>x\<in>set (keys_of B). lt k x"
  shows "k \<in> set (keys_of (A @ C @ B)) \<longleftrightarrow> k \<in> set (keys_of C)"
    and "map_of (A @ C @ B) k = map_of C k"
proof -
  have n: "k \<notin> set (keys_of A)" "k \<notin> set (keys_of B)" using assms lt_irrefl by blast+
  then show "k \<in> set (keys_of (A @ C @ B)) \<longleftrightarrow> k \<in> set (keys_of C)" by simp
  have "map_of A k = None" "map_of B k = None"
    using n by (simp_all add: map_of_eq_None_iff keys_of_def)
  then show "map_of (A @ C @ B) k = map_of C k"
    by (simp add: map_add_def split: option.splits)
qed

lemma put_spec_not_Nil [simp]: "put_spec c k v xs \<noteq> []"
  by (simp add: put_spec_def)

lemma put_spec_hd:
  assumes "C \<noteq> []" and "ordered C" and "\<not> lt k (fst (hd C))"
  shows "fst (hd (put_spec comparator k v C)) = fst (hd C)"
proof -
  obtain e es where C: "C = e # es" using assms(1) by (cases C) auto
  show ?thesis
  proof (cases "lt (fst e) k")
    case True then show ?thesis by (simp add: C put_spec_def)
  next
    case False
    with assms(3) have e: "fst e = k" using lt_total by (auto simp: C)
    then have "filter (\<lambda>x. lt (fst x) k) es = []"
      using assms(2) lt_asym by (auto simp: C keys_of_def filter_empty_conv)
    then show ?thesis by (simp add: C put_spec_def e)
  qed
qed

text \<open>The two ways a leaf performs the update, at the lower bound of the key.\<close>

lemma filter_keys_of: "keys_of (filter (\<lambda>e. P (fst e)) xs) = filter P (keys_of xs)"
  by (simp add: keys_of_def filter_map comp_def)

lemma take_drop_partition:
  assumes "partition_point P (keys_of xs) p"
  shows "take p xs = filter (\<lambda>e. P (fst e)) xs" and "drop p xs = filter (\<lambda>e. \<not> P (fst e)) xs"
proof -
  have "partition_point (\<lambda>e. P (fst e)) xs p"
    using assms by (auto simp: partition_point_def)
  from partition_point_filter [OF this]
  show "take p xs = filter (\<lambda>e. P (fst e)) xs" "drop p xs = filter (\<lambda>e. \<not> P (fst e)) xs" by simp_all
qed

lemma leaf_insert_put_spec:
  assumes o: "ordered xs" and n: "k \<notin> set (keys_of xs)"
  defines "p \<equiv> LowerBound (keys_of xs) k comparator"
  shows "take p xs @ (k, v) # drop p xs = put_spec comparator k v xs"
proof -
  have "filter (\<lambda>e. \<not> lt (fst e) k) xs = filter (\<lambda>e. lt k (fst e)) xs"
  proof (rule filter_cong [OF refl])
    fix e assume "e \<in> set xs"
    then have "fst e \<noteq> k" using n by (auto simp: keys_of_def)
    then show "(\<not> lt (fst e) k) = lt k (fst e)" using lt_total lt_asym by blast
  qed
  then show ?thesis
    using take_drop_partition [OF LowerBound_partition [OF o, of k]] by (simp add: put_spec_def p_def)
qed

lemma leaf_hit:
  fixes k xs
  assumes o: "ordered xs" and h: "k \<in> set (keys_of xs)"
  defines "p \<equiv> LowerBound (keys_of xs) k comparator"
  shows "p < length xs" and "fst (xs ! p) = k"
    and "drop (Suc p) xs = filter (\<lambda>e. lt k (fst e)) xs"
    and "take p xs = filter (\<lambda>e. lt (fst e) k) xs"
proof -
  have "p < length (keys_of xs) \<and> Compare comparator (keys_of xs ! p) k = 0"
    using iffD2 [OF LowerBound_hit [OF o, of k] h] by (simp only: p_def)
  then show p: "p < length xs" and fp: "fst (xs ! p) = k" by (auto simp: cmp_eq)
  show "take p xs = filter (\<lambda>e. lt (fst e) k) xs"
    using take_drop_partition [OF LowerBound_partition [OF o, of k]] by (simp add: p_def)
  have d: "drop p xs = filter (\<lambda>e. \<not> lt (fst e) k) xs"
    using take_drop_partition [OF LowerBound_partition [OF o, of k]] by (simp add: p_def)
  have split: "xs = take p xs @ xs ! p # drop (Suc p) xs" by (rule id_take_nth_drop [OF p])
  have oo: "ordered (take p xs @ xs ! p # drop (Suc p) xs)" using o split by simp
  have up: "\<forall>e \<in> set (drop (Suc p) xs). lt k (fst e)"
    using oo fp by (auto simp: sorted_wrt_append keys_of_def simp del: append_take_drop_id)
  have lo: "\<forall>e \<in> set (take p xs). \<not> lt k (fst e)"
    using oo fp lt_asym by (auto simp: sorted_wrt_append keys_of_def simp del: append_take_drop_id)
  have "filter (\<lambda>e. lt k (fst e)) xs =
      filter (\<lambda>e. lt k (fst e)) (take p xs @ xs ! p # drop (Suc p) xs)" using split by simp
  also have "\<dots> = drop (Suc p) xs"
    using up lo fp by (simp del: append_take_drop_id add: filter_id_conv filter_empty_conv)
  finally show "drop (Suc p) xs = filter (\<lambda>e. lt k (fst e)) xs" by simp
qed

lemma leaf_update_put_spec:
  assumes o: "ordered xs" and h: "k \<in> set (keys_of xs)"
  defines "p \<equiv> LowerBound (keys_of xs) k comparator"
  shows "xs[p := (keys_of xs ! p, v)] = put_spec comparator k v xs"
  using leaf_hit [OF o h] unfolding p_def
  by (simp add: put_spec_def upd_conv_take_nth_drop)

lemma leaf_erase_del_spec:
  assumes o: "ordered xs" and h: "k \<in> set (keys_of xs)"
  defines "p \<equiv> LowerBound (keys_of xs) k comparator"
  shows "take p xs @ drop (Suc p) xs = del_spec k xs"
proof -
  have split: "xs = take p xs @ xs ! p # drop (Suc p) xs"
    using id_take_nth_drop leaf_hit(1) [OF o h] unfolding p_def by blast
  have "k \<notin> set (keys_of (take p xs))" "k \<notin> set (keys_of (drop (Suc p) xs))"
    using leaf_hit(3,4) [OF o h] lt_irrefl unfolding p_def by (auto simp: keys_of_def)
  then have a: "del_spec k (take p xs) = take p xs" "del_spec k (drop (Suc p) xs) = drop (Suc p) xs"
    by (simp_all add: del_spec_absent del: keys_of_simps)
  have "del_spec k xs = del_spec k (take p xs) @ del_spec k (drop (Suc p) xs)"
    using leaf_hit(2) [OF o h] by (subst split) (simp add: del_spec_def p_def)
  also have "\<dots> = take p xs @ drop (Suc p) xs" by (simp only: a)
  finally show ?thesis by simp
qed

end

end
