(* ===== verification/BTree_Spec.thy ===== *)
theory BTree_Spec
  imports Ordered_Lists
begin

text \<open>
  The B+ tree algorithm on trees without pointers: the specification that \<open>BTree\<close> is shown
  to refine in \<open>BTree_Insert\<close> and \<open>BTree_Erase\<close>.  \<open>pins\<close> and \<open>pdel\<close> insert and delete; \<open>pwf\<close> is
  the shape invariant (uniform depth, node fill, every separator the first key of the subtree to
  its right); \<open>entries\<close> is the abstract contents.  The results: insertion and deletion keep
  the invariant and act on the contents as \<open>put_spec\<close> and \<open>del_spec\<close>.
\<close>

datatype ptree = PLeaf "entry list" | PNode "bytes list" "ptree list"

fun entries :: "ptree \<Rightarrow> entry list" where
  "entries (PLeaf kvs) = kvs"
| "entries (PNode ks ts) = concat (map entries ts)"

abbreviation all_entries :: "ptree list \<Rightarrow> entry list" where
  "all_entries ts \<equiv> concat (map entries ts)"

fun pfirst :: "ptree \<Rightarrow> bytes" where
  "pfirst (PLeaf kvs) = (if kvs = [] then [] else fst (hd kvs))"
| "pfirst (PNode ks []) = []"
| "pfirst (PNode ks (t # ts)) = pfirst t"

fun psize :: "ptree \<Rightarrow> nat" where
  "psize (PLeaf kvs) = length kvs"
| "psize (PNode ks ts) = length ks"

abbreviation seps :: "ptree list \<Rightarrow> bytes list" where
  "seps ts \<equiv> map pfirst (tl ts)"

text \<open>
  \<open>pwf m lo h t\<close>: a tree of height \<open>h\<close> whose root has between \<open>lo\<close> and \<open>m\<close>
  keys and whose other nodes have between \<open>m div 2\<close> and \<open>m\<close>.
\<close>

fun pwf :: "nat \<Rightarrow> nat \<Rightarrow> nat \<Rightarrow> ptree \<Rightarrow> bool" where
  "pwf m lo 0 (PLeaf kvs) \<longleftrightarrow> lo \<le> length kvs \<and> length kvs \<le> m"
| "pwf m lo (Suc h) (PNode ks ts) \<longleftrightarrow>
     ts \<noteq> [] \<and> ks = seps ts \<and> lo \<le> length ks \<and> length ks \<le> m \<and> (\<forall>t \<in> set ts. pwf m (m div 2) h t)"
| "pwf m lo _ _ \<longleftrightarrow> False"

lemma pwf_0 [simp]: "pwf m lo 0 t \<longleftrightarrow> (\<exists>kvs. t = PLeaf kvs \<and> lo \<le> length kvs \<and> length kvs \<le> m)"
  by (cases t) auto

lemma pwf_Suc: "pwf m lo (Suc h) t \<longleftrightarrow>
    (\<exists>ts. t = PNode (seps ts) ts \<and> ts \<noteq> [] \<and> lo \<le> length ts - 1 \<and> length ts - 1 \<le> m \<and>
      (\<forall>t \<in> set ts. pwf m (m div 2) h t))"
  by (cases t) auto

lemma pwf_mono: "pwf m lo h t \<Longrightarrow> lo' \<le> lo \<Longrightarrow> pwf m lo' h t"
  by (cases h) (auto simp: pwf_Suc)

lemma pwf_size: "pwf m lo h t \<Longrightarrow> lo \<le> psize t \<and> psize t \<le> m"
  by (cases h) (auto simp: pwf_Suc)

lemma pwf_atLeast: "pwf m lo h t \<Longrightarrow> lo' \<le> psize t \<Longrightarrow> pwf m lo' h t"
  by (cases h) (auto simp: pwf_Suc)

text \<open>In a tree that is not an empty leaf the first key is that of the first entry.\<close>

lemma pfirst_entries:
  "pwf m lo h t \<Longrightarrow> 2 \<le> m \<Longrightarrow> 0 < lo \<or> 0 < h \<Longrightarrow> entries t \<noteq> [] \<and> pfirst t = fst (hd (entries t))"
proof (induction h arbitrary: lo t)
  case 0
  then show ?case by auto
next
  case (Suc h)
  from Suc.prems(1) obtain c cs where t: "t = PNode (seps (c # cs)) (c # cs)"
    and c: "pwf m (m div 2) h c"
    by (auto simp: pwf_Suc neq_Nil_conv)
  have "0 < m div 2" using Suc.prems(2) by simp
  then have "entries c \<noteq> [] \<and> pfirst c = fst (hd (entries c))"
    using Suc.IH [OF c Suc.prems(2)] by blast
  then show ?case by (simp add: t)
qed

abbreviation nodes_ok :: "nat \<Rightarrow> nat \<Rightarrow> ptree list \<Rightarrow> bool" where
  "nodes_ok m h ts \<equiv> \<forall>t \<in> set ts. pwf m (m div 2) h t"

lemma child_entries:
  assumes "nodes_ok m h ts" and "t \<in> set ts" and "2 \<le> m"
  shows "entries t \<noteq> []" and "pfirst t = fst (hd (entries t))"
proof -
  have "0 < m div 2" using assms(3) by simp
  then show "entries t \<noteq> []" "pfirst t = fst (hd (entries t))"
    using pfirst_entries [OF bspec [OF assms(1,2)] assms(3)] by simp_all
qed

lemma pfirst_mem:
  assumes "nodes_ok m h ts" and "t \<in> set ts" and "2 \<le> m"
  shows "pfirst t \<in> set (keys_of (entries t))"
  using child_entries [OF assms] by (simp add: keys_of_def)

lemma hd_all_entries:
  assumes "nodes_ok m h ts" and "2 \<le> m" and "ts \<noteq> []"
  shows "all_entries ts \<noteq> []" and "fst (hd (all_entries ts)) = pfirst (hd ts)"
  using assms child_entries [OF assms(1) _ assms(2)] by (auto simp: neq_Nil_conv)

context key_order begin

lemma first_le:
  assumes "ordered xs" and "x \<in> set (keys_of xs)"
  shows "\<not> lt x (fst (hd xs))"
proof -
  obtain y ys where "xs = y # ys" using assms(2) by (cases xs) auto
  then show ?thesis using assms lt_asym lt_irrefl by auto
qed

lemma pfirsts_sorted:
  "nodes_ok m h ts \<Longrightarrow> 2 \<le> m \<Longrightarrow> ordered (all_entries ts) \<Longrightarrow> sorted_keys (map pfirst ts)"
proof (induction ts)
  case Nil
  then show ?case by simp
next
  case (Cons t ts)
  have "\<forall>u \<in> set ts. lt (pfirst t) (pfirst u)"
  proof
    fix u assume u: "u \<in> set ts"
    have a: "pfirst t \<in> set (keys_of (entries t))"
      using Cons.prems(1,2) by (intro pfirst_mem [where m = m and h = h and ts = "t # ts"]) auto
    have "pfirst u \<in> set (keys_of (entries u))"
      using Cons.prems(1,2) u by (intro pfirst_mem [where m = m and h = h and ts = "t # ts"]) auto
    then have b: "pfirst u \<in> set (keys_of (all_entries ts))"
      using u by (auto simp: keys_of_def)
    from Cons.prems(3) a b show "lt (pfirst t) (pfirst u)"
      by (auto simp: sorted_wrt_append)
  qed
  with Cons show ?case by (simp add: sorted_wrt_append)
qed

lemma sorted_tl: "sorted_keys ks \<Longrightarrow> sorted_keys (tl ks)"
  by (cases ks) auto

lemma seps_sorted:
  "nodes_ok m h ts \<Longrightarrow> 2 \<le> m \<Longrightarrow> ordered (all_entries ts) \<Longrightarrow> sorted_keys (seps ts)"
  using sorted_tl [OF pfirsts_sorted] by (simp add: map_tl)

text \<open>
  The descent: the child that \<open>UpperBound\<close> selects is the only one that can hold the key.
\<close>

lemma descend:
  fixes k
  assumes ok: "nodes_ok m h ts" and m: "2 \<le> m" and o: "ordered (all_entries ts)" and ne: "ts \<noteq> []"
  defines "i \<equiv> UpperBound (seps ts) k comparator"
  shows "\<exists>P c R. ts = P @ c # R \<and> length P = i \<and>
    (\<forall>x\<in>set (keys_of (all_entries P)). lt x k) \<and> (\<forall>x\<in>set (keys_of (all_entries R)). lt k x) \<and>
    (P \<noteq> [] \<longrightarrow> \<not> lt k (pfirst c))"
proof -
  have pp: "partition_point (\<lambda>x. \<not> lt k x) (seps ts) i"
    unfolding i_def by (rule UpperBound_partition [OF seps_sorted [OF ok m o]])
  then have il: "i < length ts" using ne by (auto simp: partition_point_def neq_Nil_conv)
  define P c R where "P = take i ts" and "c = ts ! i" and "R = drop (Suc i) ts"
  have ts: "ts = P @ c # R" using id_take_nth_drop [OF il] by (simp add: P_def c_def R_def)
  have lP: "length P = i" using il by (simp add: P_def)
  have seps_nth: "seps ts ! j = pfirst (ts ! Suc j)" if "Suc j < length ts" for j
    using that by (cases ts) (simp_all add: nth_tl)
  have le: "\<not> lt k (pfirst c)" if "P \<noteq> []"
  proof -
    from that lP obtain j where j: "i = Suc j" by (cases i) auto
    then have "\<not> lt k (seps ts ! j)" using pp by (simp add: partition_point_def del: nth_map)
    then show ?thesis using seps_nth [of j] il j by (simp add: c_def)
  qed
  have below: "lt x k" if x: "x \<in> set (keys_of (all_entries P))" for x
  proof -
    have "P \<noteq> []" using x by auto
    moreover have "pfirst c \<in> set (keys_of (entries c))"
      using ok m ts by (intro pfirst_mem [where ts = ts and m = m and h = h]) auto
    then have "lt x (pfirst c)" using o x ts by (auto simp: sorted_wrt_append)
    ultimately show ?thesis using le lt_le_trans by blast
  qed
  have above: "lt k x" if x: "x \<in> set (keys_of (all_entries R))" for x
  proof -
    obtain r R' where R: "R = r # R'" using x by (cases R) auto
    then have len: "Suc i < length ts" using ts lP by simp
    have "r = ts ! Suc i" using R ts lP by (simp add: nth_append)
    moreover have "i < length (seps ts)" using len by simp
    ultimately have "lt k (pfirst r)"
      using pp seps_nth [OF len] by (auto simp: partition_point_def simp del: nth_map)
    moreover have "pfirst r = fst (hd (all_entries R))"
      using hd_all_entries(2) [of R m h] ok m ts R by auto
    moreover have "ordered (all_entries R)" using o ts by (simp add: sorted_wrt_append)
    then have "\<not> lt x (fst (hd (all_entries R)))" using first_le x by blast
    ultimately show ?thesis using lt_le_trans by metis
  qed
  show ?thesis using ts lP le below above by blast
qed

end

section \<open>Insertion\<close>

lemma nth_size: "i < length ts \<Longrightarrow> size (ts ! i) < Suc (size_list size (ts :: ptree list))"
  using size_list_estimation' [of "ts ! i" ts "size (ts ! i)" size] by (simp add: le_imp_less_Suc)

text \<open>An over-full node splits in the middle; a leaf keeps its middle key, an internal node moves it up.\<close>

definition psplit_leaf :: "entry list \<Rightarrow> ptree \<times> (bytes \<times> ptree) option" where
  "psplit_leaf kvs =
     (let mid = length kvs div 2 in
      (PLeaf (take mid kvs), Some (fst (kvs ! mid), PLeaf (drop mid kvs))))"

definition psplit_node :: "bytes list \<Rightarrow> ptree list \<Rightarrow> ptree \<times> (bytes \<times> ptree) option" where
  "psplit_node ks ts =
     (let mid = length ks div 2 in
      (PNode (take mid ks) (take (Suc mid) ts),
       Some (ks ! mid, PNode (drop (Suc mid) ks) (drop (Suc mid) ts))))"

definition pins_leaf ::
  "Comparator option \<Rightarrow> nat \<Rightarrow> bytes \<Rightarrow> bytes \<Rightarrow> entry list \<Rightarrow> ptree \<times> (bytes \<times> ptree) option \<times> bool" where
  "pins_leaf c m k v kvs =
     (let ks = keys_of kvs; p = LowerBound ks k c in
      if p < length ks \<and> Compare c (ks ! p) k = 0 then (PLeaf (kvs[p := (ks ! p, v)]), None, False)
      else let kvs = take p kvs @ (k, v) # drop p kvs in
        if length kvs \<le> m then (PLeaf kvs, None, True)
        else let (l, s) = psplit_leaf kvs in (l, s, True))"

definition pins_child ::
  "Comparator option \<Rightarrow> nat \<Rightarrow> bytes list \<Rightarrow> ptree list \<Rightarrow> (bytes \<times> ptree) option \<Rightarrow> bool
   \<Rightarrow> ptree \<times> (bytes \<times> ptree) option \<times> bool" where
  "pins_child c m ks ts s ins =
     (case s of
        None \<Rightarrow> (PNode ks ts, None, ins)
      | Some (sep, r) \<Rightarrow>
          let p = LowerBound ks sep c;
              ks = take p ks @ sep # drop p ks;
              ts = take (Suc p) ts @ r # drop (Suc p) ts in
          if length ks \<le> m then (PNode ks ts, None, ins)
          else let (l, s) = psplit_node ks ts in (l, s, ins))"

function pins ::
  "Comparator option \<Rightarrow> nat \<Rightarrow> bytes \<Rightarrow> bytes \<Rightarrow> ptree \<Rightarrow> ptree \<times> (bytes \<times> ptree) option \<times> bool" where
  "pins c m k v (PLeaf kvs) = pins_leaf c m k v kvs"
| "pins c m k v (PNode ks ts) =
     (let i = UpperBound ks k c in
      if i < length ts
      then let (t, s, ins) = pins c m k v (ts ! i) in pins_child c m ks (ts[i := t]) s ins
      else (PNode ks ts, None, False))"
  by pat_completeness auto
termination
  by (relation "measure (\<lambda>(c, m, k, v, t). size t)") (auto simp: nth_size)

text \<open>
  What an insertion into a subtree returns: the updated subtree and possibly a right half, which
  together hold the updated entries; the separator is the right half's first key.
\<close>

definition insert_post ::
  "nat \<Rightarrow> nat \<Rightarrow> nat \<Rightarrow> entry list \<Rightarrow> ptree \<Rightarrow> (bytes \<times> ptree) option \<Rightarrow> bool" where
  "insert_post m lo h es t s \<longleftrightarrow>
     (case s of
        None \<Rightarrow> pwf m lo h t \<and> entries t = es
      | Some (sep, r) \<Rightarrow> pwf m (m div 2) h t \<and> pwf m (m div 2) h r \<and> sep = pfirst r \<and>
          entries t @ entries r = es)"

lemma psplit_leaf_post:
  assumes "length kvs = Suc m" and "2 \<le> m" and "psplit_leaf kvs = (l, s)"
  shows "insert_post m lo 0 kvs l s"
  using assms by (auto simp: psplit_leaf_def insert_post_def Let_def hd_drop_conv_nth)

lemma tl_take: "tl (take (Suc n) xs) = take n (tl xs)"
  by (cases xs) auto

lemma psplit_node_post:
  assumes len: "length ts = Suc (Suc m)" and m: "2 \<le> m" and ok: "nodes_ok m h ts"
    and sp: "psplit_node (seps ts) ts = (l, s)"
  shows "insert_post m lo (Suc h) (all_entries ts) l s"
proof -
  define mid where "mid = Suc m div 2"
  have lm: "mid < Suc m" "m div 2 \<le> mid" "m div 2 \<le> m - mid" "mid \<le> m" "Suc mid < length ts"
    using m len by (auto simp: mid_def)
  have "pfirst (ts ! Suc mid) = pfirst (PNode ks (drop (Suc mid) ts))" for ks
    using lm(5) by (simp flip: Cons_nth_drop_Suc)
  moreover have "seps ts ! mid = pfirst (ts ! Suc mid)"
    using lm(5) by (simp add: nth_tl)
  moreover have "nodes_ok m h (take (Suc mid) ts)" "nodes_ok m h (drop (Suc mid) ts)"
    using ok by (auto dest: in_set_takeD in_set_dropD)
  moreover have "take (Suc mid) ts \<noteq> []" "drop (Suc mid) ts \<noteq> []"
    using lm(5) by auto
  moreover have "all_entries (take (Suc mid) ts) @ all_entries (drop (Suc mid) ts) = all_entries ts"
    by (metis append_take_drop_id concat_append map_append)
  moreover have "take mid (seps ts) = seps (take (Suc mid) ts)"
      "drop (Suc mid) (seps ts) = seps (drop (Suc mid) ts)"
    by (simp_all add: tl_take take_map drop_map tl_drop drop_Suc)
  moreover have "length (seps ts) = Suc m" using len by simp
  ultimately show ?thesis
    using sp lm len unfolding psplit_node_def insert_post_def mid_def Let_def
    by (auto simp: min_def)
qed

context key_order begin

lemma pins_leaf_post:
  assumes o: "ordered kvs" and lo: "lo \<le> length kvs" and len: "length kvs \<le> m" and m: "2 \<le> m"
    and r: "pins_leaf comparator m k v kvs = (t, s, ins)"
  shows "insert_post m lo 0 (put_spec comparator k v kvs) t s \<and> (ins \<longleftrightarrow> k \<notin> set (keys_of kvs))"
proof (cases "k \<in> set (keys_of kvs)")
  case True
  have "length (put_spec comparator k v kvs) = length kvs"
    by (metis leaf_update_put_spec [OF o True, of v] length_list_update)
  with True r len lo show ?thesis
    using LowerBound_hit [OF o, of k] leaf_update_put_spec [OF o True, of v]
    by (auto simp: pins_leaf_def insert_post_def Let_def)
next
  case False
  define es where "es = take (LowerBound (keys_of kvs) k comparator) kvs @
    (k, v) # drop (LowerBound (keys_of kvs) k comparator) kvs"
  have es: "es = put_spec comparator k v kvs"
    unfolding es_def by (rule leaf_insert_put_spec [OF o False])
  have le: "length es = Suc (length kvs)" by (simp add: es_def)
  have "\<not> (LowerBound (keys_of kvs) k comparator < length (keys_of kvs) \<and>
      Compare comparator (keys_of kvs ! LowerBound (keys_of kvs) k comparator) k = 0)"
    using LowerBound_hit [OF o, of k] False by blast
  then have r': "(if length es \<le> m then (PLeaf es, None, True)
      else let (l, s) = psplit_leaf es in (l, s, True)) = (t, s, ins)"
    using r by (simp only: pins_leaf_def Let_def es_def if_False)
  show ?thesis
  proof (cases "length es \<le> m")
    case True
    with r' es le lo False show ?thesis by (auto simp: insert_post_def)
  next
    case nfit: False
    then have "length es = Suc m" using le len by simp
    with r' nfit psplit_leaf_post [OF _ m] show ?thesis
      using False es by (auto split: prod.splits)
  qed
qed

lemma seps_replace:
  assumes "P \<noteq> [] \<longrightarrow> pfirst t = pfirst c"
  shows "seps (P @ t # R) = seps (P @ c # R)"
  using assms by (cases P) auto

lemma seps_insert:
  assumes "P \<noteq> [] \<longrightarrow> pfirst t = pfirst c"
  shows "take (length P) (seps (P @ c # R)) @ pfirst r # drop (length P) (seps (P @ c # R)) =
    seps (P @ t # r # R)"
  using assms by (cases P) auto

lemma LowerBound_sep:
  assumes "sorted_keys (X @ sep # Y)"
  shows "LowerBound (X @ Y) sep comparator = length X"
proof (rule partition_point_unique)
  have s: "sorted_keys (X @ Y)" and x: "\<forall>a\<in>set X. lt a sep" and y: "\<forall>a\<in>set Y. lt sep a"
    using assms by (auto simp: sorted_wrt_append)
  show "partition_point (\<lambda>a. lt a sep) (X @ Y) (LowerBound (X @ Y) sep comparator)"
    by (rule LowerBound_partition [OF s])
  show "partition_point (\<lambda>a. lt a sep) (X @ Y) (length X)"
    using x y lt_asym by (auto simp: partition_point_def nth_append)
qed

text \<open>A split child's new sibling goes directly behind it.\<close>

lemma sep_slot:
  assumes ok: "nodes_ok m h (P @ c # R)" and m: "2 \<le> m"
    and o: "ordered (all_entries P @ es @ all_entries R)"
    and post: "insert_post m (m div 2) h es t (Some (sep, rt))"
    and first: "P \<noteq> [] \<longrightarrow> pfirst t = pfirst c"
  shows "LowerBound (seps (P @ c # R)) sep comparator = length P"
proof -
  define ts where "ts = P @ t # rt # R"
  from post have t: "pwf m (m div 2) h t" "pwf m (m div 2) h rt" "sep = pfirst rt"
      "entries t @ entries rt = es"
    by (auto simp: insert_post_def)
  have ok': "nodes_ok m h ts" using ok t by (auto simp: ts_def)
  have all: "all_entries ts = all_entries P @ es @ all_entries R"
    using t(4) by (simp add: ts_def)
  define ks where "ks = seps (P @ c # R)"
  define X Y where "X = take (length P) ks" and "Y = drop (length P) ks"
  have XY: "X @ sep # Y = seps ts"
    unfolding X_def Y_def ts_def t(3) ks_def by (rule seps_insert [OF first])
  have "sorted_keys (X @ sep # Y)"
    unfolding XY using seps_sorted [OF ok' m] o all by simp
  moreover have "length X = length P" by (simp add: X_def ks_def)
  ultimately show ?thesis
    using LowerBound_sep [of X sep Y] by (simp add: X_def Y_def flip: ks_def)
qed

lemma pins_child_post:
  assumes ok: "nodes_ok m h (P @ c # R)" and m: "2 \<le> m"
    and lo: "lo \<le> length P + length R" and len: "length P + length R \<le> m"
    and o: "ordered (all_entries P @ es @ all_entries R)"
    and post: "insert_post m (m div 2) h es t s"
    and first: "P \<noteq> [] \<longrightarrow> pfirst t = pfirst c"
    and r: "pins_child comparator m (seps (P @ c # R)) (P @ t # R) s ins = (t', s', ins')"
  shows "insert_post m lo (Suc h) (all_entries P @ es @ all_entries R) t' s' \<and> ins' = ins"
proof (cases s)
  case None
  with post have t: "pwf m (m div 2) h t" "entries t = es" by (auto simp: insert_post_def)
  from r None have "t' = PNode (seps (P @ c # R)) (P @ t # R)" "s' = None" "ins' = ins"
    by (auto simp: pins_child_def)
  then show ?thesis
    using seps_replace [OF first, of R] t ok lo len by (auto simp: insert_post_def)
next
  case (Some a)
  obtain sep rt where a: "a = (sep, rt)" by (cases a)
  define ts where "ts = P @ t # rt # R"
  from post Some a have t: "pwf m (m div 2) h t" "pwf m (m div 2) h rt" "sep = pfirst rt"
      "entries t @ entries rt = es"
    by (auto simp: insert_post_def)
  have ok': "nodes_ok m h ts" using ok t by (auto simp: ts_def)
  have all: "all_entries ts = all_entries P @ es @ all_entries R"
    using t(4) by (simp add: ts_def)
  define ks where "ks = seps (P @ c # R)"
  define X Y where "X = take (length P) ks" and "Y = drop (length P) ks"
  have XY: "X @ sep # Y = seps ts"
    unfolding X_def Y_def ts_def t(3) ks_def by (rule seps_insert [OF first])
  have p: "LowerBound ks sep comparator = length P"
    unfolding ks_def by (rule sep_slot [OF ok m o post [unfolded Some a] first])
  have ltk: "length (X @ sep # Y) = Suc (length P + length R)" unfolding XY by (simp add: ts_def)
  have r': "(if length (X @ sep # Y) \<le> m then (PNode (X @ sep # Y) ts, None, ins)
      else let (l, s) = psplit_node (X @ sep # Y) ts in (l, s, ins)) = (t', s', ins')"
    using r [folded ks_def, unfolded pins_child_def Some a option.case prod.case Let_def p]
    by (simp add: X_def Y_def ts_def cong: if_cong)
  show ?thesis
  proof (cases "length (X @ sep # Y) \<le> m")
    case True
    with r' ok' ltk lo all show ?thesis
      by (auto simp: insert_post_def XY ts_def)
  next
    case False
    then have "length ts = Suc (Suc m)" using ltk len by (simp add: ts_def)
    with False r' show ?thesis
      using psplit_node_post [OF _ m ok'] all by (auto simp: XY split: prod.splits)
  qed
qed

text \<open>An insertion right of a subtree's first key keeps that first key.\<close>

lemma insert_post_first:
  assumes c: "pwf m (m div 2) h c" and m: "2 \<le> m" and oc: "ordered (entries c)"
    and nl: "\<not> lt k (pfirst c)"
    and post: "insert_post m (m div 2) h (put_spec comparator k v (entries c)) c' sc"
  shows "pfirst c' = pfirst c"
proof -
  have m0: "0 < m div 2" using m by simp
  have c0: "entries c \<noteq> []" "pfirst c = fst (hd (entries c))"
    using pfirst_entries [OF c m] m0 by simp_all
  have c1: "entries c' \<noteq> []" "pfirst c' = fst (hd (entries c'))"
    using post pfirst_entries [of m "m div 2" h c'] m m0
    by (auto simp: insert_post_def split: option.splits prod.splits)
  then have "fst (hd (entries c')) = fst (hd (put_spec comparator k v (entries c)))"
    using post by (auto simp: insert_post_def split: option.splits prod.splits
      dest!: arg_cong [of _ "put_spec comparator k v (entries c)" hd])
  then show ?thesis using put_spec_hd [OF c0(1) oc] nl c0 c1 by simp
qed

theorem pins_correct:
  assumes "pwf m lo h t" and "lo \<le> m div 2" and "2 \<le> m" and "ordered (entries t)"
    and "pins comparator m k v t = (t', s, ins)"
  shows "insert_post m lo h (put_spec comparator k v (entries t)) t' s \<and>
    (ins \<longleftrightarrow> k \<notin> set (keys_of (entries t)))"
  using assms
proof (induction h arbitrary: lo t t' s ins)
  case 0
  then show ?case using pins_leaf_post by fastforce
next
  case (Suc h)
  from Suc.prems(1) obtain ts where t: "t = PNode (seps ts) ts" and ne: "ts \<noteq> []"
    and lo: "lo \<le> length ts - 1" and len: "length ts - 1 \<le> m" and ok: "nodes_ok m h ts"
    by (auto simp: pwf_Suc)
  have o: "ordered (all_entries ts)" using Suc.prems(4) t by simp
  define i where "i = UpperBound (seps ts) k comparator"
  obtain P c R where ts: "ts = P @ c # R" "length P = i"
    and below: "\<forall>x\<in>set (keys_of (all_entries P)). lt x k"
    and above: "\<forall>x\<in>set (keys_of (all_entries R)). lt k x"
    and le: "P \<noteq> [] \<longrightarrow> \<not> lt k (pfirst c)"
    using descend [OF ok Suc.prems(3) o ne, of k] unfolding i_def by blast
  have il: "i < length ts" and mid: "ts ! i = c" "\<And>x. ts[i := x] = P @ x # R"
    using ts by auto
  have c: "pwf m (m div 2) h c" and oc: "ordered (entries c)"
    using ok o ts by (auto simp: sorted_wrt_append)
  have all: "entries t = all_entries P @ entries c @ all_entries R" by (simp add: t ts)
  have put: "put_spec comparator k v (entries t) =
      all_entries P @ put_spec comparator k v (entries c) @ all_entries R"
    unfolding all by (rule put_spec_mid [OF below above])
  obtain c' sc ic where pc: "pins comparator m k v c = (c', sc, ic)" by (metis prod_cases3)
  have IH: "insert_post m (m div 2) h (put_spec comparator k v (entries c)) c' sc"
      "ic \<longleftrightarrow> k \<notin> set (keys_of (entries c))"
    using Suc.IH [OF c order_refl Suc.prems(3) oc pc] by simp_all
  have first: "P \<noteq> [] \<longrightarrow> pfirst c' = pfirst c"
    using insert_post_first [OF c Suc.prems(3) oc _ IH(1)] le by blast
  have "pins_child comparator m (seps (P @ c # R)) (P @ c' # R) sc ic = (t', s, ins)"
    using Suc.prems(5) [unfolded t pins.simps Let_def, folded i_def] il
    by (simp only: mid pc prod.case if_True simp_thms ts(1) [symmetric])
  from pins_child_post [OF _ Suc.prems(3) _ _ _ IH(1) first this, of lo]
  have "insert_post m lo (Suc h) (put_spec comparator k v (entries t)) t' s \<and> ins = ic"
    using ok lo len ts put ordered_put_spec [OF Suc.prems(4), of k v] by auto
  then show ?case using IH(2) mem_mid(1) [OF below above, of "entries c"] all by simp
qed

text \<open>The position of the new separator in terms of the descent.\<close>

lemma pins_slot:
  assumes ok: "nodes_ok m h ts" and ne: "ts \<noteq> []" and m: "2 \<le> m" and o: "ordered (all_entries ts)"
    and i: "i = UpperBound (seps ts) k comparator"
    and pc: "pins comparator m k v (ts ! i) = (c', Some (sep, r), ins)"
  shows "LowerBound (seps ts) sep comparator = i"
proof -
  obtain P c R where ts: "ts = P @ c # R" "length P = i"
    and below: "\<forall>x\<in>set (keys_of (all_entries P)). lt x k"
    and above: "\<forall>x\<in>set (keys_of (all_entries R)). lt k x"
    and le: "P \<noteq> [] \<longrightarrow> \<not> lt k (pfirst c)"
    using descend [OF ok m o ne, of k] unfolding i by blast
  have c: "pwf m (m div 2) h c" "ordered (entries c)" "ts ! i = c"
    using ok o ts by (auto simp: sorted_wrt_append)
  have post: "insert_post m (m div 2) h (put_spec comparator k v (entries c)) c' (Some (sep, r))"
    using pins_correct [OF c(1) order_refl m c(2) pc [unfolded c(3)]] by simp
  have "ordered (all_entries P @ put_spec comparator k v (entries c) @ all_entries R)"
    using ordered_put_spec [OF o, of k v] put_spec_mid [OF below above, of v] ts by simp
  then have "LowerBound (seps (P @ c # R)) sep comparator = length P"
    using insert_post_first [OF c(1) m c(2) _ post] le ok ts by (intro sep_slot [OF _ m _ post]) auto
  then show ?thesis using ts by simp
qed

end

section \<open>Lookup\<close>

function pfind :: "Comparator option \<Rightarrow> bytes \<Rightarrow> ptree \<Rightarrow> entry list" where
  "pfind c k (PLeaf kvs) = kvs"
| "pfind c k (PNode ks ts) =
     (let i = UpperBound ks k c in if i < length ts then pfind c k (ts ! i) else [])"
  by pat_completeness auto
termination
  by (relation "measure (\<lambda>(c, k, t). size t)") (auto simp: nth_size)

context key_order begin

lemma pfind_correct:
  "pwf m lo h t \<Longrightarrow> 2 \<le> m \<Longrightarrow> ordered (entries t) \<Longrightarrow>
   ordered (pfind comparator k t) \<and> map_of (pfind comparator k t) k = map_of (entries t) k"
proof (induction h arbitrary: lo t)
  case 0
  then show ?case by auto
next
  case (Suc h)
  from Suc.prems(1) obtain ts where t: "t = PNode (seps ts) ts" and ne: "ts \<noteq> []"
    and ok: "nodes_ok m h ts" by (auto simp: pwf_Suc)
  have o: "ordered (all_entries ts)" using Suc.prems(3) t by simp
  define i where "i = UpperBound (seps ts) k comparator"
  obtain P c R where ts: "ts = P @ c # R" "length P = i"
    and below: "\<forall>x\<in>set (keys_of (all_entries P)). lt x k"
    and above: "\<forall>x\<in>set (keys_of (all_entries R)). lt k x"
    using descend [OF ok Suc.prems(2) o ne, of k] unfolding i_def by blast
  have il: "i < length ts" and mid: "ts ! i = c" using ts by auto
  have "pfind comparator k t = pfind comparator k c"
    using il mid by (simp add: t flip: i_def)
  moreover have "pwf m (m div 2) h c" "ordered (entries c)"
    using ok o ts by (auto simp: sorted_wrt_append)
  moreover have "map_of (entries t) k = map_of (entries c) k"
    using mem_mid(2) [OF below above, of "entries c"] by (simp add: t ts)
  ultimately show ?case using Suc.IH [of "m div 2" c] Suc.prems(2) by simp
qed

end

section \<open>Deletion\<close>

text \<open>Redistribution and merging of two neighbours whose separator is \<open>sep\<close>.\<close>

fun pborrow_left :: "bytes \<Rightarrow> ptree \<Rightarrow> ptree \<Rightarrow> ptree \<times> ptree" where
  "pborrow_left sep (PLeaf a) (PLeaf b) = (PLeaf (butlast a), PLeaf (last a # b))"
| "pborrow_left sep (PNode lk lc) (PNode rk rc) =
     (PNode (butlast lk) (butlast lc), PNode (sep # rk) (last lc # rc))"
| "pborrow_left sep l r = (l, r)"

fun pborrow_right :: "bytes \<Rightarrow> ptree \<Rightarrow> ptree \<Rightarrow> ptree \<times> ptree" where
  "pborrow_right sep (PLeaf a) (PLeaf b) = (PLeaf (a @ [hd b]), PLeaf (tl b))"
| "pborrow_right sep (PNode lk lc) (PNode rk rc) =
     (PNode (lk @ [sep]) (lc @ [hd rc]), PNode (tl rk) (tl rc))"
| "pborrow_right sep l r = (l, r)"

fun pmerge :: "bytes \<Rightarrow> ptree \<Rightarrow> ptree \<Rightarrow> ptree" where
  "pmerge sep (PLeaf a) (PLeaf b) = PLeaf (a @ b)"
| "pmerge sep (PNode lk lc) (PNode rk rc) = PNode (lk @ sep # rk) (lc @ rc)"
| "pmerge sep l r = l"

text \<open>
  The node's separators and children after rebalancing child \<open>i\<close>.  The separators are
  recomputed afterwards, so only their number and the ones passed down to a child matter.
\<close>

definition prebalance :: "nat \<Rightarrow> nat \<Rightarrow> bytes list \<Rightarrow> ptree list \<Rightarrow> bytes list \<times> ptree list" where
  "prebalance m i ks ts =
     (if 0 < i \<and> m div 2 < psize (ts ! (i - 1)) then
        let (l, r) = pborrow_left (ks ! (i - 1)) (ts ! (i - 1)) (ts ! i)
        in (ks, ts[i - 1 := l, i := r])
      else if i + 1 < length ts \<and> m div 2 < psize (ts ! (i + 1)) then
        let (l, r) = pborrow_right (ks ! i) (ts ! i) (ts ! (i + 1))
        in (ks, ts[i := l, i + 1 := r])
      else if 0 < i then
        (take (i - 1) ks @ drop i ks,
         take (i - 1) ts @ pmerge (ks ! (i - 1)) (ts ! (i - 1)) (ts ! i) # drop (i + 1) ts)
      else if i + 1 < length ts then
        (take i ks @ drop (i + 1) ks,
         take i ts @ pmerge (ks ! i) (ts ! i) (ts ! (i + 1)) # drop (i + 2) ts)
      else (ks, ts))"

definition prefresh :: "bytes list \<Rightarrow> ptree list \<Rightarrow> bytes list" where
  "prefresh ks ts = map2 (\<lambda>k t. if pfirst t = [] then k else pfirst t) ks (tl ts)"

definition pdel_child :: "nat \<Rightarrow> nat \<Rightarrow> bytes list \<Rightarrow> ptree list \<Rightarrow> ptree" where
  "pdel_child m i ks ts =
     (let f = pfirst (ts ! i);
          ks = (if 0 < i \<and> f \<noteq> [] then ks[i - 1 := f] else ks);
          (ks, ts) = (if psize (ts ! i) < m div 2 then prebalance m i ks ts else (ks, ts))
      in PNode (prefresh ks ts) ts)"

definition pdel_leaf :: "Comparator option \<Rightarrow> bytes \<Rightarrow> entry list \<Rightarrow> ptree option" where
  "pdel_leaf c k kvs =
     (let ks = keys_of kvs; p = LowerBound ks k c in
      if length ks \<le> p \<or> Compare c (ks ! p) k \<noteq> 0 then None
      else Some (PLeaf (take p kvs @ drop (Suc p) kvs)))"

function pdel :: "Comparator option \<Rightarrow> nat \<Rightarrow> bytes \<Rightarrow> ptree \<Rightarrow> ptree option" where
  "pdel c m k (PLeaf kvs) = pdel_leaf c k kvs"
| "pdel c m k (PNode ks ts) =
     (let i = UpperBound ks k c in
      if i < length ts then map_option (\<lambda>t. pdel_child m i ks (ts[i := t])) (pdel c m k (ts ! i))
      else None)"
  by pat_completeness auto
termination
  by (relation "measure (\<lambda>(c, m, k, t). size t)") (auto simp: nth_size)

lemma seps_append: "xs \<noteq> [] \<Longrightarrow> seps (xs @ ys) = seps xs @ map pfirst ys"
  by (cases xs) auto

lemma seps_Cons: "xs \<noteq> [] \<Longrightarrow> seps (x # xs) = pfirst (hd xs) # seps xs"
  by (cases xs) auto

lemma pfirst_PNode: "xs \<noteq> [] \<Longrightarrow> pfirst (PNode ks xs) = pfirst (hd xs)"
  by (cases xs) auto

lemma pborrow_left_ok:
  assumes l: "pwf m d h l" and c: "pwf m a h c" and m: "2 \<le> m" "d = m div 2" "psize c < d"
    and big: "d < psize l" and sep: "0 < h \<Longrightarrow> sep = pfirst c" and a: "d \<le> Suc a"
    and r: "pborrow_left sep l c = (l', c')"
  shows "pwf m d h l' \<and> pwf m d h c' \<and> entries l' @ entries c' = entries l @ entries c"
proof (cases h)
  case 0
  with l c obtain x y where lc: "l = PLeaf x" "c = PLeaf y" by auto
  then obtain x' e where "x = x' @ [e]" using big by (cases x rule: rev_cases) auto
  then show ?thesis using l c m big a r lc 0 by auto
next
  case (Suc h')
  with l c obtain xs ys where lc: "l = PNode (seps xs) xs" "c = PNode (seps ys) ys" "ys \<noteq> []" "xs \<noteq> []"
    and ok: "nodes_ok m h' xs" "nodes_ok m h' ys" and sz: "length xs - 1 \<le> m" "a \<le> length ys - 1"
    by (auto simp: pwf_Suc)
  obtain x' u where xs: "xs = x' @ [u]" using lc(4) by (cases xs rule: rev_cases) auto
  have x': "x' \<noteq> []" using big m lc xs by auto
  have "l' = PNode (seps x') x'" "c' = PNode (seps (u # ys)) (u # ys)"
    using r sep Suc lc x' by (cases ys; auto simp: xs seps_append)+
  moreover have "1 \<le> length ys" using lc by (simp add: Suc_leI)
  ultimately show ?thesis using ok m sz a big lc x' xs Suc by (auto simp: pwf_Suc)
qed

lemma pborrow_right_ok:
  assumes c: "pwf m a h c" and r: "pwf m d h r" and m: "2 \<le> m" "d = m div 2" "psize c < d"
    and big: "d < psize r" and sep: "0 < h \<Longrightarrow> sep = pfirst r" and a: "d \<le> Suc a"
    and res: "pborrow_right sep c r = (c', r')"
  shows "pwf m d h c' \<and> pwf m d h r' \<and> entries c' @ entries r' = entries c @ entries r"
proof (cases h)
  case 0
  with c r obtain x y where cr: "c = PLeaf x" "r = PLeaf y" by auto
  then obtain e y' where "y = e # y'" using big by (cases y) auto
  then show ?thesis using c r m big a res cr 0 by auto
next
  case (Suc h')
  with c r obtain xs ys where cr: "c = PNode (seps xs) xs" "r = PNode (seps ys) ys" "ys \<noteq> []" "xs \<noteq> []"
    and ok: "nodes_ok m h' xs" "nodes_ok m h' ys" and sz: "length ys - 1 \<le> m" "a \<le> length xs - 1"
    by (auto simp: pwf_Suc)
  obtain u y' where ys: "ys = u # y'" using cr(3) by (cases ys) auto
  have y': "y' \<noteq> []" using big m cr ys by auto
  have "c' = PNode (seps (xs @ [u])) (xs @ [u])" "r' = PNode (seps y') y'"
    using res sep Suc cr y' by (auto simp: ys seps_append map_tl)
  moreover have "1 \<le> length xs" using cr by (simp add: Suc_leI)
  ultimately show ?thesis using ok m sz a big cr y' ys Suc by (auto simp: pwf_Suc seps_append)
qed

lemma pmerge_ok:
  assumes l: "pwf m a h l" and r: "pwf m b h r" and sz: "psize l + psize r < m" "d \<le> psize l + psize r"
    and sep: "0 < h \<Longrightarrow> sep = pfirst r"
  shows "pwf m d h (pmerge sep l r) \<and> entries (pmerge sep l r) = entries l @ entries r"
proof (cases h)
  case 0
  with l r sz show ?thesis by auto
next
  case (Suc h')
  with l r obtain xs ys where lr: "l = PNode (seps xs) xs" "r = PNode (seps ys) ys" "ys \<noteq> []" "xs \<noteq> []"
    and ok: "nodes_ok m h' xs" "nodes_ok m h' ys" by (auto simp: pwf_Suc)
  have "pmerge sep l r = PNode (seps (xs @ ys)) (xs @ ys)"
    using lr sep Suc by (cases ys) (auto simp: seps_append)
  moreover have "length ys \<ge> 1" "length xs \<ge> 1" using lr by (simp_all add: Suc_leI)
  ultimately show ?thesis using ok sz lr Suc by (auto simp: pwf_Suc)
qed

definition rebalanced :: "nat \<Rightarrow> nat \<Rightarrow> ptree list \<Rightarrow> bytes list \<Rightarrow> ptree list \<Rightarrow> bool" where
  "rebalanced m h ts ks' ts' \<longleftrightarrow>
     nodes_ok m h ts' \<and> all_entries ts' = all_entries ts \<and> ts' \<noteq> [] \<and> length ts' = Suc (length ks') \<and>
     length ts' \<le> length ts \<and> length ts \<le> Suc (length ts')"

lemma nth_seps: "i < length (tl ts) \<Longrightarrow> seps ts ! i = pfirst (ts ! Suc i)"
  by (cases ts) auto

lemma prebalance_left:
  assumes ok: "nodes_ok m h P" "pwf m d h l" "pwf m (d - 1) h c" "nodes_ok m h R"
    and m: "2 \<le> m" "d = m div 2" "psize c < d"
    and ks: "length ks = Suc (length P + length R)" "0 < h \<Longrightarrow> ks ! length P = pfirst c"
    and ts: "ts = P @ l # c # R" "i = Suc (length P)"
    and case_left: "d < psize l \<or> \<not> (i + 1 < length ts \<and> d < psize (ts ! (i + 1)))"
    and r: "prebalance m i ks ts = (ks', ts')"
  shows "rebalanced m h ts ks' ts'"
proof -
  have at: "ts ! (i - 1) = l" "ts ! i = c" "0 < i" "i - 1 = length P"
    using ts by (auto simp: nth_append)
  show ?thesis
  proof (cases "d < psize l")
    case True
    obtain l' c' where p: "pborrow_left (ks ! length P) l c = (l', c')" by fastforce
    have "ks' = ks" "ts' = P @ l' # c' # R"
      using r True at p by (auto simp: prebalance_def m(2) ts list_update_append)
    with pborrow_left_ok [OF ok(2,3) m True ks(2) _ p] ok ks show ?thesis
      by (auto simp: rebalanced_def ts m(2))
  next
    case False
    with case_left have nr: "\<not> (i + 1 < length ts \<and> d < psize (ts ! (i + 1)))" by simp
    have e: "ks' = take (length P) ks @ drop (Suc (length P)) ks"
        "ts' = P @ pmerge (ks ! length P) l c # R"
      using r False nr at by (auto simp: prebalance_def m(2) ts)
    have sz: "psize l + psize c < m" "d \<le> psize l + psize c"
      using False m pwf_size [OF ok(2)] by auto
    from pmerge_ok [OF ok(2,3) sz ks(2)] e ok ks show ?thesis
      by (auto simp: rebalanced_def ts m(2) min_def)
  qed
qed

lemma prebalance_right:
  assumes ok: "nodes_ok m h P" "pwf m (d - 1) h c" "pwf m d h r" "nodes_ok m h R"
    and m: "2 \<le> m" "d = m div 2" "psize c < d"
    and ks: "length ks = Suc (length P + length R)" "0 < h \<Longrightarrow> ks ! length P = pfirst r"
    and ts: "ts = P @ c # r # R" "i = length P"
    and no_left: "0 < i \<Longrightarrow> \<not> d < psize (ts ! (i - 1)) \<and> d < psize r"
    and res: "prebalance m i ks ts = (ks', ts')"
  shows "rebalanced m h ts ks' ts'"
proof -
  have at: "ts ! i = c" "ts ! (i + 1) = r" "i + 1 < length ts"
    using ts by (auto simp: nth_append)
  show ?thesis
  proof (cases "d < psize r")
    case True
    obtain c' r' where p: "pborrow_right (ks ! length P) c r = (c', r')" by fastforce
    have "ks' = ks" "ts' = P @ c' # r' # R"
      using res True at p no_left by (auto simp: prebalance_def m(2) ts list_update_append split: if_splits)
    with pborrow_right_ok [OF ok(2,3) m True ks(2) _ p] ok ks show ?thesis
      by (auto simp: rebalanced_def ts m(2))
  next
    case False
    with no_left have i0: "i = 0" by auto
    then have P: "P = []" using ts by simp
    have e: "ks' = drop 1 ks" "ts' = pmerge (ks ! 0) c r # R"
      using res False at i0 by (auto simp: prebalance_def m(2) ts P)
    have sz: "psize c + psize r < m" "d \<le> psize c + psize r"
      using False m pwf_size [OF ok(3)] by auto
    from pmerge_ok [OF ok(2,3) sz] ks(2) e ok ks show ?thesis
      by (auto simp: rebalanced_def ts m(2) P)
  qed
qed

lemma prebalance_ok:
  assumes ok: "nodes_ok m h P" "pwf m (d - 1) h c" "nodes_ok m h R"
    and m: "2 \<le> m" "d = m div 2" "psize c < d"
    and sib: "P \<noteq> [] \<or> R \<noteq> []"
    and ks: "length ks = length P + length R" "0 < h \<Longrightarrow> ks = seps (P @ c # R)"
    and r: "prebalance m (length P) ks (P @ c # R) = (ks', ts')"
  shows "rebalanced m h (P @ c # R) ks' ts'"
proof -
  define left where "left \<longleftrightarrow> P \<noteq> [] \<and> (d < psize (last P) \<or> R = [] \<or> \<not> d < psize (hd R))"
  show ?thesis
  proof (cases left)
    case True
    then obtain P' l where P: "P = P' @ [l]" by (metis left_def rev_exhaust)
    have "0 < h \<Longrightarrow> ks ! length P' = pfirst c"
      using ks(2) nth_seps [of "length P'" "P @ c # R"] by (simp add: P nth_append)
    then have "rebalanced m h (P' @ l # c # R) ks' ts'"
      using prebalance_left [of P' m h d l c R ks "P @ c # R" "length P" ks' ts'] ok m ks(1) r True
      by (cases R) (auto simp: P left_def nth_append)
    then show ?thesis by (simp add: P)
  next
    case False
    then obtain rr R' where R: "R = rr # R'" using sib by (cases R) (auto simp: left_def)
    have "0 < h \<Longrightarrow> ks ! length P = pfirst rr"
      using ks(2) nth_seps [of "length P" "P @ c # R"] by (simp add: R nth_append)
    then show ?thesis
      using prebalance_right [of P m h d c rr R' ks "P @ c # R" "length P" ks' ts'] ok m ks(1) r False
      by (cases P rule: rev_cases) (auto simp: R left_def nth_append)
  qed
qed

lemma prefresh_seps:
  assumes "length ts = Suc (length ks)" and "\<forall>t\<in>set ts. pfirst t \<noteq> []"
  shows "prefresh ks ts = seps ts"
proof -
  obtain t us where "ts = t # us" using assms(1) by (cases ts) auto
  then show ?thesis
    using assms unfolding prefresh_def by (intro nth_equalityI) auto
qed

context key_order begin

lemma pdel_leaf_correct:
  assumes o: "ordered kvs"
  shows "pdel_leaf comparator k kvs =
    (if k \<in> set (keys_of kvs) then Some (PLeaf (del_spec k kvs)) else None)"
proof -
  have "(length (keys_of kvs) \<le> LowerBound (keys_of kvs) k comparator \<or>
      Compare comparator (keys_of kvs ! LowerBound (keys_of kvs) k comparator) k \<noteq> 0) \<longleftrightarrow>
      k \<notin> set (keys_of kvs)"
    using LowerBound_hit [OF o, of k] by (metis not_le)
  then show ?thesis
    using leaf_erase_del_spec [OF o, of k] by (auto simp: pdel_leaf_def Let_def)
qed

end

lemma length_del_spec: "distinct (keys_of kvs) \<Longrightarrow> length kvs \<le> Suc (length (del_spec k kvs))"
proof (induction kvs)
  case (Cons e kvs)
  then show ?case using del_spec_absent [of k kvs] by (auto simp: del_spec_def)
qed simp

abbreviation nonempty_keys :: "entry list \<Rightarrow> bool" where
  "nonempty_keys es \<equiv> [] \<notin> set (keys_of es)"

lemma pdel_child_shape:
  assumes ok: "nodes_ok m h P" "pwf m (m div 2 - 1) h c'" "nodes_ok m h R"
    and m: "2 \<le> m" and sib: "P \<noteq> [] \<or> R \<noteq> []"
    and ks: "ks = seps (P @ c # R)"
    and ne: "nonempty_keys (all_entries (P @ c' # R))"
    and ks1: "ks1 = (if 0 < length P \<and> pfirst c' \<noteq> [] then ks[length P - 1 := pfirst c'] else ks)"
    and reb: "(if psize c' < m div 2 then prebalance m (length P) ks1 (P @ c' # R)
      else (ks1, P @ c' # R)) = (ks2, ts2)"
  shows "rebalanced m h (P @ c' # R) ks2 ts2 \<and> (\<forall>u\<in>set ts2. pfirst u \<noteq> [])"
proof -
  define ts where "ts = P @ c' # R"
  have lks: "length ks1 = length P + length R" by (simp add: ks1 ks)
  have first: "pfirst c' \<noteq> []" if "0 < h"
  proof -
    have "entries c' \<noteq> [] \<and> pfirst c' = fst (hd (entries c'))"
      by (rule pfirst_entries [OF ok(2) m]) (use that in simp)
    then show ?thesis using ne by (cases "entries c'") auto
  qed
  have s1: "ks1 = seps ts" if "0 < h"
  proof (cases P)
    case Nil then show ?thesis by (simp add: ks1 ks ts_def)
  next
    case (Cons p P')
    then show ?thesis using first [OF that]
      by (simp add: ks1 ks ts_def list_update_append)
  qed
  have r: "rebalanced m h ts ks2 ts2"
  proof (cases "psize c' < m div 2")
    case True
    with reb have "prebalance m (length P) ks1 (P @ c' # R) = (ks2, ts2)" by simp
    then show ?thesis
      using prebalance_ok [OF ok m refl True sib lks] s1 by (simp add: ts_def)
  next
    case False
    with reb lks ok pwf_atLeast [OF ok(2), of "m div 2"] show ?thesis
      by (auto simp: rebalanced_def ts_def)
  qed
  have "\<forall>t\<in>set ts2. pfirst t \<noteq> []"
  proof
    fix u assume u: "u \<in> set ts2"
    have "pfirst u \<in> set (keys_of (entries u))"
      by (rule pfirst_mem [where h = h, OF _ u m]) (use r in \<open>simp add: rebalanced_def\<close>)
    then have "pfirst u \<in> set (keys_of (all_entries ts2))" using u by (auto simp: keys_of_def)
    then show "pfirst u \<noteq> []" using r ne by (auto simp: rebalanced_def ts_def)
  qed
  with r show ?thesis by (simp add: ts_def)
qed

lemma pdel_child_ok:
  assumes ok: "nodes_ok m h P" "pwf m (m div 2 - 1) h c'" "nodes_ok m h R"
    and m: "2 \<le> m" and lo: "lo \<le> length P + length R" "0 < lo" and len: "length P + length R \<le> m"
    and ks: "ks = seps (P @ c # R)"
    and ne: "nonempty_keys (all_entries (P @ c' # R))"
    and r: "t = pdel_child m (length P) ks (P @ c' # R)"
  shows "pwf m (lo - 1) (Suc h) t \<and> entries t = all_entries (P @ c' # R)"
proof -
  define ks1 where "ks1 = (if 0 < length P \<and> pfirst c' \<noteq> [] then ks[length P - 1 := pfirst c'] else ks)"
  obtain ks2 ts2 where k2: "(if psize c' < m div 2 then prebalance m (length P) ks1 (P @ c' # R)
      else (ks1, P @ c' # R)) = (ks2, ts2)" by fastforce
  have t: "t = PNode (prefresh ks2 ts2) ts2"
    using k2 by (auto simp: r pdel_child_def Let_def ks1_def)
  have "P \<noteq> [] \<or> R \<noteq> []" using lo by auto
  from pdel_child_shape [OF ok m this ks ne ks1_def k2]
  have reb: "rebalanced m h (P @ c' # R) ks2 ts2" and f: "\<forall>u\<in>set ts2. pfirst u \<noteq> []" by simp_all
  then have "prefresh ks2 ts2 = seps ts2"
    by (intro prefresh_seps) (simp_all add: rebalanced_def)
  then show ?thesis
    using reb lo len unfolding rebalanced_def by (auto simp: t)
qed

context key_order begin

theorem pdel_correct:
  assumes "pwf m lo h t" and "0 < h \<Longrightarrow> 0 < lo" and "2 \<le> m"
    and "ordered (entries t)" and "nonempty_keys (entries t)"
  shows "case pdel comparator m k t of
      None \<Rightarrow> k \<notin> set (keys_of (entries t))
    | Some t' \<Rightarrow> k \<in> set (keys_of (entries t)) \<and> pwf m (lo - 1) h t' \<and>
        entries t' = del_spec k (entries t)"
  using assms
proof (induction h arbitrary: lo t)
  case 0
  then obtain kvs where t: "t = PLeaf kvs" by auto
  have "length kvs \<le> Suc (length (del_spec k kvs))" "length (del_spec k kvs) \<le> length kvs"
    using length_del_spec ordered_distinct 0 by (auto simp: t del_spec_def)
  then show ?case using 0 by (auto simp: t pdel_leaf_correct)
next
  case (Suc h)
  from Suc.prems(1) obtain ts where t: "t = PNode (seps ts) ts" and ne: "ts \<noteq> []"
    and lo: "lo \<le> length ts - 1" and len: "length ts - 1 \<le> m" and ok: "nodes_ok m h ts"
    by (auto simp: pwf_Suc)
  have o: "ordered (all_entries ts)" using Suc.prems(4) t by simp
  define i where "i = UpperBound (seps ts) k comparator"
  obtain P c R where ts: "ts = P @ c # R" "length P = i"
    and below: "\<forall>x\<in>set (keys_of (all_entries P)). lt x k"
    and above: "\<forall>x\<in>set (keys_of (all_entries R)). lt k x"
    using descend [OF ok Suc.prems(3) o ne, of k] unfolding i_def by blast
  have il: "i < length ts" and mid: "ts ! i = c" "\<And>x. ts[i := x] = P @ x # R"
    using ts by auto
  have all: "entries t = all_entries P @ entries c @ all_entries R" by (simp add: t ts)
  have c: "pwf m (m div 2) h c" "ordered (entries c)" "nonempty_keys (entries c)"
    using ok o ts Suc.prems(5) all by (auto simp: sorted_wrt_append)
  have pd: "pdel comparator m k t =
      map_option (\<lambda>c'. pdel_child m i (seps ts) (P @ c' # R)) (pdel comparator m k c)"
    using il by (simp add: t mid flip: i_def)
  have IH: "case pdel comparator m k c of
      None \<Rightarrow> k \<notin> set (keys_of (entries c))
    | Some c' \<Rightarrow> k \<in> set (keys_of (entries c)) \<and> pwf m (m div 2 - 1) h c' \<and>
        entries c' = del_spec k (entries c)"
    by (rule Suc.IH [OF c(1) _ Suc.prems(3) c(2,3)]) (use Suc.prems(3) in simp)
  have mem: "k \<in> set (keys_of (entries t)) \<longleftrightarrow> k \<in> set (keys_of (entries c))"
    unfolding all by (rule mem_mid(1) [OF below above])
  show ?case
  proof (cases "pdel comparator m k c")
    case None
    with IH mem pd show ?thesis by simp
  next
    case (Some c')
    with IH have c': "k \<in> set (keys_of (entries c))" "pwf m (m div 2 - 1) h c'"
      "entries c' = del_spec k (entries c)" by simp_all
    have e: "all_entries (P @ c' # R) = del_spec k (entries t)"
      unfolding all del_spec_mid [OF below above] by (simp add: c'(3))
    have "nonempty_keys (all_entries (P @ c' # R))"
      unfolding e using Suc.prems(5) by (simp add: set_del_spec)
    from pdel_child_ok [OF _ c'(2) _ Suc.prems(3) _ _ _ refl this refl, of lo c]
    have "pwf m (lo - 1) (Suc h) (pdel_child m i (seps ts) (P @ c' # R)) \<and>
        entries (pdel_child m i (seps ts) (P @ c' # R)) = all_entries (P @ c' # R)"
      using ok lo len Suc.prems(2) ts by auto
    then show ?thesis using pd Some c'(1) mem e by simp
  qed
qed

end

end
