(* ===== verification/BTree_Ghost.thy ===== *)
theory BTree_Ghost
  imports BTree BTree_Spec "HOL-Library.Multiset"
begin

text \<open>
  The relation between the arena of \<open>BTree\<close> and the trees of \<open>BTree_Spec\<close>.  A
  \<open>gtree\<close> is a tree that also records the node ids and the \<open>next\<close> fields of its leaves;
  \<open>er\<close> erases them, \<open>sits\<close> says that the tree lies in a heap (a partial function from
  node ids to nodes), \<open>lchain\<close> that its leaves are linked from left to right.
  \<open>live T U\<close>: exactly the nodes \<open>U\<close> are allocated and the node counter is right.
\<close>

datatype gtree = GLeaf nat nat "entry list" | GNode nat "bytes list" "gtree list"

fun gid :: "gtree \<Rightarrow> nat" where
  "gid (GLeaf i nx kvs) = i"
| "gid (GNode i ks ts) = i"

fun ids :: "gtree \<Rightarrow> nat list" where
  "ids (GLeaf i nx kvs) = [i]"
| "ids (GNode i ks ts) = i # concat (map ids ts)"

fun er :: "gtree \<Rightarrow> ptree" where
  "er (GLeaf i nx kvs) = PLeaf kvs"
| "er (GNode i ks ts) = PNode ks (map er ts)"

type_synonym leaf_view = "nat \<times> nat \<times> entry list"

fun leaves :: "gtree \<Rightarrow> leaf_view list" where
  "leaves (GLeaf i nx kvs) = [(i, nx, kvs)]"
| "leaves (GNode i ks ts) = concat (map leaves ts)"

abbreviation allids :: "gtree list \<Rightarrow> nat list" where
  "allids ts \<equiv> concat (map ids ts)"

abbreviation allleaves :: "gtree list \<Rightarrow> leaf_view list" where
  "allleaves ts \<equiv> concat (map leaves ts)"

definition lnode :: "nat \<Rightarrow> nat \<Rightarrow> entry list \<Rightarrow> BTreeNode" where
  "lnode M nx kvs =
     Leaf \<lparr>leaf_keys = keys_of kvs, leaf_values = map snd kvs, leaf_next = nx, leaf_max_keys = M\<rparr>"

definition inode :: "nat \<Rightarrow> bytes list \<Rightarrow> nat list \<Rightarrow> BTreeNode" where
  "inode M ks cs = Internal \<lparr>inner_keys = ks, inner_children = cs, inner_max_keys = M\<rparr>"

type_synonym heap = "nat \<Rightarrow> BTreeNode option"

fun sits :: "nat \<Rightarrow> heap \<Rightarrow> gtree \<Rightarrow> bool" where
  "sits M H (GLeaf i nx kvs) \<longleftrightarrow> H i = Some (lnode M nx kvs)"
| "sits M H (GNode i ks ts) \<longleftrightarrow> H i = Some (inode M ks (map gid ts)) \<and> (\<forall>t \<in> set ts. sits M H t)"

lemma as_node [simp]:
  "as_leaf (Some (lnode M nx kvs)) =
     Some \<lparr>leaf_keys = keys_of kvs, leaf_values = map snd kvs, leaf_next = nx, leaf_max_keys = M\<rparr>"
  "as_internal (Some (inode M ks cs)) =
     Some \<lparr>inner_keys = ks, inner_children = cs, inner_max_keys = M\<rparr>"
  by (simp_all add: as_leaf_def as_internal_def lnode_def inode_def)

lemma node_obs [simp]:
  "IsLeaf (lnode M nx kvs)" "\<not> IsLeaf (inode M ks cs)"
  "Size (lnode M nx kvs) = length kvs" "Size (inode M ks cs) = length ks"
  by (simp_all add: lnode_def inode_def)

lemma gid_in_ids [simp]: "gid t \<in> set (ids t)"
  by (cases t) auto

lemma sits_frame: "(\<And>i. i \<in> set (ids t) \<Longrightarrow> H' i = H i) \<Longrightarrow> sits M H' t = sits M H t"
  by (induction t) auto

lemma sits_upd [simp]: "i \<notin> set (ids t) \<Longrightarrow> sits M (H(i := x)) t = sits M H t"
  by (rule sits_frame) auto

lemma sits_dom: "sits M H t \<Longrightarrow> i \<in> set (ids t) \<Longrightarrow> H i \<noteq> None"
  by (induction t) auto

lemma entries_leaves: "entries (er t) = concat (map (snd \<circ> snd) (leaves t))"
proof (induction t)
  case (GNode i ks ts)
  then show ?case by (induction ts) auto
qed simp

lemma leaves_ids: "fst ` set (leaves t) \<subseteq> set (ids t)"
  by (induction t) fastforce+

section \<open>The chain of leaves\<close>

definition lid :: "nat \<Rightarrow> leaf_view list \<Rightarrow> nat" where
  "lid nx ls = (case ls of [] \<Rightarrow> nx | l # _ \<Rightarrow> fst l)"

fun lchain :: "nat \<Rightarrow> leaf_view list \<Rightarrow> bool" where
  "lchain nx [] \<longleftrightarrow> True"
| "lchain nx ((i, n, kvs) # ls) \<longleftrightarrow> n = lid nx ls \<and> lchain nx ls"

lemma lid_simps [simp]: "lid nx [] = nx" "lid nx (l # ls) = fst l"
  by (simp_all add: lid_def)

lemma lid_append: "lid nx (xs @ ys) = lid (lid nx ys) xs"
  by (cases xs) auto

lemma lchain_append: "lchain nx (xs @ ys) \<longleftrightarrow> lchain (lid nx ys) xs \<and> lchain nx ys"
  by (induction nx xs rule: lchain.induct) (auto simp: lid_append)

text \<open>
  \<open>relinked xs ys\<close>: where the leaves \<open>xs\<close> are a segment of a chain, \<open>ys\<close> can take
  their place.
\<close>

definition relinked :: "leaf_view list \<Rightarrow> leaf_view list \<Rightarrow> bool" where
  "relinked xs ys \<longleftrightarrow> (\<forall>nx. lid nx ys = lid nx xs \<and> (lchain nx xs \<longrightarrow> lchain nx ys))"

lemma relinked_refl [simp]: "relinked xs xs"
  by (simp add: relinked_def)

lemma relinked_trans: "relinked xs ys \<Longrightarrow> relinked ys zs \<Longrightarrow> relinked xs zs"
  by (simp add: relinked_def)

lemma relinked_mid: "relinked xs ys \<Longrightarrow> relinked (P @ xs @ R) (P @ ys @ R)"
  by (simp add: relinked_def lchain_append lid_append)

section \<open>The state of the tree\<close>

definition live :: "BPlusTree \<Rightarrow> nat set \<Rightarrow> bool" where
  "live T U \<longleftrightarrow> arena_ok (tree_impl T) U \<and> node_count T = card U \<and>
     impl_max_keys (tree_impl T) = tree_max T"

text \<open>Only the arena and the node counter differ.\<close>

definition frame :: "BPlusTree \<Rightarrow> BPlusTree \<Rightarrow> bool" where
  "frame T T' \<longleftrightarrow> T' = T\<lparr>tree_impl := tree_impl T', node_count := node_count T'\<rparr>"

lemma frame_refl [simp]: "frame T T"
  by (simp add: frame_def)

lemma frame_trans: "frame T T' \<Longrightarrow> frame T' T'' \<Longrightarrow> frame T T''"
  by (cases T; cases T'; cases T'') (auto simp: frame_def)

lemma frame_fields:
  assumes "frame T T'"
  shows "tree_options T' = tree_options T" "root_id T' = root_id T" "root_is_leaf T' = root_is_leaf T"
    "tree_size T' = tree_size T" "tree_height T' = tree_height T"
  using assms by (cases T; cases T'; simp add: frame_def)+

lemma live_finite: "live T U \<Longrightarrow> finite U"
  by (auto simp: live_def arena_ok_finite)

lemma live_dom: "live T U \<Longrightarrow> GetNode T i \<noteq> None \<longleftrightarrow> i \<in> U"
  unfolding live_def GetNode_def using GetNode_dom by blast

lemma live_pos: "live T U \<Longrightarrow> i \<in> U \<Longrightarrow> 0 < i"
  by (simp add: live_def arena_ok_def)

lemma live_fuel: "live T U \<Longrightarrow> card U < tree_fuel T"
  by (simp add: live_def tree_fuel_def arena_ok_card)

lemma live_SetNode:
  assumes "live T U" and "i \<in> U"
  shows "live (SetNode i n T) U" "GetNode (SetNode i n T) = (GetNode T)(i \<mapsto> n)"
    "frame T (SetNode i n T)"
  using assms SetNode_ok [of "tree_impl T" U i n]
  by (auto simp: live_def GetNode_def SetNode_def frame_def fun_eq_iff)

lemma live_FreeNode:
  assumes l: "live T U" and i: "i \<in> U"
  shows "live (FreeNode i T) (U - {i})" "GetNode (FreeNode i T) = (GetNode T)(i := None)"
    "frame T (FreeNode i T)"
proof -
  have g: "GetNode T i \<noteq> None" using live_dom [OF l] i by blast
  have c: "card U > 0" using live_finite [OF l] i by (auto simp: card_gt_0_iff)
  from g show "live (FreeNode i T) (U - {i})"
    using FreeNode_ok [of "tree_impl T" U i] l i c by (simp add: live_def FreeNode_def)
  from g show "GetNode (FreeNode i T) = (GetNode T)(i := None)"
    using FreeNode_ok(2) [of "tree_impl T" U i] l i
    by (auto simp: live_def FreeNode_def GetNode_def fun_eq_iff)
  from g show "frame T (FreeNode i T)" by (simp add: FreeNode_def frame_def)
qed

lemma live_AllocateNode:
  assumes l: "live T U"
  obtains r T' where "AllocateNode b T = Some (r, T')" "r \<notin> U" "0 < r" "live T' (insert r U)"
    "GetNode T' = (GetNode T)(r \<mapsto> new_node b (tree_max T))" "frame T T'"
proof -
  obtain r I where a: "Impl_AllocateNode b (tree_impl T) = Some (r, I)" "r \<notin> U" "0 < r"
      "arena_ok I (insert r U)" "impl_max_keys I = impl_max_keys (tree_impl T)"
      "Impl_GetNode I = (Impl_GetNode (tree_impl T))(r \<mapsto> new_node b (impl_max_keys (tree_impl T)))"
    using AllocateNode_ok [of "tree_impl T" U b] l by (auto simp: live_def)
  let ?T = "T\<lparr>node_count := node_count T + 1, tree_impl := I\<rparr>"
  have "AllocateNode b T = Some (r, ?T)" using a by (simp add: AllocateNode_def)
  moreover have "live ?T (insert r U)"
    using a l arena_ok_finite [of "tree_impl T" U] by (simp add: live_def)
  moreover have "GetNode ?T = (GetNode T)(r \<mapsto> new_node b (tree_max T))"
    using a l by (auto simp: GetNode_def live_def fun_eq_iff)
  ultimately show thesis using that [of r ?T] a by (simp add: frame_def)
qed

lemma new_node_eq: "new_node True M = lnode M 0 []" "new_node False M = inode M [] []"
  by (simp_all add: new_node_def lnode_def inode_def LeafNode_new_def InternalNode_new_def)

section \<open>Trees in the arena\<close>

text \<open>
  \<open>placed T t\<close>: the tree lies in the arena of \<open>T\<close>, its ids are distinct.
\<close>

definition placed :: "BPlusTree \<Rightarrow> gtree \<Rightarrow> bool" where
  "placed T t \<longleftrightarrow> sits (tree_max T) (GetNode T) t \<and> distinct (ids t)"

lemma placed_ids: "placed T t \<Longrightarrow> live T U \<Longrightarrow> set (ids t) \<subseteq> U"
  using sits_dom live_dom unfolding placed_def by blast

lemma height_ids: "pwf m lo h (er t) \<Longrightarrow> h < length (ids t)"
proof (induction h arbitrary: lo t)
  case 0
  then show ?case by (cases t) auto
next
  case (Suc h)
  then obtain i ks ts where t: "t = GNode i ks ts" by (cases t) auto
  with Suc.prems obtain c where c: "c \<in> set ts" "pwf m (m div 2) h (er c)"
    by (cases ts) auto
  have "length (ids c) \<le> length (allids ts)"
    using c(1) by (induction ts) auto
  with Suc.IH [OF c(2)] show ?case by (simp add: t)
qed

lemma height_fuel:
  assumes "live T U" and "placed T t" and "pwf m lo h (er t)"
  shows "h < tree_fuel T"
proof -
  have "length (ids t) = card (set (ids t))" using assms(2) by (simp add: placed_def distinct_card)
  also have "\<dots> \<le> card U" using placed_ids [OF assms(2,1)] live_finite [OF assms(1)] by (rule card_mono [rotated])
  finally show ?thesis using height_ids [OF assms(3)] live_fuel [OF assms(1)] by linarith
qed

section \<open>Walks down the tree\<close>

lemma first_key_walk:
  "sits M (GetNode T) t \<Longrightarrow> pwf m lo h (er t) \<Longrightarrow> h < n \<Longrightarrow>
   first_key_of_subtree n T (gid t) = Some (pfirst (er t))"
proof (induction n arbitrary: lo h t)
  case (Suc n)
  show ?case
  proof (cases t)
    case (GLeaf i nx kvs)
    with Suc.prems show ?thesis by (simp add: lnode_def hd_keys_of)
  next
    case (GNode i ks ts)
    with Suc.prems obtain h' where h: "h = Suc h'" by (cases h) auto
    with GNode Suc.prems obtain c cs where ts: "ts = c # cs" by (cases ts) auto
    have "first_key_of_subtree (Suc n) T (gid t) = first_key_of_subtree n T (gid c)"
      using Suc.prems(1) GNode ts by (simp add: inode_def)
    also have "\<dots> = Some (pfirst (er c))"
      using Suc.prems GNode h ts by (intro Suc.IH [of _ "m div 2" h']) auto
    finally show ?thesis using GNode ts by simp
  qed
qed simp

text \<open>\<open>FindLeaf\<close> ends at the leaf that \<open>pfind\<close> describes.\<close>

lemma find_walk:
  "live T U \<Longrightarrow> sits M (GetNode T) t \<Longrightarrow> pwf m lo h (er t) \<Longrightarrow> h < n \<Longrightarrow>
   \<exists>i nx. FindLeaf_loop n T k (gid t) = Some i \<and> (i, nx, pfind (tree_cmp T) k (er t)) \<in> set (leaves t) \<and>
     0 < i \<and> GetNode T i = Some (lnode M nx (pfind (tree_cmp T) k (er t)))"
proof (induction n arbitrary: lo h t)
  case (Suc n)
  have pos: "0 < gid t"
    using live_pos [OF Suc.prems(1)] live_dom [OF Suc.prems(1)] sits_dom [OF Suc.prems(2) gid_in_ids] by blast
  show ?case
  proof (cases t)
    case (GLeaf i nx kvs)
    with Suc.prems pos show ?thesis by (simp add: lnode_def)
  next
    case (GNode i ks ts)
    with Suc.prems obtain h' where h: "h = Suc h'" by (cases h) auto
    define j where "j = UpperBound ks k (tree_cmp T)"
    have len: "length ts = Suc (length ks)" using Suc.prems(3) GNode h by (cases ts) auto
    then have j: "j < length ts" by (simp add: j_def less_Suc_eq_le)
    with Suc.prems GNode h have c: "sits M (GetNode T) (ts ! j)" "pwf m (m div 2) h' (er (ts ! j))"
      by auto
    from Suc.IH [OF Suc.prems(1) c] Suc.prems(4) h obtain i' nx where
      w: "FindLeaf_loop n T k (gid (ts ! j)) = Some i'"
        "(i', nx, pfind (tree_cmp T) k (er (ts ! j))) \<in> set (leaves (ts ! j))" "0 < i'"
        "GetNode T i' = Some (lnode M nx (pfind (tree_cmp T) k (er (ts ! j))))" by auto
    have "FindLeaf_loop (Suc n) T k (gid t) = FindLeaf_loop n T k (gid (ts ! j))"
      using GNode Suc.prems(2) pos j by (simp add: inode_def Let_def flip: j_def)
    moreover have "pfind (tree_cmp T) k (er t) = pfind (tree_cmp T) k (er (ts ! j))"
      using GNode j by (simp add: Let_def flip: j_def)
    moreover have "set (leaves (ts ! j)) \<subseteq> set (leaves t)" using GNode j by force
    ultimately show ?thesis using w by auto
  qed
qed simp

end
