(* ===== verification/BTree_Insert.thy ===== *)
theory BTree_Insert
  imports BTree_Ghost
begin

text \<open>
  \<open>insert_node\<close> refines \<open>pins\<close>.  \<open>occupies T F ts\<close> says that the trees \<open>ts\<close> and
  the further nodes \<open>F\<close> are disjoint and make up the arena; \<open>step\<close> that an operation
  replaced the trees and left the nodes \<open>F\<close> alone.  A step below a node is a step of the
  whole tree (\<open>step_context\<close>), so the recursion is followed node by node.
\<close>

definition occupies :: "BPlusTree \<Rightarrow> nat set \<Rightarrow> gtree list \<Rightarrow> bool" where
  "occupies T F ts \<longleftrightarrow> live T (F \<union> set (allids ts)) \<and> F \<inter> set (allids ts) = {} \<and>
     distinct (allids ts) \<and> (\<forall>t \<in> set ts. sits (tree_max T) (GetNode T) t)"

definition step :: "BPlusTree \<Rightarrow> nat set \<Rightarrow> gtree list \<Rightarrow> BPlusTree \<Rightarrow> gtree list \<Rightarrow> bool" where
  "step T F ts T' ts' \<longleftrightarrow> occupies T' F ts' \<and> frame T T' \<and>
     (\<forall>i \<in> F. GetNode T' i = GetNode T i) \<and> relinked (allleaves ts) (allleaves ts')"

lemma step_refl: "occupies T F ts \<Longrightarrow> step T F ts T ts"
  by (simp add: step_def)

lemma step_trans: "step T F ts T1 ts1 \<Longrightarrow> step T1 F ts1 T2 ts2 \<Longrightarrow> step T F ts T2 ts2"
  by (auto simp: step_def intro: frame_trans relinked_trans)

lemma occupies_node:
  "occupies T F [GNode i ks ts] \<longleftrightarrow> occupies T (insert i F) ts \<and> i \<notin> F \<and>
     GetNode T i = Some (inode (tree_max T) ks (map gid ts))"
  by (auto simp: occupies_def)

lemma occupies_leaf:
  "occupies T F [GLeaf i nx kvs] \<longleftrightarrow> live T (insert i F) \<and> i \<notin> F \<and>
     GetNode T i = Some (lnode (tree_max T) nx kvs)"
  by (auto simp: occupies_def)

lemma occupies_context:
  "occupies T F (P @ cs @ R) \<Longrightarrow> occupies T (F \<union> set (allids (P @ R))) cs"
  by (auto simp: occupies_def Un_ac)

lemma occupies_split:
  "occupies T F (t # ts) \<Longrightarrow> occupies T (F \<union> set (allids ts)) [t] \<and> occupies T (F \<union> set (ids t)) ts"
  by (auto simp: occupies_def Un_ac)

lemma step_context:
  assumes s: "step T (F \<union> set (allids (P @ R))) cs T' cs'" and o: "occupies T F (P @ cs @ R)"
  shows "step T F (P @ cs @ R) T' (P @ cs' @ R)"
proof -
  have f: "tree_options T' = tree_options T" using s frame_fields by (auto simp: step_def)
  have "sits (tree_max T) (GetNode T') t" if "t \<in> set P \<union> set R" for t
  proof -
    have "\<forall>i\<in>set (ids t). GetNode T' i = GetNode T i" using s that by (auto simp: step_def)
    then show ?thesis using o that sits_frame [of t "GetNode T'" "GetNode T"] by (auto simp: occupies_def)
  qed
  then show ?thesis
    using s o f relinked_mid [of "allleaves cs" "allleaves cs'" "allleaves P" "allleaves R"]
    by (auto simp: step_def occupies_def Un_ac)
qed

text \<open>Writes inside and outside of the trees.\<close>

lemma SetNode_frame:
  assumes "occupies T F ts" and "i \<in> F"
  shows "occupies (SetNode i n T) F ts" "GetNode (SetNode i n T) = (GetNode T)(i \<mapsto> n)"
    "frame T (SetNode i n T)"
proof -
  have i: "i \<in> F \<union> set (allids ts)" "i \<notin> set (allids ts)" using assms by (auto simp: occupies_def)
  have l: "live T (F \<union> set (allids ts))" using assms by (simp add: occupies_def)
  note s = live_SetNode [OF l i(1), of n]
  have "\<forall>t\<in>set ts. i \<notin> set (ids t)" using i by auto
  then show "occupies (SetNode i n T) F ts"
    using assms s frame_fields(1) [OF s(3)] by (simp add: occupies_def)
  show "GetNode (SetNode i n T) = (GetNode T)(i \<mapsto> n)" "frame T (SetNode i n T)"
    by (rule s)+
qed

lemma step_write:
  assumes o: "occupies T F [GNode i ks ts]" and s: "step T (insert i F) ts T1 ts1"
  shows "step T F [GNode i ks ts] (SetNode i (inode (tree_max T) ks' (map gid ts1)) T1) [GNode i ks' ts1]"
proof -
  have o1: "occupies T1 (insert i F) ts1" using s by (simp add: step_def)
  note w = SetNode_frame [OF o1, of i]
  have "tree_options T1 = tree_options T" using s frame_fields by (auto simp: step_def)
  moreover have "tree_options (SetNode i n T1) = tree_options T1" for n by (simp add: SetNode_def)
  ultimately show ?thesis
    using s o w by (auto simp: step_def occupies_node intro: frame_trans)
qed

lemma step_below:
  assumes o: "occupies T F [GNode i ks ts]" and s: "step T (insert i F) ts T1 ts1"
    and g: "map gid ts1 = map gid ts"
  shows "step T F [GNode i ks ts] T1 [GNode i ks ts1]"
proof -
  have "tree_options T1 = tree_options T" using s frame_fields by (auto simp: step_def)
  then show ?thesis using s o g by (auto simp: step_def occupies_node)
qed

lemma step_write_leaf:
  assumes o: "occupies T F [GLeaf i nx kvs]"
  shows "step T F [GLeaf i nx kvs] (SetNode i (lnode (tree_max T) nx kvs') T) [GLeaf i nx kvs']"
  using o live_SetNode [of T "insert i F" i]
  by (auto simp: step_def occupies_leaf relinked_def SetNode_def)

lemma AllocateNode_frame:
  assumes "occupies T F ts"
  obtains r T' where "AllocateNode b T = Some (r, T')" "occupies T' (insert r F) ts" "r \<notin> F"
    "r \<notin> set (allids ts)" "0 < r"
    "GetNode T' = (GetNode T)(r \<mapsto> new_node b (tree_max T))" "frame T T'"
proof -
  have l: "live T (F \<union> set (allids ts))" using assms by (simp add: occupies_def)
  obtain r T' where a: "AllocateNode b T = Some (r, T')" "r \<notin> F \<union> set (allids ts)" "0 < r"
      "live T' (insert r (F \<union> set (allids ts)))" 
      "GetNode T' = (GetNode T)(r \<mapsto> new_node b (tree_max T))" "frame T T'"
    by (rule live_AllocateNode [OF l])
  have "\<forall>t\<in>set ts. r \<notin> set (ids t)" using a(2) by auto
  then have "occupies T' (insert r F) ts"
    using a assms frame_fields(1) [OF a(6)] by (auto simp: occupies_def)
  then show thesis using that a by blast
qed

lemma occupies_Cons:
  "occupies T F (t # ts) \<longleftrightarrow>
     occupies T (F \<union> set (allids ts)) [t] \<and> occupies T (F \<union> set (ids t)) ts"
  by (auto simp: occupies_def Un_ac)

lemma SetNode_fields [simp]:
  "tree_options (SetNode i n T) = tree_options T" "root_id (SetNode i n T) = root_id T"
  by (simp_all add: SetNode_def)

section \<open>Splits\<close>

lemma split_leaf_refine:
  assumes o: "occupies T F [GLeaf i nx kvs]" and len: "2 \<le> length kvs"
  defines "mid \<equiv> length kvs div 2"
  shows "\<exists>r T'. split_leaf i T =
      Some (Status_OK, \<lparr>sr_split = True, sr_separator = fst (kvs ! mid), sr_right = r\<rparr>, True, T') \<and>
    step T F [GLeaf i nx kvs] T' [GLeaf i r (take mid kvs), GLeaf r nx (drop mid kvs)]"
proof -
  have mid: "mid < length kvs" using len by (simp add: mid_def)
  define M where "M = tree_max T"
  obtain r T1 where a: "AllocateNode True T = Some (r, T1)" "occupies T1 (insert r F) [GLeaf i nx kvs]"
      "r \<notin> F" "r \<notin> set (allids [GLeaf i nx kvs])" "0 < r"
      "GetNode T1 = (GetNode T)(r \<mapsto> new_node True (tree_max T))" "frame T T1"
    by (rule AllocateNode_frame [OF o])
  have M1: "tree_max T1 = M" using frame_fields(1) [OF a(7)] by (simp add: M_def)
  have ri: "r \<noteq> i" using a(4) by simp
  have Hi: "GetNode T1 i = Some (lnode M nx kvs)" using o ri a(6) by (simp add: occupies_leaf M_def)
  have Hr: "GetNode T1 r = Some (lnode M 0 [])" using a(6) by (simp add: new_node_eq M_def)
  define T2 where "T2 = SetNode r (lnode M nx (drop mid kvs)) T1"
  define T3 where "T3 = SetNode i (lnode M r (take mid kvs)) T2"
  have w2: "occupies T2 (insert r F) [GLeaf i nx kvs]"
      "GetNode T2 = (GetNode T1)(r \<mapsto> lnode M nx (drop mid kvs))" "frame T1 T2"
    unfolding T2_def by (rule SetNode_frame [OF a(2)]; simp)+
  have l2: "live T2 (insert i (insert r F))" using w2(1) by (simp add: occupies_leaf)
  have w3: "live T3 (insert i (insert r F))" "GetNode T3 = (GetNode T2)(i \<mapsto> lnode M r (take mid kvs))"
      "frame T2 T3"
    unfolding T3_def by (rule live_SetNode [OF l2]; simp)+
  have fr: "frame T T3" using frame_trans a(7) w2(3) w3(3) by blast
  have M3: "tree_max T3 = M" using frame_fields(1) [OF fr] by (simp add: M_def)
  have i: "i \<notin> F" using o by (simp add: occupies_leaf)
  have at: "GetNode T3 i = Some (lnode M r (take mid kvs))" "GetNode T3 r = Some (lnode M nx (drop mid kvs))"
    using w3(2) w2(2) ri by simp_all
  have "split_leaf i T =
      Some (Status_OK, \<lparr>sr_split = True, sr_separator = fst (kvs ! mid), sr_right = r\<rparr>, True, T3)"
    using mid a(1) Hi Hr
    by (simp add: split_leaf_def vec_defs T3_def T2_def lnode_def as_leaf_def drop_map take_map hd_map
      hd_drop_conv_nth keys_of_def flip: mid_def)
  moreover have "occupies T3 F [GLeaf i r (take mid kvs), GLeaf r nx (drop mid kvs)]"
    using w3(1) at a(3) ri i M3 unfolding occupies_def by (auto simp: insert_commute)
  moreover have "\<forall>j\<in>F. GetNode T3 j = GetNode T j"
    using w3(2) w2(2) a(3,6) o by (auto simp: occupies_leaf)
  moreover have "relinked (leaves (GLeaf i nx kvs)) (allleaves [GLeaf i r (take mid kvs), GLeaf r nx (drop mid kvs)])"
    by (simp add: relinked_def)
  ultimately show ?thesis using fr by (auto simp: step_def)
qed

lemma split_internal_refine:
  assumes o: "occupies T F [GNode i ks ts]" and len: "length ts = Suc (length ks)" "ks \<noteq> []"
  defines "mid \<equiv> length ks div 2"
  shows "\<exists>r T'. split_internal i b T =
      Some (Status_OK, \<lparr>sr_split = True, sr_separator = ks ! mid, sr_right = r\<rparr>, b, T') \<and>
    step T F [GNode i ks ts] T'
      [GNode i (take mid ks) (take (Suc mid) ts), GNode r (drop (Suc mid) ks) (drop (Suc mid) ts)]"
proof -
  have mid: "mid < length ks" using len by (simp add: mid_def)
  define M where "M = tree_max T"
  have ot: "occupies T (insert i F) ts" and i: "i \<notin> F"
    and H: "GetNode T i = Some (inode M ks (map gid ts))"
    using o by (simp_all add: occupies_node M_def)
  obtain r T1 where a: "AllocateNode False T = Some (r, T1)" "occupies T1 (insert r (insert i F)) ts"
      "r \<notin> insert i F" "r \<notin> set (allids ts)" "0 < r"
      "GetNode T1 = (GetNode T)(r \<mapsto> new_node False (tree_max T))" "frame T T1"
    by (rule AllocateNode_frame [OF ot])
  have Hi: "GetNode T1 i = Some (inode M ks (map gid ts))" using a(3,6) H by auto
  have Hr: "GetNode T1 r = Some (inode M [] [])" using a(6) by (simp add: new_node_eq M_def)
  define rn where "rn = inode M (drop (Suc mid) ks) (map gid (drop (Suc mid) ts))"
  define ln where "ln = inode M (take mid ks) (map gid (take (Suc mid) ts))"
  define T2 where "T2 = SetNode r rn T1"
  define T3 where "T3 = SetNode i ln T2"
  have w2: "occupies T2 (insert r (insert i F)) ts" "GetNode T2 = (GetNode T1)(r \<mapsto> rn)" "frame T1 T2"
    unfolding T2_def by (rule SetNode_frame [OF a(2)]; simp)+
  have w3: "occupies T3 (insert r (insert i F)) ts" "GetNode T3 = (GetNode T2)(i \<mapsto> ln)" "frame T2 T3"
    unfolding T3_def by (rule SetNode_frame [OF w2(1)]; simp)+
  have fr: "frame T T3" using frame_trans a(7) w2(3) w3(3) by blast
  have M3: "tree_max T3 = M" using frame_fields(1) [OF fr] by (simp add: M_def)
  define X Y where "X = take (Suc mid) ts" and "Y = drop (Suc mid) ts"
  have ts: "ts = X @ Y" by (simp add: X_def Y_def)
  have at: "GetNode T3 i = Some (inode M (take mid ks) (map gid X))"
      "GetNode T3 r = Some (inode M (drop (Suc mid) ks) (map gid Y))"
    using w3(2) w2(2) a(3) by (simp_all add: rn_def ln_def X_def Y_def)
  have "split_internal i b T =
      Some (Status_OK, \<lparr>sr_split = True, sr_separator = ks ! mid, sr_right = r\<rparr>, b, T3)"
    using mid a(1) Hi Hr len
    by (simp add: split_internal_def vec_defs T3_def T2_def rn_def ln_def inode_def as_internal_def drop_map take_map
      flip: mid_def)
  moreover have "occupies T3 (insert r (insert i F)) (X @ Y)" using w3(1) ts by simp
  then have "occupies T3 F [GNode i (take mid ks) X, GNode r (drop (Suc mid) ks) Y]"
    using at a(3,4) i M3 by (auto simp: occupies_def ts insert_commute Un_ac)
  moreover have "\<forall>j\<in>F. GetNode T3 j = GetNode T j"
    using w3(2) w2(2) a(3,6) i by auto
  moreover have "relinked (leaves (GNode i ks ts)) (allleaves [GNode i (take mid ks) X, GNode r (drop (Suc mid) ks) Y])"
    by (simp add: ts)
  ultimately show ?thesis using fr by (auto simp: step_def X_def Y_def)
qed

section \<open>Insertion\<close>

text \<open>The outcome of an insertion into the subtree \<open>t\<close>, in terms of the result of \<open>pins\<close>.\<close>

definition inserted_as ::
  "BPlusTree \<Rightarrow> nat set \<Rightarrow> gtree \<Rightarrow> BPlusTree \<Rightarrow> ptree \<Rightarrow> (bytes \<times> ptree) option
   \<Rightarrow> SplitResult \<Rightarrow> SplitResult \<Rightarrow> bool" where
  "inserted_as T F t T' p s res res' \<longleftrightarrow>
     (\<exists>t' us. step T F [t] T' (t' # us) \<and> gid t' = gid t \<and> er t' = p \<and>
       (case s of
          None \<Rightarrow> us = [] \<and> res' = res
        | Some (sep, r) \<Rightarrow>
            \<exists>u. us = [u] \<and> er u = r \<and>
              res' = \<lparr>sr_split = True, sr_separator = sep, sr_right = gid u\<rparr>))"

lemma inserted_plain:
  "step T F [t] T' [t'] \<Longrightarrow> gid t' = gid t \<Longrightarrow> inserted_as T F t T' (er t') None res res"
  by (auto simp: inserted_as_def)

lemma inserted_split:
  "step T F [t] T' [t', u] \<Longrightarrow> gid t' = gid t \<Longrightarrow>
   inserted_as T F t T' (er t') (Some (sep, er u)) res \<lparr>sr_split = True, sr_separator = sep, sr_right = gid u\<rparr>"
  by (auto simp: inserted_as_def)

lemma insert_into_leaf_refine:
  assumes o: "occupies T F [GLeaf i nx kvs]" and m: "2 \<le> tree_max T" "length kvs \<le> tree_max T"
    and lf: "lnode (tree_max T) nx kvs = Leaf leaf"
    and p: "pins_leaf (tree_cmp T) (tree_max T) k v kvs = (p, s, ins)"
  shows "\<exists>res' T'. insert_into_leaf k v i leaf res b T = Some (Status_OK, res', b \<or> ins, T') \<and>
    inserted_as T F (GLeaf i nx kvs) T' p s res res'"
proof -
  define M where "M = tree_max T"
  define pos where "pos = LowerBound (keys_of kvs) k (tree_cmp T)"
  have leaf: "leaf = \<lparr>leaf_keys = keys_of kvs, leaf_values = map snd kvs, leaf_next = nx, leaf_max_keys = M\<rparr>"
    using lf by (simp add: lnode_def M_def)
  have pos: "pos \<le> length kvs" using LowerBound_le [of "keys_of kvs"] by (simp add: pos_def)
  show ?thesis
  proof (cases "pos < length kvs \<and> Compare (tree_cmp T) (fst (kvs ! pos)) k = 0")
    case True
    define es where "es = kvs[pos := (fst (kvs ! pos), v)]"
    have "keys_of es = keys_of kvs" "map snd es = (map snd kvs)[pos := v]"
      using True by (auto simp: es_def keys_of_def map_update list_update_same_conv)
    then have "insert_into_leaf k v i leaf res b T = Some (Status_OK, res, b, SetNode i (lnode M nx es) T)"
      using True by (simp add: insert_into_leaf_def leaf vec_defs lnode_def Let_def flip: pos_def)
    moreover have "p = er (GLeaf i nx es)" "s = None" "\<not> ins"
      using p True by (auto simp: pins_leaf_def Let_def es_def simp flip: pos_def)
    moreover note inserted_plain [OF step_write_leaf [OF o, of es], of res]
    ultimately show ?thesis by (auto simp: M_def)
  next
    case False
    define es where "es = take pos kvs @ (k, v) # drop pos kvs"
    define T1 where "T1 = SetNode i (lnode M nx es) T"
    have st: "step T F [GLeaf i nx kvs] T1 [GLeaf i nx es]"
      unfolding T1_def M_def by (rule step_write_leaf [OF o])
    have M1: "tree_max T1 = M" by (simp add: T1_def SetNode_def M_def)
    have les: "length es = Suc (length kvs)" using pos by (simp add: es_def)
    have run: "insert_into_leaf k v i leaf res b T =
        (if length es \<le> M then Some (Status_OK, res, True, T1) else split_leaf i T1)"
      using False pos M1
      by (auto simp: insert_into_leaf_def leaf vec_defs Let_def T1_def lnode_def es_def drop_map take_map
        simp flip: pos_def)
    have pe: "(p, s, ins) = (if length es \<le> M then (PLeaf es, None, True)
        else let (l, s) = psplit_leaf es in (l, s, True))"
    proof -
      have "\<not> (pos < length (keys_of kvs) \<and> Compare (tree_cmp T) (keys_of kvs ! pos) k = 0)"
        using False by auto
      note r = p [unfolded pins_leaf_def Let_def, folded pos_def, unfolded if_not_P [OF this]]
      show ?thesis unfolding es_def M_def Let_def by (rule r [symmetric])
    qed
    show ?thesis
    proof (cases "length es \<le> M")
      case True
      then show ?thesis using run pe inserted_plain [OF st, of res] by auto
    next
      case nfit: False
      define mid where "mid = length es div 2"
      have o1: "occupies T1 F [GLeaf i nx es]" and len: "2 \<le> length es"
        using st nfit m by (auto simp: step_def M_def)
      from split_leaf_refine [OF o1 len] obtain r T2 where
        sp: "split_leaf i T1 = Some (Status_OK,
            \<lparr>sr_split = True, sr_separator = fst (es ! mid), sr_right = r\<rparr>, True, T2)"
          "step T1 F [GLeaf i nx es] T2 [GLeaf i r (take mid es), GLeaf r nx (drop mid es)]"
        unfolding mid_def by blast
      have "p = PLeaf (take mid es)" "s = Some (fst (es ! mid), PLeaf (drop mid es))" ins
        using pe nfit by (simp_all add: psplit_leaf_def Let_def mid_def)
      then show ?thesis
        using run nfit sp(1) inserted_split [OF step_trans [OF st sp(2)], of "fst (es ! mid)" res] by auto
    qed
  qed
qed

lemma insert_into_internal_refine:
  assumes o: "occupies T F [GNode i ks (P @ c # R)]" and len: "length ks = length P + length R"
    and st: "step T (insert i F) (P @ c # R) T1 (P @ [c', u] @ R)" and g: "gid c' = gid c"
    and m: "2 \<le> tree_max T"
    and slot: "LowerBound ks sep (tree_cmp T) = length P"
    and cr: "cr = \<lparr>sr_split = True, sr_separator = sep, sr_right = gid u\<rparr>"
    and p: "pins_child (tree_cmp T) (tree_max T) ks (map er P @ er c' # map er R) (Some (sep, er u)) ins = (p, s, ins')"
  shows "\<exists>res' T'. insert_into_internal i cr res b T1 = Some (Status_OK, res', b, T') \<and>
    inserted_as T F (GNode i ks (P @ c # R)) T' p s res res' \<and> ins' = ins"
proof -
  define M where "M = tree_max T"
  have opts: "tree_options T1 = tree_options T" using st frame_fields by (auto simp: step_def)
  have "GetNode T1 i = GetNode T i" using st by (auto simp: step_def)
  then have H: "GetNode T1 i = Some (inode M ks (map gid (P @ c # R)))"
    using o by (simp add: occupies_node M_def)
  define ks' where "ks' = take (length P) ks @ sep # drop (length P) ks"
  define ts' where "ts' = P @ [c', u] @ R"
  define T2 where "T2 = SetNode i (inode M ks' (map gid ts')) T1"
  have st2: "step T F [GNode i ks (P @ c # R)] T2 [GNode i ks' ts']"
    unfolding T2_def M_def ts'_def by (rule step_write [OF o st])
  have lk: "length ks' = Suc (length ks)" using len by (simp add: ks'_def)
  have run: "insert_into_internal i cr res b T1 =
      (if length ks' \<le> M then Some (Status_OK, res, b, T2) else split_internal i b T2)"
    using H slot len opts g
    by (simp add: insert_into_internal_def inode_def as_internal_def vec_defs cr T2_def M_def ks'_def ts'_def Let_def)
  have pe: "(p, s, ins') = (if length ks' \<le> M then (PNode ks' (map er ts'), None, ins)
      else let (l, s) = psplit_node ks' (map er ts') in (l, s, ins))"
    unfolding p [symmetric] using slot lk
    by (simp add: pins_child_def Let_def M_def ks'_def ts'_def cong: if_cong)
  show ?thesis
  proof (cases "length ks' \<le> M")
    case True
    then show ?thesis using run pe inserted_plain [OF st2, of res] by auto
  next
    case False
    define mid where "mid = length ks' div 2"
    have o2: "occupies T2 F [GNode i ks' ts']" using st2 by (simp add: step_def)
    have l2: "length ts' = Suc (length ks')" "ks' \<noteq> []" using len by (auto simp: ts'_def ks'_def)
    from split_internal_refine [OF o2 l2, of b] obtain r T3 where
      sp: "split_internal i b T2 = Some (Status_OK,
          \<lparr>sr_split = True, sr_separator = ks' ! mid, sr_right = r\<rparr>, b, T3)"
        "step T2 F [GNode i ks' ts'] T3 [GNode i (take mid ks') (take (Suc mid) ts'),
          GNode r (drop (Suc mid) ks') (drop (Suc mid) ts')]"
      unfolding mid_def by blast
    have "p = er (GNode i (take mid ks') (take (Suc mid) ts'))"
      "s = Some (ks' ! mid, er (GNode r (drop (Suc mid) ks') (drop (Suc mid) ts')))" "ins' = ins"
      using pe False by (simp_all add: psplit_node_def Let_def mid_def take_map drop_map)
    then show ?thesis
      using run False sp(1) inserted_split [OF step_trans [OF st2 sp(2)], of "ks' ! mid" res] by auto
  qed
qed

lemma er_children:
  "j < length ts \<Longrightarrow> (map er ts)[j := p] = map er (take j ts) @ p # map er (drop (Suc j) ts)"
  by (simp add: upd_conv_take_nth_drop take_map drop_map)

text \<open>The recursion: \<open>insert\<close> does to the arena what \<open>pins\<close> does to the tree.\<close>

context key_order begin

theorem insert_node_refine:
  assumes "occupies T F [t]" and "pwf M lo h (er t)" and "h < n" and "2 \<le> M"
    and "ordered (entries (er t))" and "tree_max T = M" and "tree_cmp T = comparator"
    and "pins comparator M k v (er t) = (p, s, ins)"
  shows "\<exists>res' T'. insert_node n k v (gid t) res b T = Some (Status_OK, res', b \<or> ins, T') \<and>
    inserted_as T F t T' p s res res'"
  using assms
proof (induction n arbitrary: lo h t F p s ins res)
  case (Suc n)
  show ?case
  proof (cases t)
    case (GLeaf i nx kvs)
    obtain leaf where lf: "lnode M nx kvs = Leaf leaf" by (simp add: lnode_def)
    have "GetNode T i = Some (Leaf leaf)" using Suc.prems GLeaf lf by (simp add: occupies_leaf)
    moreover have "length kvs \<le> M" using Suc.prems(2) GLeaf by (cases h) auto
    ultimately show ?thesis
      using insert_into_leaf_refine [of T F i nx kvs leaf k v p s ins res b] Suc.prems lf GLeaf by simp
  next
    case (GNode i ks ts)
    with Suc.prems obtain h' where h: "h = Suc h'" by (cases h) auto
    define pts where "pts = map er ts"
    have w: "pts \<noteq> []" "ks = seps pts" "nodes_ok M h' pts" "ordered (all_entries pts)"
      using Suc.prems(2,5) GNode h by (simp_all add: pts_def)
    define j where "j = UpperBound ks k comparator"
    have len: "length ts = Suc (length ks)" using w by (cases ts) (auto simp: pts_def)
    then have j: "j < length ts" by (simp add: j_def less_Suc_eq_le)
    define P c R where "P = take j ts" and "c = ts ! j" and "R = drop (Suc j) ts"
    have ts: "ts = P @ c # R" using id_take_nth_drop [OF j] by (simp add: P_def c_def R_def)
    have lP: "length P = j" using j by (simp add: P_def)
    have upd: "pts ! j = er c" "pts[j := q] = map er P @ q # map er R" for q
      using j er_children [OF j] by (simp_all add: pts_def P_def c_def R_def)
    have o: "occupies T (insert i F) (P @ [c] @ R)" and o': "occupies T F [GNode i ks (P @ c # R)]"
      and H: "GetNode T i = Some (inode M ks (map gid ts))"
      using Suc.prems(1,6) GNode ts by (simp_all add: occupies_node)
    obtain pc sc ic where pc: "pins comparator M k v (er c) = (pc, sc, ic)" by (metis prod_cases3)
    have "\<exists>res' T'. insert_node n k v (gid c) SplitResult_init b T = Some (Status_OK, res', b \<or> ic, T') \<and>
        inserted_as T (insert i F \<union> set (allids (P @ R))) c T' pc sc SplitResult_init res'"
      using Suc.prems(3-7) w h j pc
      by (intro Suc.IH [OF occupies_context [OF o], where h = h' and lo = "M div 2"])
        (auto simp: sorted_wrt_append pts_def ts)
    then obtain cr T1 where run: "insert_node n k v (gid c) SplitResult_init b T = Some (Status_OK, cr, b \<or> ic, T1)"
      and ia: "inserted_as T (insert i F \<union> set (allids (P @ R))) c T1 pc sc SplitResult_init cr" by blast
    then obtain c' us where st: "step T (insert i F \<union> set (allids (P @ R))) [c] T1 (c' # us)"
      and c': "gid c' = gid c" "er c' = pc"
      and us: "case sc of None \<Rightarrow> us = [] \<and> cr = SplitResult_init
        | Some (sep, r) \<Rightarrow> \<exists>u. us = [u] \<and> er u = r \<and>
            cr = \<lparr>sr_split = True, sr_separator = sep, sr_right = gid u\<rparr>"
      unfolding inserted_as_def by blast
    have st': "step T (insert i F) (P @ [c] @ R) T1 (P @ (c' # us) @ R)"
      by (rule step_context [OF st o])
    have whole: "insert_node (Suc n) k v (gid t) res b T =
        (if \<not> sr_split cr then Some (Status_OK, res, b \<or> ic, T1)
         else insert_into_internal i cr res (b \<or> ic) T1)"
      using H j run GNode Suc.prems(7)
      by (simp add: inode_def Let_def flip: j_def c_def)
    have "pins comparator M k v (PNode ks pts) = pins_child comparator M ks (map er P @ pc # map er R) sc ic"
      using j pc upd by (simp add: Let_def pts_def flip: j_def)
    then have pe: "(p, s, ins) = pins_child comparator M ks (map er P @ pc # map er R) sc ic"
      using Suc.prems(8) GNode by (simp only: er.simps pts_def)
    show ?thesis
    proof (cases sc)
      case None
      with us have e: "us = []" "cr = SplitResult_init" by simp_all
      have "step T F [GNode i ks (P @ c # R)] T1 [GNode i ks (P @ c' # R)]"
        using st' e c' by (intro step_below [OF o']) simp_all
      from inserted_plain [OF this, of res] show ?thesis
        using whole pe None e c' GNode ts by (auto simp: pins_child_def SplitResult_init_def)
    next
      case (Some a)
      then obtain sep u where e: "sc = Some (sep, er u)" "us = [u]"
          "cr = \<lparr>sr_split = True, sr_separator = sep, sr_right = gid u\<rparr>"
        using us by (cases a) auto
      have "LowerBound ks sep comparator = j"
        unfolding w(2)
        by (rule pins_slot [OF w(3,1) Suc.prems(4) w(4)]) (use pc upd e j_def w in auto)
      then have slot: "LowerBound ks sep (tree_cmp T) = length P" using lP Suc.prems(7) by simp
      have lks: "length ks = length P + length R" using len ts by simp
      have "\<exists>res' T'. insert_into_internal i cr res (b \<or> ic) T1 = Some (Status_OK, res', b \<or> ic, T') \<and>
          inserted_as T F (GNode i ks (P @ c # R)) T' p s res res' \<and> ins = ic"
        by (rule insert_into_internal_refine [OF o' lks _ c'(1) _ slot e(3)])
          (use st' e pe c' Suc.prems in simp_all)
      then show ?thesis using whole e GNode ts by auto
    qed
  qed
qed simp

end

end
