(* ===== verification/BTree_Erase.thy ===== *)
theory BTree_Erase
  imports BTree_Insert
begin

text \<open>
  \<open>erase_node\<close> refines \<open>pdel\<close>: redistribution, merging and the refresh of the separators,
  step by step as in \<open>BTree_Insert\<close>.
\<close>

lemma occupies_fuel:
  assumes "occupies T F ts" and "t \<in> set ts" and "pwf m lo h (er t)"
  shows "h < tree_fuel T"
proof -
  have "distinct (ids t)" using assms(1,2) by (auto simp: occupies_def distinct_concat_iff)
  then have "placed T t" using assms by (simp add: placed_def occupies_def)
  then show ?thesis using height_fuel assms by (auto simp: occupies_def)
qed

lemma first_key_at:
  assumes "occupies T F ts" and "t \<in> set ts" and "pwf m lo h (er t)"
  shows "first_key_of_subtree (tree_fuel T) T (gid t) = Some (pfirst (er t))"
proof -
  have "sits (tree_max T) (GetNode T) t" using assms(1,2) by (simp add: occupies_def)
  from first_key_walk [OF this assms(3) occupies_fuel [OF assms]] show ?thesis .
qed

lemma SetNode_commute: "i \<noteq> j \<Longrightarrow> SetNode i x (SetNode j y T) = SetNode j y (SetNode i x T)"
  by (simp add: SetNode_def Impl_SetNode_def list_update_swap)

lemma FreeNode_frame:
  assumes o: "occupies T (insert r F) ts" and r: "r \<notin> F"
  shows "occupies (FreeNode r T) F ts" "GetNode (FreeNode r T) = (GetNode T)(r := None)"
    "frame T (FreeNode r T)"
proof -
  have l: "live T (insert r F \<union> set (allids ts))" using o by (simp add: occupies_def)
  have i: "r \<in> insert r F \<union> set (allids ts)" by simp
  have nr: "r \<notin> set (allids ts)" using o by (auto simp: occupies_def)
  then have e: "insert r F \<union> set (allids ts) - {r} = F \<union> set (allids ts)" using r by auto
  note w = live_FreeNode [OF l i]
  show "GetNode (FreeNode r T) = (GetNode T)(r := None)" "frame T (FreeNode r T)" by (rule w)+
  have "\<forall>t\<in>set ts. r \<notin> set (ids t)" using nr by auto
  then show "occupies (FreeNode r T) F ts"
    using o w(1) [unfolded e] w(2) frame_fields(1) [OF w(3)] by (auto simp: occupies_def)
qed

section \<open>Separators\<close>

lemma step_keys:
  assumes o: "occupies T F [GNode i ks ts]"
  shows "step T F [GNode i ks ts] (SetNode i (inode (tree_max T) ks' (map gid ts)) T) [GNode i ks' ts]"
  using o step_write [OF o step_refl] by (simp add: occupies_node)

lemma set_separator_refine:
  assumes o: "occupies T F [GNode i ks ts]" and p: "p < length ks"
  shows "\<exists>T'. set_separator i p k T = Some T' \<and> step T F [GNode i ks ts] T' [GNode i (ks[p := k]) ts]"
  using step_keys [OF o, of "ks[p := k]"] o p
  by (simp add: set_separator_def occupies_node inode_def as_internal_def vec_defs)

lemma update_separator_refine:
  assumes o: "occupies T F [GNode i ks ts]" and p: "p < length ks" and len: "length ts = Suc (length ks)"
    and w: "pwf m lo h (er (ts ! Suc p))"
  shows "\<exists>T' ks'. update_separator i (Suc p) T = Some T' \<and> step T F [GNode i ks ts] T' [GNode i ks' ts] \<and>
    length ks' = length ks"
proof -
  have ot: "occupies T (insert i F) ts" and H: "GetNode T i = Some (inode (tree_max T) ks (map gid ts))"
    using o by (simp_all add: occupies_node)
  have "first_key_of_subtree (tree_fuel T) T (gid (ts ! Suc p)) = Some (pfirst (er (ts ! Suc p)))"
    using first_key_at [OF ot _ w] p len by simp
  then have run: "update_separator i (Suc p) T =
      (if pfirst (er (ts ! Suc p)) \<noteq> [] then set_separator i p (pfirst (er (ts ! Suc p))) T else Some T)"
    using H p len by (simp add: update_separator_def inode_def as_internal_def vec_defs)
  obtain T' where s: "set_separator i p (pfirst (er (ts ! Suc p))) T = Some T'"
      "step T F [GNode i ks ts] T' [GNode i (ks[p := pfirst (er (ts ! Suc p))]) ts]"
    using set_separator_refine [OF o p] by blast
  show ?thesis
  proof (cases "pfirst (er (ts ! Suc p)) = []")
    case True
    then show ?thesis using run step_refl [OF o] by auto
  next
    case False
    then show ?thesis using run s length_list_update by metis
  qed
qed

section \<open>Two neighbours\<close>

lemma occupies_two_nodes:
  "occupies T F [GNode a ka xs, GNode b kb ys] \<longleftrightarrow>
     occupies T (insert a (insert b F)) (xs @ ys) \<and> a \<noteq> b \<and> a \<notin> F \<and> b \<notin> F \<and>
     GetNode T a = Some (inode (tree_max T) ka (map gid xs)) \<and>
     GetNode T b = Some (inode (tree_max T) kb (map gid ys))"
  by (auto simp: occupies_def insert_commute Un_ac)

lemma occupies_two_leaves:
  "occupies T F [GLeaf a na x, GLeaf b nb y] \<longleftrightarrow>
     live T (insert a (insert b F)) \<and> a \<noteq> b \<and> a \<notin> F \<and> b \<notin> F \<and>
     GetNode T a = Some (lnode (tree_max T) na x) \<and> GetNode T b = Some (lnode (tree_max T) nb y)"
  by (auto simp: occupies_def insert_commute Un_ac)

lemma step_two_leaves:
  assumes o: "occupies T F [GLeaf a na x, GLeaf b nb y]"
  shows "step T F [GLeaf a na x, GLeaf b nb y]
    (SetNode a (lnode (tree_max T) na x') (SetNode b (lnode (tree_max T) nb y') T))
    [GLeaf a na x', GLeaf b nb y']"
proof -
  have l: "live T (insert a (insert b F))" using o by (simp add: occupies_two_leaves)
  define T1 where "T1 = SetNode b (lnode (tree_max T) nb y') T"
  have l1: "live T1 (insert a (insert b F))" "GetNode T1 = (GetNode T)(b \<mapsto> lnode (tree_max T) nb y')"
      "frame T T1" "tree_max T1 = tree_max T"
    unfolding T1_def using live_SetNode [OF l, of b] by simp_all
  show ?thesis
    using live_SetNode [OF l1(1), of a "lnode (tree_max T) na x'"] l1 o frame_trans
    by (auto simp: step_def occupies_two_leaves relinked_def simp flip: T1_def)
qed

lemma step_two_nodes:
  assumes o: "occupies T F [GNode a ka xs, GNode b kb ys]" and e: "xs' @ ys' = xs @ ys"
  shows "step T F [GNode a ka xs, GNode b kb ys]
    (SetNode a (inode (tree_max T) ka' (map gid xs')) (SetNode b (inode (tree_max T) kb' (map gid ys')) T))
    [GNode a ka' xs', GNode b kb' ys']"
proof -
  have o1: "occupies T (insert a (insert b F)) (xs' @ ys')" using o by (simp add: occupies_two_nodes e)
  define T1 where "T1 = SetNode b (inode (tree_max T) kb' (map gid ys')) T"
  note w1 = SetNode_frame [OF o1, of b "inode (tree_max T) kb' (map gid ys')", folded T1_def]
  note w2 = SetNode_frame [OF w1(1), of a "inode (tree_max T) ka' (map gid xs')"]
  have "allleaves xs' @ allleaves ys' = allleaves xs @ allleaves ys"
    using arg_cong [OF e, of allleaves] by simp
  then show ?thesis
    using w1 w2 o frame_trans [of T T1]
    by (auto simp: step_def occupies_two_nodes simp flip: T1_def) (auto simp: T1_def)
qed

text \<open>A change of two neighbouring children seen from their parent, whose separators change too.\<close>

lemma step_pair:
  assumes o: "occupies T F [GNode i ks (P @ [l, r] @ R)]"
    and s: "step T (insert i F \<union> set (allids (P @ R))) [l, r] T1 [l', r']"
  shows "step T F [GNode i ks (P @ [l, r] @ R)]
    (SetNode i (inode (tree_max T) ks' (map gid (P @ [l', r'] @ R))) T1) [GNode i ks' (P @ [l', r'] @ R)]"
    and "gid l' = gid l \<Longrightarrow> gid r' = gid r \<Longrightarrow>
      step T F [GNode i ks (P @ [l, r] @ R)] T1 [GNode i ks (P @ [l', r'] @ R)]"
proof -
  have o1: "occupies T (insert i F) (P @ [l, r] @ R)" using o by (simp only: occupies_node)
  note s1 = step_context [OF s o1]
  show "step T F [GNode i ks (P @ [l, r] @ R)]
      (SetNode i (inode (tree_max T) ks' (map gid (P @ [l', r'] @ R))) T1) [GNode i ks' (P @ [l', r'] @ R)]"
    by (rule step_write [OF o s1])
  show "step T F [GNode i ks (P @ [l, r] @ R)] T1 [GNode i ks (P @ [l', r'] @ R)]"
    if "gid l' = gid l" "gid r' = gid r"
    by (rule step_below [OF o s1]) (simp add: that)
qed

section \<open>Redistribution\<close>

lemma node_size: "sits M H t \<Longrightarrow> \<exists>n. H (gid t) = Some n \<and> Size n = psize (er t)"
  by (cases t) auto

lemma node_kind:
  "sits M H t \<Longrightarrow> pwf m lo h (er t) \<Longrightarrow> \<exists>n. H (gid t) = Some n \<and> (IsLeaf n \<longleftrightarrow> h = 0)"
  by (cases t; cases h) simp_all

lemma same_kind:
  assumes "pwf m a h (er l)" and "pwf m b h (er c)"
  obtains i na x j nb y where "l = GLeaf i na x" "c = GLeaf j nb y"
  | i ka xs j kb ys where "l = GNode i ka xs" "c = GNode j kb ys" "length xs = Suc (length ka)"
      "length ys = Suc (length kb)"
proof (cases h)
  case 0
  with assms show thesis by (cases l; cases c) (auto intro: that)
next
  case (Suc h')
  with assms show thesis by (cases l; cases c) (auto intro!: that(2) simp: Suc_leI)
qed

lemma borrow_from_left_refuse:
  assumes o: "occupies T F [GNode i ks (P @ [l, c] @ R)]" and small: "\<not> tree_max T div 2 < psize (er l)"
  shows "borrow_from_left i (Suc (length P)) (gid c) T = Some (True, T)"
proof -
  have "sits (tree_max T) (GetNode T) l" "sits (tree_max T) (GetNode T) c"
    and H: "GetNode T i = Some (inode (tree_max T) ks (map gid (P @ [l, c] @ R)))"
    using o by (simp_all add: occupies_node occupies_def)
  then obtain nl nc where "GetNode T (gid l) = Some nl" "Size nl = psize (er l)" "GetNode T (gid c) = Some nc"
    using node_size by meson
  with H small show ?thesis
    by (simp add: borrow_from_left_def inode_def as_internal_def vec_defs nth_append)
qed

lemma borrow_from_left_refine:
  assumes o: "occupies T F [GNode i ks (P @ [l, c] @ R)]" and len: "length ks = Suc (length P + length R)"
    and k: "pwf m d h (er l)" "pwf m e h (er c)" and big: "tree_max T div 2 < psize (er l)"
    and w: "pwf m a h (snd (pborrow_left (ks ! length P) (er l) (er c)))"
  shows "\<exists>l' c' ks' T'. borrow_from_left i (Suc (length P)) (gid c) T = Some (False, T') \<and>
    step T F [GNode i ks (P @ [l, c] @ R)] T' [GNode i ks' (P @ [l', c'] @ R)] \<and>
    (er l', er c') = pborrow_left (ks ! length P) (er l) (er c) \<and> length ks' = length ks"
proof -
  define M where "M = tree_max T"
  define p where "p = length P"
  have o1: "occupies T (insert i F) (P @ [l, c] @ R)"
    and H: "GetNode T i = Some (inode M ks (map gid (P @ [l, c] @ R)))" and i: "i \<notin> F"
    using o unfolding occupies_node M_def by blast+
  note o2 = occupies_context [OF o1]
  have Hlc: "sits M (GetNode T) l" "sits M (GetNode T) c" using o1 by (simp_all add: occupies_def M_def)
  have "\<exists>l' c' ks1 T1. borrow_from_left i (Suc p) (gid c) T = map_option (Pair False) (update_separator i (Suc p) T1) \<and>
    step T F [GNode i ks (P @ [l, c] @ R)] T1 [GNode i ks1 (P @ [l', c'] @ R)] \<and>
    (er l', er c') = pborrow_left (ks ! length P) (er l) (er c) \<and> length ks1 = length ks"
    using same_kind [OF k]
  proof cases
    case (1 a na x b nb y)
    then have ne: "x \<noteq> []" using big by auto
    define T1 where "T1 = SetNode a (lnode M na (butlast x)) (SetNode b (lnode M nb (last x # y)) T)"
    have ab: "a \<noteq> b" using o2 by (simp add: 1 occupies_two_leaves)
    have "step T F [GNode i ks (P @ [l, c] @ R)] T1 [GNode i ks (P @ [GLeaf a na (butlast x), GLeaf b nb (last x # y)] @ R)]"
      unfolding T1_def M_def by (rule step_pair(2) [OF o]) (use o2 step_two_leaves in \<open>simp_all add: 1\<close>)
    moreover have "borrow_from_left i (Suc p) (gid c) T = map_option (Pair False) (update_separator i (Suc p) T1)"
      using H Hlc big ne
      by (simp add: borrow_from_left_def inode_def lnode_def as_internal_def as_leaf_def vec_defs nth_append
        1 p_def T1_def M_def keys_of_def map_butlast last_map map_conv_bind_option comp_def)
    ultimately show ?thesis using 1 by fastforce
  next
    case (2 a ka xs b kb ys)
    then have ne: "ka \<noteq> []" "xs \<noteq> []" using big by auto
    define T1 where "T1 = SetNode a (inode M (butlast ka) (map gid (butlast xs)))
      (SetNode b (inode M (ks ! p # kb) (map gid (last xs # ys))) T)"
    define ts1 where "ts1 = P @ [GNode a (butlast ka) (butlast xs), GNode b (ks ! p # kb) (last xs # ys)] @ R"
    define ks1 where "ks1 = ks[p := last ka]"
    have ia: "i \<noteq> a" "i \<noteq> b" using o1 by (auto simp: 2 occupies_def)
    have s: "step T (insert i F \<union> set (allids (P @ R))) [l, c] T1
        [GNode a (butlast ka) (butlast xs), GNode b (ks ! p # kb) (last xs # ys)]"
      unfolding 2 T1_def M_def by (rule step_two_nodes) (use o2 ne 2 in simp_all)
    have "borrow_from_left i (Suc p) (gid c) T =
        map_option (Pair False) (update_separator i (Suc p) (SetNode i (inode M ks1 (map gid ts1)) T1))"
      using H Hlc big ne len ia
      by (simp add: borrow_from_left_def inode_def as_internal_def vec_defs nth_append
        2 p_def T1_def M_def ts1_def ks1_def map_butlast last_map map_conv_bind_option comp_def SetNode_commute [of a i])
    moreover note step_pair(1) [OF o s, of ks1, folded M_def ts1_def]
    moreover have "length ks1 = length ks" by (simp add: ks1_def)
    moreover have "(er (GNode a (butlast ka) (butlast xs)), er (GNode b (ks ! p # kb) (last xs # ys))) =
        pborrow_left (ks ! length P) (er l) (er c)"
      using ne by (simp add: 2 p_def map_butlast last_map)
    ultimately show ?thesis unfolding ts1_def by blast
  qed
  then obtain l' c' ks1 T1 where run: "borrow_from_left i (Suc p) (gid c) T = map_option (Pair False) (update_separator i (Suc p) T1)"
    and s: "step T F [GNode i ks (P @ [l, c] @ R)] T1 [GNode i ks1 (P @ [l', c'] @ R)]"
    and e: "(er l', er c') = pborrow_left (ks ! length P) (er l) (er c)" "length ks1 = length ks"
    by blast
  have o3: "occupies T1 F [GNode i ks1 (P @ [l', c'] @ R)]" using s by (simp add: step_def)
  have "pwf m a h (er ((P @ [l', c'] @ R) ! Suc p))"
    using w e(1) [symmetric] by (simp add: p_def nth_append)
  from update_separator_refine [OF o3 _ _ this] e(2) len obtain T2 ks2 where
    "update_separator i (Suc p) T1 = Some T2" "length ks2 = length ks1"
    "step T1 F [GNode i ks1 (P @ [l', c'] @ R)] T2 [GNode i ks2 (P @ [l', c'] @ R)]"
    by (auto simp: p_def)
  then show ?thesis using run e step_trans [OF s] by (fastforce simp: p_def)
qed

lemma borrow_from_right_refuse:
  assumes o: "occupies T F [GNode i ks (P @ [c, r] @ R)]" and small: "\<not> tree_max T div 2 < psize (er r)"
  shows "borrow_from_right i (length P) (gid c) T = Some (True, T)"
proof -
  have "sits (tree_max T) (GetNode T) r" "sits (tree_max T) (GetNode T) c"
    and H: "GetNode T i = Some (inode (tree_max T) ks (map gid (P @ [c, r] @ R)))"
    using o by (simp_all add: occupies_node occupies_def)
  then obtain nr nc where "GetNode T (gid r) = Some nr" "Size nr = psize (er r)" "GetNode T (gid c) = Some nc"
    using node_size by meson
  with H small show ?thesis
    by (simp add: borrow_from_right_def inode_def as_internal_def vec_defs nth_append)
qed

lemma borrow_from_right_refine:
  assumes o: "occupies T F [GNode i ks (P @ [c, r] @ R)]" and len: "length ks = Suc (length P + length R)"
    and k: "pwf m e h (er c)" "pwf m d h (er r)" and big: "tree_max T div 2 < psize (er r)"
    and m: "2 \<le> tree_max T"
  shows "\<exists>c' r' ks' T'. borrow_from_right i (length P) (gid c) T = Some (False, T') \<and>
    step T F [GNode i ks (P @ [c, r] @ R)] T' [GNode i ks' (P @ [c', r'] @ R)] \<and>
    (er c', er r') = pborrow_right (ks ! length P) (er c) (er r) \<and> length ks' = length ks"
proof -
  define M where "M = tree_max T"
  define p where "p = length P"
  have o1: "occupies T (insert i F) (P @ [c, r] @ R)"
    and H: "GetNode T i = Some (inode M ks (map gid (P @ [c, r] @ R)))" and i: "i \<notin> F"
    using o unfolding occupies_node M_def by blast+
  note o2 = occupies_context [OF o1]
  have Hcr: "sits M (GetNode T) c" "sits M (GetNode T) r" using o1 by (simp_all add: occupies_def M_def)
  have big1: "Suc 0 < psize (er r)" using big m by linarith
  show ?thesis
    using same_kind [OF k]
  proof cases
    case (1 a na x b nb y)
    then obtain e y' where y: "y = e # y'" "y' \<noteq> []" using big1 by (cases y) auto
    have ab: "a \<noteq> b" using o2 by (simp add: 1 occupies_two_leaves)
    define T1 where "T1 = SetNode a (lnode M na (x @ [e])) (SetNode b (lnode M nb y') T)"
    define ts1 where "ts1 = P @ [GLeaf a na (x @ [e]), GLeaf b nb y'] @ R"
    define ks1 where "ks1 = ks[p := fst (hd y')]"
    have s: "step T (insert i F \<union> set (allids (P @ R))) [c, r] T1 [GLeaf a na (x @ [e]), GLeaf b nb y']"
      using o2 step_two_leaves by (simp add: T1_def M_def 1)
    have "borrow_from_right i p (gid c) T = Some (False, SetNode i (inode M ks1 (map gid ts1)) T1)"
      using H Hcr big y len ab
      by (simp add: borrow_from_right_def inode_def lnode_def as_internal_def as_leaf_def vec_defs nth_append
        1 p_def T1_def M_def ts1_def ks1_def hd_keys_of SetNode_commute [of b a])
    moreover note step_pair(1) [OF o s, of ks1, folded M_def]
    moreover have "length ks1 = length ks" by (simp add: ks1_def)
    moreover have "(er (GLeaf a na (x @ [e])), er (GLeaf b nb y')) = pborrow_right (ks ! length P) (er c) (er r)"
      by (simp add: 1 y)
    ultimately show ?thesis unfolding ts1_def p_def by blast
  next
    case (2 a ka xs b kb ys)
    then obtain k1 kb' where kb: "kb = k1 # kb'" using big by (cases kb) auto
    with 2 obtain u ys' where ys: "ys = u # ys'" by (cases ys) auto
    have iab: "i \<noteq> a" "i \<noteq> b" "a \<noteq> b" using o1 by (auto simp: 2 occupies_def)
    define c' r' where "c' = GNode a (ka @ [ks ! p]) (xs @ [u])" and "r' = GNode b kb' ys'"
    define T1 where "T1 = SetNode a (inode M (ka @ [ks ! p]) (map gid (xs @ [u])))
      (SetNode b (inode M kb' (map gid ys')) T)"
    define ts1 where "ts1 = P @ [c', r'] @ R"
    define ks1 where "ks1 = ks[p := k1]"
    have s: "step T (insert i F \<union> set (allids (P @ R))) [c, r] T1 [c', r']"
      unfolding 2 T1_def M_def c'_def r'_def by (rule step_two_nodes) (use o2 2 ys in simp_all)
    have "borrow_from_right i p (gid c) T = Some (False, SetNode i (inode M ks1 (map gid ts1)) T1)"
      using H Hcr big kb ys len iab
      by (simp add: borrow_from_right_def inode_def as_internal_def vec_defs nth_append
        2 p_def T1_def M_def ts1_def ks1_def c'_def r'_def SetNode_commute [of b i] SetNode_commute [of b a])
    moreover note step_pair(1) [OF o s, of ks1, folded M_def]
    moreover have "length ks1 = length ks" by (simp add: ks1_def)
    moreover have "(er c', er r') = pborrow_right (ks ! length P) (er c) (er r)"
      by (simp add: 2 kb ys p_def c'_def r'_def)
    ultimately show ?thesis unfolding ts1_def p_def by blast
  qed
qed

section \<open>Merging\<close>

lemma merge_assemble:
  assumes o: "occupies T F [GNode i ks ts]"
    and o1: "occupies T1 (insert b (insert i F)) ts1" and b: "b \<notin> insert i F"
    and fr: "frame T T1" and same: "\<forall>j\<in>F. GetNode T1 j = GetNode T j"
    and ch: "relinked (allleaves ts) (allleaves ts1)"
  shows "step T F [GNode i ks ts] (FreeNode b (SetNode i (inode (tree_max T) ks1 (map gid ts1)) T1)) [GNode i ks1 ts1]"
proof -
  have i: "i \<notin> F" using o by (simp add: occupies_node)
  define T2 where "T2 = SetNode i (inode (tree_max T) ks1 (map gid ts1)) T1"
  note w2 = SetNode_frame [OF o1, of i "inode (tree_max T) ks1 (map gid ts1)", folded T2_def]
  have o2: "occupies T2 (insert b (insert i F)) ts1" using w2 by simp
  note w3 = FreeNode_frame [OF o2 b]
  have f2: "frame T1 T2" using w2(3) by simp
  have f3: "frame T (FreeNode b T2)" using frame_trans [OF frame_trans [OF fr f2] w3(3)] .
  have "GetNode (FreeNode b T2) i = Some (inode (tree_max T) ks1 (map gid ts1))"
    using w3(2) w2(2) b by simp
  moreover have "\<forall>j\<in>F. GetNode (FreeNode b T2) j = GetNode T j"
    using w3(2) w2(2) b i same by auto
  ultimately show ?thesis
    using w3(1) i f3 frame_fields(1) [OF f3] ch unfolding step_def occupies_node T2_def [symmetric]
    by simp
qed

lemma merge_into_left_refine:
  assumes o: "occupies T F [GNode i ks (P @ [l, r] @ R)]" and len: "length ks = Suc (length P + length R)"
    and k: "pwf m d h (er l)" "pwf m e h (er r)"
    and n: "GetNode T (gid l) = Some left" "IsLeaf child \<longleftrightarrow> IsLeaf left"
  shows "\<exists>l' T'. merge_into_left i (length P) child (gid l) left (gid r) T = Some T' \<and>
    step T F [GNode i ks (P @ [l, r] @ R)] T'
      [GNode i (take (length P) ks @ drop (Suc (length P)) ks) (P @ l' # R)] \<and>
    er l' = pmerge (ks ! length P) (er l) (er r)"
proof -
  define M where "M = tree_max T"
  define p where "p = length P"
  define ks1 where "ks1 = take p ks @ drop (Suc p) ks"
  have o1: "occupies T (insert i F) (P @ [l, r] @ R)"
    and H: "GetNode T i = Some (inode M ks (map gid (P @ [l, r] @ R)))" and i: "i \<notin> F"
    using o unfolding occupies_node M_def by blast+
  have Hlr: "sits M (GetNode T) l" "sits M (GetNode T) r" using o1 by (simp_all add: occupies_def M_def)
  show ?thesis
    using same_kind [OF k]
  proof cases
    case (1 a na x b nb y)
    define l' where "l' = GLeaf a nb (x @ y)"
    define T1 where "T1 = SetNode a (lnode M nb (x @ y)) T"
    have o2: "occupies T (insert a (insert b (insert i F))) (P @ R)" "b \<notin> insert i F"
      and fresh: "a \<notin> insert b (insert i F)"
      using o1 by (auto simp: 1 occupies_def insert_commute Un_ac)
    note w = SetNode_frame [OF o2(1), of a "lnode M nb (x @ y)", folded T1_def]
    have "occupies T1 (insert b (insert i F)) (P @ l' # R)"
      using w o2(1) fresh frame_fields(1) [OF w(3)]
      by (auto simp: occupies_def l'_def M_def insert_commute)
    moreover have "\<forall>j\<in>F. GetNode T1 j = GetNode T j" using w(2) fresh by auto
    moreover have "relinked (allleaves (P @ [l, r] @ R)) (allleaves (P @ l' # R))"
      using relinked_mid [of "[(a, na, x), (b, nb, y)]" "[(a, nb, x @ y)]" "allleaves P" "allleaves R"]
      by (simp add: 1 l'_def relinked_def)
    ultimately have "step T F [GNode i ks (P @ [l, r] @ R)]
        (FreeNode b (SetNode i (inode M ks1 (map gid (P @ l' # R))) T1)) [GNode i ks1 (P @ l' # R)]"
      unfolding M_def using o2(2) w(3) by (intro merge_assemble [OF o]) simp_all
    moreover have "merge_into_left i p child (gid l) left (gid r) T =
        Some (FreeNode b (SetNode i (inode M ks1 (map gid (P @ l' # R))) T1))"
      using H Hlr n len
      by (simp add: merge_into_left_def inode_def lnode_def as_internal_def as_leaf_def vec_defs
        1 p_def T1_def M_def ks1_def l'_def) (auto simp: lnode_def)
    ultimately show ?thesis unfolding ks1_def p_def by (auto simp: 1 l'_def)
  next
    case (2 a ka xs b kb ys)
    define l' where "l' = GNode a (ka @ ks ! p # kb) (xs @ ys)"
    define T1 where "T1 = SetNode a (inode M (ka @ ks ! p # kb) (map gid (xs @ ys))) T"
    have o2: "occupies T (insert a (insert b (insert i F))) (P @ xs @ ys @ R)" "b \<notin> insert i F"
      and fresh: "a \<notin> insert b (insert i F)"
      using o1 by (auto simp: 2 occupies_def insert_commute Un_ac)
    note w = SetNode_frame [OF o2(1), of a "inode M (ka @ ks ! p # kb) (map gid (xs @ ys))", folded T1_def]
    have "occupies T1 (insert b (insert i F)) (P @ l' # R)"
      using w o2(1) fresh frame_fields(1) [OF w(3)]
      by (auto simp: occupies_def l'_def M_def insert_commute Un_ac)
    moreover have "\<forall>j\<in>F. GetNode T1 j = GetNode T j" using w(2) fresh by auto
    moreover have "relinked (allleaves (P @ [l, r] @ R)) (allleaves (P @ l' # R))"
      by (simp add: 2 l'_def)
    ultimately have "step T F [GNode i ks (P @ [l, r] @ R)]
        (FreeNode b (SetNode i (inode M ks1 (map gid (P @ l' # R))) T1)) [GNode i ks1 (P @ l' # R)]"
      unfolding M_def using o2(2) w(3) by (intro merge_assemble [OF o]) simp_all
    moreover have "merge_into_left i p child (gid l) left (gid r) T =
        Some (FreeNode b (SetNode i (inode M ks1 (map gid (P @ l' # R))) T1))"
      using H Hlr n len
      by (simp add: merge_into_left_def inode_def as_internal_def as_leaf_def vec_defs nth_append
        2 p_def T1_def M_def ks1_def l'_def) (auto simp: inode_def)
    ultimately show ?thesis unfolding ks1_def p_def by (auto simp: 2 l'_def p_def)
  qed
qed

section \<open>Rebalancing\<close>

definition has_height :: "nat \<Rightarrow> nat \<Rightarrow> ptree \<Rightarrow> bool" where
  "has_height m h t \<longleftrightarrow> (\<exists>lo. pwf m lo h t)"

text \<open>
  What the code made of node \<open>i\<close>: the specified children, as many separators.
\<close>

definition reshaped ::
  "BPlusTree \<Rightarrow> nat set \<Rightarrow> nat \<Rightarrow> bytes list \<Rightarrow> gtree list \<Rightarrow> BPlusTree \<Rightarrow> bytes list \<times> ptree list \<Rightarrow> bool" where
  "reshaped T F i ks ts T' spec \<longleftrightarrow>
     (\<exists>ks2 ts2. step T F [GNode i ks ts] T' [GNode i ks2 ts2] \<and> map er ts2 = snd spec \<and>
       length ks2 = length (fst spec))"

lemma reshapedI:
  "step T F [GNode i ks ts] T' [GNode i ks' ts'] \<Longrightarrow> map er ts' = snd spec \<Longrightarrow>
   length ks' = length (fst spec) \<Longrightarrow> reshaped T F i ks ts T' spec"
  by (auto simp: reshaped_def)

lemma merge_child_refine:
  assumes o: "occupies T F [GNode i ks (P @ c # R)]" and len: "length ks = length P + length R"
    and k: "\<forall>t\<in>set (P @ c # R). has_height (tree_max T) h (er t)"
  shows "\<exists>T'. merge_child i (length P) (gid c) T = Some T' \<and>
    reshaped T F i ks (P @ c # R) T'
      (let idx = length P; pts = map er (P @ c # R) in
       if 0 < idx then
         (take (idx - 1) ks @ drop idx ks,
          take (idx - 1) pts @ pmerge (ks ! (idx - 1)) (pts ! (idx - 1)) (pts ! idx) # drop (idx + 1) pts)
       else if idx + 1 < length pts then
         (take idx ks @ drop (idx + 1) ks,
          take idx pts @ pmerge (ks ! idx) (pts ! idx) (pts ! (idx + 1)) # drop (idx + 2) pts)
       else (ks, pts))" (is "\<exists>T'. _ \<and> reshaped _ _ _ _ _ _ ?spec")
proof -
  define M where "M = tree_max T"
  have o1: "occupies T (insert i F) (P @ c # R)"
    and H: "GetNode T i = Some (inode M ks (map gid (P @ c # R)))"
    using o unfolding occupies_node M_def by blast+
  have nodes: "\<exists>n. GetNode T (gid t) = Some n \<and> (IsLeaf n \<longleftrightarrow> h = 0)" if t: "t \<in> set (P @ c # R)" for t
  proof -
    have "sits M (GetNode T) t" using o1 t by (auto simp: occupies_def M_def)
    moreover obtain lo where "pwf (tree_max T) lo h (er t)" using k t by (auto simp: has_height_def)
    ultimately show ?thesis by (rule node_kind)
  qed
  obtain nc where nc: "GetNode T (gid c) = Some nc" "IsLeaf nc \<longleftrightarrow> h = 0" using nodes [of c] by auto
  show ?thesis
  proof (cases P rule: rev_cases)
    case (snoc P' l)
    obtain nl where nl: "GetNode T (gid l) = Some nl" "IsLeaf nl \<longleftrightarrow> h = 0"
      using nodes [of l] snoc by auto
    obtain d e where wlc: "pwf M d h (er l)" "pwf M e h (er c)"
      using k snoc by (auto simp: has_height_def M_def)
    from snoc len o have "occupies T F [GNode i ks (P' @ [l, c] @ R)]" "length ks = Suc (length P' + length R)"
      by simp_all
    from merge_into_left_refine [OF this wlc nl(1), of nc] nc nl obtain l' T' where
      m: "merge_into_left i (length P') nc (gid l) nl (gid c) T = Some T'"
        "step T F [GNode i ks (P' @ [l, c] @ R)] T' [GNode i (take (length P') ks @ drop (Suc (length P')) ks) (P' @ l' # R)]"
        "er l' = pmerge (ks ! length P') (er l) (er c)" by auto
    have "merge_child i (length P) (gid c) T = Some T'"
      using H nc nl m(1) snoc by (simp add: merge_child_def inode_def as_internal_def vec_defs nth_append)
    moreover have "reshaped T F i ks (P @ c # R) T' ?spec"
      using m(2,3) snoc by (intro reshapedI [where ts' = "P' @ l' # R"]) (auto simp: Let_def nth_append)
    ultimately show ?thesis by blast
  next
    case Nil
    show ?thesis
    proof (cases R)
      case (Cons r R')
      obtain nr where nr: "GetNode T (gid r) = Some nr" "IsLeaf nr \<longleftrightarrow> h = 0"
        using nodes [of r] Cons by auto
      obtain d e where wcr: "pwf M d h (er c)" "pwf M e h (er r)"
        using k Cons by (auto simp: has_height_def M_def)
      from Cons Nil len o have "occupies T F [GNode i ks ([] @ [c, r] @ R')]" "length ks = Suc (length [] + length R')"
        by simp_all
      from merge_into_left_refine [OF this wcr nc(1), of nc] obtain l' T' where
        m: "merge_into_left i 0 nc (gid c) nc (gid r) T = Some T'"
          "step T F [GNode i ks ([] @ [c, r] @ R')] T' [GNode i (take 0 ks @ drop (Suc 0) ks) ([] @ l' # R')]"
          "er l' = pmerge (ks ! 0) (er c) (er r)" by auto
      have "merge_child i (length P) (gid c) T = Some T'"
        using H nc nr m(1) Cons Nil by (simp add: merge_child_def inode_def as_internal_def vec_defs)
      moreover have "reshaped T F i ks (P @ c # R) T' ?spec"
        using m(2,3) Cons Nil by (intro reshapedI [where ts' = "l' # R'"]) (auto simp: Let_def)
      ultimately show ?thesis by blast
    next
      case R: Nil
      then have "merge_child i (length P) (gid c) T = Some T"
        using H nc Nil by (simp add: merge_child_def inode_def as_internal_def vec_defs)
      moreover have "reshaped T F i ks (P @ c # R) T ?spec"
        using step_refl [OF o] R Nil by (intro reshapedI [where ts' = "[c]"]) (auto simp: Let_def)
      ultimately show ?thesis by blast
    qed
  qed
qed

lemma rebalance_child_refine:
  assumes o: "occupies T F [GNode i ks (P @ c # R)]" and len: "length ks = length P + length R"
    and k: "\<forall>t\<in>set (P @ c # R). has_height (tree_max T) h (er t)" and m: "2 \<le> tree_max T"
    and spec: "prebalance (tree_max T) (length P) ks (map er (P @ c # R)) = spec"
    and w: "\<forall>t\<in>set (snd spec). has_height (tree_max T) h t"
  shows "\<exists>T'. rebalance_child i (length P) (gid c) T = Some T' \<and> reshaped T F i ks (P @ c # R) T' spec"
proof -
  define M where "M = tree_max T"
  have H: "GetNode T i = Some (inode M ks (map gid (P @ c # R)))"
    using o unfolding occupies_node M_def by blast
  define bigl where "bigl \<longleftrightarrow> P \<noteq> [] \<and> M div 2 < psize (er (last P))"
  define bigr where "bigr \<longleftrightarrow> R \<noteq> [] \<and> M div 2 < psize (er (hd R))"
  show ?thesis
  proof (cases bigl)
    case True
    then obtain P' l where P: "P = P' @ [l]" by (metis bigl_def rev_exhaust)
    have big: "M div 2 < psize (er l)" using True P by (simp add: bigl_def)
    obtain d e where wlc: "pwf M d h (er l)" "pwf M e h (er c)"
      using k P by (auto simp: has_height_def M_def)
    have o': "occupies T F [GNode i ks (P' @ [l, c] @ R)]" "length ks = Suc (length P' + length R)"
      using P len o by simp_all
    obtain pl pc where pb: "pborrow_left (ks ! length P') (er l) (er c) = (pl, pc)" by fastforce
    have sp: "spec = (ks, map er P' @ [pl, pc] @ map er R)"
      using spec P big pb by (auto simp: prebalance_def M_def nth_append list_update_append)
    then obtain a where "pwf M a h pc" using w by (auto simp: has_height_def M_def)
    then have "pwf M a h (snd (pborrow_left (ks ! length P') (er l) (er c)))" using pb by simp
    from borrow_from_left_refine [OF o' wlc [unfolded M_def] big [unfolded M_def] this [unfolded M_def]] pb
    obtain l' c' ks' T' where b: "borrow_from_left i (Suc (length P')) (gid c) T = Some (False, T')"
      "step T F [GNode i ks (P' @ [l, c] @ R)] T' [GNode i ks' (P' @ [l', c'] @ R)]"
      "er l' = pl" "er c' = pc" "length ks' = length ks" by auto
    have "GetNode T' i = Some (inode (tree_max T') ks' (map gid (P' @ [l', c'] @ R)))"
      using b(2) unfolding step_def occupies_node by blast
    then have "rebalance_child i (length P) (gid c) T = Some T'"
      using b(1) P by (simp add: rebalance_child_def inode_def as_internal_def)
    moreover have "reshaped T F i ks (P @ c # R) T' spec"
      using b(2-5) P sp unfolding reshaped_def by (intro exI [of _ ks'] exI [of _ "P' @ [l', c'] @ R"]) simp
    ultimately show ?thesis by blast
  next
    case nl: False
    have first: "(if 0 < length P then borrow_from_left i (length P) (gid c) T else Some (True, T)) = Some (True, T)"
    proof (cases P rule: rev_cases)
      case (snoc P' l)
      then show ?thesis
        using borrow_from_left_refuse [of T F i ks P' l c R] o nl by (simp add: bigl_def M_def)
    qed simp
    have run: "rebalance_child i (length P) (gid c) T = do {
        (u, T) \<leftarrow> (if R \<noteq> [] then borrow_from_right i (length P) (gid c) T else Some (True, T));
        if u then merge_child i (length P) (gid c) T else Some T }"
      using H first unfolding rebalance_child_def
      by (simp add: inode_def as_internal_def del: length_greater_0_conv)
    have psl: "\<not> (0 < length P \<and> M div 2 < psize (map er (P @ c # R) ! (length P - 1)))"
      using nl by (cases P rule: rev_cases) (auto simp: bigl_def nth_append)
    show ?thesis
    proof (cases bigr)
      case True
      then obtain r R' where R: "R = r # R'" by (cases R) (auto simp: bigr_def)
      have big: "M div 2 < psize (er r)" using True R by (simp add: bigr_def)
      obtain d e where wcr: "pwf M d h (er c)" "pwf M e h (er r)"
        using k R by (auto simp: has_height_def M_def)
      have o': "occupies T F [GNode i ks (P @ [c, r] @ R')]" "length ks = Suc (length P + length R')"
        using R len o by simp_all
      from borrow_from_right_refine [OF o' wcr [unfolded M_def] big [unfolded M_def] m]
      obtain c' r' ks' T' where b: "borrow_from_right i (length P) (gid c) T = Some (False, T')"
        "step T F [GNode i ks (P @ [c, r] @ R')] T' [GNode i ks' (P @ [c', r'] @ R')]"
        "(er c', er r') = pborrow_right (ks ! length P) (er c) (er r)" "length ks' = length ks" by auto
      have "spec = (ks, map er P @ [er c', er r'] @ map er R')"
        using spec psl R big b(3) [symmetric]
        by (auto simp: prebalance_def M_def nth_append list_update_append)
      then have "reshaped T F i ks (P @ c # R) T' spec"
        using b(2,4) R unfolding reshaped_def by (intro exI [of _ ks'] exI [of _ "P @ [c', r'] @ R'"]) simp
      then show ?thesis using run b(1) R by auto
    next
      case False
      have "(if R \<noteq> [] then borrow_from_right i (length P) (gid c) T else Some (True, T)) = Some (True, T)"
        using borrow_from_right_refuse [of T F i ks P c "hd R" "tl R"] o False
        by (cases R) (auto simp: bigr_def M_def)
      then have "rebalance_child i (length P) (gid c) T = merge_child i (length P) (gid c) T"
        using run by simp
      moreover have "\<not> (length P + 1 < length (map er (P @ c # R)) \<and>
          M div 2 < psize (map er (P @ c # R) ! (length P + 1)))"
        using False by (cases R) (auto simp: bigr_def nth_append)
      ultimately show ?thesis
        using merge_child_refine [OF o len k] spec psl unfolding prebalance_def Let_def M_def
        by (simp only: if_False simp_thms)
    qed
  qed
qed

section \<open>Refreshing the separators\<close>

lemma refresh_refine:
  assumes o: "occupies T F [GNode i ks ts]" and len: "length ts = Suc (length ks)"
    and k: "\<forall>t\<in>set ts. has_height (tree_max T) h (er t) \<and> pfirst (er t) \<noteq> []"
  shows "\<exists>T'. for_range 1 (length ts - 1) (refresh_separator i) T = Some T' \<and>
    step T F [GNode i ks ts] T' [GNode i (seps (map er ts)) ts]"
proof -
  define Q where "Q j T' \<longleftrightarrow> (\<exists>ks'. step T F [GNode i ks ts] T' [GNode i ks' ts] \<and> length ks' = length ks \<and>
    (\<forall>q < j - 1. ks' ! q = pfirst (er (ts ! Suc q))))" for j T'
  have body: "\<exists>T2. refresh_separator i j T1 = Some T2 \<and> Q (Suc j) T2"
    if j: "1 \<le> j" "j < 1 + (length ts - 1)" and q: "Q j T1" for j T1
  proof -
    obtain ks' where s: "step T F [GNode i ks ts] T1 [GNode i ks' ts]" and l: "length ks' = length ks"
      and sofar: "\<forall>q < j - 1. ks' ! q = pfirst (er (ts ! Suc q))" using q by (auto simp: Q_def)
    have o1: "occupies T1 F [GNode i ks' ts]" using s by (simp add: step_def)
    have opts: "tree_options T1 = tree_options T" using s frame_fields by (auto simp: step_def)
    have ot: "occupies T1 (insert i F) ts" and H: "GetNode T1 i = Some (inode (tree_max T1) ks' (map gid ts))"
      using o1 by (simp_all add: occupies_node)
    have jt: "ts ! j \<in> set ts" "j < length ts" using j by auto
    obtain lo where "pwf (tree_max T) lo h (er (ts ! j))" using bspec [OF k jt(1)] by (auto simp: has_height_def)
    then have fk: "first_key_of_subtree (tree_fuel T1) T1 (gid (ts ! j)) = Some (pfirst (er (ts ! j)))"
      by (rule first_key_at [OF ot jt(1)])
    have pj: "j - 1 < length ks'" using j l len by simp
    obtain T2 where s2: "set_separator i (j - 1) (pfirst (er (ts ! j))) T1 = Some T2"
        "step T1 F [GNode i ks' ts] T2 [GNode i (ks'[j - 1 := pfirst (er (ts ! j))]) ts]"
      using set_separator_refine [OF o1 pj] by blast
    have "refresh_separator i j T1 = Some T2"
      using H fk s2(1) jt k by (simp add: refresh_separator_def inode_def as_internal_def vec_defs)
    moreover have "\<forall>q < j. (ks'[j - 1 := pfirst (er (ts ! j))]) ! q = pfirst (er (ts ! Suc q))"
      using sofar pj j by (auto simp: nth_list_update)
    then have "Q (Suc j) T2"
      using step_trans [OF s s2(2)] l unfolding Q_def
      by (intro exI [of _ "ks'[j - 1 := pfirst (er (ts ! j))]"]) simp
    ultimately show ?thesis by blast
  qed
  have "Q 1 T" using step_refl [OF o] by (auto simp: Q_def)
  then have "\<exists>T'. for_range 1 (length ts - 1) (refresh_separator i) T = Some T' \<and> Q (1 + (length ts - 1)) T'"
    using body by (intro for_range_total [where P = Q]) blast+
  then obtain T' where r: "for_range 1 (length ts - 1) (refresh_separator i) T = Some T'" "Q (1 + (length ts - 1)) T'"
    by blast
  then obtain ks' where s: "step T F [GNode i ks ts] T' [GNode i ks' ts]" and l: "length ks' = length ks"
    and sofar: "\<forall>q < length ts - 1. ks' ! q = pfirst (er (ts ! Suc q))" by (auto simp: Q_def)
  have "ks' = seps (map er ts)"
    using l sofar len by (intro nth_equalityI) (auto simp: nth_tl)
  with r s show ?thesis by blast
qed

section \<open>Deletion\<close>

lemma erase_from_leaf_refine:
  assumes o: "occupies T F [GLeaf i nx kvs]" and lf: "lnode (tree_max T) nx kvs = Leaf leaf"
  shows "case pdel_leaf (tree_cmp T) k kvs of
      None \<Rightarrow> erase_from_leaf k i leaf is_root out T = Some (Status_NotFound ''Key not found'', out, T)
    | Some q \<Rightarrow> \<exists>T' kvs'. q = PLeaf kvs' \<and> step T F [GLeaf i nx kvs] T' [GLeaf i nx kvs'] \<and>
        erase_from_leaf k i leaf is_root out T = Some (Status_OK,
          \<lparr>dr_removed = True, dr_underflow = \<not> is_root \<and> psize q < tree_max T div 2, dr_first_key = pfirst q\<rparr>, T')"
proof -
  define pos where "pos = LowerBound (keys_of kvs) k (tree_cmp T)"
  define es where "es = take pos kvs @ drop (Suc pos) kvs"
  have leaf: "leaf = \<lparr>leaf_keys = keys_of kvs, leaf_values = map snd kvs, leaf_next = nx, leaf_max_keys = tree_max T\<rparr>"
    using lf by (simp add: lnode_def)
  show ?thesis
  proof (cases "length kvs \<le> pos \<or> Compare (tree_cmp T) (keys_of kvs ! pos) k \<noteq> 0")
    case True
    then show ?thesis by (auto simp: pdel_leaf_def erase_from_leaf_def leaf Let_def simp flip: pos_def)
  next
    case False
    then have q: "pdel_leaf (tree_cmp T) k kvs = Some (PLeaf es)"
      by (auto simp: pdel_leaf_def Let_def es_def simp flip: pos_def)
    from False have at: "Compare (tree_cmp T) (fst (kvs ! pos)) k = 0" "pos < length kvs" by auto
    have "take pos (keys_of kvs) @ drop (Suc pos) (keys_of kvs) = keys_of es"
      "take pos (map snd kvs) @ drop (Suc pos) (map snd kvs) = map snd es"
      by (simp_all add: es_def take_map drop_map)
    then have "erase_from_leaf k i leaf is_root out T = Some (Status_OK,
        \<lparr>dr_removed = True, dr_underflow = \<not> is_root \<and> psize (PLeaf es) < tree_max T div 2,
          dr_first_key = pfirst (PLeaf es)\<rparr>, SetNode i (lnode (tree_max T) nx es) T)"
      using False at
      by (simp add: erase_from_leaf_def leaf vec_defs Let_def lnode_def hd_keys_of flip: pos_def)
    with q step_write_leaf [OF o, of es] show ?thesis by auto
  qed
qed

lemma erase_from_internal_refine:
  assumes o: "occupies T F [GNode i ks (P @ c # R)]" and ks: "ks = seps (map er P @ pc # map er R)"
    and M: "M = tree_max T" "2 \<le> M"
    and ok: "nodes_ok M h (map er P)" "pwf M (M div 2 - 1) h (er c)" "nodes_ok M h (map er R)"
    and sib: "P \<noteq> [] \<or> R \<noteq> []" and ne: "nonempty_keys (all_entries (map er P @ er c # map er R))"
    and cr: "cr = \<lparr>dr_removed = True, dr_underflow = psize (er c) < M div 2, dr_first_key = pfirst (er c)\<rparr>"
  shows "\<exists>t' T'. erase_from_internal i (length P) is_root cr out T = Some (Status_OK,
      \<lparr>dr_removed = True, dr_underflow = \<not> is_root \<and> psize (er t') < M div 2, dr_first_key = pfirst (er t')\<rparr>, T') \<and>
    step T F [GNode i ks (P @ c # R)] T' [t'] \<and> gid t' = i \<and>
    er t' = pdel_child M (length P) ks (map er P @ er c # map er R)"
proof -
  have H: "GetNode T i = Some (inode M ks (map gid (P @ c # R)))"
    using o unfolding occupies_node M by blast
  have "sits M (GetNode T) c" using o unfolding occupies_node M by (simp add: occupies_def)
  then obtain nc where Hc: "GetNode T (gid c) = Some nc" using sits_dom gid_in_ids by blast
  define ks1 where "ks1 = (if 0 < length P \<and> pfirst (er c) \<noteq> [] then ks[length P - 1 := pfirst (er c)] else ks)"
  have lks: "length ks = length P + length R" by (simp add: ks)
  then have lks1: "length ks1 = length P + length R" by (simp add: ks1_def)
  have last_slot: "P \<noteq> [] \<Longrightarrow> length P - Suc 0 < length P + length R" by (cases P) auto
  obtain T1 where s1: "(if 0 < length P \<and> dr_first_key cr \<noteq> []
      then set_separator i (length P - 1) (dr_first_key cr) T else Some T) = Some T1"
      "step T F [GNode i ks (P @ c # R)] T1 [GNode i ks1 (P @ c # R)]"
    using set_separator_refine [OF o, of "length P - 1" "pfirst (er c)"] step_refl [OF o] lks last_slot
    by (cases "0 < length P \<and> pfirst (er c) \<noteq> []") (auto simp: ks1_def cr)
  have o1: "occupies T1 F [GNode i ks1 (P @ c # R)]" and M1: "tree_max T1 = M"
    using s1(2) frame_fields by (auto simp: step_def M)
  define pts where "pts = map er P @ er c # map er R"
  obtain ks2 ts2 where spec: "(if psize (er c) < M div 2 then prebalance M (length P) ks1 pts
      else (ks1, pts)) = (ks2, ts2)" by fastforce
  have spec': "(if psize (er c) < M div 2
      then prebalance M (length (map er P)) ks1 (map er P @ er c # map er R)
      else (ks1, map er P @ er c # map er R)) = (ks2, ts2)"
    using spec by (simp only: pts_def length_map)
  have "map er P \<noteq> [] \<or> map er R \<noteq> []" using sib by simp
  then have shape: "rebalanced M h pts ks2 ts2 \<and> (\<forall>u\<in>set ts2. pfirst u \<noteq> [])"
    unfolding pts_def by (rule pdel_child_shape [OF ok M(2) _ ks ne _ spec']) (simp add: ks1_def)
  have hh: "\<forall>t\<in>set ts2. has_height M h t" using shape by (auto simp: rebalanced_def has_height_def)
  have hh0: "\<forall>t\<in>set (P @ c # R). has_height M h (er t)" using ok by (auto simp: has_height_def)
  obtain T2 where s2: "(if dr_underflow cr then rebalance_child i (length P) (gid c) T1 else Some T1) = Some T2"
      "reshaped T1 F i ks1 (P @ c # R) T2 (ks2, ts2)"
  proof (cases "psize (er c) < M div 2")
    case True
    then have "prebalance M (length P) ks1 (map er (P @ c # R)) = (ks2, ts2)" using spec by (simp add: pts_def)
    from rebalance_child_refine [OF o1 lks1, unfolded M1, OF hh0 M(2) this] hh True that show thesis
      by (auto simp: cr)
  next
    case False
    then have "reshaped T1 F i ks1 (P @ c # R) T1 (ks2, ts2)"
      using spec by (intro reshapedI [OF step_refl [OF o1]]) (simp_all add: pts_def)
    then show thesis using that False by (simp add: cr)
  qed
  then obtain ks3 us where s3: "step T1 F [GNode i ks1 (P @ c # R)] T2 [GNode i ks3 us]"
    and us: "map er us = ts2" "length ks3 = length ks2" by (auto simp: reshaped_def)
  have o2: "occupies T2 F [GNode i ks3 us]" and M2: "tree_max T2 = M"
    using s3 frame_fields M1 by (auto simp: step_def)
  have lus: "length us = Suc (length ks3)" "us \<noteq> []" 
    using us shape by (auto simp: rebalanced_def dest: arg_cong [of _ _ length])
  have kus: "\<forall>t\<in>set us. has_height M h (er t) \<and> pfirst (er t) \<noteq> []" using hh shape us(1) by auto
  from refresh_refine [OF o2 lus(1), unfolded M2, OF kus] us obtain T3 where
    r: "for_range 1 (length us - 1) (refresh_separator i) T2 = Some T3"
      "step T2 F [GNode i ks3 us] T3 [GNode i (seps ts2) us]" by auto
  have o3: "occupies T3 F [GNode i (seps ts2) us]" using r(2) by (simp add: step_def)
  have M3: "tree_max T3 = M" using r(2) frame_fields(1) M2 by (auto simp: step_def)
  have H2: "GetNode T2 i = Some (inode M ks3 (map gid us))"
    and H3: "GetNode T3 i = Some (inode M (seps ts2) (map gid us))"
    using o2 o3 M2 M3 unfolding occupies_node by simp_all
  obtain lo where "pwf M lo h (er (hd us))" using bspec [OF kus hd_in_set [OF lus(2)]] by (auto simp: has_height_def)
  then have fk: "first_key_of_subtree (tree_fuel T3) T3 (gid (hd us)) = Some (pfirst (er (hd us)))"
    using o3 lus(2) by (intro first_key_at [of T3 "insert i F" us]) (auto simp: occupies_node)
  define t' where "t' = GNode i (seps ts2) us"
  have pf: "pfirst (er t') = pfirst (er (hd us))" using lus(2) by (simp add: t'_def pfirst_PNode hd_map)
  have "erase_from_internal i (length P) is_root cr out T = Some (Status_OK,
      \<lparr>dr_removed = True, dr_underflow = \<not> is_root \<and> psize (er t') < M div 2, dr_first_key = pfirst (er t')\<rparr>, T3)"
    using H H2 H3 Hc s1(1) s2(1) r(1) fk lus(2) M3 pf
    by (simp add: erase_from_internal_def inode_def as_internal_def vec_defs nth_append t'_def hd_map)
  moreover have "step T F [GNode i ks (P @ c # R)] T3 [t']"
    unfolding t'_def using step_trans [OF s1(2) step_trans [OF s3 r(2)]] .
  moreover have pr: "prefresh ks2 ts2 = seps ts2"
    using shape by (intro prefresh_seps) (simp_all add: rebalanced_def)
  have at: "pts ! length P = er c" by (simp add: pts_def nth_append)
  have "er t' = pdel_child M (length P) ks pts"
    unfolding pdel_child_def Let_def at ks1_def [symmetric] spec using pr us by (simp add: t'_def)
  moreover have "gid t' = i" by (simp add: t'_def)
  ultimately show ?thesis unfolding pts_def by blast
qed

context key_order begin

theorem erase_node_refine:
  assumes "occupies T F [t]" and "pwf M lo h (er t)" and "0 < h \<Longrightarrow> 0 < lo" and "h < n" and "2 \<le> M"
    and "ordered (entries (er t))" and "nonempty_keys (entries (er t))"
    and "tree_max T = M" and "tree_cmp T = comparator"
  shows "case pdel comparator M k (er t) of
      None \<Rightarrow> erase_node n k (gid t) is_root out T = Some (Status_NotFound ''Key not found'', out, T)
    | Some q \<Rightarrow> \<exists>t' T'. erase_node n k (gid t) is_root out T = Some (Status_OK,
          \<lparr>dr_removed = True, dr_underflow = \<not> is_root \<and> psize q < M div 2, dr_first_key = pfirst q\<rparr>, T') \<and>
        step T F [t] T' [t'] \<and> gid t' = gid t \<and> er t' = q"
  using assms
proof (induction n arbitrary: lo h t F is_root out)
  case (Suc n)
  show ?case
  proof (cases t)
    case (GLeaf i nx kvs)
    obtain leaf where lf: "lnode M nx kvs = Leaf leaf" by (simp add: lnode_def)
    have "GetNode T i = Some (Leaf leaf)" using Suc.prems GLeaf lf by (simp add: occupies_leaf)
    then show ?thesis
      using erase_from_leaf_refine [of T F i nx kvs leaf k is_root out] Suc.prems lf GLeaf
      by (cases "pdel_leaf comparator k kvs") fastforce+
  next
    case (GNode i ks ts)
    with Suc.prems obtain h' where h: "h = Suc h'" by (cases h) auto
    define pts where "pts = map er ts"
    have w: "pts \<noteq> []" "ks = seps pts" "nodes_ok M h' pts" "ordered (all_entries pts)"
      "nonempty_keys (all_entries pts)" "lo \<le> length ks" "length ks \<le> M"
      using Suc.prems(2,6,7) GNode h unfolding pts_def by auto
    have lo: "0 < lo" using Suc.prems(3) h by simp
    define j where "j = UpperBound ks k comparator"
    have len: "length ts = Suc (length ks)" using w by (cases ts) (auto simp: pts_def)
    then have j: "j < length ts" by (simp add: j_def less_Suc_eq_le)
    define P c R where "P = take j ts" and "c = ts ! j" and "R = drop (Suc j) ts"
    have ts: "ts = P @ c # R" using id_take_nth_drop [OF j] by (simp add: P_def c_def R_def)
    have lP: "length P = j" using j by (simp add: P_def)
    have upd: "pts ! j = er c" "pts[j := q] = map er P @ q # map er R" for q
      using j er_children [OF j] by (simp_all add: pts_def P_def c_def R_def)
    have o: "occupies T (insert i F) (P @ [c] @ R)" and o': "occupies T F [GNode i ks (P @ c # R)]"
      and H: "GetNode T i = Some (inode M ks (map gid ts))"
      using Suc.prems(1,8) GNode ts by (simp_all add: occupies_node)
    have wc: "pwf M (M div 2) h' (er c)" "ordered (entries (er c))" "nonempty_keys (entries (er c))"
      using w by (simp_all add: pts_def ts sorted_wrt_append)
    have "0 < M div 2" using Suc.prems(5) by simp
    then have IH: "case pdel comparator M k (er c) of
        None \<Rightarrow> erase_node n k (gid c) False DeleteResult_init T = Some (Status_NotFound ''Key not found'', DeleteResult_init, T)
      | Some q \<Rightarrow> \<exists>t' T'. erase_node n k (gid c) False DeleteResult_init T = Some (Status_OK,
            \<lparr>dr_removed = True, dr_underflow = \<not> False \<and> psize q < M div 2, dr_first_key = pfirst q\<rparr>, T') \<and>
          step T (insert i F \<union> set (allids (P @ R))) [c] T' [t'] \<and> gid t' = gid c \<and> er t' = q"
      using Suc.prems(4,5,8,9) h
      by (intro Suc.IH [OF occupies_context [OF o] wc(1) _ _ _ wc(2,3)]) simp_all
    have pd: "pdel comparator M k (er t) =
        map_option (\<lambda>q. pdel_child M j ks (map er P @ q # map er R)) (pdel comparator M k (er c))"
      using j upd by (simp add: GNode pts_def Let_def flip: j_def)
    have run: "erase_node (Suc n) k (gid t) is_root out T = do {
        (s, child, T) \<leftarrow> erase_node n k (gid c) False DeleteResult_init T;
        if \<not> Status_ok s then Some (s, out, T)
        else if \<not> dr_removed child then Some (Status_NotFound ''Key not found'', out, T)
        else erase_from_internal i j is_root child out T }"
      using H j GNode Suc.prems(9) by (simp add: inode_def Let_def flip: j_def c_def)
    show ?thesis
    proof (cases "pdel comparator M k (er c)")
      case None
      with IH pd run show ?thesis by simp
    next
      case (Some q)
      from IH Some obtain c' T1 where
        e: "erase_node n k (gid c) False DeleteResult_init T = Some (Status_OK,
            \<lparr>dr_removed = True, dr_underflow = psize q < M div 2, dr_first_key = pfirst q\<rparr>, T1)"
        and st: "step T (insert i F \<union> set (allids (P @ R))) [c] T1 [c']"
        and c': "gid c' = gid c" "er c' = q" by auto
      have "step T (insert i F) (P @ [c] @ R) T1 (P @ [c'] @ R)" by (rule step_context [OF st o])
      then have s1: "step T F [GNode i ks (P @ c # R)] T1 [GNode i ks (P @ c' # R)]"
        using c' by (intro step_below [OF o']) simp_all
      have o1: "occupies T1 F [GNode i ks (P @ c' # R)]" and M1: "M = tree_max T1"
        using s1 frame_fields Suc.prems(8) by (auto simp: step_def)
      have pq: "pwf M (M div 2 - 1) h' (er c')" "entries (er c') = del_spec k (entries (er c))"
        using pdel_correct [OF wc(1) _ Suc.prems(5) wc(2,3), of k] Some c' \<open>0 < M div 2\<close> by auto
      have "P \<noteq> [] \<or> R \<noteq> []" using w(6) lo len ts by auto
      moreover have "nonempty_keys (all_entries (map er P @ er c' # map er R))"
        using w(5) pq(2) by (simp add: pts_def ts set_del_spec)
      moreover have "ks = seps (map er P @ er c # map er R)" using w(2) by (simp add: pts_def ts)
      ultimately obtain t' T2 where
        f: "erase_from_internal i (length P) is_root
            \<lparr>dr_removed = True, dr_underflow = psize q < M div 2, dr_first_key = pfirst q\<rparr> out T1 = Some (Status_OK,
            \<lparr>dr_removed = True, dr_underflow = \<not> is_root \<and> psize (er t') < M div 2, dr_first_key = pfirst (er t')\<rparr>, T2)"
          "step T1 F [GNode i ks (P @ c' # R)] T2 [t']" "gid t' = i"
          "er t' = pdel_child M (length P) ks (map er P @ er c' # map er R)"
        using erase_from_internal_refine [OF o1 _ M1 Suc.prems(5) _ pq(1) _ _ _ _, of "er c" "\<lparr>dr_removed = True, dr_underflow = psize q < M div 2, dr_first_key = pfirst q\<rparr>" is_root out]
          w(3) c'(2) by (auto simp: pts_def ts)
      from step_trans [OF s1 f(2)] have "step T F [t] T2 [t']" by (simp add: GNode ts)
      then show ?thesis using f run e pd Some lP c' GNode by auto
    qed
  qed
qed simp

end

end
