(* ===== verification/BTree_Correct.thy ===== *)
theory BTree_Correct
  imports BTree_Erase
begin

text \<open>
  The contract of \<open>BPlusTree\<close>.  \<open>represents T es\<close>: the arena of \<open>T\<close> holds a well-formed
  B+ tree whose leaves, linked from left to right, carry the entries \<open>es\<close> in key order, and
  the counters \<open>tree_size\<close>, \<open>node_count\<close>, \<open>tree_height\<close> are exact.  Every operation
  returns (no undefined access, fuel suffices), keeps this invariant and does to \<open>es\<close> what
  \<open>put_spec\<close> and \<open>del_spec\<close> say.
\<close>

definition root_fill :: "nat \<Rightarrow> nat" where
  "root_fill h = (if h = 0 then 0 else 1)"

definition tree_rep :: "BPlusTree \<Rightarrow> gtree \<Rightarrow> nat \<Rightarrow> bool" where
  "tree_rep T t h \<longleftrightarrow>
     occupies T {} [t] \<and> gid t = root_id T \<and> pwf (tree_max T) (root_fill h) h (er t) \<and>
     lchain 0 (leaves t) \<and> tree_height T = Suc h \<and> (root_is_leaf T \<longleftrightarrow> h = 0) \<and>
     tree_size T = length (entries (er t)) \<and>
     sorted_wrt (key_lt (tree_cmp T)) (keys_of (entries (er t))) \<and>
     nonempty_keys (entries (er t)) \<and> 3 \<le> tree_max T"

definition represents :: "BPlusTree \<Rightarrow> entry list \<Rightarrow> bool" where
  "represents T es \<longleftrightarrow> (\<exists>t h. tree_rep T t h \<and> entries (er t) = es)"

lemma root_fill_le: "3 \<le> M \<Longrightarrow> root_fill h \<le> M div 2"
  by (auto simp: root_fill_def)

lemma live_upd [simp]:
  "live (T\<lparr>tree_size := n\<rparr>) U = live T U" "live (T\<lparr>root_id := n\<rparr>) U = live T U"
  "live (T\<lparr>root_is_leaf := b\<rparr>) U = live T U" "live (T\<lparr>tree_height := n\<rparr>) U = live T U"
  by (simp_all add: live_def)

lemma GetNode_upd [simp]:
  "GetNode (T\<lparr>tree_size := n\<rparr>) = GetNode T" "GetNode (T\<lparr>root_id := n\<rparr>) = GetNode T"
  "GetNode (T\<lparr>root_is_leaf := b\<rparr>) = GetNode T" "GetNode (T\<lparr>tree_height := n\<rparr>) = GetNode T"
  by (simp_all add: GetNode_def fun_eq_iff)

lemma occupies_upd [simp]:
  "occupies (T\<lparr>tree_size := n\<rparr>) F ts = occupies T F ts" "occupies (T\<lparr>root_id := n\<rparr>) F ts = occupies T F ts"
  "occupies (T\<lparr>root_is_leaf := b\<rparr>) F ts = occupies T F ts"
  "occupies (T\<lparr>tree_height := n\<rparr>) F ts = occupies T F ts"
  by (simp_all add: occupies_def)

section \<open>Construction\<close>

lemma new_tree_rep:
  "\<exists>T. BPlusTree_new opts = Some T \<and> represents T [] \<and> tree_cmp T = comparator opts \<and>
    tree_max T = max 3 (max_keys_per_node opts)"
proof -
  define M where "M = max 3 (max_keys_per_node opts)"
  define O' where "O' = (if max_keys_per_node opts < 3 then opts\<lparr>max_keys_per_node := 3\<rparr> else opts)"
  define I where "I = (Impl_new (max_keys_per_node opts))\<lparr>impl_max_keys := max_keys_per_node O'\<rparr>"
  have M: "max_keys_per_node O' = M" "comparator O' = comparator opts" by (simp_all add: O'_def M_def)
  have I: "arena_ok I {}" "impl_max_keys I = M"
    using arena_ok_new [of "max_keys_per_node opts"] by (simp_all add: arena_ok_def I_def M)
  obtain r J where a: "Impl_AllocateNode True I = Some (r, J)" "0 < r" "arena_ok J {r}"
      "impl_max_keys J = M" "Impl_GetNode J = (Impl_GetNode I)(r \<mapsto> new_node True M)"
    using AllocateNode_ok [OF I(1), of True] I(2) by auto
  define T where "T = \<lparr>tree_impl = J, root_id = r, root_is_leaf = True, tree_options = O',
    tree_size = 0, node_count = 1, tree_height = 1\<rparr>"
  have new: "BPlusTree_new opts = Some T"
    using a(1) by (simp add: BPlusTree_new_def T_def I_def O'_def Let_def)
  have "occupies T {} [GLeaf r 0 []]"
    using a M by (simp add: occupies_leaf live_def T_def GetNode_def new_node_eq)
  then have "tree_rep T (GLeaf r 0 []) 0"
    using M by (simp add: tree_rep_def T_def root_fill_def M_def)
  then have "represents T []" unfolding represents_def by fastforce
  with new M show ?thesis by (auto simp: T_def M_def)
qed

section \<open>Lookup\<close>

context key_order begin

lemma Get_rep:
  assumes "represents T es" and "tree_cmp T = comparator"
  shows "BPlusTree_Get T k (Some x) = Some (case map_of es k of
      Some v \<Rightarrow> (Status_OK, Some v) | None \<Rightarrow> (Status_NotFound ''Key not found'', Some x))"
proof -
  obtain t h where r: "tree_rep T t h" "entries (er t) = es" using assms(1) by (auto simp: represents_def)
  then have o: "occupies T {} [t]" and p: "pwf (tree_max T) (root_fill h) h (er t)"
    and ord: "ordered (entries (er t))" and m: "2 \<le> tree_max T" and root: "gid t = root_id T"
    using assms(2) by (auto simp: tree_rep_def)
  have l: "live T (set (ids t))" and s: "sits (tree_max T) (GetNode T) t" using o by (auto simp: occupies_def)
  have f: "h < tree_fuel T" using occupies_fuel [OF o _ p] by simp
  define kvs where "kvs = pfind comparator k (er t)"
  obtain i nx where w: "FindLeaf T k = Some i" "0 < i" "GetNode T i = Some (lnode (tree_max T) nx kvs)"
    using find_walk [OF l s p f, of k] assms(2) root by (auto simp: FindLeaf_def kvs_def)
  have kv: "ordered kvs" "map_of kvs k = map_of es k"
    using pfind_correct [OF p m ord, of k] r(2) by (simp_all add: kvs_def)
  define pos where "pos = LowerBound (keys_of kvs) k comparator"
  have hit: "pos < length kvs \<and> Compare comparator (keys_of kvs ! pos) k = 0 \<longleftrightarrow> k \<in> set (keys_of kvs)"
    "k \<in> set (keys_of kvs) \<Longrightarrow> keys_of kvs ! pos = k"
    using LowerBound_hit [OF kv(1), of k] cmp_eq by (auto simp: pos_def)
  have run: "BPlusTree_Get T k (Some x) =
      (if pos < length kvs \<and> Compare comparator (keys_of kvs ! pos) k = 0
       then Some (Status_OK, Some (snd (kvs ! pos)))
       else Some (Status_NotFound ''Key not found'', Some x))"
    using w assms(2) by (cases "pos < length kvs") (simp_all add: BPlusTree_Get_def vec_defs Let_def flip: pos_def)
  show ?thesis
  proof (cases "k \<in> set (keys_of kvs)")
    case True
    then have pl: "pos < length kvs" "keys_of kvs ! pos = k" using hit by auto
    then have "(k, snd (kvs ! pos)) \<in> set kvs" by (metis keys_of_simps(7) nth_mem prod.collapse)
    then have "map_of kvs k = Some (snd (kvs ! pos))"
      using ordered_distinct [OF kv(1)] by (simp add: keys_of_def)
    moreover from True hit(1) have "Compare comparator (fst (kvs ! pos)) k = 0" "pos < length kvs" by auto
    ultimately show ?thesis using run kv(2) [symmetric] by simp
  next
    case False
    then have "map_of es k = None" using kv(2) [symmetric] by (simp add: map_of_eq_None_iff keys_of_def)
    moreover from False hit(1) have "\<not> (pos < length kvs \<and> Compare comparator (fst (kvs ! pos)) k = 0)" by auto
    ultimately show ?thesis using run by auto
  qed
qed

section \<open>Insertion\<close>

lemma Put_rep:
  assumes rep: "represents T es" and cmp: "tree_cmp T = comparator" and k: "k \<noteq> []"
  shows "\<exists>T'. BPlusTree_Put k v T = Some (Status_OK, T') \<and> represents T' (put_spec comparator k v es) \<and>
    tree_options T' = tree_options T"
proof -
  define M where "M = tree_max T"
  obtain t h where r: "tree_rep T t h" "entries (er t) = es" using rep by (auto simp: represents_def)
  then have o: "occupies T {} [t]" and p: "pwf M (root_fill h) h (er t)"
    and ord: "ordered es" and m: "3 \<le> M" and root: "gid t = root_id T" and ne: "nonempty_keys es"
    and sz: "tree_size T = length es" and ht: "tree_height T = Suc h" "root_is_leaf T \<longleftrightarrow> h = 0"
    and ch: "lchain 0 (leaves t)"
    using cmp by (auto simp: tree_rep_def M_def)
  obtain q s ins where pi: "pins comparator M k v (er t) = (q, s, ins)" by (metis prod_cases3)
  have f: "h < tree_fuel T" using occupies_fuel [OF o _ p] by simp
  have m2: "2 \<le> M" using m by simp
  obtain res T1 where run: "insert_node (tree_fuel T) k v (root_id T) SplitResult_init False T =
      Some (Status_OK, res, ins, T1)" and ia: "inserted_as T {} t T1 q s SplitResult_init res"
    using insert_node_refine [OF o p f m2 _ M_def [symmetric] cmp pi, of SplitResult_init False] ord r(2) root
    by auto
  have post: "insert_post M (root_fill h) h (put_spec comparator k v es) q s" "ins \<longleftrightarrow> k \<notin> set (keys_of es)"
    using pins_correct [OF p root_fill_le [OF m] m2 _ pi] ord r(2) by auto
  define es' where "es' = put_spec comparator k v es"
  have es': "ordered es'" "nonempty_keys es'" using ordered_put_spec [OF ord] set_put_spec k ne by (auto simp: es'_def)
  have len: "length es' = (if ins then Suc (tree_size T) else tree_size T)"
  proof -
    have "length es = card (set (keys_of es))" "length es' = card (set (keys_of es'))"
      using ordered_distinct ord es'(1) by (metis distinct_card keys_of_simps(4))+
    then show ?thesis using post(2) sz set_put_spec [of k v es] by (auto simp: es'_def insert_absorb)
  qed
  obtain t' us where st: "step T {} [t] T1 (t' # us)" and t': "gid t' = gid t" "er t' = q"
    and us: "case s of None \<Rightarrow> us = [] \<and> res = SplitResult_init
      | Some (sep, r) \<Rightarrow> \<exists>u. us = [u] \<and> er u = r \<and> res = \<lparr>sr_split = True, sr_separator = sep, sr_right = gid u\<rparr>"
    using ia unfolding inserted_as_def by blast
  have o1: "occupies T1 {} (t' # us)" and fr: "frame T T1" using st by (simp_all add: step_def)
  have ch1: "lchain 0 (allleaves (t' # us))" using st ch by (auto simp: step_def relinked_def)
  define T2 where "T2 = (if ins then T1\<lparr>tree_size := tree_size T1 + 1\<rparr> else T1)"
  have T2: "occupies T2 {} (t' # us)" "tree_size T2 = length es'" "tree_options T2 = tree_options T"
      "root_id T2 = root_id T" "tree_height T2 = Suc h" "root_is_leaf T2 \<longleftrightarrow> h = 0"
    using o1 len ht frame_fields [OF fr] by (simp_all add: T2_def)
  have put: "BPlusTree_Put k v T = (if sr_split res then do { T \<leftarrow> grow_root res T2; Some (Status_OK, T) }
      else Some (Status_OK, T2))"
    using run k by (simp add: BPlusTree_Put_def T2_def Let_def)
  show ?thesis
  proof (cases s)
    case None
    with us post have u: "us = []" "\<not> sr_split res" "pwf M (root_fill h) h q" "entries q = es'"
      by (auto simp: insert_post_def SplitResult_init_def es'_def)
    have "tree_rep T2 t' h"
      unfolding tree_rep_def using T2 u ch1 t' es' root m cmp by (simp add: M_def)
    with u t' T2 put show ?thesis by (auto simp: represents_def es'_def)
  next
    case (Some a)
    then obtain sep u where s: "s = Some (sep, er u)" "us = [u]"
        "res = \<lparr>sr_split = True, sr_separator = sep, sr_right = gid u\<rparr>"
      using us by (cases a) auto
    have w: "pwf M (M div 2) h q" "pwf M (M div 2) h (er u)" "sep = pfirst (er u)" "entries q @ entries (er u) = es'"
      using post s by (auto simp: insert_post_def es'_def)
    have M2: "tree_max T2 = M" using T2(3) by (simp add: M_def)
    obtain r T3 where a: "AllocateNode False T2 = Some (r, T3)" "occupies T3 (insert r {}) (t' # us)"
        "r \<notin> {}" "r \<notin> set (allids (t' # us))" "0 < r"
        "GetNode T3 = (GetNode T2)(r \<mapsto> new_node False (tree_max T2))" "frame T2 T3"
      by (rule AllocateNode_frame [OF T2(1)])
    have Hr: "GetNode T3 r = Some (inode M [] [])" using a(6) M2 by (simp add: new_node_eq)
    define rn where "rn = inode M [sep] [gid t', gid u]"
    note w3 = SetNode_frame [OF a(2), of r rn]
    define T4 where "T4 = (SetNode r rn T3)\<lparr>root_id := r, root_is_leaf := False, tree_height := Suc (Suc h)\<rparr>"
    define g where "g = GNode r [sep] [t', u]"
    have f3: "tree_options T3 = tree_options T" "tree_height T3 = Suc h" "root_id T3 = gid t'" "tree_size T3 = length es'"
      using frame_fields [OF a(7)] T2 t' root by simp_all
    have "grow_root res T2 = Some T4"
      using a(1) Hr f3 s by (simp add: grow_root_def inode_def as_internal_def T4_def rn_def Let_def SetNode_def)
    moreover have "tree_rep T4 g (Suc h)"
    proof -
      have "occupies T4 {} [g]"
        using w3 s f3 by (simp add: occupies_node g_def T4_def rn_def M_def)
      moreover have "entries (er g) = es'" using w(4) t' by (simp add: g_def)
      moreover have "lchain 0 (leaves g)" using ch1 s by (simp add: g_def)
      moreover have "pwf M 1 (Suc h) (er g)" using w t' m by (simp add: g_def)
      moreover have "tree_options T4 = tree_options T" "tree_size T4 = length es'" using f3 by (simp_all add: T4_def SetNode_def)
      ultimately show ?thesis
        using es' m cmp by (simp add: tree_rep_def T4_def M_def root_fill_def g_def)
    qed
    moreover have "entries (er g) = es'" using w(4) t' by (simp add: g_def)
    moreover have "tree_options T4 = tree_options T" using f3 by (simp add: T4_def)
    ultimately show ?thesis using put s by (auto simp: represents_def es'_def)
  qed
qed

section \<open>Deletion\<close>

lemma collapse_root_rep:
  assumes o: "occupies T {} [t]" and root: "gid t = root_id T" and w: "pwf (tree_max T) 0 h (er t)"
    and ch: "lchain 0 (leaves t)" and ht: "tree_height T = Suc h" "root_is_leaf T \<longleftrightarrow> h = 0"
    and sz: "tree_size T = length (entries (er t))" and cmp: "tree_cmp T = comparator"
    and e: "ordered (entries (er t))" "nonempty_keys (entries (er t))" "3 \<le> tree_max T"
  shows "\<exists>T'. collapse_root T = Some T' \<and> represents T' (entries (er t)) \<and> tree_options T' = tree_options T"
proof -
  have keep: "represents T (entries (er t))" if "pwf (tree_max T) (root_fill h) h (er t)"
    using assms that unfolding represents_def tree_rep_def by (intro exI [of _ t] exI [of _ h]) simp
  show ?thesis
  proof (cases h)
    case 0
    then have "collapse_root T = Some T" using ht by (simp add: collapse_root_def)
    moreover have "pwf (tree_max T) (root_fill h) h (er t)" using w 0 by (simp add: root_fill_def)
    ultimately show ?thesis using keep by blast
  next
    case (Suc h')
    with w obtain i ks ts where t: "t = GNode i ks ts" by (cases t) auto
    have k: "ts \<noteq> []" "ks = seps (map er ts)" "length ks \<le> tree_max T" "nodes_ok (tree_max T) h' (map er ts)"
      using w t Suc by auto
    have H: "GetNode T (root_id T) = Some (inode (tree_max T) ks (map gid ts))" and ot: "occupies T {i} ts"
      using o t root by (simp_all add: occupies_node)
    show ?thesis
    proof (cases "length ts = 1")
      case False
      then have "collapse_root T = Some T"
        using H k ht Suc by (simp add: collapse_root_def inode_def as_internal_def)
      moreover have "Suc 0 \<le> length ts - Suc 0" using False k(1) by (cases ts) (auto simp: Suc_le_eq)
      then have "pwf (tree_max T) (root_fill h) h (er t)"
        using k Suc t by (simp add: root_fill_def)
      ultimately show ?thesis using keep by blast
    next
      case True
      then obtain c where c: "ts = [c]" by (cases ts) auto
      have "sits (tree_max T) (GetNode T) c" using ot c by (simp add: occupies_def)
      moreover have wc: "pwf (tree_max T) (tree_max T div 2) h' (er c)" using k c by simp
      ultimately obtain n where n: "GetNode T (gid c) = Some n" "IsLeaf n \<longleftrightarrow> h' = 0"
        using node_kind by blast
      define T1 where "T1 = T\<lparr>root_id := gid c, root_is_leaf := (h' = 0), tree_height := Suc h'\<rparr>"
      have "collapse_root T = Some (FreeNode i T1)"
        using H n c ht Suc root t
        by (simp add: collapse_root_def inode_def as_internal_def T1_def Let_def)
      moreover have o1: "occupies T1 (insert i {}) [c]" using ot c by (simp add: T1_def)
      note fr = FreeNode_frame [OF o1, simplified]
      have "represents (FreeNode i T1) (entries (er c))"
        unfolding represents_def tree_rep_def
        using fr(1) frame_fields [OF fr(3)] ch c t sz cmp e pwf_mono [OF wc root_fill_le [OF e(3), of h']]
        by (intro exI [of _ c] exI [of _ h']) (simp add: T1_def)
      moreover have "tree_options (FreeNode i T1) = tree_options T"
        using frame_fields(1) [OF fr(3)] by (simp add: T1_def)
      ultimately show ?thesis using c t by simp
    qed
  qed
qed

lemma Delete_rep:
  assumes rep: "represents T es" and cmp: "tree_cmp T = comparator"
  shows "if k \<in> set (keys_of es)
    then \<exists>T'. BPlusTree_Delete k T = Some (Status_OK, T') \<and> represents T' (del_spec k es) \<and>
      tree_options T' = tree_options T
    else BPlusTree_Delete k T = Some (Status_NotFound ''Key not found'', T)"
proof -
  define M where "M = tree_max T"
  obtain t h where r: "tree_rep T t h" "entries (er t) = es" using rep by (auto simp: represents_def)
  then have o: "occupies T {} [t]" and p: "pwf M (root_fill h) h (er t)"
    and ord: "ordered (entries (er t))" and m: "3 \<le> M" and root: "gid t = root_id T"
    and ne: "nonempty_keys (entries (er t))"
    and sz: "tree_size T = length es" and ht: "tree_height T = Suc h" "root_is_leaf T \<longleftrightarrow> h = 0"
    and ch: "lchain 0 (leaves t)"
    using cmp by (auto simp: tree_rep_def M_def)
  have f: "h < tree_fuel T" using occupies_fuel [OF o _ p] by simp
  have m2: "2 \<le> M" and lo: "0 < h \<Longrightarrow> 0 < root_fill h" using m by (simp_all add: root_fill_def)
  note pd = pdel_correct [OF p lo m2 ord ne, of k]
  note er = erase_node_refine [OF o p lo f m2 ord ne M_def [symmetric] cmp, of k True DeleteResult_init]
  show ?thesis
  proof (cases "pdel comparator M k (er t)")
    case None
    then have "BPlusTree_Delete k T = Some (Status_NotFound ''Key not found'', T)"
      using er root by (simp add: BPlusTree_Delete_def)
    then show ?thesis using None pd r(2) by simp
  next
    case (Some q)
    then have q: "k \<in> set (keys_of es)" "pwf M (root_fill h - 1) h q" "entries q = del_spec k es"
      using pd r(2) by simp_all
    from er Some obtain t' T1 where e: "erase_node (tree_fuel T) k (root_id T) True DeleteResult_init T =
        Some (Status_OK, \<lparr>dr_removed = True, dr_underflow = False, dr_first_key = pfirst q\<rparr>, T1)"
      and st: "step T {} [t] T1 [t']" and t': "gid t' = gid t" "er t' = q"
      using root by auto
    have o1: "occupies T1 {} [t']" and fr: "frame T T1" using st by (simp_all add: step_def)
    have ch1: "lchain 0 (leaves t')" using st ch by (auto simp: step_def relinked_def)
    define T2 where "T2 = T1\<lparr>tree_size := tree_size T1 - 1\<rparr>"
    have dist: "distinct (keys_of es)" using ordered_distinct [OF ord] r(2) by simp
    have "length (del_spec k es) = tree_size T - 1"
    proof -
      have "distinct (keys_of (del_spec k es))" 
        using ordered_distinct [OF ordered_del_spec [OF ord, of k]] r(2) by simp
      then have "length (del_spec k es) = card (set (keys_of es) - {k})"
        by (metis distinct_card keys_of_simps(4) set_del_spec)
      moreover have "tree_size T = card (set (keys_of es))" using dist sz by (metis distinct_card keys_of_simps(4))
      ultimately show ?thesis using q(1) by simp
    qed
    then have c: "\<exists>T'. collapse_root T2 = Some T' \<and> represents T' (entries (er t')) \<and> tree_options T' = tree_options T2"
      using o1 root t' q frame_fields [OF fr] ch1 ht cmp ord ne m r(2)
      by (intro collapse_root_rep [where h = h])
        (auto simp: T2_def root_fill_def M_def ordered_del_spec set_del_spec intro: pwf_mono)
    moreover have "tree_size T \<noteq> 0" using q(1) sz by auto
    then have "BPlusTree_Delete k T = do { T \<leftarrow> collapse_root T2; Some (Status_OK, T) }"
      using e by (simp add: BPlusTree_Delete_def T2_def)
    moreover have "tree_options T2 = tree_options T" using frame_fields [OF fr] by (simp add: T2_def)
    ultimately show ?thesis using q t' by auto
  qed
qed

end

end
