(* ===== verification/Cursor.thy ===== *)
theory Cursor
  imports Prelude
begin

text \<open>
  The contract between an iterator and the loops that use it (\<open>while (it->Valid()) { ...; it->Next(); }\<close>
  in the command line, the server, the benchmark and the flush of a memory table).  \<open>at it es\<close>
  says that \<open>es\<close> is what the iterator still has to deliver; the laws give the results of the
  three calls.  A client proves its loop by the induction \<open>drive\<close>, which carries the fuel.
\<close>

locale cursor =
  fixes at :: "'i \<Rightarrow> 'e list \<Rightarrow> bool"
    and has :: "'i \<Rightarrow> bool option"
    and item :: "'i \<Rightarrow> 'e option"
    and advance :: "'i \<Rightarrow> 'i option"
  assumes has_iff: "at it es \<Longrightarrow> has it = Some (es \<noteq> [])"
    and item_hd: "at it (e # es) \<Longrightarrow> item it = Some e"
    and advance_tl: "at it (e # es) \<Longrightarrow> \<exists>it'. advance it = Some it' \<and> at it' es"
begin

lemma drive [consumes 2, case_names stop step]:
  assumes "at it es" and "length es < n"
    and "\<And>n it. at it [] \<Longrightarrow> has it = Some False \<Longrightarrow> P (Suc n) it []"
    and "\<And>n it e es it'. at it (e # es) \<Longrightarrow> has it = Some True \<Longrightarrow> item it = Some e \<Longrightarrow> advance it = Some it' \<Longrightarrow>
      at it' es \<Longrightarrow> P n it' es \<Longrightarrow> P (Suc n) it (e # es)"
  shows "P n it es"
  using assms(1,2)
proof (induction es arbitrary: n it)
  case Nil
  then obtain m where "n = Suc m" by (cases n) auto
  then show ?case using assms(3) [OF Nil.prems(1)] has_iff [OF Nil.prems(1)] by simp
next
  case (Cons e es)
  then obtain m where n: "n = Suc m" by (cases n) auto
  obtain it' where it': "advance it = Some it'" "at it' es" using advance_tl [OF Cons.prems(1)] by blast
  have "P m it' es" using Cons.IH [OF it'(2)] Cons.prems(2) n by simp
  then show ?case
    using assms(4) [OF Cons.prems(1) _ item_hd [OF Cons.prems(1)] it'] has_iff [OF Cons.prems(1)] n by simp
qed

text \<open>A loop that only collects what the iterator delivers.\<close>

lemma collects:
  assumes "at it es" and "length es < n"
    and "\<And>n it. has it = Some False \<Longrightarrow> loop (Suc n) it = Some []"
    and "\<And>n it e it'. has it = Some True \<Longrightarrow> item it = Some e \<Longrightarrow> advance it = Some it' \<Longrightarrow>
      loop (Suc n) it = map_option ((#) e) (loop n it')"
  shows "loop n it = Some es"
  using assms(1,2) by (induction n it es rule: drive) (simp_all add: assms(3,4))

end

end
