(* ===== verification/BTree_Iter.thy ===== *)
theory BTree_Iter
  imports BTree_Correct Cursor
begin

text \<open>
  \<open>BPlusTree::Iterator\<close> of \<open>src/btree/btree.cpp\<close>.  An iterator holds the tree's read lock
  for its whole life, so the tree is a constant argument of its operations.  The loops that
  descend or follow \<open>next_leaf\<close> take fuel like those of \<open>BTree\<close>; the chain walk gets one
  unit more than the arena has slots (its first step starts inside a leaf, and it ends with a
  test of the null id).

  The results: creating an iterator and stepping it with \<open>Next\<close> while it is \<open>Valid\<close> yields
  exactly the entries of the requested range, in order.
\<close>

record Iterator =
  current_leaf :: nat
  current_idx :: nat
  has_start :: bool
  has_limit :: bool
  start_key :: bytes
  limit_key :: bytes
  it_status :: Status

text \<open>
  \<open>static_cast<const LeafNode*>(GetNode(id))\<close>: a null pointer, a leaf, or (undefined) an
  internal node taken for a leaf.
\<close>

definition leaf_ptr :: "BPlusTree \<Rightarrow> nat \<Rightarrow> LeafNode option option" where
  "leaf_ptr T nid =
     (case GetNode T nid of None \<Rightarrow> Some None | Some (Leaf l) \<Rightarrow> Some (Some l) | Some (Internal _) \<Rightarrow> None)"

text \<open>\<open>static_cast<size_t>\<close> of the \<open>int\<close> that \<open>BinarySearchKeys\<close> returns.\<close>

definition search_idx :: "BPlusTree \<Rightarrow> bytes list \<Rightarrow> bytes \<Rightarrow> nat" where
  "search_idx T keys key = unat (word_of_int (BinarySearchKeys T keys key) :: 64 word)"

fun SkipEmptyOrPastLimit_loop :: "nat \<Rightarrow> BPlusTree \<Rightarrow> Iterator \<Rightarrow> Iterator option" where
  "SkipEmptyOrPastLimit_loop 0 T it = None"
| "SkipEmptyOrPastLimit_loop (Suc n) T it =
     (if current_leaf it = 0 then Some it
      else do {
        p \<leftarrow> leaf_ptr T (current_leaf it);
        (case p of
           None \<Rightarrow> Some (it\<lparr>it_status := Status_InternalError ''Leaf not found''\<rparr>)
         | Some leaf \<Rightarrow>
             if current_idx it < length (leaf_keys leaf) \<and>
                (\<not> has_limit it \<or> Compare (tree_cmp T) (leaf_keys leaf ! current_idx it) (limit_key it) < 0)
             then Some it
             else SkipEmptyOrPastLimit_loop n T (it\<lparr>current_leaf := leaf_next leaf, current_idx := 0\<rparr>))
      })"

definition SkipEmptyOrPastLimit :: "BPlusTree \<Rightarrow> Iterator \<Rightarrow> Iterator option" where
  "SkipEmptyOrPastLimit T it = SkipEmptyOrPastLimit_loop (Suc (tree_fuel T)) T it"

text \<open>
  The loops that walk to the first and to the last leaf; \<open>Inl\<close> is the early return at an
  invalid node.
\<close>

fun first_leaf_loop :: "nat \<Rightarrow> BPlusTree \<Rightarrow> nat \<Rightarrow> (nat + nat) option" where
  "first_leaf_loop 0 T current = None"
| "first_leaf_loop (Suc n) T current =
     (if current = 0 then Some (Inr 0)
      else (case GetNode T current of
        None \<Rightarrow> Some (Inl current)
      | Some (Leaf _) \<Rightarrow> Some (Inr current)
      | Some (Internal inn) \<Rightarrow>
          if inner_children inn = [] then Some (Inr 0)
          else first_leaf_loop n T (hd (inner_children inn))))"

fun last_leaf_loop :: "nat \<Rightarrow> BPlusTree \<Rightarrow> nat \<Rightarrow> (nat + nat) option" where
  "last_leaf_loop 0 T current = None"
| "last_leaf_loop (Suc n) T current =
     (if current = 0 then Some (Inr 0)
      else (case GetNode T current of
        None \<Rightarrow> Some (Inl current)
      | Some (Leaf _) \<Rightarrow> Some (Inr current)
      | Some (Internal inn) \<Rightarrow>
          if inner_children inn = [] then Some (Inr 0)
          else last_leaf_loop n T (last (inner_children inn))))"

definition FindFirst :: "BPlusTree \<Rightarrow> Iterator \<Rightarrow> Iterator option" where
  "FindFirst T it = do {
     let start = (if has_start it then start_key it else []);
     r \<leftarrow> (if has_start it then map_option Inr (FindLeaf T start)
          else first_leaf_loop (tree_fuel T) T (root_id T));
     (case r of
        Inl cur \<Rightarrow> Some (it\<lparr>current_leaf := cur, it_status := Status_InternalError ''Invalid root''\<rparr>)
      | Inr cur \<Rightarrow> do {
          p \<leftarrow> (if cur \<noteq> 0 then leaf_ptr T cur else Some None);
          (case p of
             None \<Rightarrow> Some (it\<lparr>current_leaf := 0, current_idx := 0\<rparr>)
           | Some leaf \<Rightarrow>
               SkipEmptyOrPastLimit T
                 (it\<lparr>current_leaf := cur,
                     current_idx := (if has_start it then search_idx T (leaf_keys leaf) start else 0)\<rparr>))
        })
   }"

definition Iterator_new :: "BPlusTree \<Rightarrow> bytes option \<Rightarrow> bytes option \<Rightarrow> Iterator option" where
  "Iterator_new T start limit =
     FindFirst T \<lparr>current_leaf = 0, current_idx = 0, has_start = (start \<noteq> None), has_limit = (limit \<noteq> None),
       start_key = (case start of None \<Rightarrow> [] | Some s \<Rightarrow> s),
       limit_key = (case limit of None \<Rightarrow> [] | Some l \<Rightarrow> l), it_status = Status_OK\<rparr>"

definition NewIterator :: "BPlusTree \<Rightarrow> Iterator option" where
  "NewIterator T = Iterator_new T None None"

definition NewIterator_from :: "BPlusTree \<Rightarrow> bytes \<Rightarrow> Iterator option" where
  "NewIterator_from T start = Iterator_new T (Some start) None"

definition NewIterator_range :: "BPlusTree \<Rightarrow> bytes \<Rightarrow> bytes \<Rightarrow> Iterator option" where
  "NewIterator_range T start limit = Iterator_new T (Some start) (Some limit)"

definition AtEnd :: "BPlusTree \<Rightarrow> Iterator \<Rightarrow> bool option" where
  "AtEnd T it =
     (if current_leaf it = 0 then Some True
      else do {
        p \<leftarrow> leaf_ptr T (current_leaf it);
        Some (case p of
          None \<Rightarrow> True
        | Some leaf \<Rightarrow>
            current_idx it \<ge> length (leaf_keys leaf) \<or>
            (has_limit it \<and> Compare (tree_cmp T) (leaf_keys leaf ! current_idx it) (limit_key it) \<ge> 0))
      })"

definition Valid :: "BPlusTree \<Rightarrow> Iterator \<Rightarrow> bool option" where
  "Valid T it = (if Status_ok (it_status it) then map_option Not (AtEnd T it) else Some False)"

definition SeekToFirst :: "BPlusTree \<Rightarrow> Iterator \<Rightarrow> Iterator option" where
  "SeekToFirst T it = FindFirst T it"

definition SeekToLast :: "BPlusTree \<Rightarrow> Iterator \<Rightarrow> Iterator option" where
  "SeekToLast T it = do {
     r \<leftarrow> last_leaf_loop (tree_fuel T) T (root_id T);
     (case r of
        Inl _ \<Rightarrow> Some (it\<lparr>it_status := Status_InternalError ''Invalid node''\<rparr>)
      | Inr cur \<Rightarrow>
          if cur = 0 then Some (it\<lparr>current_leaf := 0\<rparr>)
          else do {
            p \<leftarrow> leaf_ptr T cur;
            Some (it\<lparr>current_leaf := cur,
                     current_idx := (case p of
                        None \<Rightarrow> 0
                      | Some leaf \<Rightarrow> if leaf_keys leaf \<noteq> [] then length (leaf_keys leaf) - 1 else 0)\<rparr>)
          })
   }"

definition Seek :: "BPlusTree \<Rightarrow> bytes \<Rightarrow> Iterator \<Rightarrow> Iterator option" where
  "Seek T target it = do {
     cur \<leftarrow> FindLeaf T target;
     p \<leftarrow> (if cur \<noteq> 0 then leaf_ptr T cur else Some None);
     SkipEmptyOrPastLimit T
       (it\<lparr>current_leaf := cur,
           current_idx := (case p of None \<Rightarrow> 0 | Some leaf \<Rightarrow> search_idx T (leaf_keys leaf) target)\<rparr>)
   }"

definition Next :: "BPlusTree \<Rightarrow> Iterator \<Rightarrow> Iterator option" where
  "Next T it = do {
     v \<leftarrow> Valid T it;
     if \<not> v then Some it
     else do {
       p \<leftarrow> leaf_ptr T (current_leaf it);
       (case p of
          None \<Rightarrow> Some (it\<lparr>it_status := Status_InternalError ''Leaf not found''\<rparr>)
        | Some leaf \<Rightarrow>
            SkipEmptyOrPastLimit T
              (if current_idx it + 1 \<ge> length (leaf_keys leaf)
               then it\<lparr>current_leaf := leaf_next leaf, current_idx := 0\<rparr>
               else it\<lparr>current_idx := current_idx it + 1\<rparr>))
     }
   }"

definition Prev :: "Iterator \<Rightarrow> Iterator" where
  "Prev it = it\<lparr>it_status := Status_NotSupported ''Prev is not implemented''\<rparr>"

definition Iterator_key :: "BPlusTree \<Rightarrow> Iterator \<Rightarrow> bytes option" where
  "Iterator_key T it = do {
     v \<leftarrow> Valid T it;
     if \<not> v then Some []
     else do {
       p \<leftarrow> leaf_ptr T (current_leaf it);
       (case p of None \<Rightarrow> Some [] | Some leaf \<Rightarrow> vec_get (leaf_keys leaf) (current_idx it))
     }
   }"

definition Iterator_value :: "BPlusTree \<Rightarrow> Iterator \<Rightarrow> bytes option" where
  "Iterator_value T it = do {
     v \<leftarrow> Valid T it;
     if \<not> v then Some []
     else do {
       p \<leftarrow> leaf_ptr T (current_leaf it);
       (case p of None \<Rightarrow> Some [] | Some leaf \<Rightarrow> vec_get (leaf_values leaf) (current_idx it))
     }
   }"

text \<open>
  The loop every caller runs, \<open>for (; it->Valid(); it->Next())\<close> with one key and value read
  per round.  A round leaves one entry of the tree behind.
\<close>

fun scan_loop :: "nat \<Rightarrow> BPlusTree \<Rightarrow> Iterator \<Rightarrow> entry list option" where
  "scan_loop 0 T it = None"
| "scan_loop (Suc n) T it = do {
     v \<leftarrow> Valid T it;
     if \<not> v then Some []
     else do {
       k \<leftarrow> Iterator_key T it;
       x \<leftarrow> Iterator_value T it;
       it \<leftarrow> Next T it;
       es \<leftarrow> scan_loop n T it;
       Some ((k, x) # es)
     }
   }"

definition scan :: "BPlusTree \<Rightarrow> Iterator \<Rightarrow> entry list option" where
  "scan T it = scan_loop (Suc (tree_size T)) T it"

section \<open>Positions\<close>

text \<open>
  \<open>points ls leaf idx s\<close>: from index \<open>idx\<close> of leaf \<open>leaf\<close> on, the leaves \<open>ls\<close> hold
  \<open>s\<close>.
\<close>

fun contents :: "leaf_view list \<Rightarrow> entry list" where
  "contents [] = []"
| "contents ((i, n, kvs) # ls) = kvs @ contents ls"

lemma contents_append [simp]: "contents (xs @ ys) = contents xs @ contents ys"
  by (induction xs rule: contents.induct) auto

lemma contents_leaves: "contents (leaves t) = entries (er t)"
proof -
  have "contents ls = concat (map (snd \<circ> snd) ls)" for ls by (induction ls rule: contents.induct) auto
  then show ?thesis by (simp add: entries_leaves)
qed

fun points :: "leaf_view list \<Rightarrow> nat \<Rightarrow> nat \<Rightarrow> entry list \<Rightarrow> bool" where
  "points [] leaf idx s \<longleftrightarrow> leaf = 0 \<and> s = []"
| "points ((i, n, kvs) # ls) leaf idx s \<longleftrightarrow> leaf = i \<and> s = drop idx kvs @ contents ls"

text \<open>The chain of leaves as it lies in the arena.\<close>

definition chain_in :: "BPlusTree \<Rightarrow> leaf_view list \<Rightarrow> bool" where
  "chain_in T ls \<longleftrightarrow> lchain 0 ls \<and>
     (\<forall>(i, n, kvs) \<in> set ls. 0 < i \<and> GetNode T i = Some (lnode (tree_max T) n kvs))"

lemma leaf_ptr_lnode [simp]:
  "GetNode T i = Some (lnode M nx kvs) \<Longrightarrow> leaf_ptr T i =
     Some (Some \<lparr>leaf_keys = keys_of kvs, leaf_values = map snd kvs, leaf_next = nx, leaf_max_keys = M\<rparr>)"
  by (simp add: leaf_ptr_def lnode_def)

lemma chain_in_Cons:
  "chain_in T ((i, n, kvs) # ls) \<longleftrightarrow> n = lid 0 ls \<and> 0 < i \<and> GetNode T i = Some (lnode (tree_max T) n kvs) \<and>
     chain_in T ls"
  by (auto simp: chain_in_def)

lemma points_lid: "points ls (lid 0 ls) 0 (contents ls)"
  by (cases ls rule: contents.cases) auto

lemma chain_in_drop: "chain_in T (xs @ ys) \<Longrightarrow> chain_in T ys"
  by (simp add: chain_in_def lchain_append)

definition in_limit :: "Comparator option \<Rightarrow> Iterator \<Rightarrow> entry \<Rightarrow> bool" where
  "in_limit c it e \<longleftrightarrow> \<not> has_limit it \<or> key_lt c (fst e) (limit_key it)"

context key_order begin

text \<open>\<open>ready T it s\<close>: the iterator is at rest and \<open>s\<close> is what it still has to deliver.\<close>

definition ready :: "BPlusTree \<Rightarrow> Iterator \<Rightarrow> entry list \<Rightarrow> bool" where
  "ready T it s \<longleftrightarrow> tree_cmp T = comparator \<and> Status_ok (it_status it) \<and>
     (\<exists>ls r. chain_in T ls \<and> length ls < tree_fuel T \<and> ordered (contents ls) \<and>
       points ls (current_leaf it) (current_idx it) r \<and> s = filter (in_limit comparator it) r \<and>
       (case ls of [] \<Rightarrow> True
        | (i, n, kvs) # _ \<Rightarrow> current_idx it < length kvs \<and> in_limit comparator it (kvs ! current_idx it)))"

lemma beyond_limit:
  assumes "ordered (e # es)" and "\<not> in_limit comparator it e"
  shows "filter (in_limit comparator it) (e # es) = []"
proof -
  have "\<not> in_limit comparator it x" if "x \<in> set es" for x
  proof -
    have "lt (fst e) (fst x)" using assms(1) that by (auto simp: keys_of_def)
    then show ?thesis using assms(2) lt_trans by (auto simp: in_limit_def)
  qed
  then show ?thesis using assms(2) by (simp add: filter_empty_conv)
qed

lemma Skip_ready:
  assumes "chain_in T ls" and "length ls < n" and "length ls < tree_fuel T" and "ordered (contents ls)"
    and "points ls (current_leaf it) (current_idx it) r"
    and "tree_cmp T = comparator" and "Status_ok (it_status it)"
  shows "\<exists>it'. SkipEmptyOrPastLimit_loop n T it = Some it' \<and> ready T it' (filter (in_limit comparator it) r) \<and>
    it' = it\<lparr>current_leaf := current_leaf it', current_idx := current_idx it'\<rparr>"
  using assms
proof (induction ls arbitrary: n it r)
  case Nil
  then obtain m where "n = Suc m" by (cases n) auto
  with Nil have "SkipEmptyOrPastLimit_loop n T it = Some it" "ready T it []"
    unfolding ready_def by (auto intro!: exI [of _ "[]"])
  then show ?case using Nil.prems(5) by simp
next
  case (Cons l ls)
  obtain i nx kvs where l: "l = (i, nx, kvs)" by (cases l)
  obtain m where n: "n = Suc m" using Cons.prems(2) by (cases n) auto
  define idx where "idx = current_idx it"
  have p: "current_leaf it = i" "r = drop idx kvs @ contents ls" using Cons.prems(5) by (simp_all add: l idx_def)
  have c: "nx = lid 0 ls" "0 < i" "GetNode T i = Some (lnode (tree_max T) nx kvs)" "chain_in T ls"
    using Cons.prems(1) by (simp_all add: l chain_in_Cons)
  show ?case
  proof (cases "idx < length kvs \<and> in_limit comparator it (kvs ! idx)")
    case True
    then have "SkipEmptyOrPastLimit_loop n T it = Some it"
      using n p c Cons.prems(6) by (simp add: in_limit_def key_lt_def idx_def)
    moreover have "ready T it (filter (in_limit comparator it) r)"
      unfolding ready_def using Cons.prems True
      by (intro conjI exI [of _ "l # ls"] exI [of _ r]) (simp_all add: l idx_def)
    ultimately show ?thesis by simp
  next
    case False
    define it1 where "it1 = it\<lparr>current_leaf := nx, current_idx := 0\<rparr>"
    have skip: "SkipEmptyOrPastLimit_loop n T it = SkipEmptyOrPastLimit_loop m T it1"
      using n p c False Cons.prems(6) by (auto simp: in_limit_def key_lt_def idx_def it1_def)
    have same: "in_limit comparator it1 = in_limit comparator it" by (simp add: in_limit_def it1_def fun_eq_iff)
    have "filter (in_limit comparator it) r = filter (in_limit comparator it) (contents ls)"
    proof (cases "idx < length kvs")
      case True
      have "contents (l # ls) = take idx kvs @ kvs ! idx # drop (Suc idx) kvs @ contents ls"
        using True by (simp add: l id_take_nth_drop [symmetric] flip: append_Cons append_assoc)
      then have "ordered (kvs ! idx # drop (Suc idx) kvs @ contents ls)"
        using Cons.prems(4) by (simp only: ordered_append)
      then have "filter (in_limit comparator it) (kvs ! idx # drop (Suc idx) kvs @ contents ls) = []"
        using True False by (intro beyond_limit) auto
      moreover have "r = kvs ! idx # drop (Suc idx) kvs @ contents ls" using True p(2) by (simp add: Cons_nth_drop_Suc)
      ultimately show ?thesis by (auto split: if_splits)
    qed (use p in simp)
    moreover have "points ls (current_leaf it1) (current_idx it1) (contents ls)"
      using points_lid c(1) by (simp add: it1_def)
    from Cons.IH [where n = m, OF c(4) _ _ _ this] Cons.prems n
    obtain it' where "SkipEmptyOrPastLimit_loop m T it1 = Some it'"
      "ready T it' (filter (in_limit comparator it1) (contents ls))"
      "it' = it1\<lparr>current_leaf := current_leaf it', current_idx := current_idx it'\<rparr>"
      by (auto simp: l it1_def sorted_wrt_append)
    ultimately show ?thesis using skip same by (auto simp: it1_def)
  qed
qed

lemma ready_Valid: "ready T it s \<Longrightarrow> Valid T it = Some (s \<noteq> [])"
proof -
  assume "ready T it s"
  then obtain ls r where r: "tree_cmp T = comparator" "Status_ok (it_status it)" "chain_in T ls"
      "points ls (current_leaf it) (current_idx it) r" "s = filter (in_limit comparator it) r"
      "case ls of [] \<Rightarrow> True
        | (i, n, kvs) # _ \<Rightarrow> current_idx it < length kvs \<and> in_limit comparator it (kvs ! current_idx it)"
    by (auto simp: ready_def)
  show ?thesis
  proof (cases ls)
    case Nil
    with r show ?thesis by (simp add: Valid_def AtEnd_def)
  next
    case (Cons l ls')
    obtain i nx kvs where l: "l = (i, nx, kvs)" by (cases l)
    have p: "current_leaf it = i" "current_idx it < length kvs" "in_limit comparator it (kvs ! current_idx it)"
      using r(4,6) by (simp_all add: Cons l)
    have "0 < i" "GetNode T i = Some (lnode (tree_max T) nx kvs)" using r(3) by (simp_all add: Cons l chain_in_Cons)
    then have "Valid T it = Some True"
      using r(1,2) p by (auto simp: Valid_def AtEnd_def in_limit_def key_lt_def)
    moreover have "s \<noteq> []" using r(4,5) p by (auto simp: Cons l Cons_nth_drop_Suc [symmetric])
    ultimately show ?thesis by simp
  qed
qed

lemma ready_Next:
  assumes "ready T it (e # s)"
  shows "Iterator_key T it = Some (fst e)" and "Iterator_value T it = Some (snd e)"
    and "\<exists>it'. Next T it = Some it' \<and> ready T it' s"
proof -
  from assms obtain ls r where r: "tree_cmp T = comparator" "Status_ok (it_status it)" "chain_in T ls"
      "points ls (current_leaf it) (current_idx it) r" "e # s = filter (in_limit comparator it) r"
      "case ls of [] \<Rightarrow> True
        | (i, n, kvs) # _ \<Rightarrow> current_idx it < length kvs \<and> in_limit comparator it (kvs ! current_idx it)"
      "length ls < tree_fuel T" "ordered (contents ls)"
    by (auto simp: ready_def)
  obtain i nx kvs ls' where ls: "ls = (i, nx, kvs) # ls'"
    using r(4,5) by (cases ls) auto
  define idx where "idx = current_idx it"
  have p: "current_leaf it = i" "idx < length kvs" "in_limit comparator it (kvs ! idx)"
      "r = kvs ! idx # drop (Suc idx) kvs @ contents ls'"
    using r(4,6) by (simp_all add: ls idx_def Cons_nth_drop_Suc)
  have e: "e = kvs ! idx" "s = filter (in_limit comparator it) (drop (Suc idx) kvs @ contents ls')"
    using r(5) p(3) by (simp_all add: p(4))
  have c: "nx = lid 0 ls'" "0 < i" "GetNode T i = Some (lnode (tree_max T) nx kvs)" "chain_in T ls'"
    using r(3) by (simp_all add: ls chain_in_Cons)
  have v: "Valid T it = Some True" using ready_Valid [OF assms] by simp
  show "Iterator_key T it = Some (fst e)" "Iterator_value T it = Some (snd e)"
    using v c p(1,2) e(1) by (simp_all add: Iterator_key_def Iterator_value_def vec_defs flip: idx_def)
  have n: "Next T it = SkipEmptyOrPastLimit T
      (if idx + 1 \<ge> length kvs then it\<lparr>current_leaf := nx, current_idx := 0\<rparr> else it\<lparr>current_idx := idx + 1\<rparr>)"
    using v c p(1,2) by (simp add: Next_def flip: idx_def)
  show "\<exists>it'. Next T it = Some it' \<and> ready T it' s"
  proof (cases "idx + 1 \<ge> length kvs")
    case True
    define it1 where "it1 = it\<lparr>current_leaf := nx, current_idx := 0\<rparr>"
    have "points ls' (current_leaf it1) (current_idx it1) (contents ls')"
      using points_lid c(1) by (simp add: it1_def)
    moreover have "ordered (contents ls')" using r(8) by (simp add: ls sorted_wrt_append)
    moreover have "in_limit comparator it1 = in_limit comparator it" by (simp add: in_limit_def it1_def fun_eq_iff)
    ultimately show ?thesis
      using Skip_ready [OF c(4), of "Suc (tree_fuel T)" it1 "contents ls'"] r(1,2,7) n True e
      by (auto simp: SkipEmptyOrPastLimit_def it1_def ls)
  next
    case False
    define it1 where "it1 = it\<lparr>current_idx := idx + 1\<rparr>"
    have "points ls (current_leaf it1) (current_idx it1) (drop (Suc idx) kvs @ contents ls')"
      using p(1) by (simp add: it1_def ls)
    moreover have "in_limit comparator it1 = in_limit comparator it" by (simp add: in_limit_def it1_def fun_eq_iff)
    ultimately show ?thesis
      using Skip_ready [OF r(3), of "Suc (tree_fuel T)" it1 "drop (Suc idx) kvs @ contents ls'"] r(1,2,7,8) n False e
      by (auto simp: SkipEmptyOrPastLimit_def it1_def)
  qed
qed

end

text \<open>The iterator satisfies the contract of \<open>cursor\<close>; its item is what \<open>key()\<close> and \<open>value()\<close> return.\<close>

definition tree_item :: "BPlusTree \<Rightarrow> Iterator \<Rightarrow> entry option" where
  "tree_item T it = do { k \<leftarrow> Iterator_key T it; v \<leftarrow> Iterator_value T it; Some (k, v) }"

lemma tree_item_eq: "tree_item T it = Some e \<longleftrightarrow> Iterator_key T it = Some (fst e) \<and> Iterator_value T it = Some (snd e)"
  by (cases e) (auto simp: tree_item_def split: bind_splits)

sublocale key_order \<subseteq> tree_cursor: cursor "ready T" "Valid T" "tree_item T" "Next T" for T
  by unfold_locales (auto simp: ready_Valid ready_Next tree_item_eq)

context key_order begin

lemmas drive_iterator = tree_cursor.drive

lemma ready_scan: "ready T it s \<Longrightarrow> length s < n \<Longrightarrow> scan_loop n T it = Some s"
  by (rule tree_cursor.collects [where loop = "\<lambda>n. scan_loop n T"]) (auto simp: tree_item_eq map_conv_bind_option o_def)

end

section \<open>Where an iterator starts\<close>

lemma sits_leaves: "sits M H t \<Longrightarrow> (i, n, kvs) \<in> set (leaves t) \<Longrightarrow> H i = Some (lnode M n kvs)"
  by (induction t) auto

lemma leaves_chain_in:
  assumes "live T U" and "sits (tree_max T) (GetNode T) t" and "lchain 0 (leaves t)"
  shows "chain_in T (leaves t)"
  unfolding chain_in_def using sits_leaves [OF assms(2)] assms(3) live_pos [OF assms(1)] live_dom [OF assms(1)]
  by blast

lemma leaves_fuel:
  assumes "occupies T F [t]"
  shows "length (leaves t) < tree_fuel T"
proof -
  have "length (leaves t) \<le> length (ids t)"
  proof (induction t)
    case (GNode i ks ts)
    then have "length (allleaves ts) \<le> length (allids ts)" by (induction ts) (auto simp: add_mono)
    then show ?case by simp
  qed simp
  also have "length (ids t) = card (set (ids t))" using assms by (simp add: occupies_def distinct_card)
  also have "\<dots> \<le> card (F \<union> set (ids t))"
    using assms live_finite by (intro card_mono) (auto simp: occupies_def)
  also have "\<dots> < tree_fuel T" using assms live_fuel by (simp add: occupies_def)
  finally show ?thesis .
qed

lemma contents_allleaves: "contents (allleaves ts) = all_entries (map er ts)"
  by (induction ts) (simp_all add: contents_leaves)

lemma first_leaf_walk:
  "live T U \<Longrightarrow> sits (tree_max T) (GetNode T) t \<Longrightarrow> pwf m lo h (er t) \<Longrightarrow> h < n \<Longrightarrow>
   \<exists>i nx kvs R. first_leaf_loop n T (gid t) = Some (Inr i) \<and> leaves t = (i, nx, kvs) # R"
proof (induction n arbitrary: lo h t)
  case (Suc n)
  have pos: "0 < gid t"
    using live_pos [OF Suc.prems(1)] live_dom [OF Suc.prems(1)] sits_dom [OF Suc.prems(2) gid_in_ids] by blast
  show ?case
  proof (cases t)
    case (GLeaf i nx kvs)
    with Suc.prems pos show ?thesis by (simp add: lnode_def)
  next
    case (GNode i ks ts)
    with Suc.prems obtain h' where h: "h = Suc h'" by (cases h) auto
    with GNode Suc.prems(3) obtain c cs where ts: "ts = c # cs" by (cases ts) auto
    with Suc.prems GNode h have "sits (tree_max T) (GetNode T) c" "pwf m (m div 2) h' (er c)" by auto
    from Suc.IH [OF Suc.prems(1) this] Suc.prems(4) h obtain i' nx kvs R where
      "first_leaf_loop n T (gid c) = Some (Inr i')" "leaves c = (i', nx, kvs) # R" by auto
    then show ?thesis using GNode ts Suc.prems(2) pos by (simp add: inode_def)
  qed
qed simp

lemma last_leaf_walk:
  "live T U \<Longrightarrow> sits (tree_max T) (GetNode T) t \<Longrightarrow> pwf m lo h (er t) \<Longrightarrow> h < n \<Longrightarrow>
   \<exists>i nx kvs P. last_leaf_loop n T (gid t) = Some (Inr i) \<and> leaves t = P @ [(i, nx, kvs)]"
proof (induction n arbitrary: lo h t)
  case (Suc n)
  have pos: "0 < gid t"
    using live_pos [OF Suc.prems(1)] live_dom [OF Suc.prems(1)] sits_dom [OF Suc.prems(2) gid_in_ids] by blast
  show ?case
  proof (cases t)
    case (GLeaf i nx kvs)
    with Suc.prems pos show ?thesis by (simp add: lnode_def)
  next
    case (GNode i ks ts)
    with Suc.prems obtain h' where h: "h = Suc h'" by (cases h) auto
    with GNode Suc.prems(3) have "ts \<noteq> []" by (cases ts) auto
    then obtain cs c where ts: "ts = cs @ [c]" by (metis rev_exhaust)
    with Suc.prems GNode h have "sits (tree_max T) (GetNode T) c" "pwf m (m div 2) h' (er c)" by auto
    from Suc.IH [OF Suc.prems(1) this] Suc.prems(4) h obtain i' nx kvs P where
      "last_leaf_loop n T (gid c) = Some (Inr i')" "leaves c = P @ [(i', nx, kvs)]" by auto
    then show ?thesis using GNode ts Suc.prems(2) pos by (simp add: inode_def)
  qed
qed simp

lemma search_idx_LowerBound:
  assumes "length keys < 2 ^ 31"
  shows "search_idx T keys key = LowerBound keys key (tree_cmp T)"
proof -
  define n where "n = LowerBound keys key (tree_cmp T)"
  have n: "n < 2 ^ 31" using assms LowerBound_le [of keys key "tree_cmp T"] unfolding n_def by linarith
  have "signed_take_bit 31 (int n) = int n"
    by (rule signed_take_bit_int_eq_self) (use n in simp_all)
  then have "sint (of_nat n :: 32 word) = int n"
    using n by (simp add: sint_uint uint_nat unat_of_nat)
  then show ?thesis using n
    by (simp add: search_idx_def BinarySearchKeys_def unat_of_nat flip: n_def)
qed

text \<open>\<open>FindLeaf\<close> splits the leaves at the only one that can hold the key.\<close>

context key_order begin

lemma find_walk_split:
  "live T U \<Longrightarrow> sits (tree_max T) (GetNode T) t \<Longrightarrow> pwf (tree_max T) lo h (er t) \<Longrightarrow> h < n \<Longrightarrow>
   2 \<le> tree_max T \<Longrightarrow> tree_cmp T = comparator \<Longrightarrow> ordered (entries (er t)) \<Longrightarrow>
   \<exists>P i nx kvs R. FindLeaf_loop n T k (gid t) = Some i \<and> leaves t = P @ (i, nx, kvs) # R \<and>
     (\<forall>x\<in>set (keys_of (contents P)). lt x k) \<and> (\<forall>x\<in>set (keys_of (contents R)). lt k x)"
proof (induction n arbitrary: lo h t)
  case (Suc n)
  have pos: "0 < gid t"
    using live_pos [OF Suc.prems(1)] live_dom [OF Suc.prems(1)] sits_dom [OF Suc.prems(2) gid_in_ids] by blast
  show ?case
  proof (cases t)
    case (GLeaf i nx kvs)
    with Suc.prems pos have "FindLeaf_loop (Suc n) T k (gid t) = Some i" by (simp add: lnode_def)
    moreover have "leaves t = [] @ (i, nx, kvs) # []" by (simp add: GLeaf)
    ultimately show ?thesis by fastforce
  next
    case (GNode i ks ts)
    with Suc.prems obtain h' where h: "h = Suc h'" by (cases h) auto
    define pts where "pts = map er ts"
    have w: "pts \<noteq> []" "ks = seps pts" "nodes_ok (tree_max T) h' pts" "ordered (all_entries pts)"
      using Suc.prems(3,7) GNode h by (simp_all add: pts_def)
    define j where "j = UpperBound ks k comparator"
    obtain P' c' R' where d: "pts = P' @ c' # R'" "length P' = j"
      "\<forall>x\<in>set (keys_of (all_entries P')). lt x k" "\<forall>x\<in>set (keys_of (all_entries R')). lt k x"
      using descend [OF w(3) Suc.prems(5) w(4,1), of k] unfolding j_def w(2) by blast
    have "length pts = Suc (j + length R')" using d(1,2) by simp
    then have j: "j < length ts" by (simp add: pts_def)
    define P c R where "P = take j ts" and "c = ts ! j" and "R = drop (Suc j) ts"
    have ts: "ts = P @ c # R" using id_take_nth_drop [OF j] by (simp add: P_def c_def R_def)
    have "length P = j" using j by (simp add: P_def)
    then have e: "P' = map er P" "c' = er c" "R' = map er R" using d(1,2) by (simp_all add: pts_def ts)
    have c: "sits (tree_max T) (GetNode T) c" "pwf (tree_max T) (tree_max T div 2) h' (er c)" "ordered (entries (er c))"
      using Suc.prems(2) GNode w(3,4) by (auto simp: pts_def ts sorted_wrt_append)
    have "h' < n" using Suc.prems(4) h by simp
    from Suc.IH [OF Suc.prems(1) c(1,2) this Suc.prems(5,6) c(3)] obtain A i' nx kvs B where
      f: "FindLeaf_loop n T k (gid c) = Some i'" "leaves c = A @ (i', nx, kvs) # B"
        "\<forall>x\<in>set (keys_of (contents A)). lt x k" "\<forall>x\<in>set (keys_of (contents B)). lt k x" by blast
    have "FindLeaf_loop (Suc n) T k (gid t) = Some i'"
      using GNode Suc.prems(2,6) pos j f(1) by (simp add: inode_def Let_def flip: j_def c_def)
    moreover have "leaves t = (allleaves P @ A) @ (i', nx, kvs) # (B @ allleaves R)"
      using f(2) by (simp add: GNode ts)
    moreover have "\<forall>x\<in>set (keys_of (contents (allleaves P @ A))). lt x k"
      "\<forall>x\<in>set (keys_of (contents (B @ allleaves R))). lt k x"
      using f(3,4) d(3,4) by (auto simp: e contents_allleaves)
    ultimately show ?thesis by blast
  qed
qed simp

lemma start_split:
  assumes o: "ordered (A @ kvs @ B)" and a: "\<forall>x\<in>set (keys_of A). lt x k" and b: "\<forall>x\<in>set (keys_of B). lt k x"
  shows "drop (LowerBound (keys_of kvs) k comparator) kvs @ B = filter (\<lambda>e. \<not> lt (fst e) k) (A @ kvs @ B)"
proof -
  define p where "p = LowerBound (keys_of kvs) k comparator"
  have s: "ordered kvs" using o by (simp add: sorted_wrt_append)
  have pp: "partition_point (\<lambda>x. lt x k) (keys_of kvs) p" unfolding p_def by (rule LowerBound_partition [OF s])
  have "filter (\<lambda>e. \<not> lt (fst e) k) A = []" "filter (\<lambda>e. \<not> lt (fst e) k) B = B"
    using a b lt_asym by (auto simp: keys_of_def filter_empty_conv filter_id_conv)
  moreover have "filter (\<lambda>e. \<not> lt (fst e) k) kvs = drop p kvs"
  proof -
    have "partition_point (\<lambda>e. lt (fst e) k) kvs p" using pp by (auto simp: partition_point_def)
    from partition_point_filter(2) [OF this] show ?thesis by simp
  qed
  ultimately show ?thesis by (simp flip: p_def)
qed

end

definition in_range :: "Comparator option \<Rightarrow> bytes option \<Rightarrow> bytes option \<Rightarrow> entry \<Rightarrow> bool" where
  "in_range c start limit e \<longleftrightarrow>
     (case start of None \<Rightarrow> True | Some s \<Rightarrow> \<not> key_lt c (fst e) s) \<and>
     (case limit of None \<Rightarrow> True | Some l \<Rightarrow> key_lt c (fst e) l)"

section \<open>The operations of the iterator\<close>

lemma rep_leaves:
  assumes "represents T es"
  obtains t h where "occupies T {} [t]" "gid t = root_id T" "pwf (tree_max T) (root_fill h) h (er t)"
    "sits (tree_max T) (GetNode T) t" "live T (set (ids t))" "h < tree_fuel T" "3 \<le> tree_max T"
    "chain_in T (leaves t)" "length (leaves t) < tree_fuel T" "contents (leaves t) = es" "entries (er t) = es"
    "sorted_wrt (key_lt (tree_cmp T)) (keys_of es)" "tree_size T = length es"
proof -
  obtain t h where r: "tree_rep T t h" "entries (er t) = es" using assms by (auto simp: represents_def)
  then have o: "occupies T {} [t]" and p: "pwf (tree_max T) (root_fill h) h (er t)" by (auto simp: tree_rep_def)
  have s: "sits (tree_max T) (GetNode T) t" "live T (set (ids t))" using o by (auto simp: occupies_def)
  show thesis
    by (rule that [of t h])
      (use r o p s occupies_fuel [OF o _ p] leaves_chain_in [OF s(2,1)] leaves_fuel [OF o] contents_leaves [of t]
        in \<open>auto simp: tree_rep_def\<close>)
qed

lemma leaf_size:
  assumes "pwf m lo h (er t)" and "(i, nx, kvs) \<in> set (leaves t)"
  shows "length kvs \<le> m"
  using assms
proof (induction t arbitrary: lo h)
  case (GLeaf j n x)
  then show ?case by (cases h) auto
next
  case (GNode j ks ts)
  then obtain h' where "h = Suc h'" by (cases h) auto
  with GNode obtain c where "c \<in> set ts" "(i, nx, kvs) \<in> set (leaves c)" "pwf m (m div 2) h' (er c)" by auto
  with GNode.IH show ?case by blast
qed

lemma leaf_fill: "pwf m (m div 2) h (er t) \<Longrightarrow> (i, nx, kvs) \<in> set (leaves t) \<Longrightarrow> m div 2 \<le> length kvs"
proof (induction t arbitrary: h)
  case (GLeaf j n x)
  then show ?case by (cases h) auto
next
  case (GNode j ks ts)
  then obtain h' where "h = Suc h'" by (cases h) auto
  with GNode obtain c where "c \<in> set ts" "(i, nx, kvs) \<in> set (leaves c)" "pwf m (m div 2) h' (er c)" by auto
  with GNode.IH show ?case by blast
qed

context key_order begin

text \<open>The part shared by \<open>FindFirst\<close> with a start key and \<open>Seek\<close>.\<close>

lemma seek_ready:
  assumes rep: "represents T es" and cmp: "tree_cmp T = comparator" and m: "tree_max T < 2 ^ 31"
    and st: "Status_ok (it_status it)"
  shows "\<exists>cur leaf it'. FindLeaf T k = Some cur \<and> cur \<noteq> 0 \<and> leaf_ptr T cur = Some (Some leaf) \<and>
    SkipEmptyOrPastLimit T (it\<lparr>current_leaf := cur, current_idx := search_idx T (leaf_keys leaf) k\<rparr>) = Some it' \<and>
    ready T it' (filter (\<lambda>e. \<not> lt (fst e) k \<and> in_limit comparator it e) es) \<and>
    it' = it\<lparr>current_leaf := current_leaf it', current_idx := current_idx it'\<rparr>"
proof -
  obtain t h where t: "gid t = root_id T" "pwf (tree_max T) (root_fill h) h (er t)"
    "sits (tree_max T) (GetNode T) t" "live T (set (ids t))" "h < tree_fuel T" "3 \<le> tree_max T"
    "chain_in T (leaves t)" "length (leaves t) < tree_fuel T" "contents (leaves t) = es" "entries (er t) = es"
    "ordered es"
    using rep_leaves [OF rep] cmp by metis
  have m2: "2 \<le> tree_max T" and o: "ordered (entries (er t))" using t by simp_all
  obtain P i nx kvs R where f: "FindLeaf T k = Some i" "leaves t = P @ (i, nx, kvs) # R"
      "\<forall>x\<in>set (keys_of (contents P)). lt x k" "\<forall>x\<in>set (keys_of (contents R)). lt k x"
    using find_walk_split [OF t(4,3,2,5) m2 cmp o, of k] t(1) by (auto simp: FindLeaf_def)
  have c: "chain_in T ((i, nx, kvs) # R)" using t(7) f(2) chain_in_drop by metis
  have "length kvs \<le> tree_max T" using leaf_size [OF t(2)] f(2) by auto
  then have idx: "search_idx T (keys_of kvs) k = LowerBound (keys_of kvs) k comparator"
    using search_idx_LowerBound m cmp by simp
  have n: "0 < i" "GetNode T i = Some (lnode (tree_max T) nx kvs)" using c by (simp_all add: chain_in_Cons)
  have es: "es = contents P @ kvs @ contents R" using t(9) f(2) by simp
  define it1 where "it1 = it\<lparr>current_leaf := i, current_idx := search_idx T (keys_of kvs) k\<rparr>"
  define r where "r = drop (LowerBound (keys_of kvs) k comparator) kvs @ contents R"
  have r: "r = filter (\<lambda>e. \<not> lt (fst e) k) es"
    unfolding r_def es by (rule start_split) (use t(11) es f in simp_all)
  have same: "in_limit comparator it1 = in_limit comparator it" by (simp add: in_limit_def it1_def fun_eq_iff)
  have "\<exists>it'. SkipEmptyOrPastLimit_loop (Suc (tree_fuel T)) T it1 = Some it' \<and>
      ready T it' (filter (in_limit comparator it1) r) \<and>
      it' = it1\<lparr>current_leaf := current_leaf it', current_idx := current_idx it'\<rparr>"
    by (rule Skip_ready [OF c])
      (use t(8,11) f(2) idx cmp st es in \<open>simp_all add: it1_def r_def sorted_wrt_append\<close>)
  then obtain it' where s: "SkipEmptyOrPastLimit T it1 = Some it'" "ready T it' (filter (in_limit comparator it) r)"
      "it' = it1\<lparr>current_leaf := current_leaf it', current_idx := current_idx it'\<rparr>"
    by (auto simp: SkipEmptyOrPastLimit_def same)
  have "filter (in_limit comparator it) r = filter (\<lambda>e. \<not> lt (fst e) k \<and> in_limit comparator it e) es"
    by (simp add: r conj_commute)
  with s f(1) n show ?thesis by (auto simp: it1_def)
qed

lemma FindFirst_ready:
  assumes rep: "represents T es" and cmp: "tree_cmp T = comparator" and m: "tree_max T < 2 ^ 31"
    and st: "Status_ok (it_status it)"
  shows "\<exists>it'. FindFirst T it = Some it' \<and>
    ready T it' (filter (\<lambda>e. (has_start it \<longrightarrow> \<not> lt (fst e) (start_key it)) \<and> in_limit comparator it e) es) \<and>
    it' = it\<lparr>current_leaf := current_leaf it', current_idx := current_idx it'\<rparr>"
proof (cases "has_start it")
  case True
  with seek_ready [OF rep cmp m st, of "start_key it"] show ?thesis
    by (auto simp: FindFirst_def)
next
  case False
  obtain t h where t: "gid t = root_id T" "pwf (tree_max T) (root_fill h) h (er t)"
    "sits (tree_max T) (GetNode T) t" "live T (set (ids t))" "h < tree_fuel T"
    "chain_in T (leaves t)" "length (leaves t) < tree_fuel T" "contents (leaves t) = es" "ordered es"
    using rep_leaves [OF rep] cmp by metis
  obtain i nx kvs R where f: "first_leaf_loop (tree_fuel T) T (root_id T) = Some (Inr i)"
      "leaves t = (i, nx, kvs) # R"
    using first_leaf_walk [OF t(4,3,2,5)] t(1) by auto
  have n: "0 < i" "GetNode T i = Some (lnode (tree_max T) nx kvs)" using t(6) f(2) by (simp_all add: chain_in_Cons)
  define it1 where "it1 = it\<lparr>current_leaf := i, current_idx := 0\<rparr>"
  have same: "in_limit comparator it1 = in_limit comparator it" by (simp add: in_limit_def it1_def fun_eq_iff)
  have "\<exists>it'. SkipEmptyOrPastLimit_loop (Suc (tree_fuel T)) T it1 = Some it' \<and>
      ready T it' (filter (in_limit comparator it1) es) \<and>
      it' = it1\<lparr>current_leaf := current_leaf it', current_idx := current_idx it'\<rparr>"
    by (rule Skip_ready [OF t(6)]) (use t(7-9) f(2) cmp st in \<open>auto simp: it1_def\<close>)
  then obtain it' where "SkipEmptyOrPastLimit T it1 = Some it'" "ready T it' (filter (in_limit comparator it) es)"
      "it' = it1\<lparr>current_leaf := current_leaf it', current_idx := current_idx it'\<rparr>"
    unfolding SkipEmptyOrPastLimit_def same by blast
  moreover have "FindFirst T it = SkipEmptyOrPastLimit T it1"
    using False f(1) n by (simp add: FindFirst_def it1_def)
  ultimately show ?thesis using False by (auto simp: it1_def)
qed

text \<open>A new iterator, and \<open>SeekToFirst\<close> on it.\<close>

lemma new_SeekToFirst_ready:
  assumes rep: "represents T es" and cmp: "tree_cmp T = comparator" and m: "tree_max T < 2 ^ 31"
  shows "\<exists>it it'. Iterator_new T start limit = Some it \<and> ready T it (filter (in_range comparator start limit) es) \<and>
    SeekToFirst T it = Some it' \<and> ready T it' (filter (in_range comparator start limit) es)"
proof -
  define it0 where "it0 = \<lparr>current_leaf = 0, current_idx = 0, has_start = (start \<noteq> None), has_limit = (limit \<noteq> None),
    start_key = (case start of None \<Rightarrow> [] | Some s \<Rightarrow> s), limit_key = (case limit of None \<Rightarrow> [] | Some l \<Rightarrow> l),
    it_status = Status_OK\<rparr>"
  define same where "same it \<longleftrightarrow> Status_ok (it_status it) \<and> has_start it = has_start it0 \<and> start_key it = start_key it0 \<and>
    has_limit it = has_limit it0 \<and> limit_key it = limit_key it0" for it :: Iterator
  have step: "\<exists>it'. FindFirst T it = Some it' \<and> ready T it' (filter (in_range comparator start limit) es) \<and> same it'" if "same it" for it
  proof -
    have st: "Status_ok (it_status it)" using that by (simp add: same_def)
    obtain it' where it': "FindFirst T it = Some it'" "it' = it\<lparr>current_leaf := current_leaf it', current_idx := current_idx it'\<rparr>"
      "ready T it' (filter (\<lambda>e. (has_start it \<longrightarrow> \<not> lt (fst e) (start_key it)) \<and> in_limit comparator it e) es)"
      using FindFirst_ready [OF rep cmp m st] by blast
    have "(has_start it \<longrightarrow> \<not> lt (fst e) (start_key it)) \<and> in_limit comparator it e \<longleftrightarrow> in_range comparator start limit e" for e
      using that unfolding same_def in_limit_def in_range_def by (cases start; cases limit) (simp_all add: it0_def)
    moreover have "same it'" by (subst it'(2)) (use that in \<open>simp add: same_def\<close>)
    ultimately show ?thesis using it'(1,3) by auto
  qed
  obtain it where it: "FindFirst T it0 = Some it" "ready T it (filter (in_range comparator start limit) es)" "same it"
    using step [of it0] by (auto simp: same_def it0_def)
  obtain it' where "FindFirst T it = Some it'" "ready T it' (filter (in_range comparator start limit) es)"
    using step [OF it(3)] by blast
  with it show ?thesis by (auto simp: Iterator_new_def SeekToFirst_def it0_def)
qed

lemma Iterator_new_ready:
  assumes "represents T es" and "tree_cmp T = comparator" and "tree_max T < 2 ^ 31"
  shows "\<exists>it. Iterator_new T start limit = Some it \<and> ready T it (filter (in_range comparator start limit) es)"
  using new_SeekToFirst_ready [OF assms] by blast

lemma scan_range:
  assumes rep: "represents T es" and cmp: "tree_cmp T = comparator" and m: "tree_max T < 2 ^ 31"
  shows "\<exists>it. Iterator_new T start limit = Some it \<and> scan T it = Some (filter (in_range comparator start limit) es)"
proof -
  obtain it where it: "Iterator_new T start limit = Some it" "ready T it (filter (in_range comparator start limit) es)"
    using Iterator_new_ready [OF assms] by blast
  have "tree_size T = length es" using rep_leaves [OF rep] by metis
  then show ?thesis using it ready_scan [OF it(2), of "Suc (tree_size T)"]
    by (auto simp: scan_def less_Suc_eq_le)
qed

lemma Seek_ready:
  assumes "represents T es" and "tree_cmp T = comparator" and "tree_max T < 2 ^ 31" and "Status_ok (it_status it)"
  shows "\<exists>it'. Seek T k it = Some it' \<and>
    ready T it' (filter (\<lambda>e. \<not> lt (fst e) k \<and> in_limit comparator it e) es)"
  using seek_ready [OF assms, of k] by (auto simp: Seek_def)

lemma SeekToLast_key:
  assumes rep: "represents T es" and cmp: "tree_cmp T = comparator" and ne: "es \<noteq> []"
    and st: "Status_ok (it_status it)" "\<not> has_limit it"
  shows "\<exists>it'. SeekToLast T it = Some it' \<and> Valid T it' = Some True \<and>
    Iterator_key T it' = Some (fst (last es)) \<and> Iterator_value T it' = Some (snd (last es))"
proof -
  obtain t h where t: "gid t = root_id T" "pwf (tree_max T) (root_fill h) h (er t)"
    "sits (tree_max T) (GetNode T) t" "live T (set (ids t))" "h < tree_fuel T" "3 \<le> tree_max T"
    "chain_in T (leaves t)" "contents (leaves t) = es" "entries (er t) = es"
    using rep_leaves [OF rep] by metis
  obtain i nx kvs P where f: "last_leaf_loop (tree_fuel T) T (root_id T) = Some (Inr i)"
      "leaves t = P @ [(i, nx, kvs)]"
    using last_leaf_walk [OF t(4,3,2,5)] t(1) by auto
  have n: "0 < i" "GetNode T i = Some (lnode (tree_max T) nx kvs)"
    using t(7) f(2) by (auto simp: chain_in_def)
  have kvs: "kvs \<noteq> []"
  proof
    assume "kvs = []"
    show False
    proof (cases t)
      case (GLeaf j n x)
      with f(2) \<open>kvs = []\<close> t(8) ne show False by (cases P) auto
    next
      case (GNode j ks ts)
      with t(2) obtain h' where h: "h = Suc h'" by (cases h) auto
      have "(i, nx, kvs) \<in> set (leaves t)" using f(2) by simp
      then obtain c where "c \<in> set ts" "(i, nx, kvs) \<in> set (leaves c)" using GNode by auto
      moreover have "pwf (tree_max T) (tree_max T div 2) h' (er c)" using t(2) GNode h calculation by auto
      ultimately have "tree_max T div 2 \<le> length kvs" using leaf_fill by blast
      with \<open>kvs = []\<close> t(6) show False by simp
    qed
  qed
  define it' where "it' = it\<lparr>current_leaf := i, current_idx := length kvs - 1\<rparr>"
  have "SeekToLast T it = Some it'" using f(1) n kvs by (simp add: SeekToLast_def it'_def)
  moreover have v: "Valid T it' = Some True"
    using n kvs st by (cases kvs) (simp_all add: Valid_def AtEnd_def it'_def)
  moreover have "last es = kvs ! (length kvs - 1)" 
    using t(8) f(2) kvs last_conv_nth [OF kvs] by auto
  then have "Iterator_key T it' = Some (fst (last es))" "Iterator_value T it' = Some (snd (last es))"
    using v n kvs by (simp_all add: Iterator_key_def Iterator_value_def it'_def vec_defs)
  ultimately show ?thesis by blast
qed

end

end
