(* ===== verification/BTree_Verify.thy ===== *)
theory BTree_Verify
  imports BTree_Iter
begin

text \<open>
  \<open>BPlusTree::Verify\<close> of \<open>src/btree/btree.cpp\<close>, the run-time check of the tree's structure:
  it accepts every tree the operations can build.  The variables that the lambda
  \<open>verify_node\<close> captures are the record \<open>VState\<close>.
\<close>

record VState =
  v_leaves :: "nat list"
  v_counted :: nat
  v_expected_depth :: int
  v_ok :: bool

fun verify_children ::
  "(nat \<Rightarrow> VState \<Rightarrow> (bytes \<times> VState) option) \<Rightarrow> nat list \<Rightarrow> VState \<Rightarrow> (bytes list \<times> VState) option" where
  "verify_children rec [] st = Some ([], st)"
| "verify_children rec (c # cs) st = do {
     (f, st) \<leftarrow> rec c st;
     (fs, st) \<leftarrow> verify_children rec cs st;
     Some (f # fs, st)
   }"

definition verify_separator ::
  "Comparator option \<Rightarrow> bytes list \<Rightarrow> bytes list \<Rightarrow> nat \<Rightarrow> VState \<Rightarrow> VState option" where
  "verify_separator c keys firsts i st = do {
     f \<leftarrow> vec_get firsts i;
     if f \<noteq> [] then do {
       k \<leftarrow> vec_get keys (i - 1);
       Some (if Compare c k f \<noteq> 0 then st\<lparr>v_ok := False\<rparr> else st)
     } else Some st
   }"

definition verify_leaf :: "BPlusTree \<Rightarrow> nat \<Rightarrow> LeafNode \<Rightarrow> int \<Rightarrow> bool \<Rightarrow> VState \<Rightarrow> bytes \<times> VState" where
  "verify_leaf T nid leaf depth is_root st =
     (let st = (if \<not> KeysStrictlyIncreasing (leaf_keys leaf) (tree_cmp T) then st\<lparr>v_ok := False\<rparr> else st);
          st = (if \<not> is_root \<and> length (leaf_keys leaf) < tree_max T div 2 then st\<lparr>v_ok := False\<rparr> else st);
          st = (if v_expected_depth st < 0 then st\<lparr>v_expected_depth := depth\<rparr>
                else if v_expected_depth st \<noteq> depth then st\<lparr>v_ok := False\<rparr> else st);
          st = st\<lparr>v_counted := v_counted st + length (leaf_keys leaf), v_leaves := v_leaves st @ [nid]\<rparr>
      in (if leaf_keys leaf = [] then [] else hd (leaf_keys leaf), st))"

fun verify_node :: "nat \<Rightarrow> BPlusTree \<Rightarrow> nat \<Rightarrow> int \<Rightarrow> bool \<Rightarrow> VState \<Rightarrow> (bytes \<times> VState) option" where
  "verify_node 0 T nid depth is_root st = None"
| "verify_node (Suc n) T nid depth is_root st =
     (case GetNode T nid of
        None \<Rightarrow> Some ([], st\<lparr>v_ok := False\<rparr>)
      | Some (Leaf leaf) \<Rightarrow> Some (verify_leaf T nid leaf depth is_root st)
      | Some (Internal inn) \<Rightarrow> do {
          let st = (if length (inner_children inn) \<noteq> length (inner_keys inn) + 1 \<or> inner_children inn = []
                    then st\<lparr>v_ok := False\<rparr> else st);
          let st = (if \<not> is_root \<and> length (inner_keys inn) < tree_max T div 2 then st\<lparr>v_ok := False\<rparr> else st);
          let st = (if \<not> KeysStrictlyIncreasing (inner_keys inn) (tree_cmp T) then st\<lparr>v_ok := False\<rparr> else st);
          (firsts, st) \<leftarrow> verify_children (\<lambda>c st. verify_node n T c (depth + 1) False st) (inner_children inn) st;
          st \<leftarrow> for_range 1 (length firsts - 1) (verify_separator (tree_cmp T) (inner_keys inn) firsts) st;
          Some (if firsts = [] then [] else hd firsts, st)
        })"

text \<open>The walk over \<open>next_leaf\<close>; the result is \<open>ok\<close>.\<close>

function verify_chain :: "BPlusTree \<Rightarrow> nat list \<Rightarrow> nat \<Rightarrow> nat \<Rightarrow> bool \<Rightarrow> bool option" where
  "verify_chain T ls cur visited ok =
     (if cur \<noteq> 0 \<and> visited \<le> length ls then do {
        p \<leftarrow> leaf_ptr T cur;
        (case p of
           None \<Rightarrow> Some False
         | Some leaf \<Rightarrow>
             if visited \<ge> length ls \<or> ls ! visited \<noteq> cur then Some False
             else verify_chain T ls (leaf_next leaf) (visited + 1) ok)
      } else Some (if visited \<noteq> length ls \<or> cur \<noteq> 0 then False else ok))"
  by pat_completeness auto
termination
  by (relation "measure (\<lambda>(T, ls, cur, visited, ok). Suc (length ls) - visited)") auto

declare verify_chain.simps [simp del]

definition Verify :: "BPlusTree \<Rightarrow> bool option" where
  "Verify T =
     (if root_id T = 0 \<or> GetNode T (root_id T) = None then Some False
      else do {
        (f, st) \<leftarrow> verify_node (tree_fuel T) T (root_id T) 0 True
          \<lparr>v_leaves = [], v_counted = 0, v_expected_depth = - 1, v_ok = True\<rparr>;
        let ok = (if v_counted st \<noteq> tree_size T then False else v_ok st);
        if length (v_leaves st) > 1 then verify_chain T (v_leaves st) (hd (v_leaves st)) 0 ok
        else Some ok
      })"

section \<open>Well-formed trees pass\<close>

lemma verify_chain_ok:
  "chain_in T (drop v ls) \<Longrightarrow> v \<le> length ls \<Longrightarrow>
   verify_chain T (map fst ls) (lid 0 (drop v ls)) v True = Some True"
proof (induction "length ls - v" arbitrary: v)
  case 0
  then have "drop v ls = []" "v = length ls" by simp_all
  then show ?case by (subst verify_chain.simps) simp
next
  case (Suc d)
  then have v: "v < length ls" by simp
  obtain i nx kvs where l: "ls ! v = (i, nx, kvs)" by (cases "ls ! v")
  have dr: "drop v ls = (i, nx, kvs) # drop (Suc v) ls" using v l by (metis Cons_nth_drop_Suc)
  have c: "nx = lid 0 (drop (Suc v) ls)" "0 < i" "GetNode T i = Some (lnode (tree_max T) nx kvs)"
      "chain_in T (drop (Suc v) ls)"
    using Suc.prems(1) by (simp_all add: dr chain_in_Cons)
  have "verify_chain T (map fst ls) nx (Suc v) True = Some True"
    unfolding c(1) using Suc.hyps(2) v by (intro Suc.hyps(1) [OF _ c(4)]) simp_all
  then show ?case using c v l by (subst verify_chain.simps) (simp add: dr)
qed

definition verified :: "BPlusTree \<Rightarrow> int \<Rightarrow> nat \<Rightarrow> gtree list \<Rightarrow> VState \<Rightarrow> VState" where
  "verified T depth h ts st = st\<lparr>v_leaves := v_leaves st @ map fst (allleaves ts),
     v_counted := v_counted st + length (all_entries (map er ts)),
     v_expected_depth := (if ts = [] then v_expected_depth st else depth + int h)\<rparr>"

context key_order begin

lemma verify_separators_ok:
  assumes "length firsts = Suc (length ks)" and "ks = tl firsts"
  shows "for_range 1 (length firsts - 1) (verify_separator comparator ks firsts) st = Some st"
proof -
  have "\<exists>s'. for_range 1 (length firsts - 1) (verify_separator comparator ks firsts) st = Some s' \<and> s' = st"
  proof (rule for_range_total [where P = "\<lambda>i s. s = st"])
    fix i s
    assume i: "1 \<le> i" "i < 1 + (length firsts - 1)" and s: "s = st"
    have slot: "i - 1 < length ks" using i assms(1) by linarith
    then have "i - 1 < length (tl firsts)" using assms(2) by simp
    then have "ks ! (i - 1) = firsts ! i" using i unfolding assms(2) by (simp add: nth_tl)
    then have "Compare comparator (ks ! (i - 1)) (firsts ! i) = 0" by (simp only: cmp_eq)
    then show "\<exists>s'. verify_separator comparator ks firsts i s = Some s' \<and> s' = st"
      using i s assms(1) slot by (simp add: verify_separator_def vec_defs)
  qed simp
  then show ?thesis by blast
qed

lemma verify_children_ok:
  assumes "\<And>c st. c \<in> set ts \<Longrightarrow> v_ok st \<Longrightarrow> v_expected_depth st < 0 \<or> v_expected_depth st = depth + int h \<Longrightarrow>
      rec (gid c) st = Some (pfirst (er c), verified T depth h [c] st)"
    and "0 \<le> depth" and "v_ok st" and "v_expected_depth st < 0 \<or> v_expected_depth st = depth + int h"
  shows "verify_children rec (map gid ts) st = Some (map (pfirst \<circ> er) ts, verified T depth h ts st)"
  using assms
proof (induction ts arbitrary: st)
  case Nil
  then show ?case by (simp add: verified_def)
next
  case (Cons c ts)
  define st1 where "st1 = verified T depth h [c] st"
  have c: "rec (gid c) st = Some (pfirst (er c), st1)"
    unfolding st1_def by (rule Cons.prems(1)) (use Cons.prems in simp_all)
  have "verify_children rec (map gid ts) st1 = Some (map (pfirst \<circ> er) ts, verified T depth h ts st1)"
    by (rule Cons.IH) (use Cons.prems in \<open>simp_all add: st1_def verified_def\<close>)
  moreover have "verified T depth h ts st1 = verified T depth h (c # ts) st"
    by (simp add: st1_def verified_def)
  ultimately show ?case using c by simp
qed

lemma verify_node_ok:
  assumes "sits (tree_max T) (GetNode T) t" and "pwf (tree_max T) lo h (er t)" and "h < n"
    and "2 \<le> tree_max T" and "tree_cmp T = comparator" and "ordered (entries (er t))"
    and "is_root \<or> tree_max T div 2 \<le> lo" and "0 \<le> depth" and "v_ok st"
    and "v_expected_depth st < 0 \<or> v_expected_depth st = depth + int h"
  shows "verify_node n T (gid t) depth is_root st = Some (pfirst (er t), verified T depth h [t] st)"
  using assms
proof (induction n arbitrary: t lo h is_root depth st)
  case (Suc n)
  show ?case
  proof (cases t)
    case (GLeaf i nx kvs)
    then have h: "h = 0" "lo \<le> length kvs" using Suc.prems(2) by (cases h; simp)+
    have "KeysStrictlyIncreasing (keys_of kvs) comparator"
      using Suc.prems(6) GLeaf KeysStrictlyIncreasing_iff by simp
    then show ?thesis using Suc.prems GLeaf h
      by (auto simp: lnode_def verify_leaf_def verified_def Let_def hd_keys_of)
  next
    case (GNode i ks ts)
    with Suc.prems obtain h' where h: "h = Suc h'" by (cases h) auto
    define pts where "pts = map er ts"
    have w: "pts \<noteq> []" "ks = seps pts" "nodes_ok (tree_max T) h' pts" "ordered (all_entries pts)" "lo \<le> length ks"
      using Suc.prems(2,6) GNode h unfolding pts_def by auto
    have len: "length ts = Suc (length ks)" using w by (cases ts) (auto simp: pts_def)
    have inc: "KeysStrictlyIncreasing ks comparator"
      using seps_sorted [OF w(3) Suc.prems(4) w(4)] w(2) KeysStrictlyIncreasing_iff by simp
    have H: "GetNode T i = Some (inode (tree_max T) ks (map gid ts))" using Suc.prems(1) GNode by simp
    have dep: "depth + int h = (depth + 1) + int h'" by (simp add: h)
    have ch: "verify_children (\<lambda>c st. verify_node n T c (depth + 1) False st) (map gid ts) st =
        Some (map (pfirst \<circ> er) ts, verified T (depth + 1) h' ts st)"
    proof (rule verify_children_ok)
      fix c and st' :: VState
      assume c: "c \<in> set ts" and st': "v_ok st'"
        "v_expected_depth st' < 0 \<or> v_expected_depth st' = depth + 1 + int h'"
      have "ordered (entries (er c))"
      proof -
        obtain A B where "ts = A @ c # B" using c by (meson split_list)
        then show ?thesis using w(4) by (simp add: pts_def sorted_wrt_append)
      qed
      then show "verify_node n T (gid c) (depth + 1) False st' = Some (pfirst (er c), verified T (depth + 1) h' [c] st')"
        using Suc.prems GNode h c st' w(3)
        by (intro Suc.IH [where lo = "tree_max T div 2"]) (auto simp: pts_def)
    qed (use Suc.prems dep in auto)
    have firsts: "map (pfirst \<circ> er) ts = map pfirst pts" by (simp add: pts_def)
    have "for_range 1 (length (map pfirst pts) - 1) (verify_separator comparator ks (map pfirst pts)) s = Some s" for s
      by (rule verify_separators_ok) (use len w(2) in \<open>simp_all add: pts_def map_tl\<close>)
    then have "verify_node (Suc n) T (gid t) depth is_root st =
        Some (hd (map pfirst pts), verified T (depth + 1) h' ts st)"
      using GNode H len inc ch w(1,5) Suc.prems(5,7) unfolding firsts
      by (auto simp: inode_def Let_def pts_def)
    moreover have "hd (map pfirst pts) = pfirst (er t)"
      using w(1) by (simp add: GNode pfirst_PNode hd_map flip: pts_def)
    moreover have "verified T (depth + 1) h' ts st = verified T depth h [t] st"
      using w(1) by (simp add: verified_def GNode h pts_def)
    ultimately show ?thesis by simp
  qed
qed simp

lemma Verify_rep:
  assumes rep: "represents T es" and cmp: "tree_cmp T = comparator"
  shows "Verify T = Some True"
proof -
  obtain t h where t: "gid t = root_id T" "pwf (tree_max T) (root_fill h) h (er t)"
    "sits (tree_max T) (GetNode T) t" "live T (set (ids t))" "h < tree_fuel T" "3 \<le> tree_max T"
    "chain_in T (leaves t)" "contents (leaves t) = es" "entries (er t) = es" "ordered es" "tree_size T = length es"
    using rep_leaves [OF rep] cmp by metis
  have root: "GetNode T (root_id T) \<noteq> None" "root_id T \<noteq> 0"
    using sits_dom [OF t(3) gid_in_ids] t(1) live_pos [OF t(4)] gid_in_ids [of t] by (auto simp: live_dom)
  define st where "st = verified T 0 h [t] \<lparr>v_leaves = [], v_counted = 0, v_expected_depth = - 1, v_ok = True\<rparr>"
  have v: "verify_node (tree_fuel T) T (root_id T) 0 True
      \<lparr>v_leaves = [], v_counted = 0, v_expected_depth = - 1, v_ok = True\<rparr> = Some (pfirst (er t), st)"
    unfolding st_def t(1) [symmetric]
    by (rule verify_node_ok [OF t(3,2,5)]) (use t cmp in simp_all)
  have s: "v_leaves st = map fst (leaves t)" "v_counted st = tree_size T" "v_ok st"
    using t by (simp_all add: st_def verified_def)
  have "verify_chain T (map fst (leaves t)) (lid 0 (leaves t)) 0 True = Some True"
    using verify_chain_ok [of T 0 "leaves t"] t(7) by simp
  then show ?thesis
    using root v s by (cases "leaves t") (auto simp: Verify_def)
qed

end

end
