(* ===== verification/Store.thy ===== *)
theory Store
  imports BTree_Verify
begin

text \<open>
  The contract between the ordered store and its clients, as a locale: what the engine, the
  command line and the REST server rely on.  \<open>rep s es\<close> says that store \<open>s\<close> holds the
  entries \<open>es\<close>; the laws give the result of \<open>put\<close>, \<open>del\<close> and \<open>get\<close> in terms of
  \<open>es\<close>.  The lemmas for sequences of operations are proved once from the laws, and the B+ tree
  of \<open>BTree\<close> is shown to satisfy them for every comparator that is a total order.
\<close>

datatype store_op = PutOp bytes bytes | DeleteOp bytes

text \<open>A caller that issues operations and ignores their status, as the log replay does.\<close>

fun run_ops ::
  "(bytes \<Rightarrow> bytes \<Rightarrow> 's \<Rightarrow> (Status \<times> 's) option) \<Rightarrow> (bytes \<Rightarrow> 's \<Rightarrow> (Status \<times> 's) option)
   \<Rightarrow> store_op list \<Rightarrow> 's \<Rightarrow> 's option" where
  "run_ops put del [] s = Some s"
| "run_ops put del (PutOp k v # ops) s = do { (st, s) \<leftarrow> put k v s; run_ops put del ops s }"
| "run_ops put del (DeleteOp k # ops) s = do { (st, s) \<leftarrow> del k s; run_ops put del ops s }"

text \<open>The meaning of the operations on entry lists and on maps.\<close>

fun op_spec :: "Comparator option \<Rightarrow> store_op \<Rightarrow> entry list \<Rightarrow> entry list" where
  "op_spec c (PutOp k v) es = (if k = [] then es else put_spec c k v es)"
| "op_spec c (DeleteOp k) es = del_spec k es"

fun op_map :: "store_op \<Rightarrow> (bytes \<rightharpoonup> bytes) \<Rightarrow> (bytes \<rightharpoonup> bytes)" where
  "op_map (PutOp k v) m = (if k = [] then m else m(k \<mapsto> v))"
| "op_map (DeleteOp k) m = m(k := None)"

lemma run_ops_append:
  "run_ops put del (xs @ ys) s = do { s \<leftarrow> run_ops put del xs s; run_ops put del ys s }"
  by (induction put del xs s rule: run_ops.induct) (auto split: bind_splits)

section \<open>The contract\<close>

locale kv_store = key_order comparator for comparator +
  fixes rep :: "'s \<Rightarrow> entry list \<Rightarrow> bool"
    and put :: "bytes \<Rightarrow> bytes \<Rightarrow> 's \<Rightarrow> (Status \<times> 's) option"
    and del :: "bytes \<Rightarrow> 's \<Rightarrow> (Status \<times> 's) option"
    and get :: "'s \<Rightarrow> bytes \<Rightarrow> bytes option \<Rightarrow> (Status \<times> bytes option) option"
  assumes rep_ordered: "rep s es \<Longrightarrow> ordered es \<and> nonempty_keys es"
    and put_ok: "rep s es \<Longrightarrow> k \<noteq> [] \<Longrightarrow>
      \<exists>s'. put k v s = Some (Status_OK, s') \<and> rep s' (put_spec comparator k v es)"
    and put_empty: "put [] v s = Some (Status_InvalidArgument ''Key cannot be empty'', s)"
    and del_ok: "rep s es \<Longrightarrow> k \<in> set (keys_of es) \<Longrightarrow>
      \<exists>s'. del k s = Some (Status_OK, s') \<and> rep s' (del_spec k es)"
    and del_missing: "rep s es \<Longrightarrow> k \<notin> set (keys_of es) \<Longrightarrow>
      del k s = Some (Status_NotFound ''Key not found'', s)"
    and get_ok: "rep s es \<Longrightarrow> get s k (Some x) = Some (case map_of es k of
      Some v \<Rightarrow> (Status_OK, Some v) | None \<Rightarrow> (Status_NotFound ''Key not found'', Some x))"
begin

lemma put_total: "rep s es \<Longrightarrow> \<exists>st s'. put k v s = Some (st, s') \<and> rep s' (op_spec comparator (PutOp k v) es) \<and>
    st = (if k = [] then Status_InvalidArgument ''Key cannot be empty'' else Status_OK)"
  using put_ok put_empty by (cases "k = []") fastforce+

lemma del_total: "rep s es \<Longrightarrow> \<exists>st s'. del k s = Some (st, s') \<and> rep s' (op_spec comparator (DeleteOp k) es) \<and>
    st = (if k \<in> set (keys_of es) then Status_OK else Status_NotFound ''Key not found'')"
  using del_ok del_missing del_spec_absent by (cases "k \<in> set (keys_of es)") fastforce+

theorem run_ops_ok:
  "rep s es \<Longrightarrow> \<exists>s'. run_ops put del ops s = Some s' \<and> rep s' (fold (op_spec comparator) ops es)"
proof (induction ops arbitrary: s es)
  case (Cons op ops)
  show ?case
  proof (cases op)
    case (PutOp k v)
    from put_total [OF Cons.prems, of k v] obtain st s' where
      "put k v s = Some (st, s')" "rep s' (op_spec comparator (PutOp k v) es)" by blast
    with Cons.IH show ?thesis by (simp add: PutOp)
  next
    case (DeleteOp k)
    from del_total [OF Cons.prems, of k] obtain st s' where
      "del k s = Some (st, s')" "rep s' (op_spec comparator (DeleteOp k) es)" by blast
    with Cons.IH show ?thesis by (simp add: DeleteOp)
  qed
qed simp

lemma map_of_op_spec: "map_of (op_spec comparator op es) = op_map op (map_of es)"
  by (cases op) (simp_all add: map_of_put_spec map_of_del_spec)

lemma map_of_ops: "map_of (fold (op_spec comparator) ops es) = fold op_map ops (map_of es)"
  by (induction ops arbitrary: es) (simp_all add: map_of_op_spec)

text \<open>What a client reads after a sequence of operations.\<close>

theorem get_after_ops:
  assumes "rep s es"
  shows "\<exists>s'. run_ops put del ops s = Some s' \<and>
    get s' k (Some x) = Some (case fold op_map ops (map_of es) k of
      Some v \<Rightarrow> (Status_OK, Some v) | None \<Rightarrow> (Status_NotFound ''Key not found'', Some x))"
proof -
  obtain s' where s': "run_ops put del ops s = Some s'" "rep s' (fold (op_spec comparator) ops es)"
    using run_ops_ok [OF assms] by blast
  then show ?thesis using get_ok [OF s'(2), of k x] by (simp add: map_of_ops)
qed

end

section \<open>The B+ tree satisfies it\<close>

definition tree_store :: "Comparator option \<Rightarrow> BPlusTree \<Rightarrow> entry list \<Rightarrow> bool" where
  "tree_store c T es \<longleftrightarrow> represents T es \<and> tree_cmp T = c"

lemma tree_kv_store: "key_order c \<Longrightarrow> kv_store c (tree_store c) BPlusTree_Put BPlusTree_Delete BPlusTree_Get"
proof -
  assume o: "key_order c"
  show ?thesis
  proof (rule kv_store.intro [OF o], unfold_locales)
    show "sorted_wrt (key_lt c) (keys_of es) \<and> nonempty_keys es" if "tree_store c s es" for s es
      using that by (auto simp: tree_store_def represents_def tree_rep_def)
    show "\<exists>s'. BPlusTree_Put k v s = Some (Status_OK, s') \<and> tree_store c s' (put_spec c k v es)"
      if "tree_store c s es" "k \<noteq> []" for s es k v
      using key_order.Put_rep [OF o, of s es k v] that by (auto simp: tree_store_def)
    show "BPlusTree_Put [] v s = Some (Status_InvalidArgument ''Key cannot be empty'', s)" for v s
      by (simp add: BPlusTree_Put_def)
    show "\<exists>s'. BPlusTree_Delete k s = Some (Status_OK, s') \<and> tree_store c s' (del_spec k es)"
      if "tree_store c s es" "k \<in> set (keys_of es)" for s es k
      using key_order.Delete_rep [OF o, of s es k] that by (auto simp: tree_store_def)
    show "BPlusTree_Delete k s = Some (Status_NotFound ''Key not found'', s)"
      if "tree_store c s es" "k \<notin> set (keys_of es)" for s es k
      using key_order.Delete_rep [OF o, of s es k] that by (auto simp: tree_store_def)
    show "BPlusTree_Get s k (Some x) = Some (case map_of es k of
        Some v \<Rightarrow> (Status_OK, Some v) | None \<Rightarrow> (Status_NotFound ''Key not found'', Some x))"
      if "tree_store c s es" for s es k x
      using key_order.Get_rep [OF o, of s es k x] that by (auto simp: tree_store_def)
  qed
qed

interpretation default_tree: kv_store None "tree_store None" BPlusTree_Put BPlusTree_Delete BPlusTree_Get
  by (rule tree_kv_store) (rule default_order.key_order_axioms)

interpretation bytewise_tree:
  kv_store "Some BytewiseComparator" "tree_store (Some BytewiseComparator)" BPlusTree_Put BPlusTree_Delete BPlusTree_Get
  by (rule tree_kv_store) (rule bytewise_order.key_order_axioms)

lemma new_tree_store:
  "\<exists>T. BPlusTree_new opts = Some T \<and> tree_store (comparator opts) T [] \<and> tree_options T =
    opts\<lparr>max_keys_per_node := max 3 (max_keys_per_node opts)\<rparr>"
proof -
  obtain T where T: "BPlusTree_new opts = Some T" "represents T []" "tree_cmp T = comparator opts"
    using new_tree_rep by blast
  have "tree_options T = opts\<lparr>max_keys_per_node := max 3 (max_keys_per_node opts)\<rparr>"
    using T(1) by (cases opts) (auto simp: BPlusTree_new_def Let_def max_def split: bind_splits if_splits prod.splits)
  with T show ?thesis by (auto simp: tree_store_def)
qed

text \<open>The operations do not change the options.\<close>

lemma run_ops_tree:
  assumes o: "key_order c"
  shows "tree_store c T es \<Longrightarrow> \<exists>T'. run_ops BPlusTree_Put BPlusTree_Delete ops T = Some T' \<and>
    tree_store c T' (fold (op_spec c) ops es) \<and> tree_options T' = tree_options T"
proof (induction ops arbitrary: T es)
  case (Cons op ops)
  show ?case
  proof (cases op)
    case (PutOp k v)
    have "\<exists>st T'. BPlusTree_Put k v T = Some (st, T') \<and> tree_store c T' (op_spec c op es) \<and> tree_options T' = tree_options T"
    proof (cases "k = []")
      case False
      then show ?thesis using key_order.Put_rep [OF o, of T es k v] Cons.prems by (auto simp: tree_store_def PutOp)
    qed (use Cons.prems in \<open>simp add: BPlusTree_Put_def PutOp\<close>)
    then obtain st T' where r: "BPlusTree_Put k v T = Some (st, T')" "tree_store c T' (op_spec c op es)"
      "tree_options T' = tree_options T" by blast
    from Cons.IH [OF r(2)] r(1,3) show ?thesis by (auto simp: PutOp simp del: op_spec.simps)
  next
    case (DeleteOp k)
    have "\<exists>st T'. BPlusTree_Delete k T = Some (st, T') \<and> tree_store c T' (op_spec c op es) \<and> tree_options T' = tree_options T"
      using key_order.Delete_rep [OF o, of T es k] Cons.prems del_spec_absent [of k es]
      by (cases "k \<in> set (keys_of es)") (auto simp: tree_store_def DeleteOp)
    then obtain st T' where r: "BPlusTree_Delete k T = Some (st, T')" "tree_store c T' (op_spec c op es)"
      "tree_options T' = tree_options T" by blast
    from Cons.IH [OF r(2)] r(1,3) show ?thesis by (auto simp: DeleteOp simp del: op_spec.simps)
  qed
qed simp

section \<open>Size and height\<close>

lemma entries_lower: "pwf m (m div 2) h t \<Longrightarrow> m div 2 * Suc (m div 2) ^ h \<le> length (entries t)"
proof (induction h arbitrary: t)
  case (Suc h)
  then obtain ts where t: "t = PNode (seps ts) ts" "m div 2 \<le> length ts - 1" "ts \<noteq> []" "nodes_ok m h ts"
    by (auto simp: pwf_Suc)
  have "length ts * b \<le> length (all_entries ts)" if "\<forall>u\<in>set ts. b \<le> length (entries u)" for b
    using that by (induction ts) (auto simp: add_mono)
  then have "length ts * (m div 2 * Suc (m div 2) ^ h) \<le> length (entries t)" using Suc.IH t by simp
  moreover have "Suc (m div 2) \<le> length ts" using t(2,3) by (cases ts) auto
  then have "Suc (m div 2) * (m div 2 * Suc (m div 2) ^ h) \<le> length ts * (m div 2 * Suc (m div 2) ^ h)"
    by (rule mult_right_mono) simp
  ultimately show ?case by (simp add: algebra_simps)
qed auto

lemma entries_upper: "pwf m lo h t \<Longrightarrow> length (entries t) \<le> m * Suc m ^ h"
proof (induction h arbitrary: lo t)
  case (Suc h)
  then obtain ts where t: "t = PNode (seps ts) ts" "length ts - 1 \<le> m" "ts \<noteq> []" "nodes_ok m h ts"
    by (auto simp: pwf_Suc)
  have "length (all_entries ts) \<le> length ts * b" if "\<forall>u\<in>set ts. length (entries u) \<le> b" for b
    using that by (induction ts) (auto simp: add_mono)
  moreover have "\<forall>u\<in>set ts. length (entries u) \<le> m * Suc m ^ h" using Suc.IH t(4) by blast
  ultimately have "length (entries t) \<le> length ts * (m * Suc m ^ h)" using t(1) by simp
  also have "\<dots> \<le> Suc m * (m * Suc m ^ h)" using t(2,3) by (intro mult_right_mono) auto
  finally show ?case by (simp add: algebra_simps)
qed auto

lemma tree_bounds:
  assumes rep: "represents T es"
  defines "h \<equiv> tree_height T - 1" and "d \<equiv> tree_max T div 2"
  shows "tree_size T = length es" and "tree_size T \<le> tree_max T * Suc (tree_max T) ^ h"
    and "0 < h \<Longrightarrow> 2 * (d * Suc d ^ (h - 1)) \<le> tree_size T"
proof -
  obtain t k where r: "tree_rep T t k" "entries (er t) = es" using rep by (auto simp: represents_def)
  then have p: "pwf (tree_max T) (root_fill k) k (er t)" and hk: "h = k" and sz: "tree_size T = length es"
    by (auto simp: tree_rep_def h_def)
  show "tree_size T = length es" by (rule sz)
  show "tree_size T \<le> tree_max T * Suc (tree_max T) ^ h" using entries_upper [OF p] r(2) sz hk by simp
  assume "0 < h"
  then obtain k' where k: "k = Suc k'" using hk by (cases k) auto
  with p obtain ts where ts: "er t = PNode (seps ts) ts" "1 \<le> length ts - 1" "nodes_ok (tree_max T) k' ts"
    by (auto simp: pwf_Suc root_fill_def)
  then obtain a b us where "ts = a # b # us" by (cases ts; cases "tl ts") auto
  with ts entries_lower [of "tree_max T" k' a] entries_lower [of "tree_max T" k' b] r(2) sz
  have "d * Suc d ^ k' + d * Suc d ^ k' \<le> tree_size T" by (auto simp: d_def)
  then show "2 * (d * Suc d ^ (h - 1)) \<le> tree_size T" by (simp add: hk k)
qed

end
