(* ===== verification/Engine.thy ===== *)
theory Engine
  imports Wal_Properties Store
begin

text \<open>
  \<open>include/kv_engine.h\<close> and \<open>src/kv_engine.cpp\<close>: the engine writes every \<open>Put\<close> and
  \<open>Delete\<close> to the log and then applies it to the B+ tree; its constructor replays the log.
  An operation takes the answers of the system calls it makes (\<open>e\<close> for the log write, \<open>e'\<close> for
  the \<open>Sync\<close> after it).  The mutex serialises the operations, so they are state transformers.
\<close>

record KVEngineOptions =
  btree_options :: BTreeOptions
  engine_wal_options :: WalOptions
  enable_wal :: bool
  engine_sync_on_write :: bool

definition KVEngineOptions_default :: KVEngineOptions where
  "KVEngineOptions_default = \<lparr>btree_options = BTreeOptions_default, engine_wal_options = WalOptions_default,
     enable_wal = True, engine_sync_on_write = False\<rparr>"

record KVEngine =
  engine_options :: KVEngineOptions
  engine_tree :: BPlusTree
  engine_wal :: "Wal option"
  sequence_number :: u64

definition RecoveryCallback :: "WalRecordHeader \<Rightarrow> bytes \<Rightarrow> bytes \<Rightarrow> BPlusTree \<Rightarrow> BPlusTree option" where
  "RecoveryCallback header key val T =
     (if rec_type header = kPut then map_option snd (BPlusTree_Put key val T)
      else if rec_type header = kDelete then map_option snd (BPlusTree_Delete key T)
      else Some T)"

text \<open>The callback is called for the records in the order \<open>Recover\<close> delivers them.\<close>

fun replay :: "wal_record list \<Rightarrow> BPlusTree \<Rightarrow> BPlusTree option" where
  "replay [] T = Some T"
| "replay ((h, key, val) # rs) T = do { T \<leftarrow> RecoveryCallback h key val T; replay rs T }"

definition KVEngine_Recover :: "(bytes \<Rightarrow> u32) \<Rightarrow> (string \<Rightarrow> bool) \<Rightarrow> KVEngine \<Rightarrow> (Status \<times> KVEngine) option" where
  "KVEngine_Recover crc readable E =
     (case engine_wal E of
        None \<Rightarrow> Some (Status_OK, E)
      | Some w \<Rightarrow> do {
          (s, rs, max_sequence) \<leftarrow> Wal_Recover crc readable 0 w;
          T \<leftarrow> replay rs (engine_tree E);
          let E = E\<lparr>engine_tree := T\<rparr>;
          Some (s, if Status_ok s \<and> max_sequence > 0 then E\<lparr>sequence_number := max_sequence + 1\<rparr> else E)
        })"

text \<open>The constructor; a failed recovery only prints a warning.\<close>

definition KVEngine_new ::
  "(bytes \<Rightarrow> u32) \<Rightarrow> WalEnv \<Rightarrow> (string \<Rightarrow> bool) \<Rightarrow> KVEngineOptions \<Rightarrow> disk \<Rightarrow> KVEngine option" where
  "KVEngine_new crc e readable opts d = do {
     T \<leftarrow> BPlusTree_new (btree_options opts);
     let E = \<lparr>engine_options = opts, engine_tree = T, engine_wal = None, sequence_number = 1\<rparr>;
     if enable_wal opts
     then map_option snd (KVEngine_Recover crc readable (E\<lparr>engine_wal := Some (Wal_new e (engine_wal_options opts) d)\<rparr>))
     else Some E
   }"

text \<open>The destructor destroys the log.\<close>

definition KVEngine_destroy :: "WalEnv \<Rightarrow> KVEngine \<Rightarrow> Wal option" where
  "KVEngine_destroy e E = map_option (Wal_destroy e) (engine_wal E)"

text \<open>The part \<open>Put\<close> and \<open>Delete\<close> share: write the log, and sync it if asked to.\<close>

definition log_and_sync ::
  "WalEnv \<Rightarrow> (Wal \<Rightarrow> (Status \<times> Wal) option) \<Rightarrow> KVEngine \<Rightarrow> (Status \<times> KVEngine) option" where
  "log_and_sync e' write E =
     (case engine_wal E of
        None \<Rightarrow> Some (Status_OK, E)
      | Some w \<Rightarrow> do {
          (s, w) \<leftarrow> write w;
          let E = E\<lparr>engine_wal := Some w\<rparr>;
          if \<not> Status_ok s then Some (s, E)
          else if engine_sync_on_write (engine_options E)
          then let (s, w) = Wal_Sync e' w in Some (s, E\<lparr>engine_wal := Some w\<rparr>)
          else Some (s, E)
        })"

definition KVEngine_Put ::
  "(bytes \<Rightarrow> u32) \<Rightarrow> WalEnv \<Rightarrow> WalEnv \<Rightarrow> bytes \<Rightarrow> bytes \<Rightarrow> KVEngine \<Rightarrow> (Status \<times> KVEngine) option" where
  "KVEngine_Put crc e e' key val E = do {
     let seq = sequence_number E;
     let E = E\<lparr>sequence_number := sequence_number E + 1\<rparr>;
     (s, E) \<leftarrow> log_and_sync e' (Wal_Put crc e key val seq) E;
     if \<not> Status_ok s then Some (s, E)
     else do {
       (s, T) \<leftarrow> BPlusTree_Put key val (engine_tree E);
       Some (s, E\<lparr>engine_tree := T\<rparr>)
     }
   }"

definition KVEngine_Delete ::
  "(bytes \<Rightarrow> u32) \<Rightarrow> WalEnv \<Rightarrow> WalEnv \<Rightarrow> bytes \<Rightarrow> KVEngine \<Rightarrow> (Status \<times> KVEngine) option" where
  "KVEngine_Delete crc e e' key E = do {
     let seq = sequence_number E;
     let E = E\<lparr>sequence_number := sequence_number E + 1\<rparr>;
     (s, E) \<leftarrow> log_and_sync e' (Wal_Delete crc e key seq) E;
     if \<not> Status_ok s then Some (s, E)
     else do {
       (s, T) \<leftarrow> BPlusTree_Delete key (engine_tree E);
       Some (s, E\<lparr>engine_tree := T\<rparr>)
     }
   }"

definition KVEngine_Get :: "KVEngine \<Rightarrow> bytes \<Rightarrow> bytes option \<Rightarrow> (Status \<times> bytes option) option" where
  "KVEngine_Get E key val = BPlusTree_Get (engine_tree E) key val"

definition KVEngine_NewIterator :: "KVEngine \<Rightarrow> Iterator option" where
  "KVEngine_NewIterator E = NewIterator (engine_tree E)"

definition KVEngine_NewIterator_from :: "KVEngine \<Rightarrow> bytes \<Rightarrow> Iterator option" where
  "KVEngine_NewIterator_from E start = NewIterator_from (engine_tree E) start"

definition KVEngine_NewIterator_range :: "KVEngine \<Rightarrow> bytes \<Rightarrow> bytes \<Rightarrow> Iterator option" where
  "KVEngine_NewIterator_range E start limit = NewIterator_range (engine_tree E) start limit"

definition KVEngine_Flush :: "KVEngine \<Rightarrow> Status \<times> KVEngine" where
  "KVEngine_Flush E =
     (case engine_wal E of
        None \<Rightarrow> (Status_OK, E)
      | Some w \<Rightarrow> let (s, w) = Wal_Flush w in (s, E\<lparr>engine_wal := Some w\<rparr>))"

definition KVEngine_Sync :: "WalEnv \<Rightarrow> KVEngine \<Rightarrow> Status \<times> KVEngine" where
  "KVEngine_Sync e E =
     (case engine_wal E of
        None \<Rightarrow> (Status_OK, E)
      | Some w \<Rightarrow> let (s, w) = Wal_Sync e w in (s, E\<lparr>engine_wal := Some w\<rparr>))"

definition KVEngine_GetWalStats :: "KVEngine \<Rightarrow> WalStats" where
  "KVEngine_GetWalStats E =
     (case engine_wal E of
        Some w \<Rightarrow> Wal_GetStats w
      | None \<Rightarrow> \<lparr>st_total_writes = 0, st_total_bytes_written = 0, st_total_syncs = 0,
                 st_current_file_number = 0, st_current_file_size = 0\<rparr>)"

definition KVEngine_Size :: "KVEngine \<Rightarrow> nat" where
  "KVEngine_Size E = tree_size (engine_tree E)"

definition KVEngine_Verify :: "KVEngine \<Rightarrow> bool option" where
  "KVEngine_Verify E = Verify (engine_tree E)"

end
