(* ===== verification/Engine_Correct.thy ===== *)
theory Engine_Correct
  imports Engine
begin

text \<open>
  The engine as a simulation: a run of the engine drives its log through a \<open>log_run\<close> whose
  records, read as store operations, are the calls made, and its tree through the same
  operations.  Recovery replays them.
\<close>

section \<open>Records as operations\<close>

fun record_op :: "wal_record \<Rightarrow> store_op list" where
  "record_op (h, key, val) =
     (if rec_type h = kPut then [PutOp key val] else if rec_type h = kDelete then [DeleteOp key] else [])"

abbreviation log_ops :: "wal_record list \<Rightarrow> store_op list" where
  "log_ops rs \<equiv> concat (map record_op rs)"

definition record_seq :: "wal_record \<Rightarrow> u64" where
  "record_seq r = rec_sequence_number (fst r)"

lemma new_record_facts [simp]:
  "record_op (new_record crc e kind key val seq) =
     (if kind = kPut then [PutOp key val] else if kind = kDelete then [DeleteOp key] else [])"
  "record_seq (new_record crc e kind key val seq) = seq"
  by (simp_all add: new_record_def new_header_def record_seq_def Let_def)

lemma kinds_differ [simp]: "kDelete \<noteq> kPut" "kPut \<noteq> kDelete"
  by (simp_all add: record_types)

lemma replay_ops: "replay rs T = run_ops BPlusTree_Put BPlusTree_Delete (log_ops rs) T"
proof (induction rs T rule: replay.induct)
  case (2 h key val rs T)
  show ?case
  proof (cases "RecoveryCallback h key val T")
    case None
    then show ?thesis
      by (auto simp: RecoveryCallback_def run_ops_append split: if_splits bind_splits option.splits)
  next
    case (Some T')
    then show ?thesis
      using 2 [OF Some] by (auto simp: RecoveryCallback_def run_ops_append split: if_splits bind_splits option.splits)
  qed
qed simp

lemma max_seq_run:
  "map record_seq rs = map of_nat [Suc (unat m)..<Suc (unat m) + length rs] \<Longrightarrow> unat m + length rs < 2 ^ 64 \<Longrightarrow>
    max_seq_of rs m = (m + of_nat (length rs) :: u64)"
proof (induction rs rule: rev_induct)
  case (snoc r rs)
  obtain h key val where r: "r = (h, key, val)" by (metis prod_cases3)
  have "[Suc (unat m)..<Suc (unat m) + length (rs @ [r])] = [Suc (unat m)..<Suc (unat m) + length rs] @ [Suc (unat m + length rs)]" by simp
  then have seqs: "map record_seq rs = map of_nat [Suc (unat m)..<Suc (unat m) + length rs]" "record_seq r = of_nat (Suc (unat m + length rs))"
    using snoc.prems(1) by (simp_all only: map_append list.map append_eq_append_conv length_map length_upt list.inject)
       simp_all
  have m: "m + of_nat (length rs) = of_nat (unat m + length rs)" by simp
  have "(of_nat (unat m + length rs) :: u64) < of_nat (Suc (unat m + length rs))"
    using snoc.prems(2) by (simp add: word_less_nat_alt unsigned_of_nat take_bit_nat_eq_self del: of_nat_Suc of_nat_add)
  then have "max_seq_of (rs @ [r]) m = of_nat (Suc (unat m + length rs))"
    using snoc.IH [OF seqs(1)] snoc.prems(2) seqs(2) unfolding m by (simp add: max_seq_of_append r record_seq_def del: of_nat_Suc of_nat_add)
  then show ?case by (simp add: add.commute add.left_commute)
qed simp

section \<open>Runs of the engine\<close>

definition engine_fits :: "KVEngine \<Rightarrow> bytes \<Rightarrow> bytes \<Rightarrow> bool" where
  "engine_fits E key val \<longleftrightarrow> sequence_number E + 1 \<noteq> 0 \<and>
     (case engine_wal E of None \<Rightarrow> True | Some w \<Rightarrow> fits w key val \<and> current_file_number w + 1 \<noteq> 0)"

text \<open>
  The calls \<open>ops\<close>, with any number of \<open>Flush\<close> and \<open>Sync\<close> between them, have led from the engine \<open>E\<close> to
  \<open>F\<close>.  The run carries its conditions with it: no system call fails, the fields fit the write buffer of
  the log and the limit of its reader, and no counter wraps.
\<close>

inductive engine_run :: "(bytes \<Rightarrow> u32) \<Rightarrow> KVEngine \<Rightarrow> store_op list \<Rightarrow> KVEngine \<Rightarrow> bool" for crc E where
  start: "engine_run crc E [] E"
| put: "engine_run crc E ops F \<Longrightarrow> reliable e \<Longrightarrow> reliable e' \<Longrightarrow> engine_fits F key val \<Longrightarrow>
    KVEngine_Put crc e e' key val F = Some (s, G) \<Longrightarrow> engine_run crc E (ops @ [PutOp key val]) G"
| delete: "engine_run crc E ops F \<Longrightarrow> reliable e \<Longrightarrow> reliable e' \<Longrightarrow> engine_fits F key [] \<Longrightarrow>
    KVEngine_Delete crc e e' key F = Some (s, G) \<Longrightarrow> engine_run crc E (ops @ [DeleteOp key]) G"
| flush: "engine_run crc E ops F \<Longrightarrow> engine_run crc E ops (snd (KVEngine_Flush F))"
| sync: "engine_run crc E ops F \<Longrightarrow> reliable e \<Longrightarrow> engine_run crc E ops (snd (KVEngine_Sync e F))"

text \<open>\<open>engine_sim crc c w n F ops es\<close>: since its log was \<open>w\<close> and its next sequence number \<open>n\<close>, the engine
  \<open>F\<close> has executed \<open>ops\<close>; its tree holds \<open>es\<close>.\<close>

definition engine_sim ::
  "(bytes \<Rightarrow> u32) \<Rightarrow> Comparator option \<Rightarrow> Wal \<Rightarrow> nat \<Rightarrow> KVEngine \<Rightarrow> store_op list \<Rightarrow> entry list \<Rightarrow> bool" where
  "engine_sim crc c w n F ops es \<longleftrightarrow>
     tree_store c (engine_tree F) es \<and> sequence_number F = of_nat (n + length ops) \<and> n + length ops < 2 ^ 64 \<and>
     (\<exists>v rs. engine_wal F = Some v \<and> log_run crc reliable w rs v \<and> log_ops rs = ops \<and>
        map record_seq rs = map of_nat [n..<n + length ops])"

lemma reliable_healthy: "\<forall>e. reliable e \<longrightarrow> healthy e"
  by (simp add: reliable_def)

lemma log_and_sync_run:
  fixes kind :: u8
  assumes F: "engine_wal F = Some v" "log_run crc reliable w rs v" and log: "wal_log crc w L"
    and e: "reliable e" "reliable e'" and f: "fits v key val" "current_file_number v + 1 \<noteq> 0"
  shows "\<exists>u. log_and_sync e' (WriteRecord crc e kind key val seq) F = Some (Status_OK, F\<lparr>engine_wal := Some u\<rparr>) \<and>
    log_run crc reliable w (rs @ [new_record crc e kind key val seq]) u"
proof -
  obtain M where M: "wal_log crc v M" using log_run_log [OF F(2) log reliable_healthy] by blast
  have h: "healthy e" "healthy e'" using e by (simp_all add: reliable_def)
  obtain u M' where u: "WriteRecord crc e kind key val seq v = Some (Status_OK, u)" "wal_log crc u M'"
    using WriteRecord_log [OF M h(1) f(1), where kind = kind and seq = seq] f(2) by auto
  have run: "log_run crc reliable w (rs @ [new_record crc e kind key val seq]) u"
    using log_run.append [OF F(2) e(1) f u(1)] .
  show ?thesis
  proof (cases "engine_sync_on_write (engine_options F)")
    case True
    have "fst (Wal_Sync e' u) = Status_OK" using Sync_log(3) [OF u(2) h(2)] e(2) by (simp add: reliable_def)
    then obtain z where z: "Wal_Sync e' u = (Status_OK, z)" by (metis prod.collapse)
    then have "log_run crc reliable w (rs @ [new_record crc e kind key val seq]) z"
      using log_run.sync [OF run e(2)] by simp
    moreover have "log_and_sync e' (WriteRecord crc e kind key val seq) F = Some (Status_OK, F\<lparr>engine_wal := Some z\<rparr>)"
      using True u(1) z by (simp add: log_and_sync_def F(1))
    ultimately show ?thesis by blast
  next
    case False
    then have "log_and_sync e' (WriteRecord crc e kind key val seq) F = Some (Status_OK, F\<lparr>engine_wal := Some u\<rparr>)"
      using u(1) by (simp add: log_and_sync_def F(1))
    with run show ?thesis by blast
  qed
qed

text \<open>One call: the log records it, and the tree executes it.\<close>

lemma call_sim:
  fixes kind :: u8
  assumes sim: "engine_sim crc c w n F ops es" and log: "wal_log crc w L"
    and e: "reliable e" "reliable e'" and f: "engine_fits F key val"
    and op: "record_op (new_record crc e kind key val (sequence_number F)) = [op]"
    and tree: "tree_op (engine_tree F) = Some (s, T)" "tree_store c T (op_spec c op es)"
  defines "E \<equiv> F\<lparr>sequence_number := sequence_number F + 1\<rparr>"
  shows "\<exists>G. log_and_sync e' (WriteRecord crc e kind key val (sequence_number F)) E = Some (Status_OK, G) \<and>
    engine_tree G = engine_tree F \<and> engine_options G = engine_options F \<and>
    engine_sim crc c w n (G\<lparr>engine_tree := T\<rparr>) (ops @ [op]) (op_spec c op es)"
proof -
  obtain v rs where v: "engine_wal F = Some v" "log_run crc reliable w rs v" "log_ops rs = ops"
      "map record_seq rs = map of_nat [n..<n + length ops]"
    and seq: "sequence_number F = of_nat (n + length ops)" and less: "n + length ops < 2 ^ 64"
    using sim by (auto simp: engine_sim_def)
  have f': "fits v key val" "current_file_number v + 1 \<noteq> 0" "sequence_number F + 1 \<noteq> 0"
    using f v(1) by (auto simp: engine_fits_def)
  obtain u where u: "log_and_sync e' (WriteRecord crc e kind key val (sequence_number F)) E = Some (Status_OK, E\<lparr>engine_wal := Some u\<rparr>)"
    "log_run crc reliable w (rs @ [new_record crc e kind key val (sequence_number F)]) u"
    using log_and_sync_run [OF _ v(2) log e f'(1,2), of E kind "sequence_number F"] v(1) by (auto simp: E_def)
  have "n + length ops + 1 < 2 ^ 64"
  proof (rule ccontr)
    assume "\<not> n + length ops + 1 < 2 ^ 64"
    then have "n + length ops + 1 = 2 ^ 64" using less by simp
    then have "(of_nat (n + length ops + 1) :: u64) = of_nat (2 ^ 64)" by (simp only:)
    also have "\<dots> = 0" by simp
    finally show False using f'(3) by (simp add: seq algebra_simps)
  qed
  then have "engine_sim crc c w n (E\<lparr>engine_wal := Some u, engine_tree := T\<rparr>) (ops @ [op]) (op_spec c op es)"
    using tree u(2) v(3,4) op
    by (auto simp: engine_sim_def E_def seq intro!: exI [of _ "rs @ [new_record crc e kind key val (sequence_number F)]"])
  then show ?thesis using u(1) by (intro exI [of _ "E\<lparr>engine_wal := Some u\<rparr>"]) (simp add: E_def)
qed

lemma put_sim:
  assumes o: "key_order c" and sim: "engine_sim crc c w n F ops es" and log: "wal_log crc w L"
    and e: "reliable e" "reliable e'" and f: "engine_fits F key val"
  shows "\<exists>s G. KVEngine_Put crc e e' key val F = Some (s, G) \<and>
    s = (if key = [] then Status_InvalidArgument ''Key cannot be empty'' else Status_OK) \<and>
    engine_sim crc c w n G (ops @ [PutOp key val]) (op_spec c (PutOp key val) es) \<and> engine_options G = engine_options F"
proof -
  obtain s T where T: "BPlusTree_Put key val (engine_tree F) = Some (s, T)" "tree_store c T (op_spec c (PutOp key val) es)"
    "s = (if key = [] then Status_InvalidArgument ''Key cannot be empty'' else Status_OK)"
    using kv_store.put_total [OF tree_kv_store [OF o], of "engine_tree F" es key val] sim by (auto simp: engine_sim_def simp del: op_spec.simps)
  from call_sim [OF sim log e f, of kPut "PutOp key val" "BPlusTree_Put key val", OF _ T(1,2)] obtain G where
    "log_and_sync e' (Wal_Put crc e key val (sequence_number F)) (F\<lparr>sequence_number := sequence_number F + 1\<rparr>) = Some (Status_OK, G)"
    "engine_tree G = engine_tree F" "engine_options G = engine_options F"
    "engine_sim crc c w n (G\<lparr>engine_tree := T\<rparr>) (ops @ [PutOp key val]) (op_spec c (PutOp key val) es)"
    by (auto simp: Wal_Put_def [abs_def] simp del: op_spec.simps)
  then show ?thesis using T(1,3) by (simp add: KVEngine_Put_def Let_def del: op_spec.simps)
qed

lemma delete_sim:
  assumes o: "key_order c" and sim: "engine_sim crc c w n F ops es" and log: "wal_log crc w L"
    and e: "reliable e" "reliable e'" and f: "engine_fits F key []"
  shows "\<exists>s G. KVEngine_Delete crc e e' key F = Some (s, G) \<and>
    s = (if key \<in> set (keys_of es) then Status_OK else Status_NotFound ''Key not found'') \<and>
    engine_sim crc c w n G (ops @ [DeleteOp key]) (op_spec c (DeleteOp key) es) \<and> engine_options G = engine_options F"
proof -
  obtain s T where T: "BPlusTree_Delete key (engine_tree F) = Some (s, T)" "tree_store c T (op_spec c (DeleteOp key) es)"
    "s = (if key \<in> set (keys_of es) then Status_OK else Status_NotFound ''Key not found'')"
    using kv_store.del_total [OF tree_kv_store [OF o], of "engine_tree F" es key] sim by (auto simp: engine_sim_def simp del: op_spec.simps)
  from call_sim [OF sim log e f, of kDelete "DeleteOp key" "BPlusTree_Delete key", OF _ T(1,2)] obtain G where
    "log_and_sync e' (Wal_Delete crc e key (sequence_number F)) (F\<lparr>sequence_number := sequence_number F + 1\<rparr>) = Some (Status_OK, G)"
    "engine_tree G = engine_tree F" "engine_options G = engine_options F"
    "engine_sim crc c w n (G\<lparr>engine_tree := T\<rparr>) (ops @ [DeleteOp key]) (op_spec c (DeleteOp key) es)"
    by (auto simp: Wal_Delete_def [abs_def] simp del: op_spec.simps)
  then show ?thesis using T(1,3) by (simp add: KVEngine_Delete_def Let_def del: op_spec.simps)
qed

lemma engine_run_sim:
  assumes "engine_run crc E ops F" and o: "key_order c" and log: "wal_log crc w L"
    and "engine_sim crc c w n E [] es"
  shows "engine_sim crc c w n F ops (fold (op_spec c) ops es) \<and> engine_options F = engine_options E"
  using assms(1,4)
proof (induction rule: engine_run.induct)
  case (put ops F e e' key val s G)
  then show ?case using put_sim [OF o _ log put.hyps(2-4), of n ops "fold (op_spec c) ops es"]
    by (auto simp del: op_spec.simps)
next
  case (delete ops F e e' key s G)
  then show ?case using delete_sim [OF o _ log delete.hyps(2-4), of n ops "fold (op_spec c) ops es"]
    by (auto simp del: op_spec.simps)
next
  case (flush ops F)
  then show ?case using log_run.flush
    by (auto simp: engine_sim_def KVEngine_Flush_def split_beta simp del: op_spec.simps) blast
next
  case (sync ops F e)
  then show ?case using log_run.sync [of crc reliable w _ _ e]
    by (auto simp: engine_sim_def KVEngine_Sync_def split_beta simp del: op_spec.simps) blast
qed simp

section \<open>Recovery\<close>

lemma new_engine_recovers:
  assumes o: "key_order (comparator (btree_options opts))" and wal: "enable_wal opts"
    and rec: "Wal_Recover crc readable 0 (Wal_new e (engine_wal_options opts) d) = Some (Status_OK, rs, max_seq_of rs 0)"
  shows "\<exists>F. KVEngine_new crc e readable opts d = Some F \<and> engine_options F = opts \<and>
    engine_wal F = Some (Wal_new e (engine_wal_options opts) d) \<and>
    tree_store (comparator (btree_options opts)) (engine_tree F) (fold (op_spec (comparator (btree_options opts))) (log_ops rs) []) \<and>
    sequence_number F = (if max_seq_of rs 0 > 0 then max_seq_of rs 0 + 1 else 1)"
proof -
  obtain T where T: "BPlusTree_new (btree_options opts) = Some T" "tree_store (comparator (btree_options opts)) T []"
    using new_tree_store by blast
  obtain T' where T': "replay rs T = Some T'"
    "tree_store (comparator (btree_options opts)) T' (fold (op_spec (comparator (btree_options opts))) (log_ops rs) [])"
    using run_ops_tree [OF o T(2), of "log_ops rs"] by (auto simp: replay_ops)
  show ?thesis
    using T(1) T' wal rec by (simp add: KVEngine_new_def KVEngine_Recover_def Let_def)
qed

text \<open>
  The log files of a directory consist of the records \<open>rs\<close>, none of them torn, and the sequence numbers are not
  exhausted.
\<close>

definition log_holds :: "(bytes \<Rightarrow> u32) \<Rightarrow> disk \<Rightarrow> wal_record list \<Rightarrow> bool" where
  "log_holds crc d rs \<longleftrightarrow> (\<exists>L. disk_log crc d L \<and> records_of L = rs) \<and> max_seq_of rs 0 + 1 \<noteq> 0"

lemma log_holds_empty: "log_holds crc [] []"
  using disk_log_empty by (auto simp: log_holds_def records_of_def intro!: exI [of _ "[]"])

definition first_seq :: "wal_record list \<Rightarrow> nat" where
  "first_seq rs = Suc (unat (max_seq_of rs 0))"

lemma first_seq_Nil [simp]: "first_seq [] = Suc 0"
  by (simp add: first_seq_def)

lemma first_seq_less:
  assumes "max_seq_of rs 0 + 1 \<noteq> 0"
  shows "first_seq rs < 2 ^ 64"
proof -
  have "first_seq rs = unat (1 + max_seq_of rs 0)" using unatSuc [of "max_seq_of rs 0"] assms by (simp add: first_seq_def add.commute)
  also have "\<dots> < 2 ^ 64" using unsigned_less [of "1 + max_seq_of rs 0"] by simp
  finally show ?thesis .
qed

lemma first_seq_room:
  assumes "first_seq rs < 2 ^ 64"
  shows "max_seq_of rs 0 + 1 \<noteq> 0"
proof
  assume "max_seq_of rs 0 + 1 = 0"
  then have "max_seq_of rs 0 = - 1" by (simp add: eq_neg_iff_add_eq_0)
  then show False using assms by (simp add: first_seq_def unsigned_minus_1_eq_mask mask_eq_exp_minus_1)
qed

lemma first_seq_word: "(if max_seq_of rs 0 > 0 then max_seq_of rs 0 + 1 else 1) = (of_nat (first_seq rs) :: u64)"
  by (auto simp: first_seq_def word_gt_0 add.commute)

text \<open>An engine on such a directory.\<close>

lemma new_engine:
  assumes o: "key_order (comparator (btree_options opts))" and wal: "enable_wal opts" and e: "healthy e"
    and d: "log_holds crc d rs0" and E: "KVEngine_new crc e (\<lambda>name. True) opts d = Some E"
  shows "engine_sim crc (comparator (btree_options opts)) (Wal_new e (engine_wal_options opts) d) (first_seq rs0) E []
      (fold (op_spec (comparator (btree_options opts))) (log_ops rs0) [])"
    and "engine_options E = opts" and "engine_wal E = Some (Wal_new e (engine_wal_options opts) d)"
proof -
  obtain L where L: "disk_log crc d L" "records_of L = rs0" using d by (auto simp: log_holds_def)
  have "Wal_Recover crc (\<lambda>name. True) 0 (Wal_new e (engine_wal_options opts) d) = Some (Status_OK, rs0, max_seq_of rs0 0)"
    using reopen_recover [OF L(1) e] by (simp add: L(2))
  note n = new_engine_recovers [OF o wal this, unfolded first_seq_word]
  have "first_seq rs0 < 2 ^ 64" using d first_seq_less unfolding log_holds_def by blast
  with n E show "engine_sim crc (comparator (btree_options opts)) (Wal_new e (engine_wal_options opts) d) (first_seq rs0) E []
      (fold (op_spec (comparator (btree_options opts))) (log_ops rs0) [])"
    "engine_options E = opts" "engine_wal E = Some (Wal_new e (engine_wal_options opts) d)"
    by (auto simp: engine_sim_def intro: log_run.start)
qed

lemma new_engine_exists:
  assumes o: "key_order (comparator (btree_options opts))" and wal: "enable_wal opts" and e: "healthy e"
    and d: "log_holds crc d rs0"
  shows "\<exists>E. KVEngine_new crc e (\<lambda>name. True) opts d = Some E"
proof -
  obtain L where L: "disk_log crc d L" using d by (auto simp: log_holds_def)
  from new_engine_recovers [OF o wal reopen_recover [OF L e]] show ?thesis by blast
qed

text \<open>What a run leaves in the log and in the tree.\<close>

lemma run_facts:
  assumes o: "key_order (comparator (btree_options opts))" and wal: "enable_wal opts" and e: "healthy e"
    and d: "log_holds crc d rs0"
    and E: "KVEngine_new crc e (\<lambda>name. True) opts d = Some E" and run: "engine_run crc E ops F"
  obtains v rs where "engine_wal F = Some v" "log_run crc reliable (Wal_new e (engine_wal_options opts) d) rs v"
    "log_ops rs = ops" "map record_seq rs = map of_nat [first_seq rs0..<first_seq rs0 + length rs]" "length rs = length ops"
    "first_seq rs0 + length ops < 2 ^ 64" "sequence_number F = of_nat (first_seq rs0 + length ops)" "engine_options F = opts"
    "tree_store (comparator (btree_options opts)) (engine_tree F)
      (fold (op_spec (comparator (btree_options opts))) (log_ops rs0 @ ops) [])"
proof -
  let ?c = "comparator (btree_options opts)"
  note n = new_engine [OF o wal e d E]
  obtain L where "disk_log crc d L" using d by (auto simp: log_holds_def)
  then obtain L' where L': "wal_log crc (Wal_new e (engine_wal_options opts) d) L'" using Wal_new_log [OF _ e] by blast
  have s: "engine_sim crc ?c (Wal_new e (engine_wal_options opts) d) (first_seq rs0) F ops (fold (op_spec ?c) ops (fold (op_spec ?c) (log_ops rs0) []))"
      "engine_options F = opts"
    using engine_run_sim [OF run o L' n(1)] n(2) by simp_all
  then obtain v rs where v: "engine_wal F = Some v" "log_run crc reliable (Wal_new e (engine_wal_options opts) d) rs v"
    "log_ops rs = ops" "map record_seq rs = map of_nat [first_seq rs0..<first_seq rs0 + length ops]"
    by (auto simp: engine_sim_def)
  moreover from v(4) have "length rs = length ops" by (metis length_map length_upt add_diff_cancel_left')
  ultimately show thesis using that s by (auto simp: engine_sim_def)
qed

text \<open>The sequence number after a restart on the records of the run.\<close>

lemma max_seq_restart:
  assumes "map record_seq rs = map of_nat [first_seq rs0..<first_seq rs0 + length rs]" "first_seq rs0 + length rs < 2 ^ 64"
  shows "first_seq (rs0 @ rs) = first_seq rs0 + length rs"
proof -
  have "max_seq_of (rs0 @ rs) 0 = max_seq_of rs0 0 + of_nat (length rs)"
    using max_seq_run [of rs "max_seq_of rs0 0"] assms by (simp add: max_seq_of_append first_seq_def)
  then show ?thesis using assms(2) by (simp add: first_seq_def unat_word_ariths unsigned_of_nat take_bit_nat_eq_self)
qed

section \<open>Durability\<close>

lemma log_and_sync_durable:
  fixes kind :: u8
  assumes F: "engine_wal F = Some v" and log: "wal_log crc v M" and e: "reliable e" "reliable e'"
    and f: "fits v key val" "current_file_number v + 1 \<noteq> 0" and d: "fully_durable v"
    and sync: "engine_sync_on_write (engine_options F) \<or> wal_sync_on_write (wal_options v)"
    and r: "log_and_sync e' (WriteRecord crc e kind key val seq) F = Some (s, G)"
  shows "\<exists>u. engine_wal G = Some u \<and> fully_durable u \<and> wal_options u = wal_options v"
proof -
  have h: "healthy e" "fd_ok e" "fsync_ok e" "healthy e'" "fd_ok e'" "fsync_ok e'" using e by (simp_all add: reliable_def)
  obtain u where u: "WriteRecord crc e kind key val seq v = Some (Status_OK, u)"
    using WriteRecord_log [OF log h(1) f(1), where kind = kind and seq = seq] f(2) by auto
  obtain x N where x: "wal_log crc x N" "closed_durable x"
    "u = (if wal_sync_on_write (wal_options v) then snd (Wal_Sync e (FlushBuffer x)) else x)"
    using WriteRecord_closed [OF log h(1) f d u] .
  have lu: "\<exists>N. wal_log crc u N"
    using x(1,3) Sync_log(1) [OF FlushBuffer_log(1) [OF x(1)] h(1)] by auto
  have opts: "wal_options (snd (Wal_Sync e y)) = wal_options y" for e y
    by (simp add: Wal_Sync_def FlushBuffer_def Let_def)
  have wo: "wal_options u = wal_options v" using WriteRecord_options(1) [OF log h(1) f u] .
  show ?thesis
  proof (cases "wal_sync_on_write (wal_options v)")
    case True
    have du: "fully_durable u" using WriteRecord_durable [OF log h(1-3) f True d u] .
    then have "closed_durable u" by (auto simp: fully_durable_def closed_durable_def)
    then have "fully_durable (snd (Wal_Sync e' u))" using lu h by (auto intro: Sync_durable)
    with du show ?thesis
      using r u wo opts by (auto simp: log_and_sync_def F Let_def split_beta split: if_splits)
  next
    case False
    then have "engine_sync_on_write (engine_options F)" using sync by simp
    moreover have "fully_durable (snd (Wal_Sync e' u))" using x False h by (auto intro: Sync_durable)
    ultimately show ?thesis
      using r u wo opts by (auto simp: log_and_sync_def F Let_def split_beta split: if_splits)
  qed
qed

lemma Put_wal:
  "KVEngine_Put crc e e' key val F = Some (s, G) \<Longrightarrow>
    \<exists>s1 G1. log_and_sync e' (WriteRecord crc e kPut key val (sequence_number F)) (F\<lparr>sequence_number := sequence_number F + 1\<rparr>) =
      Some (s1, G1) \<and> engine_wal G = engine_wal G1"
  by (auto simp: KVEngine_Put_def Let_def Wal_Put_def [abs_def] split: bind_splits if_splits)

lemma Delete_wal:
  "KVEngine_Delete crc e e' key F = Some (s, G) \<Longrightarrow>
    \<exists>s1 G1. log_and_sync e' (WriteRecord crc e kDelete key [] (sequence_number F)) (F\<lparr>sequence_number := sequence_number F + 1\<rparr>) =
      Some (s1, G1) \<and> engine_wal G = engine_wal G1"
  by (auto simp: KVEngine_Delete_def Let_def Wal_Delete_def [abs_def] split: bind_splits if_splits)

lemma engine_run_durable:
  assumes "engine_run crc E ops F" and o: "key_order c" and log: "wal_log crc w L"
    and "engine_sim crc c w n E [] es" "engine_wal E = Some w" "fully_durable w"
    and "engine_sync_on_write (engine_options E) \<or> wal_sync_on_write (wal_options w)"
  shows "\<exists>v. engine_wal F = Some v \<and> fully_durable v \<and> wal_options v = wal_options w"
  using assms(1,4-7)
proof (induction rule: engine_run.induct)
  case (put ops F e e' key val s G)
  then obtain v where v: "engine_wal F = Some v" "fully_durable v" "wal_options v = wal_options w" by blast
  note sim = engine_run_sim [OF put.hyps(1) o log put.prems(1)]
  obtain M where M: "wal_log crc v M"
    using sim v(1) log_run_log [OF _ log reliable_healthy] by (auto simp: engine_sim_def)
  obtain s1 G1 where "log_and_sync e' (WriteRecord crc e kPut key val (sequence_number F)) (F\<lparr>sequence_number := sequence_number F + 1\<rparr>) =
      Some (s1, G1)" "engine_wal G = engine_wal G1" using Put_wal [OF put.hyps(5)] by blast
  then show ?case
    using log_and_sync_durable [OF _ M put.hyps(2,3) _ _ v(2), of "F\<lparr>sequence_number := sequence_number F + 1\<rparr>" key val] v sim
      put.hyps(4) put.prems(4) by (auto simp: engine_fits_def)
next
  case (delete ops F e e' key s G)
  then obtain v where v: "engine_wal F = Some v" "fully_durable v" "wal_options v = wal_options w" by blast
  note sim = engine_run_sim [OF delete.hyps(1) o log delete.prems(1)]
  obtain M where M: "wal_log crc v M"
    using sim v(1) log_run_log [OF _ log reliable_healthy] by (auto simp: engine_sim_def)
  obtain s1 G1 where "log_and_sync e' (WriteRecord crc e kDelete key [] (sequence_number F)) (F\<lparr>sequence_number := sequence_number F + 1\<rparr>) =
      Some (s1, G1)" "engine_wal G = engine_wal G1" using Delete_wal [OF delete.hyps(5)] by blast
  then show ?case
    using log_and_sync_durable [OF _ M delete.hyps(2,3) _ _ v(2), of "F\<lparr>sequence_number := sequence_number F + 1\<rparr>" key "[]"] v sim
      delete.hyps(4) delete.prems(4) by (auto simp: engine_fits_def)
next
  case (flush ops F)
  then obtain v where v: "engine_wal F = Some v" "fully_durable v" "wal_options v = wal_options w" by blast
  then have "FlushBuffer v = v \<or> FlushBuffer v = v\<lparr>pending := [], buffer_offset := 0\<rparr>"
    by (auto simp: FlushBuffer_def fully_durable_def unwritten_def)
  then have "fully_durable (FlushBuffer v)" using v(2) by (auto simp: fully_durable_def unwritten_def)
  moreover have "wal_options (FlushBuffer v) = wal_options v" by (simp add: FlushBuffer_def)
  ultimately show ?case using v by (simp add: KVEngine_Flush_def Wal_Flush_def)
next
  case (sync ops F e)
  then obtain v where v: "engine_wal F = Some v" "fully_durable v" "wal_options v = wal_options w" by blast
  obtain M where M: "wal_log crc v M"
    using engine_run_sim [OF sync.hyps(1) o log sync.prems(1)] v(1) log_run_log [OF _ log reliable_healthy]
    by (auto simp: engine_sim_def)
  have "fully_durable (snd (Wal_Sync e v))"
    using sync.hyps(2) v(2) by (intro Sync_durable [OF M]) (auto simp: reliable_def fully_durable_def closed_durable_def)
  moreover have "wal_options (snd (Wal_Sync e v)) = wal_options v" by (simp add: Wal_Sync_def FlushBuffer_def Let_def)
  ultimately show ?case using v by (simp add: KVEngine_Sync_def split_beta)
qed auto

end
