(* ===== verification/Tree_Properties.thy ===== *)
theory Tree_Properties
  imports Store
begin

text \<open>
  What the B+ tree promises its users, stated from construction on: a tree made by
  \<open>BPlusTree_new\<close> and then driven by any sequence of \<open>Put\<close> and \<open>Delete\<close> calls
  (\<open>run_ops\<close>).  The comparator is a parameter; it has to be a total order (\<open>key_order\<close>),
  which the default order and \<open>BytewiseComparator\<close> are.
\<close>

definition build_tree :: "BTreeOptions \<Rightarrow> store_op list \<Rightarrow> BPlusTree option" where
  "build_tree opts ops = do { T \<leftarrow> BPlusTree_new opts; run_ops BPlusTree_Put BPlusTree_Delete ops T }"

definition range_scan :: "BPlusTree \<Rightarrow> bytes option \<Rightarrow> bytes option \<Rightarrow> entry list option" where
  "range_scan T start limit = do { it \<leftarrow> Iterator_new T start limit; scan T it }"

definition small_options :: BTreeOptions where
  "small_options = \<lparr>page_size = 4096, max_keys_per_node = 3, comparator = None\<rparr>"

lemma build_tree_ok:
  assumes "key_order (comparator opts)"
  obtains T es where "build_tree opts ops = Some T" "tree_store (comparator opts) T es"
    "map_of es = fold op_map ops Map.empty" "tree_max T = max 3 (max_keys_per_node opts)"
proof -
  obtain T0 where T0: "BPlusTree_new opts = Some T0" "tree_store (comparator opts) T0 []"
      "tree_options T0 = opts\<lparr>max_keys_per_node := max 3 (max_keys_per_node opts)\<rparr>"
    using new_tree_store by blast
  obtain T where T: "run_ops BPlusTree_Put BPlusTree_Delete ops T0 = Some T"
      "tree_store (comparator opts) T (fold (op_spec (comparator opts)) ops [])" "tree_options T = tree_options T0"
    using run_ops_tree [OF assms T0(2)] by blast
  have "map_of (fold (op_spec (comparator opts)) ops []) = fold op_map ops Map.empty"
    using kv_store.map_of_ops [OF tree_kv_store [OF assms], of ops "[]"] by simp
  then show thesis using that T0 T by (simp add: build_tree_def)
qed

text \<open>
  C5.  Any sequence of insertions and deletions on a new tree returns (no undefined access, no
  endless walk), and a lookup afterwards returns \<open>OK\<close> with the value of the key's last
  insertion, or \<open>NotFound\<close> with the output untouched where the key was never inserted or deleted
  since.
\<close>

theorem tree_lookup_correct:
  assumes "key_order (comparator opts)"
  shows "\<exists>T. build_tree opts ops = Some T \<and>
    (\<forall>k x. BPlusTree_Get T k (Some x) = Some (case fold op_map ops Map.empty k of
       Some v \<Rightarrow> (Status_OK, Some v) | None \<Rightarrow> (Status_NotFound ''Key not found'', Some x)))"
proof -
  obtain T es where T: "build_tree opts ops = Some T" "tree_store (comparator opts) T es"
      "map_of es = fold op_map ops Map.empty"
    by (rule build_tree_ok [OF assms])
  then show ?thesis using kv_store.get_ok [OF tree_kv_store [OF assms] T(2)] by auto
qed

theorem tree_lookup_correct_witness:
  "\<exists>T. build_tree small_options [PutOp ''b'' ''1'', PutOp ''a'' ''2'', PutOp ''b'' ''3'', DeleteOp ''a''] = Some T \<and>
    BPlusTree_Get T ''b'' (Some []) = Some (Status_OK, Some ''3'') \<and>
    BPlusTree_Get T ''a'' (Some []) = Some (Status_NotFound ''Key not found'', Some [])"
  using tree_lookup_correct [of small_options "[PutOp ''b'' ''1'', PutOp ''a'' ''2'', PutOp ''b'' ''3'', DeleteOp ''a'']"]
    default_order.key_order_axioms
  by (auto simp: small_options_def)

text \<open>
  C9.  The structural check \<open>Verify\<close> accepts every tree the operations build: sorted nodes, node
  fill, uniform leaf depth, separators equal to the first key on their right, entry count, and the
  chain of leaves.
\<close>

theorem tree_verify_accepts:
  assumes "key_order (comparator opts)"
  shows "\<exists>T. build_tree opts ops = Some T \<and> Verify T = Some True"
proof -
  obtain T es where T: "build_tree opts ops = Some T" "tree_store (comparator opts) T es"
    by (rule build_tree_ok [OF assms])
  then show ?thesis using key_order.Verify_rep [OF assms, of T es] by (auto simp: tree_store_def)
qed

theorem tree_verify_accepts_witness:
  "\<exists>T. build_tree small_options [PutOp ''b'' ''1'', PutOp ''a'' ''2'', PutOp ''c'' ''3'', PutOp ''d'' ''4''] = Some T \<and>
    Verify T = Some True"
  using tree_verify_accepts [of small_options] default_order.key_order_axioms by (simp add: small_options_def)

text \<open>
  C10.  A range scan (\<open>NewIterator\<close> with optional start and limit, then \<open>Next\<close> while
  \<open>Valid\<close>) delivers exactly the live entries with \<open>start \<le> key < limit\<close>, in strictly
  increasing key order.  The node capacity is below \<open>2^31\<close> because the position in a leaf passes
  through an \<open>int\<close>.
\<close>

theorem tree_range_scan:
  assumes "key_order (comparator opts)" and "max_keys_per_node opts < 2 ^ 31"
  shows "\<exists>T es. build_tree opts ops = Some T \<and> range_scan T start limit = Some es \<and>
    sorted_wrt (key_lt (comparator opts)) (map fst es) \<and>
    (\<forall>k. map_of es k = (if in_range (comparator opts) start limit (k, []) then fold op_map ops Map.empty k else None))"
proof -
  define c where "c = comparator opts"
  obtain T es where T: "build_tree opts ops = Some T" "tree_store c T es"
      "map_of es = fold op_map ops Map.empty" "tree_max T = max 3 (max_keys_per_node opts)"
    unfolding c_def by (rule build_tree_ok [OF assms(1)])
  let ?es = "filter (in_range c start limit) es"
  have o: "key_order c" using assms(1) by (simp add: c_def)
  have m: "tree_max T < 2 ^ 31" using T(4) assms(2) by simp
  have s: "represents T es" "tree_cmp T = c" using T(2) by (auto simp: tree_store_def)
  have sorted: "sorted_wrt (key_lt c) (keys_of es)" using kv_store.rep_ordered [OF tree_kv_store [OF o] T(2)] by simp
  have "range_scan T start limit = Some ?es"
    using key_order.scan_range [OF o s m, of start limit] by (auto simp: range_scan_def)
  moreover have "sorted_wrt (key_lt c) (map fst ?es)"
    using key_order.ordered_filter [OF o sorted] by (simp add: keys_of_def)
  moreover have "in_range c start limit = (\<lambda>e. in_range c start limit (fst e, []))"
    by (rule ext) (cases start; cases limit; simp add: in_range_def)
  then have "map_of ?es k = (if in_range c start limit (k, []) then map_of es k else None)" for k
    using map_of_filter_key [of "\<lambda>k. in_range c start limit (k, [])" es k] by metis
  ultimately show ?thesis using T(1,3) c_def by auto
qed

theorem tree_range_scan_witness:
  "\<exists>T es. build_tree small_options [PutOp ''b'' ''1'', PutOp ''a'' ''2'', PutOp ''c'' ''3'', PutOp ''d'' ''4''] = Some T \<and>
    range_scan T (Some ''b'') (Some ''d'') = Some es \<and> map_of es ''c'' = Some ''3'' \<and> map_of es ''d'' = None"
proof -
  have a: "key_order (comparator small_options)" "max_keys_per_node small_options < 2 ^ 31"
    using default_order.key_order_axioms by (simp_all add: small_options_def)
  have "in_range None (Some ''b'') (Some ''d'') (''c'', [])" "\<not> in_range None (Some ''b'') (Some ''d'') (''d'', [])"
    by code_simp+
  then show ?thesis
    using tree_range_scan [OF a, of "[PutOp ''b'' ''1'', PutOp ''a'' ''2'', PutOp ''c'' ''3'', PutOp ''d'' ''4'']"
        "Some ''b''" "Some ''d''"]
    by (auto simp: small_options_def)
qed

text \<open>
  C25.  \<open>Put\<close> and \<open>Delete\<close> report their effect truthfully on every tree the operations build:
  \<open>Put\<close> fails with \<open>InvalidArgument\<close> exactly for the empty key, \<open>Delete\<close> fails with
  \<open>NotFound\<close> exactly when the key is absent, and a failing call leaves the tree as it was.
\<close>

theorem tree_status_truthful:
  assumes "key_order (comparator opts)"
  shows "\<exists>T. build_tree opts ops = Some T \<and>
    (\<forall>k v. \<exists>s T'. BPlusTree_Put k v T = Some (s, T') \<and>
      (if k = [] then s = Status_InvalidArgument ''Key cannot be empty'' \<and> T' = T else s = Status_OK)) \<and>
    (\<forall>k. \<exists>s T'. BPlusTree_Delete k T = Some (s, T') \<and>
      (if fold op_map ops Map.empty k = None then s = Status_NotFound ''Key not found'' \<and> T' = T else s = Status_OK))"
proof -
  obtain T es where T: "build_tree opts ops = Some T" "tree_store (comparator opts) T es"
      "map_of es = fold op_map ops Map.empty"
    by (rule build_tree_ok [OF assms])
  note tree = tree_kv_store [OF assms]
  have "\<exists>s T'. BPlusTree_Put k v T = Some (s, T') \<and>
      (if k = [] then s = Status_InvalidArgument ''Key cannot be empty'' \<and> T' = T else s = Status_OK)" for k v
    using kv_store.put_ok [OF tree T(2), of k v] kv_store.put_empty [OF tree, of v T] by (cases "k = []") auto
  moreover have "\<exists>s T'. BPlusTree_Delete k T = Some (s, T') \<and>
      (if fold op_map ops Map.empty k = None then s = Status_NotFound ''Key not found'' \<and> T' = T else s = Status_OK)" for k
  proof -
    have "fold op_map ops Map.empty k = None \<longleftrightarrow> k \<notin> set (keys_of es)"
      using map_of_eq_None_iff [of es k] T(3) by (simp add: keys_of_def)
    then show ?thesis
      using kv_store.del_ok [OF tree T(2), of k] kv_store.del_missing [OF tree T(2), of k]
      by (cases "k \<in> set (keys_of es)") auto
  qed
  ultimately show ?thesis using T(1) by blast
qed

theorem tree_status_truthful_witness:
  "\<exists>T s T'. build_tree small_options [PutOp ''a'' ''1''] = Some T \<and>
    BPlusTree_Delete ''a'' T = Some (Status_OK, T') \<and>
    BPlusTree_Delete ''b'' T = Some (Status_NotFound ''Key not found'', T)"
proof -
  have "key_order (comparator small_options)"
    using default_order.key_order_axioms by (simp add: small_options_def)
  from tree_status_truthful [OF this, of "[PutOp ''a'' ''1'']"] obtain T where T:
    "build_tree small_options [PutOp ''a'' ''1''] = Some T"
    "\<forall>k. \<exists>s T'. BPlusTree_Delete k T = Some (s, T') \<and>
      (if fold op_map [PutOp ''a'' ''1''] Map.empty k = None
       then s = Status_NotFound ''Key not found'' \<and> T' = T else s = Status_OK)" by blast
  from T(1) spec [OF T(2), of "''a''"] spec [OF T(2), of "''b''"] show ?thesis by auto
qed

text \<open>
  C27.  The tree is balanced: with \<open>d\<close> half the node capacity and \<open>h\<close> the number of levels
  above the leaves, a tree of size \<open>n\<close> has \<open>2 d (d + 1)^(h - 1) \<le> n \<le> m (m + 1)^h\<close>, so
  its height is logarithmic in its size; and the size is the number of live keys.
\<close>

theorem tree_balanced:
  assumes "key_order (comparator opts)"
  shows "\<exists>T. build_tree opts ops = Some T \<and> tree_size T = card (dom (fold op_map ops Map.empty)) \<and>
    (let m = tree_max T; d = m div 2; h = tree_height T - 1 in
      tree_size T \<le> m * Suc m ^ h \<and> (0 < h \<longrightarrow> 2 * (d * Suc d ^ (h - 1)) \<le> tree_size T))"
proof -
  obtain T es where T: "build_tree opts ops = Some T" "tree_store (comparator opts) T es"
      "map_of es = fold op_map ops Map.empty"
    by (rule build_tree_ok [OF assms])
  have r: "represents T es" using T(2) by (simp add: tree_store_def)
  have "distinct (keys_of es)"
    using kv_store.rep_ordered [OF tree_kv_store [OF assms] T(2)] key_order.ordered_distinct [OF assms] by blast
  then have "card (dom (map_of es)) = length es"
    by (simp add: dom_map_of_conv_image_fst keys_of_def distinct_card [of "map fst es", simplified])
  then show ?thesis using T(1,3) tree_bounds [OF r] by (auto simp: Let_def)
qed

theorem tree_balanced_witness:
  "\<exists>T. build_tree small_options [PutOp ''a'' ''1'', PutOp ''b'' ''2'', PutOp ''a'' ''3''] = Some T \<and> tree_size T = 2"
proof -
  have "key_order (comparator small_options)"
    using default_order.key_order_axioms by (simp add: small_options_def)
  moreover have "dom (fold op_map [PutOp ''a'' ''1'', PutOp ''b'' ''2'', PutOp ''a'' ''3''] Map.empty) = {''a'', ''b''}"
    by auto
  moreover have "card {''a'', ''b''} = 2" by simp
  ultimately show ?thesis
    using tree_balanced [of small_options "[PutOp ''a'' ''1'', PutOp ''b'' ''2'', PutOp ''a'' ''3'']"] by metis
qed

text \<open>
  C20.  One insertion on a well-formed tree: the arena code implements insertion into the sorted
  list of entries, and keeps the tree well-formed.
\<close>

theorem Put_refines:
  assumes "key_order (tree_cmp T)" and "represents T es" and "k \<noteq> []"
  shows "\<exists>T'. BPlusTree_Put k v T = Some (Status_OK, T') \<and>
    represents T' (put_spec (tree_cmp T) k v es) \<and> tree_options T' = tree_options T"
  by (rule key_order.Put_rep [OF assms(1,2) refl assms(3)])

theorem Put_refines_witness:
  "\<exists>T T'. BPlusTree_new small_options = Some T \<and> BPlusTree_Put ''k'' ''v'' T = Some (Status_OK, T') \<and>
    represents T' [(''k'', ''v'')]"
proof -
  obtain T where T: "BPlusTree_new small_options = Some T" "represents T []" "tree_cmp T = None"
    using new_tree_rep [of small_options] by (auto simp: small_options_def)
  then have "key_order (tree_cmp T)" using default_order.key_order_axioms by simp
  from Put_refines [OF this T(2), of "''k''" "''v''"] T show ?thesis by (auto simp: put_spec_def)
qed

text \<open>
  C19.  One deletion on a well-formed tree: with rebalancing, merging and root collapse the arena
  code implements removal from the sorted list of entries, and keeps the tree well-formed.
\<close>

theorem Delete_refines:
  assumes "key_order (tree_cmp T)" and "represents T es" and "k \<in> set (keys_of es)"
  shows "\<exists>T'. BPlusTree_Delete k T = Some (Status_OK, T') \<and> represents T' (del_spec k es) \<and>
    tree_options T' = tree_options T"
  using key_order.Delete_rep [OF assms(1,2) refl, of k] assms(3) by simp

theorem Delete_refines_witness:
  "\<exists>T T'. build_tree small_options [PutOp ''k'' ''v''] = Some T \<and> BPlusTree_Delete ''k'' T = Some (Status_OK, T') \<and>
    represents T' []"
proof -
  have o: "key_order (comparator small_options)"
    using default_order.key_order_axioms by (simp add: small_options_def)
  obtain T0 where T0: "BPlusTree_new small_options = Some T0" "tree_store (comparator small_options) T0 []"
    using new_tree_store by blast
  obtain T where T: "run_ops BPlusTree_Put BPlusTree_Delete [PutOp ''k'' ''v''] T0 = Some T"
      "tree_store (comparator small_options) T [(''k'', ''v'')]"
    using run_ops_tree [OF o T0(2), of "[PutOp ''k'' ''v'']"] by (auto simp: put_spec_def)
  then have r: "represents T [(''k'', ''v'')]" and "key_order (tree_cmp T)" using o by (simp_all add: tree_store_def)
  from Delete_refines [OF this(2,1), of "''k''"] T0 T show ?thesis
    by (auto simp: build_tree_def del_spec_def)
qed

text \<open>
  \<open>Seek\<close> on a well-formed tree leaves the iterator at the first entry whose key is not
  below the target (stopping at the limit), and the rest of the scan delivers all entries from there
  on; the iterator's own start key plays no part in it.
\<close>

theorem Seek_then_scan:
  assumes "key_order (tree_cmp T)" and "represents T es" and "tree_max T < 2 ^ 31"
    and "Status_ok (it_status it)"
  shows "\<exists>it'. Seek T k it = Some it' \<and>
    scan T it' = Some (filter (\<lambda>e. \<not> key_lt (tree_cmp T) (fst e) k \<and> in_limit (tree_cmp T) it e) es)"
proof -
  obtain it' where it': "Seek T k it = Some it'"
      "key_order.ready (tree_cmp T) T it' (filter (\<lambda>e. \<not> key_lt (tree_cmp T) (fst e) k \<and> in_limit (tree_cmp T) it e) es)"
    using key_order.Seek_ready [OF assms(1,2) refl assms(3,4)] by blast
  have "tree_size T = length es" using tree_bounds(1) [OF assms(2)] .
  then have "length (filter (\<lambda>e. \<not> key_lt (tree_cmp T) (fst e) k \<and> in_limit (tree_cmp T) it e) es) < Suc (tree_size T)"
    by (simp add: less_Suc_eq_le)
  then show ?thesis unfolding scan_def using it' key_order.ready_scan [OF assms(1) it'(2)] by blast
qed

theorem Seek_then_scan_witness:
  "\<exists>T it it'. BPlusTree_new small_options = Some T \<and> NewIterator T = Some it \<and> Seek T ''a'' it = Some it' \<and>
    scan T it' = Some []"
proof -
  obtain T where T: "BPlusTree_new small_options = Some T" "represents T []" "tree_cmp T = None" "tree_max T = 3"
    using new_tree_rep [of small_options] by (auto simp: small_options_def)
  have o: "key_order (tree_cmp T)" using T(3) default_order.key_order_axioms by simp
  have m: "tree_max T < 2 ^ 31" using T(4) by simp
  obtain it where it: "NewIterator T = Some it" "Status_ok (it_status it)"
    using key_order.Iterator_new_ready [OF o T(2) refl m, of None None]
    by (auto simp: NewIterator_def key_order.ready_def [OF o])
  from Seek_then_scan [OF o T(2) m it(2), of "''a''"] T it show ?thesis by auto
qed

text \<open>
  \<open>SeekToLast\<close> on a non-empty well-formed tree makes an iterator without limit valid and
  positions it at the entry with the greatest key.
\<close>

theorem SeekToLast_last:
  assumes "key_order (tree_cmp T)" and "represents T es" and "es \<noteq> []"
    and "Status_ok (it_status it)" and "\<not> has_limit it"
  shows "\<exists>it'. SeekToLast T it = Some it' \<and> Valid T it' = Some True \<and>
    Iterator_key T it' = Some (fst (last es)) \<and> Iterator_value T it' = Some (snd (last es))"
  by (rule key_order.SeekToLast_key [OF assms(1,2) refl assms(3-5)])

theorem SeekToLast_last_witness:
  "\<exists>T it it'. build_tree small_options [PutOp ''k'' ''v''] = Some T \<and> NewIterator T = Some it \<and>
    SeekToLast T it = Some it' \<and> Iterator_key T it' = Some ''k''"
proof -
  have o: "key_order (comparator small_options)"
    using default_order.key_order_axioms by (simp add: small_options_def)
  obtain T0 where T0: "BPlusTree_new small_options = Some T0" "tree_store (comparator small_options) T0 []"
    using new_tree_store by blast
  obtain T where T: "run_ops BPlusTree_Put BPlusTree_Delete [PutOp ''k'' ''v''] T0 = Some T"
      "tree_store (comparator small_options) T [(''k'', ''v'')]" "tree_options T = tree_options T0"
    using run_ops_tree [OF o T0(2), of "[PutOp ''k'' ''v'']"] by (auto simp: put_spec_def)
  then have r: "represents T [(''k'', ''v'')]" "tree_cmp T = None"
    by (simp_all add: tree_store_def small_options_def)
  have oT: "key_order (tree_cmp T)" using r(2) default_order.key_order_axioms by simp
  have "tree_max T < 2 ^ 31"
    using T(3) new_tree_store [of small_options] T0(1) by (auto simp: small_options_def)
  from key_order.FindFirst_ready [OF oT r(1) refl this, of "\<lparr>current_leaf = 0, current_idx = 0, has_start = False,
      has_limit = False, start_key = [], limit_key = [], it_status = Status_OK\<rparr>"]
  obtain it where it: "NewIterator T = Some it" "\<not> has_limit it" "Status_ok (it_status it)"
    by (auto simp: NewIterator_def Iterator_new_def key_order.ready_def [OF oT]) (metis Iterator.simps)
  from SeekToLast_last [OF oT r(1) _ it(3,2)] T0 T it show ?thesis by (auto simp: build_tree_def)
qed

end
