(* ===== verification/Engine_Properties.thy ===== *)
theory Engine_Properties
  imports Engine_Correct Tree_Properties
begin

text \<open>
  The properties of the engine: what a user reads after any calls, and what survives a shutdown
  or a crash.  \<open>answers E m\<close>: the engine answers every \<open>Get\<close> as the map \<open>m\<close> says.
\<close>

definition answers :: "KVEngine \<Rightarrow> (bytes \<rightharpoonup> bytes) \<Rightarrow> bool" where
  "answers E m \<longleftrightarrow> (\<forall>key x. KVEngine_Get E key (Some x) = Some (case m key of
     Some v \<Rightarrow> (Status_OK, Some v) | None \<Rightarrow> (Status_NotFound ''Key not found'', Some x)))"

abbreviation map_after :: "store_op list \<Rightarrow> bytes \<rightharpoonup> bytes" where
  "map_after ops \<equiv> fold op_map ops Map.empty"

lemma tree_store_answers:
  assumes o: "key_order c" and t: "tree_store c (engine_tree E) (fold (op_spec c) ops [])"
  shows "answers E (map_after ops)"
  using kv_store.get_ok [OF tree_kv_store [OF o] t] kv_store.map_of_ops [OF tree_kv_store [OF o], of ops "[]"]
  by (simp add: answers_def KVEngine_Get_def)

text \<open>What a range scan of the tree delivers, in terms of the map.\<close>

lemma range_facts:
  fixes start limit :: "bytes option"
  assumes o: "key_order c" and t: "tree_store c T (fold (op_spec c) ops [])"
  defines "f \<equiv> filter (in_range c start limit) (fold (op_spec c) ops [])"
  shows "sorted_wrt (key_lt c) (map fst f)"
    and "map_of f k = (if in_range c start limit (k, []) then map_after ops k else None)"
proof -
  let ?es = "fold (op_spec c) ops []"
  have "sorted_wrt (key_lt c) (keys_of ?es)" using kv_store.rep_ordered [OF tree_kv_store [OF o] t] by simp
  from key_order.ordered_filter [OF o this] show "sorted_wrt (key_lt c) (map fst f)" by (simp add: f_def keys_of_def)
  have "in_range c start limit = (\<lambda>e. in_range c start limit (fst e, []))"
    by (rule ext) (cases start; cases limit; simp add: in_range_def)
  then have "map_of f k = (if in_range c start limit (k, []) then map_of ?es k else None)"
    unfolding f_def using map_of_filter_key [of "\<lambda>k. in_range c start limit (k, [])" ?es k] by metis
  then show "map_of f k = (if in_range c start limit (k, []) then map_after ops k else None)"
    using kv_store.map_of_ops [OF tree_kv_store [OF o], of ops "[]"] by simp
qed

lemma log_run_trans:
  assumes "log_run crc ok v rs2 u" "log_run crc ok w rs1 v"
  shows "log_run crc ok w (rs1 @ rs2) u"
  using assms(1)
proof (induction rule: log_run.induct)
  case start
  then show ?case using assms(2) by simp
next
  case (append rs v e key val kind seq s v')
  from log_run.append [OF append.IH append.hyps(2-5)] show ?case by simp
qed (auto intro: log_run.intros)

lemma same_last_file:
  assumes "wal_log crc w L" "wal_log crc v L'" "grown L L'" "current_file_number v = current_file_number w"
  obtains K m xs where "L' = K @ [(m, xs)]" "set K \<subseteq> set L"
proof -
  obtain K n rs xs M where L: "L = K @ [(n, rs)]" "L' = K @ (n, rs @ xs) # M" using assms(3) by (auto simp: grown_def)
  have n: "n = fst (last L')" "sorted_wrt (<) (map fst L')" using assms(1,2,4) L(1) by (simp_all add: wal_log_def)
  then have "M = []" by (cases M rule: rev_cases) (auto simp: L(2) sorted_wrt_append)
  then show thesis using that L by auto
qed

lemma engine_run_trans:
  assumes "engine_run crc F ops2 G" "engine_run crc E ops1 F"
  shows "engine_run crc E (ops1 @ ops2) G"
  using assms(1)
proof (induction rule: engine_run.induct)
  case start
  then show ?case using assms(2) by simp
next
  case (put ops F e e' key val s G)
  from engine_run.put [OF put.IH put.hyps(2-5)] show ?case by simp
next
  case (delete ops F e e' key s G)
  from engine_run.delete [OF delete.IH delete.hyps(2-5)] show ?case by simp
qed (auto intro: engine_run.intros)

text \<open>A successful \<open>Sync\<close> makes the file being written durable.\<close>

lemma Sync_held:
  assumes log: "wal_log crc w (K @ [(n, rs)])" and e: "reliable e" and held: "held K w"
  shows "held (K @ [(n, rs)]) (snd (Wal_Sync e w))"
proof -
  have h: "healthy e" using e by (simp add: reliable_def)
  note l = Sync_log [OF log h]
  obtain f where f: "map_of (wal_disk (snd (Wal_Sync e w))) (log_name n) = Some f" "content f = encode_log rs"
    using last_file_bytes [of crc "snd (Wal_Sync e w)" K n rs] l(1,2) by auto
  moreover have "durable f = length (encode_log rs)"
    using durable_of_synced [of crc w K n rs, OF log e] f(1) by (simp add: durable_of_def)
  moreover have "held K (snd (Wal_Sync e w))" using held_grows [OF held synced_grows_Sync] .
  ultimately show ?thesis by (auto simp: held_def synced_part_def)
qed

text \<open>The records that the calls from a given state on add to the log.\<close>

lemma run_records:
  assumes o: "key_order c" and log: "wal_log crc w L"
    and F: "engine_wal F = Some w" "tree_store c (engine_tree F) es" "sequence_number F = of_nat n" "n < 2 ^ 64"
    and run: "engine_run crc F calls G" and G: "engine_wal G = Some v"
  obtains r where "log_run crc reliable w r v" "log_ops r = calls" "map record_seq r = map of_nat [n..<n + length r]"
    "length r = length calls" "n + length calls < 2 ^ 64" "sequence_number G = of_nat (n + length calls)"
proof -
  have "engine_sim crc c w n F [] es" using F by (auto simp: engine_sim_def intro: log_run.start)
  from engine_run_sim [OF run o log this] obtain r where r: "log_run crc reliable w r v" "log_ops r = calls"
    "map record_seq r = map of_nat [n..<n + length calls]" "n + length calls < 2 ^ 64" "sequence_number G = of_nat (n + length calls)"
    using G by (auto simp: engine_sim_def)
  moreover from r(3) have "length r = length calls" by (metis length_map length_upt add_diff_cancel_left')
  ultimately show thesis using that by simp
qed

section \<open>Shutdown and restart\<close>

lemma reopened:
  assumes o: "key_order (comparator (btree_options opts))" and wal: "enable_wal opts"
    and rec: "Wal_Recover crc (\<lambda>name. True) 0 (Wal_new e (engine_wal_options opts) d) = Some (Status_OK, rs, max_seq_of rs 0)"
  shows "\<exists>G. KVEngine_new crc e (\<lambda>name. True) opts d = Some G \<and> answers G (map_after (log_ops rs)) \<and>
    sequence_number G = (if max_seq_of rs 0 > 0 then max_seq_of rs 0 + 1 else 1)"
  using new_engine_recovers [OF o wal rec] tree_store_answers [OF o] by blast

lemma engine_restart_step:
  assumes "key_order (comparator (btree_options opts))" "enable_wal opts" "healthy e" "healthy e1" "healthy e2"
    and "log_holds crc d rs0" and "KVEngine_new crc e (\<lambda>name. True) opts d = Some E" and "engine_run crc E ops F"
  shows "answers F (map_after (log_ops rs0 @ ops)) \<and> (\<exists>w G rs. KVEngine_destroy e1 F = Some w \<and>
    KVEngine_new crc e2 (\<lambda>name. True) opts (wal_disk w) = Some G \<and> answers G (map_after (log_ops rs0 @ ops)) \<and>
    sequence_number G = sequence_number F \<and> log_holds crc (wal_disk w) rs \<and> log_ops rs = log_ops rs0 @ ops)"
proof -
  obtain v rs where v: "engine_wal F = Some v" "log_run crc reliable (Wal_new e (engine_wal_options opts) d) rs v"
    "log_ops rs = ops" "map record_seq rs = map of_nat [first_seq rs0..<first_seq rs0 + length rs]" "length rs = length ops"
    "first_seq rs0 + length ops < 2 ^ 64" "sequence_number F = of_nat (first_seq rs0 + length ops)"
    "tree_store (comparator (btree_options opts)) (engine_tree F)
      (fold (op_spec (comparator (btree_options opts))) (log_ops rs0 @ ops) [])"
    by (rule run_facts [OF assms(1-3,6-8)])
  obtain L0 where L0: "disk_log crc d L0" "records_of L0 = rs0" using assms(6) by (auto simp: log_holds_def)
  obtain L1 where L1: "wal_log crc (Wal_new e (engine_wal_options opts) d) L1" "records_of L1 = rs0"
    using Wal_new_log [OF L0(1) assms(3)] L0(2) by blast
  obtain L where L: "wal_log crc v L" "records_of L = rs0 @ rs"
    using log_run_log [OF v(2) L1(1) reliable_healthy] by (auto simp: L1(2))
  note dl = destroy_disk [OF L(1) assms(4)]
  have "Wal_Recover crc (\<lambda>name. True) 0 (Wal_new e2 (engine_wal_options opts) (wal_disk (Wal_destroy e1 v))) =
      Some (Status_OK, rs0 @ rs, max_seq_of (rs0 @ rs) 0)"
    using reopen_recover [OF dl assms(5)] L(2) by simp
  note re = reopened [OF assms(1,2) this, unfolded first_seq_word]
  have fs: "first_seq (rs0 @ rs) = first_seq rs0 + length ops" using max_seq_restart [OF v(4)] v(5,6) by simp
  have "log_holds crc (wal_disk (Wal_destroy e1 v)) (rs0 @ rs)"
    using dl L(2) first_seq_room [of "rs0 @ rs"] fs v(6) by (auto simp: log_holds_def)
  then have holds: "\<exists>rs. log_holds crc (wal_disk (Wal_destroy e1 v)) rs \<and> log_ops rs = log_ops rs0 @ ops"
    using v(3) by (intro exI [of _ "rs0 @ rs"]) simp
  obtain G where "KVEngine_new crc e2 (\<lambda>name. True) opts (wal_disk (Wal_destroy e1 v)) = Some G"
    "answers G (map_after (log_ops rs0 @ ops))" "sequence_number G = sequence_number F"
    using re v(3,7) fs by auto
  then show ?thesis
    using holds v(1) tree_store_answers [OF assms(1) v(8)] by (simp add: KVEngine_destroy_def del: fold_append)
qed

text \<open>
  C2. An engine created on an empty directory answers every lookup as the map that its calls
  describe; after a shutdown, an engine created on the same directory answers every lookup in the
  same way and continues with the same sequence number.
\<close>

theorem engine_restart:
  assumes "key_order (comparator (btree_options opts))" "enable_wal opts" "healthy e" "healthy e1" "healthy e2"
    and "KVEngine_new crc e (\<lambda>name. True) opts [] = Some E" and "engine_run crc E ops F"
  shows "answers F (map_after ops) \<and> (\<exists>w G. KVEngine_destroy e1 F = Some w \<and>
    KVEngine_new crc e2 (\<lambda>name. True) opts (wal_disk w) = Some G \<and> answers G (map_after ops) \<and>
    sequence_number G = sequence_number F)"
  using engine_restart_step [OF assms(1-5) log_holds_empty assms(6,7)] by auto

text \<open>
  A directory to start from: the log files consist of whole records, all of them are durable, and sequence
  numbers are left.
\<close>

definition intact :: "(bytes \<Rightarrow> u32) \<Rightarrow> disk \<Rightarrow> wal_record list \<Rightarrow> bool" where
  "intact crc d rs \<longleftrightarrow> log_holds crc d rs \<and> synced d"

lemma intact_empty: "intact crc [] []"
  by (simp add: intact_def log_holds_empty synced_def)

lemma engine_crash_durable_step:
  assumes "key_order (comparator (btree_options opts))" "enable_wal opts" "healthy e" "healthy e2"
    and "engine_sync_on_write opts \<or> wal_sync_on_write (engine_wal_options opts)"
    and "intact crc d0 rs0" and "KVEngine_new crc e (\<lambda>name. True) opts d0 = Some E" and "engine_run crc E ops F"
    and "engine_run crc F call F'" "length call \<le> 1"
    and "engine_wal F = Some w" "engine_wal F' = Some w'" "crash_between w w' d"
  shows "answers F (map_after (log_ops rs0 @ ops)) \<and>
    (\<exists>k G. KVEngine_new crc e2 (\<lambda>name. True) opts d = Some G \<and> answers G (map_after (log_ops rs0 @ ops @ take k call)) \<and>
      sequence_number G = sequence_number (if k = length call then F' else F) \<and>
      k \<le> length call \<and> (torn crc d \<longrightarrow> k < length call) \<and>
      (\<not> torn crc d \<longrightarrow> (\<exists>rs. intact crc d rs \<and> log_ops rs = log_ops rs0 @ ops @ take k call)))"
proof -
  let ?c = "comparator (btree_options opts)" and ?w0 = "Wal_new e (engine_wal_options opts) d0"
  have d0: "log_holds crc d0 rs0" "synced d0" using assms(6) by (simp_all add: intact_def)
  obtain rs where v: "log_run crc reliable ?w0 rs w"
    "log_ops rs = ops" "map record_seq rs = map of_nat [first_seq rs0..<first_seq rs0 + length rs]" "length rs = length ops"
    "first_seq rs0 + length ops < 2 ^ 64" "sequence_number F = of_nat (first_seq rs0 + length ops)"
    "tree_store ?c (engine_tree F) (fold (op_spec ?c) (log_ops rs0 @ ops) [])"
    using run_facts [OF assms(1-3) d0(1) assms(7,8)] assms(11) by (metis option.inject)
  obtain L0 where L0: "disk_log crc d0 L0" "records_of L0 = rs0" using d0(1) by (auto simp: log_holds_def)
  obtain L1 where L1: "wal_log crc ?w0 L1" "records_of L1 = rs0" "wal_options ?w0 = engine_wal_options opts"
    using Wal_new_log [OF L0(1) assms(3)] L0(2) by blast
  obtain L where L: "wal_log crc w L" "records_of L = rs0 @ rs"
    using log_run_log [OF v(1) L1(1) reliable_healthy] by (auto simp: L1(2))
  note n = new_engine [OF assms(1-3) d0(1) assms(7)]
  have "fully_durable w"
    using engine_run_durable [OF assms(8,1) L1(1) n(1,3) Wal_new_durable [OF L0(1) d0(2) assms(3)]] assms(5,11) L1(3) n(2) by auto
  note held = fully_durable_held [OF L(1) this]
  obtain r where r: "log_run crc reliable w r w'" "log_ops r = call"
    "map record_seq r = map of_nat [first_seq rs0 + length ops..<first_seq rs0 + length ops + length r]" "length r = length call"
    "first_seq rs0 + length ops + length call < 2 ^ 64" "sequence_number F' = of_nat (first_seq rs0 + length ops + length call)"
    by (rule run_records [OF assms(1) L(1) assms(11) v(7,6,5) assms(9,12)])
  obtain k where k: "\<And>ms. Wal_Recover crc (\<lambda>name. True) ms (Wal_new e2 (engine_wal_options opts) d) =
      Some (Status_OK, rs0 @ rs @ take k r, max_seq_of (rs0 @ rs @ take k r) 0)"
    "k \<le> length r" "torn crc d \<longrightarrow> k < length r"
    "\<not> torn crc d \<longrightarrow> (\<exists>M. disk_log crc d M \<and> records_of M = rs0 @ rs @ take k r)"
    using crash_log_durable [OF L(1) r(1) _ reliable_healthy held assms(13,4), of "engine_wal_options opts"] assms(10) r(4)
    by (auto simp: L(2))
  have part: "k = 0 \<or> k = length r" using k(2) r(4) assms(10) by linarith
  have ops: "log_ops (rs0 @ rs @ take k r) = log_ops rs0 @ ops @ take k call" using part v(2) r(2,4) by auto
  have "map record_seq (rs @ take k r) = map of_nat [first_seq rs0..<first_seq rs0 + length (rs @ take k r)]"
  proof (cases "k = 0")
    case False
    then have "take k r = r" using part by simp
    then show ?thesis using v(3,4) r(3) upt_add_eq_append [of "first_seq rs0" "first_seq rs0 + length ops" "length r"]
      by (simp add: add.assoc)
  qed (use v(3) in simp)
  from max_seq_restart [OF this] have fs: "first_seq (rs0 @ rs @ take k r) = first_seq rs0 + length ops + k"
    using v(4) r(4,5) k(2) by (simp add: min_absorb2)
  have small: "first_seq (rs0 @ rs @ take k r) < 2 ^ 64" using fs r(4,5) k(2) by simp
  obtain G where G: "KVEngine_new crc e2 (\<lambda>name. True) opts d = Some G"
    "answers G (map_after (log_ops (rs0 @ rs @ take k r)))" "sequence_number G = of_nat (first_seq (rs0 @ rs @ take k r))"
    using reopened [OF assms(1,2) k(1), unfolded first_seq_word] by blast
  have seq: "sequence_number G = sequence_number (if k = length call then F' else F)"
    using part r(4,6) v(6) G(3) unfolding fs by auto
  have whole: "\<exists>rs. intact crc d rs \<and> log_ops rs = log_ops rs0 @ ops @ take k call" if t: "\<not> torn crc d"
  proof -
    have "log_holds crc d (rs0 @ rs @ take k r)"
      using k(4) t first_seq_room [OF small] by (simp add: log_holds_def)
    with ops crash_between_synced [OF assms(13)] show ?thesis unfolding intact_def by blast
  qed
  show ?thesis
    using tree_store_answers [OF assms(1) v(7)] G(1) G(2) [unfolded ops] seq k(2,3) r(4) whole
    by (intro conjI exI [of _ k] exI [of _ G]) auto
qed

text \<open>
  C1. With \<open>sync_on_write\<close> of the engine or of its log no acknowledged write is lost.  An engine is started on a
  directory that is empty or that earlier runs left with whole, durable records, and while it runs no system call fails
  and every key and value fits into the write buffer.  After a crash at any moment, between two calls or inside one, an
  engine created on what is left of the directory answers every lookup as the map of all completed calls
  prescribes, or as that map changed by the call in flight.  Unless the crash tore the record of the call in
  flight, the directory is again one to start from, so this holds over any number of runs.
\<close>

theorem engine_crash_durable:
  assumes "key_order (comparator (btree_options opts))" "enable_wal opts" "healthy e" "healthy e2"
    and "engine_sync_on_write opts \<or> wal_sync_on_write (engine_wal_options opts)"
    and "intact crc d0 rs0" and "KVEngine_new crc e (\<lambda>name. True) opts d0 = Some E" and "engine_run crc E ops F"
    and "engine_run crc F call F'" "length call \<le> 1"
    and "engine_wal F = Some w" "engine_wal F' = Some w'" "crash_between w w' d"
  shows "answers F (map_after (log_ops rs0 @ ops)) \<and>
    (\<exists>k G. KVEngine_new crc e2 (\<lambda>name. True) opts d = Some G \<and> answers G (map_after (log_ops rs0 @ ops @ take k call)) \<and>
      sequence_number G = sequence_number (if k = length call then F' else F) \<and>
      k \<le> length call \<and> (torn crc d \<longrightarrow> k < length call) \<and>
      (\<not> torn crc d \<longrightarrow> (\<exists>rs. intact crc d rs \<and> log_ops rs = log_ops rs0 @ ops @ take k call)))"
  by (rule engine_crash_durable_step [OF assms])

lemma subseq_concat_map: "subseq xs ys \<Longrightarrow> subseq (concat (map f xs)) (concat (map f ys))"
proof (induction rule: list_emb.induct)
  case (list_emb_Cons xs ys y)
  then show ?case using list_emb_append2 [of "(=)" "concat (map f xs)" "concat (map f ys)" "f y"] by simp
next
  case (list_emb_Cons2 x y xs ys)
  then show ?case by (auto intro: list_emb_append_mono)
qed simp

text \<open>
  C7. Without \<open>sync_on_write\<close>, on an engine that was started on a directory that is empty or that holds whole,
  durable records, a successful \<open>Sync\<close> is a durability barrier as long as the log was not rotated since the
  start, no system call fails and every key and value fits into the write buffer: after a crash at any later
  moment, also inside a call, the reopened engine holds the result of the recovered records and all calls made before
  the \<open>Sync\<close>, followed by some of the later calls in their order.
\<close>

theorem engine_sync_barrier:
  assumes "key_order (comparator (btree_options opts))" "enable_wal opts" "healthy e" "reliable e1" "healthy e2"
    and "intact crc d0 rs0" and "KVEngine_new crc e (\<lambda>name. True) opts d0 = Some E" and "engine_run crc E ops1 F1"
    and "engine_wal E = Some w0" "engine_wal F1 = Some w1" "current_file_number w1 = current_file_number w0"
    and "engine_run crc (snd (KVEngine_Sync e1 F1)) ops2 F" and "engine_run crc F calls F'"
    and "engine_wal F = Some w" "engine_wal F' = Some w'" "crash_between w w' d"
  shows "\<exists>G ops. KVEngine_new crc e2 (\<lambda>name. True) opts d = Some G \<and> answers G (map_after ops) \<and>
    prefix (log_ops rs0 @ ops1) ops \<and> subseq ops (log_ops rs0 @ ops1 @ ops2 @ calls)"
proof -
  let ?c = "comparator (btree_options opts)"
  have d0: "log_holds crc d0 rs0" "synced d0" using assms(6) by (simp_all add: intact_def)
  note n = new_engine [OF assms(1-3) d0(1) assms(7)]
  have w0: "w0 = Wal_new e (engine_wal_options opts) d0" using n(3) assms(9) by simp
  obtain rs1 where v: "log_run crc reliable w0 rs1 w1" "log_ops rs1 = ops1"
    "sequence_number F1 = of_nat (first_seq rs0 + length ops1)" "first_seq rs0 + length ops1 < 2 ^ 64"
    "tree_store ?c (engine_tree F1) (fold (op_spec ?c) (log_ops rs0 @ ops1) [])"
    using run_facts [OF assms(1-3) d0(1) assms(7,8)] assms(10) w0 by (metis option.inject)
  obtain K0 where K0: "disk_log crc d0 K0" "records_of K0 = rs0" using d0(1) by (auto simp: log_holds_def)
  obtain L0 where L0: "wal_log crc w0 L0" "records_of L0 = rs0" using Wal_new_log [OF K0(1) assms(3)] K0(2) w0 by blast
  have held0: "held L0 w0" using fully_durable_held [OF L0(1)] Wal_new_durable [OF K0(1) d0(2) assms(3)] w0 by blast
  obtain L1 where L1: "wal_log crc w1 L1" "records_of L1 = rs0 @ rs1" "grown L0 L1"
    using log_run_grown [OF v(1) L0(1) reliable_healthy] by (auto simp: L0(2))
  obtain K m xs where L1K: "L1 = K @ [(m, xs)]" "set K \<subseteq> set L0"
    using same_last_file [OF L0(1) L1(1,3) assms(11)] by blast
  have "held K w1"
    using held_grows [OF held0 log_run_synced [OF v(1) L0(1) reliable_healthy]] L1K(2) by (auto simp: held_def)
  define w2 where "w2 = snd (Wal_Sync e1 w1)"
  have s: "held L1 w2" "wal_log crc w2 L1"
    using Sync_held [OF L1(1) [unfolded L1K(1)] assms(4) \<open>held K w1\<close>] Sync_log(1) [OF L1(1)] assms(4)
    by (simp_all add: w2_def L1K(1) reliable_def)
  define F2 where "F2 = snd (KVEngine_Sync e1 F1)"
  have F2: "engine_wal F2 = Some w2" "engine_tree F2 = engine_tree F1" "sequence_number F2 = sequence_number F1"
    by (simp_all add: F2_def KVEngine_Sync_def assms(10) split_beta w2_def)
  have run2: "engine_run crc F2 (ops2 @ calls) F'" by (rule engine_run_trans [OF assms(13) assms(12) [folded F2_def]])
  obtain rs2 where r2: "log_run crc reliable w2 rs2 w" 
    by (rule run_records [OF assms(1) s(2) F2(1) _ _ v(4) assms(12) [folded F2_def] assms(14)]) (use F2 v(3,5) in auto)
  obtain rs3 where r3: "log_run crc reliable w2 rs3 w'" "log_ops rs3 = ops2 @ calls"
    by (rule run_records [OF assms(1) s(2) F2(1) _ _ v(4) run2 assms(15)]) (use F2 v(3,5) in auto)
  obtain L3 where L3: "wal_log crc w' L3" "records_of L3 = rs0 @ rs1 @ rs3" "grown L1 L3"
    using log_run_grown [OF r3(1) s(2) reliable_healthy] by (auto simp: L1(2))
  have held: "held L1 w" by (rule held_grows [OF s(1) log_run_synced [OF r2 s(2) reliable_healthy]])
  define rs where "rs = crash_records d L3"
  have rs: "prefix (rs0 @ rs1) rs" "subseq rs (rs0 @ rs1 @ rs3)"
    using held_survives [OF held assms(16) L3(3)] crash_records_subseq [of d L3] by (simp_all add: rs_def L1(2) L3(2))
  have ops: "prefix (log_ops rs0 @ ops1) (log_ops rs)" "subseq (log_ops rs) (log_ops rs0 @ ops1 @ ops2 @ calls)"
    using rs(1) subseq_concat_map [OF rs(2), of record_op] v(2) r3(2) by (auto simp: prefix_def)
  from reopened [OF assms(1,2), of crc e2 d rs] crash_between_recover [OF L3(1) assms(16,5)] ops
  show ?thesis by (auto simp: rs_def)
qed

text \<open>
  A \<open>Put\<close> that is refused because the log could not be synced is not forgotten: the engine
  answers as if it had not happened, but an engine created later on the same directory has the value.
\<close>

theorem engine_failed_put_reappears:
  assumes "key_order (comparator (btree_options opts))" "enable_wal opts" "healthy e" "healthy e1" "healthy e2"
    and "engine_sync_on_write opts" and "fd_ok e1" "\<not> fsync_ok e1" and "key \<noteq> []"
    and "KVEngine_new crc e (\<lambda>name. True) opts [] = Some E" and "engine_fits E key val"
  shows "\<exists>F w G. KVEngine_Put crc e e1 key val E = Some (Status_IOError ''Failed to sync WAL to disk'', F) \<and>
    answers F Map.empty \<and> KVEngine_destroy e2 F = Some w \<and>
    KVEngine_new crc e2 (\<lambda>name. True) opts (wal_disk w) = Some G \<and> answers G [key \<mapsto> val]"
proof -
  let ?c = "comparator (btree_options opts)" and ?w0 = "Wal_new e (engine_wal_options opts) []"
  note n = new_engine [OF assms(1-3) log_holds_empty assms(10)]
  obtain L0 where L0: "wal_log crc ?w0 L0" "records_of L0 = []" using new_log [OF assms(3)] by blast
  have f: "fits ?w0 key val" "current_file_number ?w0 + 1 \<noteq> 0" using assms(11) n(3) by (auto simp: engine_fits_def)
  define r where "r = new_record crc e kPut key val (sequence_number E)"
  obtain u L1 where u: "WriteRecord crc e kPut key val (sequence_number E) ?w0 = Some (Status_OK, u)" "wal_log crc u L1"
    "L1 = (if rotates ?w0 key val then add_record r (L0 @ [(Suc (unat (current_file_number ?w0)), [])]) else add_record r L0)"
    using WriteRecord_log [OF L0(1) assms(3) f(1), where kind = kPut and seq = "sequence_number E"] f(2) unfolding r_def by blast
  have rec: "records_of L1 = [r]" using L0 u(3) by (auto simp: records_of_add records_of_rotate wal_log_def)
  note s = Sync_log [OF u(2) assms(4)]
  define z where "z = snd (Wal_Sync e1 u)"
  have sync: "Wal_Sync e1 u = (Status_IOError ''Failed to sync WAL to disk'', z)"
    using s(3) assms(7,8) by (simp add: z_def prod_eq_iff)
  have z: "wal_log crc z L1" using s(1) by (simp add: z_def)
  define F where "F = E\<lparr>sequence_number := sequence_number E + 1, engine_wal := Some z\<rparr>"
  have put: "KVEngine_Put crc e e1 key val E = Some (Status_IOError ''Failed to sync WAL to disk'', F)"
    using n(2,3) u(1) sync assms(6) by (simp add: KVEngine_Put_def log_and_sync_def Wal_Put_def F_def Let_def)
  have "tree_store ?c (engine_tree F) (fold (op_spec ?c) [] [])" using n(1) by (simp add: engine_sim_def F_def)
  then have aF: "answers F Map.empty" using tree_store_answers [OF assms(1)] by fastforce
  have "Wal_Recover crc (\<lambda>name. True) 0 (Wal_new e2 (engine_wal_options opts) (wal_disk (Wal_destroy e2 z))) =
      Some (Status_OK, [r], max_seq_of [r] 0)"
    using reopen_recover [OF destroy_disk [OF z assms(5)] assms(5)] rec by simp
  from reopened [OF assms(1,2) this] obtain G where
    "KVEngine_new crc e2 (\<lambda>name. True) opts (wal_disk (Wal_destroy e2 z)) = Some G" "answers G [key \<mapsto> val]"
    using assms(9) by (auto simp: r_def)
  then show ?thesis using put aF by (auto simp: KVEngine_destroy_def F_def)
qed

section \<open>One call\<close>

lemma fold_after_log: "fold f (xs @ ys) z = fold f ys (fold f xs z)"
  by simp

lemma started_log:
  assumes "healthy e" "log_holds crc d rs"
  obtains L where "wal_log crc (Wal_new e opts d) L" "records_of L = rs"
  using assms Wal_new_log by (fastforce simp: log_holds_def)

text \<open>What a call returns on an engine that runs over a directory with whole records.\<close>

lemma engine_run_map:
  assumes "key_order (comparator (btree_options opts))" "enable_wal opts" "healthy e"
    and "log_holds crc d rs0" and "KVEngine_new crc e (\<lambda>name. True) opts d = Some E" and "engine_run crc E ops F"
  shows "answers F (map_after (log_ops rs0 @ ops))"
  by (rule run_facts [OF assms]) (rule tree_store_answers [OF assms(1)])

lemma engine_put_step:
  assumes new: "key_order (comparator (btree_options opts))" "enable_wal opts" "healthy e0"
    "log_holds crc d rs0" "KVEngine_new crc e0 (\<lambda>name. True) opts d = Some E" and run: "engine_run crc E ops F"
    and e: "reliable e" "reliable e'" and k: "k \<noteq> []" "engine_fits F k v"
  shows "\<exists>G. KVEngine_Put crc e e' k v F = Some (Status_OK, G) \<and>
    engine_run crc F [PutOp k v] G \<and> engine_run crc E (ops @ [PutOp k v]) G"
proof -
  note n = new_engine [OF new]
  obtain L where L: "wal_log crc (Wal_new e0 (engine_wal_options opts) d) L" by (rule started_log [OF new(3,4)])
  note sim = conjunct1 [OF engine_run_sim [OF run new(1) L n(1)], folded fold_after_log]
  obtain G where G: "KVEngine_Put crc e e' k v F = Some (Status_OK, G)"
    using put_sim [OF new(1) sim L e k(2)] k(1) by auto
  with engine_run.put [OF run e k(2) G] engine_run.put [OF engine_run.start e k(2) G] show ?thesis by auto
qed

lemma engine_delete_step:
  assumes new: "key_order (comparator (btree_options opts))" "enable_wal opts" "healthy e0"
    "log_holds crc d rs0" "KVEngine_new crc e0 (\<lambda>name. True) opts d = Some E" and run: "engine_run crc E ops F"
    and e: "reliable e" "reliable e'" and k: "engine_fits F k []"
  shows "\<exists>G. KVEngine_Delete crc e e' k F =
      Some (if map_after (log_ops rs0 @ ops) k = None then Status_NotFound ''Key not found'' else Status_OK, G) \<and>
    engine_run crc F [DeleteOp k] G \<and> engine_run crc E (ops @ [DeleteOp k]) G"
proof -
  let ?c = "comparator (btree_options opts)" and ?es = "fold (op_spec (comparator (btree_options opts))) (log_ops rs0 @ ops) []"
  note n = new_engine [OF new]
  obtain L where L: "wal_log crc (Wal_new e0 (engine_wal_options opts) d) L" by (rule started_log [OF new(3,4)])
  note sim = conjunct1 [OF engine_run_sim [OF run new(1) L n(1)], folded fold_after_log]
  have m: "k \<in> set (keys_of ?es) \<longleftrightarrow> map_after (log_ops rs0 @ ops) k \<noteq> None"
    using kv_store.map_of_ops [OF tree_kv_store [OF new(1)], of "log_ops rs0 @ ops" "[]"] map_of_eq_None_iff [of ?es k] by (simp add: keys_of_def)
  obtain G where G: "KVEngine_Delete crc e e' k F = Some (if map_after (log_ops rs0 @ ops) k = None then Status_NotFound ''Key not found'' else Status_OK, G)"
    using delete_sim [OF new(1) sim L e k] unfolding m by auto
  with engine_run.delete [OF run e k G] engine_run.delete [OF engine_run.start e k G] show ?thesis by auto
qed

lemma engine_sync_step:
  assumes new: "key_order (comparator (btree_options opts))" "enable_wal opts" "healthy e0"
    "log_holds crc d rs0" "KVEngine_new crc e0 (\<lambda>name. True) opts d = Some E" and run: "engine_run crc E ops F" and e: "reliable e"
  shows "fst (KVEngine_Sync e F) = Status_OK"
proof -
  obtain v rs where v: "engine_wal F = Some v" "log_run crc reliable (Wal_new e0 (engine_wal_options opts) d) rs v"
    by (rule run_facts [OF new run])
  obtain L0 where "wal_log crc (Wal_new e0 (engine_wal_options opts) d) L0" by (rule started_log [OF new(3,4)])
  then obtain L where L: "wal_log crc v L" using log_run_log [OF v(2) _ reliable_healthy] by blast
  show ?thesis using Sync_log(3) [OF L] e v(1) by (simp add: KVEngine_Sync_def reliable_def split_beta)
qed

lemma engine_flush_step: "fst (KVEngine_Flush E) = Status_OK"
  by (simp add: KVEngine_Flush_def Wal_Flush_def split: option.splits)

section \<open>The options of the tree do not change\<close>

lemma log_and_sync_tree: "log_and_sync e write F = Some (s, G) \<Longrightarrow> engine_tree G = engine_tree F"
  by (auto simp: log_and_sync_def Let_def split: option.splits bind_splits if_splits prod.splits)

lemma store_op_options:
  assumes "key_order c" and "tree_store c T es"
  shows "BPlusTree_Put k v T = Some (s, T') \<Longrightarrow> tree_options T' = tree_options T"
    and "BPlusTree_Delete k T = Some (s, T') \<Longrightarrow> tree_options T' = tree_options T"
  using run_ops_tree [OF assms, of "[PutOp k v]"] run_ops_tree [OF assms, of "[DeleteOp k]"] by auto

lemma Put_options:
  assumes "key_order c" and "tree_store c (engine_tree F) es" and "KVEngine_Put crc e e' k v F = Some (s, G)"
  shows "tree_options (engine_tree G) = tree_options (engine_tree F)"
  using assms(3) store_op_options(1) [OF assms(1,2)]
  by (auto simp: KVEngine_Put_def Let_def split: bind_splits if_splits prod.splits dest!: log_and_sync_tree)

lemma Delete_options:
  assumes "key_order c" and "tree_store c (engine_tree F) es" and "KVEngine_Delete crc e e' k F = Some (s, G)"
  shows "tree_options (engine_tree G) = tree_options (engine_tree F)"
  using assms(3) store_op_options(2) [OF assms(1,2)]
  by (auto simp: KVEngine_Delete_def Let_def split: bind_splits if_splits prod.splits dest!: log_and_sync_tree)

lemma engine_run_options:
  assumes "engine_run crc E ops F" and new: "key_order (comparator (btree_options opts))" "enable_wal opts" "healthy e"
    "log_holds crc d rs0" "KVEngine_new crc e (\<lambda>name. True) opts d = Some E"
  shows "tree_options (engine_tree F) = tree_options (engine_tree E)"
  using assms(1)
proof (induction rule: engine_run.induct)
  case (put ops F e e' k v s G)
  then show ?case using Put_options [OF new(1)] run_facts [OF new put.hyps(1)] by metis
next
  case (delete ops F e e' k s G)
  then show ?case using Delete_options [OF new(1)] run_facts [OF new delete.hyps(1)] by metis
next
  case (flush ops F)
  then show ?case by (simp add: KVEngine_Flush_def split_beta split: option.splits)
next
  case (sync ops F e)
  then show ?case by (simp add: KVEngine_Sync_def split_beta split: option.splits)
qed simp

lemma new_engine_max:
  assumes new: "key_order (comparator (btree_options opts))" "enable_wal opts" "healthy e"
    "log_holds crc d rs0" "KVEngine_new crc e (\<lambda>name. True) opts d = Some E"
  shows "tree_max (engine_tree E) = max 3 (max_keys_per_node (btree_options opts))"
proof -
  obtain L where L: "disk_log crc d L" "records_of L = rs0" using new(4) by (auto simp: log_holds_def)
  have rec: "Wal_Recover crc (\<lambda>name. True) 0 (Wal_new e (engine_wal_options opts) d) = Some (Status_OK, rs0, max_seq_of rs0 0)"
    using reopen_recover [OF L(1) new(3)] by (simp add: L(2))
  obtain T where T: "BPlusTree_new (btree_options opts) = Some T" "tree_store (comparator (btree_options opts)) T []"
    "tree_options T = btree_options opts\<lparr>max_keys_per_node := max 3 (max_keys_per_node (btree_options opts))\<rparr>"
    using new_tree_store by blast
  obtain T' where T': "replay rs0 T = Some T'" "tree_options T' = tree_options T"
    using run_ops_tree [OF new(1) T(2), of "log_ops rs0"] by (auto simp: replay_ops)
  have "engine_tree E = T'" using new(2,5) T(1) T'(1) rec by (auto simp: KVEngine_new_def KVEngine_Recover_def Let_def)
  with T(3) T'(2) show ?thesis by simp
qed

section \<open>Concrete instances\<close>

definition sample_options :: "bool \<Rightarrow> KVEngineOptions" where
  "sample_options sync = \<lparr>btree_options = small_options, engine_wal_options = small_wal False, enable_wal = True,
     engine_sync_on_write = sync\<rparr>"

lemma sample_options_simps [simp]:
  "comparator (btree_options (sample_options b)) = None" "enable_wal (sample_options b)"
  "engine_wal_options (sample_options b) = small_wal False" "engine_sync_on_write (sample_options b) = b"
  by (simp_all add: sample_options_def small_options_def)

lemma sample_order: "key_order (comparator (btree_options (sample_options b)))"
  by (simp add: default_order.key_order_axioms)

abbreviation new_sample :: "bool \<Rightarrow> KVEngine option" where
  "new_sample b \<equiv> KVEngine_new byte_sum quiet (\<lambda>name. True) (sample_options b) []"

text \<open>The sample engine, and one \<open>Put\<close> on it.\<close>

lemma sample_engine:
  obtains E where "new_sample b = Some E" "engine_fits E ''k'' ''v''"
    "engine_wal E = Some (Wal_new quiet (small_wal False) [])" "sequence_number E = 1" "engine_options E = sample_options b"
proof -
  obtain E where E: "new_sample b = Some E" using new_engine_exists [OF sample_order _ quiet_ok(1) log_holds_empty] by auto
  from new_engine [OF sample_order _ quiet_ok(1) log_holds_empty E]
  have "engine_wal E = Some (Wal_new quiet (small_wal False) [])" "sequence_number E = 1" "engine_options E = sample_options b"
    by (auto simp: engine_sim_def)
  with E that show thesis by (simp add: engine_fits_def fits_new number_new)
qed

lemma sample_put:
  assumes E: "new_sample b = Some E" and f: "engine_fits E ''k'' ''v''"
  obtains s F where "KVEngine_Put byte_sum quiet quiet ''k'' ''v'' E = Some (s, F)" "Status_ok s"
    "engine_run byte_sum E [PutOp ''k'' ''v''] F"
proof -
  note n = new_engine [OF sample_order _ quiet_ok(1) log_holds_empty E, simplified]
  obtain L where L: "wal_log byte_sum (Wal_new quiet (small_wal False) []) L" using new_log [OF quiet_ok(1)] by blast
  from put_sim [OF default_order.key_order_axioms _ L quiet_ok(2,2) f, of 1 "[]" "[]"] n(1)
  obtain s F where F: "KVEngine_Put byte_sum quiet quiet ''k'' ''v'' E = Some (s, F)" "Status_ok s" by auto
  with engine_run.put [OF engine_run.start quiet_ok(2,2) f F(1)] that show thesis by auto
qed

lemma sample_put_number:
  assumes E: "new_sample False = Some E" and f: "engine_fits E ''k'' ''v''"
    and p: "KVEngine_Put byte_sum quiet quiet ''k'' ''v'' E = Some (s, F)"
  shows "\<exists>w. engine_wal F = Some w \<and> current_file_number w = 0"
proof -
  let ?w0 = "Wal_new quiet (small_wal False) []"
  note n = new_engine [OF sample_order _ quiet_ok(1) log_holds_empty E, simplified]
  note new = Wal_new_log [OF disk_log_empty [of byte_sum] quiet_ok(1), of "small_wal False", simplified]
  have r: "\<not> rotates ?w0 ''k'' ''v''" using new by (simp add: rotates_def kHeaderSize_def small_wal_def wal_log_def)
  have fit: "fits ?w0 ''k'' ''v''" by (simp add: fits_new)
  obtain u L where u: "WriteRecord byte_sum quiet kPut ''k'' ''v'' (sequence_number E) ?w0 = Some (Status_OK, u)"
      "wal_log byte_sum u [(0, L)]"
    using WriteRecord_log [OF conjunct1 [OF new] quiet_ok(1) fit, of kPut "sequence_number E"] r by (auto simp: add_record_def)
  then have "current_file_number u = 0" by (simp add: wal_log_def unat_eq_zero)
  moreover have "engine_wal F = Some u"
    using Put_wal [OF p] u(1) n(2,3) by (auto simp: log_and_sync_def)
  ultimately show ?thesis by blast
qed

abbreviation kv_map :: "bytes \<rightharpoonup> bytes" where
  "kv_map \<equiv> [''k'' \<mapsto> ''v'']"

theorem engine_restart_witness:
  "\<exists>E s F w G. new_sample False = Some E \<and> KVEngine_Put byte_sum quiet quiet ''k'' ''v'' E = Some (s, F) \<and> Status_ok s \<and>
     answers F kv_map \<and> KVEngine_destroy quiet F = Some w \<and>
     KVEngine_new byte_sum quiet (\<lambda>name. True) (sample_options False) (wal_disk w) = Some G \<and> answers G kv_map"
proof -
  obtain E where E: "new_sample False = Some E" "engine_fits E ''k'' ''v''" by (rule sample_engine)
  obtain s F where F: "KVEngine_Put byte_sum quiet quiet ''k'' ''v'' E = Some (s, F)" "Status_ok s"
    "engine_run byte_sum E [PutOp ''k'' ''v''] F" by (rule sample_put [OF E])
  from engine_restart [OF sample_order _ quiet_ok(1,1,1) E(1) F(3)] E(1) F(1,2) show ?thesis by auto
qed

text \<open>A crash after one call, with nothing in flight.\<close>

theorem engine_crash_durable_witness:
  "\<exists>E s F w d G. new_sample True = Some E \<and> KVEngine_Put byte_sum quiet quiet ''k'' ''v'' E = Some (s, F) \<and> Status_ok s \<and>
     engine_wal F = Some w \<and> crash_between w w d \<and>
     KVEngine_new byte_sum quiet (\<lambda>name. True) (sample_options True) d = Some G \<and> answers G kv_map"
proof -
  obtain E where E: "new_sample True = Some E" "engine_fits E ''k'' ''v''" by (rule sample_engine)
  obtain s F where F: "KVEngine_Put byte_sum quiet quiet ''k'' ''v'' E = Some (s, F)" "Status_ok s"
    "engine_run byte_sum E [PutOp ''k'' ''v''] F" by (rule sample_put [OF E])
  obtain w rs where w: "engine_wal F = Some w" "log_run byte_sum reliable (Wal_new quiet (small_wal False) []) rs w"
    by (rule run_facts [OF sample_order _ quiet_ok(1) log_holds_empty E(1) F(3)]) auto
  obtain L where "wal_log byte_sum w L" by (rule run_from_new [OF quiet_ok(1) w(2) reliable_healthy])
  then have d: "crash_between w w (crash_disk (\<lambda>name. 0) w)" by (rule crash_after [OF log_run.start])
  from engine_crash_durable [OF sample_order _ quiet_ok(1,1) _ intact_empty E(1) F(3) engine_run.start _ w(1,1) d] E(1) F(1,2) w d
  show ?thesis by auto
qed

theorem engine_sync_barrier_witness:
  "\<exists>E s F w d G ops. new_sample False = Some E \<and> KVEngine_Put byte_sum quiet quiet ''k'' ''v'' E = Some (s, F) \<and> Status_ok s \<and>
     engine_wal (snd (KVEngine_Sync quiet F)) = Some w \<and> crash_between w w d \<and>
     KVEngine_new byte_sum quiet (\<lambda>name. True) (sample_options False) d = Some G \<and>
     answers G (map_after ops) \<and> prefix [PutOp ''k'' ''v''] ops"
proof -
  obtain E where E: "new_sample False = Some E" "engine_fits E ''k'' ''v''"
    "engine_wal E = Some (Wal_new quiet (small_wal False) [])" by (rule sample_engine)
  obtain s F where F: "KVEngine_Put byte_sum quiet quiet ''k'' ''v'' E = Some (s, F)" "Status_ok s"
    "engine_run byte_sum E [PutOp ''k'' ''v''] F" by (rule sample_put [OF E(1,2)])
  obtain w1 where w1: "engine_wal F = Some w1" "current_file_number w1 = current_file_number (Wal_new quiet (small_wal False) [])"
    using sample_put_number [OF E(1,2) F(1)] by (auto simp: number_new)
  then obtain w where w: "engine_wal (snd (KVEngine_Sync quiet F)) = Some w"
    by (auto simp: KVEngine_Sync_def split_beta)
  have run: "engine_run byte_sum E [PutOp ''k'' ''v''] (snd (KVEngine_Sync quiet F))"
    by (rule engine_run.sync [OF F(3) quiet_ok(2)])
  obtain v rs where "engine_wal (snd (KVEngine_Sync quiet F)) = Some v" "log_run byte_sum reliable (Wal_new quiet (small_wal False) []) rs v"
    by (rule run_facts [OF sample_order _ quiet_ok(1) log_holds_empty E(1) run]) auto
  then obtain L where "wal_log byte_sum w L" using run_from_new [OF quiet_ok(1) _ reliable_healthy] w by (metis option.inject)
  then have d: "crash_between w w (crash_disk (\<lambda>name. 0) w)" by (rule crash_after [OF log_run.start])
  from engine_sync_barrier [OF sample_order _ quiet_ok(1,2,1) intact_empty E(1) F(3) E(3) w1 engine_run.start engine_run.start w w d]
    E(1) F(1,2) w d
  show ?thesis by fastforce
qed

theorem engine_failed_put_reappears_witness:
  "\<exists>E F w G. new_sample True = Some E \<and>
     KVEngine_Put byte_sum quiet (quiet\<lparr>fsync_ok := False\<rparr>) ''k'' ''v'' E = Some (Status_IOError ''Failed to sync WAL to disk'', F) \<and>
     answers F Map.empty \<and> KVEngine_destroy quiet F = Some w \<and>
     KVEngine_new byte_sum quiet (\<lambda>name. True) (sample_options True) (wal_disk w) = Some G \<and> answers G kv_map"
proof -
  obtain E where E: "new_sample True = Some E" "engine_fits E ''k'' ''v''" by (rule sample_engine)
  have h: "healthy (quiet\<lparr>fsync_ok := False\<rparr>)" "fd_ok (quiet\<lparr>fsync_ok := False\<rparr>)" "\<not> fsync_ok (quiet\<lparr>fsync_ok := False\<rparr>)"
    by (simp_all add: healthy_def quiet_def)
  from engine_failed_put_reappears [OF sample_order _ quiet_ok(1) h(1) quiet_ok(1) _ h(2,3) _ E] E(1) show ?thesis by auto
qed

end
