(* ===== verification/Json.thy ===== *)
theory Json
  imports Status Text
begin

text \<open>
  The text helpers of \<open>src/api/rest_server.cpp\<close>: JSON escaping, the HTTP codes of a
  \<open>Status\<close>, error bodies and percent-decoding.  \<open>unescape_string\<close> is a reference reader of the
  JSON string syntax (RFC 8259, for code points below 256) and \<open>percent_encode\<close> a reference
  writer of percent-encoding (RFC 3986), against which the code's functions are proved.
\<close>

definition char_val :: "char \<Rightarrow> nat" where
  "char_val c = of_char c"

definition hex_digit :: "nat \<Rightarrow> char" where
  "hex_digit n = (if n < 10 then char_of (48 + n) else char_of (87 + n))"

section \<open>JSON strings\<close>

fun json_escape_char :: "char \<Rightarrow> string" where
  "json_escape_char ch =
     (if char_val ch = 34 then [CHR 0x5C, CHR 0x22]
      else if char_val ch = 92 then [CHR 0x5C, CHR 0x5C]
      else if char_val ch = 8 then [CHR 0x5C, CHR ''b'']
      else if char_val ch = 12 then [CHR 0x5C, CHR ''f'']
      else if char_val ch = 10 then [CHR 0x5C, CHR ''n'']
      else if char_val ch = 13 then [CHR 0x5C, CHR ''r'']
      else if char_val ch = 9 then [CHR 0x5C, CHR ''t'']
      else if char_val ch < 32 then
        [CHR 0x5C, CHR ''u'', CHR ''0'', CHR ''0'', hex_digit (char_val ch div 16), hex_digit (char_val ch mod 16)]
      else [ch])"

definition JsonEscape :: "string \<Rightarrow> string" where
  "JsonEscape value = concat (map json_escape_char value)"

definition quoted :: "string \<Rightarrow> string" where
  "quoted s = CHR 0x22 # s @ [CHR 0x22]"

section \<open>HTTP codes\<close>

fun StatusHttpCode_of :: "ErrorCode \<Rightarrow> nat" where
  "StatusHttpCode_of OK = 200"
| "StatusHttpCode_of NOT_FOUND = 404"
| "StatusHttpCode_of INVALID_ARGUMENT = 400"
| "StatusHttpCode_of ALREADY_EXISTS = 409"
| "StatusHttpCode_of BUSY = 409"
| "StatusHttpCode_of IO_ERROR = 500"
| "StatusHttpCode_of CORRUPTION = 500"
| "StatusHttpCode_of INTERNAL_ERROR = 500"
| "StatusHttpCode_of c = 500"

definition StatusHttpCode :: "Status \<Rightarrow> nat" where
  "StatusHttpCode status = StatusHttpCode_of (code status)"

definition ReasonPhrase :: "nat \<Rightarrow> string" where
  "ReasonPhrase c =
     (if c = 200 then ''OK''
      else if c = 400 then ''Bad Request''
      else if c = 404 then ''Not Found''
      else if c = 405 then ''Method Not Allowed''
      else if c = 409 then ''Conflict''
      else if c = 413 then ''Payload Too Large''
      else if c = 500 then ''Internal Server Error''
      else if c = 501 then ''Not Implemented''
      else ''Error'')"

definition ErrorJson :: "string \<Rightarrow> string" where
  "ErrorJson m = ''{'' @ quoted ''error'' @ '':'' @ quoted (JsonEscape m) @ ''}''"

section \<open>Percent-decoding\<close>

definition hex_value :: "char \<Rightarrow> int" where
  "hex_value c =
     (if 48 \<le> char_val c \<and> char_val c \<le> 57 then int (char_val c) - 48
      else if 97 \<le> char_val c \<and> char_val c \<le> 102 then int (char_val c) - 97 + 10
      else if 65 \<le> char_val c \<and> char_val c \<le> 70 then int (char_val c) - 65 + 10
      else -1)"

text \<open>\<^term>\<open>None\<close> is the return with \<open>*ok = false\<close>.\<close>

fun DecodePathComponent :: "string \<Rightarrow> string option" where
  "DecodePathComponent [] = Some []"
| "DecodePathComponent (c # input) =
     (if c \<noteq> CHR ''%'' then
        if c = CHR ''?'' then None
        else map_option ((#) c) (DecodePathComponent input)
      else
        case input of
          a # b # rest \<Rightarrow>
            let hi = hex_value a; lo = hex_value b
            in if hi < 0 \<or> lo < 0 then None
               else map_option ((#) (char_of (nat (hi * 16 + lo)))) (DecodePathComponent rest)
        | _ \<Rightarrow> None)"

section \<open>The reference syntax\<close>

text \<open>
  The body of a JSON string up to its closing quote: the string it denotes, and what follows the
  quote.  Control characters and unknown escapes are errors.
\<close>

definition short_escape :: "char \<Rightarrow> char option" where
  "short_escape c =
     (if char_val c = 34 \<or> char_val c = 92 \<or> char_val c = 47 then Some c
      else if c = CHR ''b'' then Some (char_of (8::nat))
      else if c = CHR ''f'' then Some (char_of (12::nat))
      else if c = CHR ''n'' then Some (char_of (10::nat))
      else if c = CHR ''r'' then Some (char_of (13::nat))
      else if c = CHR ''t'' then Some (char_of (9::nat))
      else None)"

fun unescape_string :: "string \<Rightarrow> (string \<times> string) option" where
  "unescape_string [] = None"
| "unescape_string (c # cs) =
     (if char_val c = 34 then Some ([], cs)
      else if char_val c < 32 then None
      else if char_val c \<noteq> 92 then map_option (\<lambda>(s, r). (c # s, r)) (unescape_string cs)
      else
        case cs of
          [] \<Rightarrow> None
        | e # es \<Rightarrow>
            if e = CHR ''u'' then
              case es of
                z1 # z2 # h # l # rest \<Rightarrow>
                  if z1 = CHR ''0'' \<and> z2 = CHR ''0'' \<and> 0 \<le> hex_value h \<and> 0 \<le> hex_value l
                  then map_option (\<lambda>(s, r). (char_of (nat (hex_value h * 16 + hex_value l)) # s, r)) (unescape_string rest)
                  else None
              | _ \<Rightarrow> None
            else
              case short_escape e of
                None \<Rightarrow> None
              | Some x \<Rightarrow> map_option (\<lambda>(s, r). (x # s, r)) (unescape_string es))"

definition percent_safe :: "char \<Rightarrow> bool" where
  "percent_safe c \<longleftrightarrow> 33 \<le> char_val c \<and> char_val c < 127 \<and> c \<noteq> CHR ''%'' \<and> c \<noteq> CHR ''?'' \<and> c \<noteq> CHR ''&''"

fun percent_encode_char :: "char \<Rightarrow> string" where
  "percent_encode_char c =
     (if percent_safe c then [c] else [CHR ''%'', hex_digit (char_val c div 16), hex_digit (char_val c mod 16)])"

definition percent_encode :: "string \<Rightarrow> string" where
  "percent_encode s = concat (map percent_encode_char s)"

section \<open>Round trips\<close>

lemma char_val_less: "char_val c < 256"
  using of_char_mod_256 [of c, where ?'a = nat] mod_less_divisor [of 256 "of_char c :: nat"] by (simp add: char_val_def)

lemma char_eq: "c = d \<longleftrightarrow> char_val c = char_val d"
  by (simp add: char_val_def)

lemma char_of_val [simp]: "char_of (char_val c) = c"
  by (simp add: char_val_def)

lemma hex_value_digit: "n < 16 \<Longrightarrow> hex_value (hex_digit n) = int n"
  by (auto simp: hex_value_def hex_digit_def char_val_def)

lemma hex_pair: "nat (hex_value (hex_digit (char_val c div 16)) * 16 + hex_value (hex_digit (char_val c mod 16))) = char_val c"
  using char_val_less [of c] by (simp add: hex_value_digit nat_add_distrib nat_mult_distrib)

lemma quote_chars: "char_of (34 :: nat) = CHR 0x22" "char_of (92 :: nat) = CHR 0x5C"
  by (simp_all add: char_eq char_val_def)

lemma unescape_special:
  "(n :: nat) \<in> {34, 92, 8, 12, 10, 13, 9} \<Longrightarrow>
    unescape_string (json_escape_char (char_of n) @ r) = map_option (\<lambda>(s, t). (char_of n # s, t)) (unescape_string r)"
  by (auto simp: short_escape_def char_val_def quote_chars)

lemma unescape_escape_char:
  "unescape_string (json_escape_char c @ r) = map_option (\<lambda>(s, t). (c # s, t)) (unescape_string r)"
proof -
  consider (special) "char_val c \<in> {34, 92, 8, 12, 10, 13, 9}"
    | (low) "char_val c < 32" "char_val c \<notin> {8, 9, 10, 12, 13}" | (plain) "32 \<le> char_val c" "char_val c \<notin> {34, 92}"
    by fastforce
  then show ?thesis
  proof cases
    case special
    from unescape_special [OF this, of r] show ?thesis by (simp del: json_escape_char.simps unescape_string.simps)
  next
    case low
    have "0 \<le> hex_value (hex_digit (char_val c div 16))" "0 \<le> hex_value (hex_digit (char_val c mod 16))"
      using char_val_less [of c] by (simp_all add: hex_value_digit)
    then show ?thesis using low hex_pair [of c] by (simp add: char_val_def [of "CHR 0x5C"])
  next
    case plain
    then show ?thesis by simp
  qed
qed

lemma unescape_JsonEscape:
  "unescape_string (JsonEscape s @ CHR 0x22 # r) = Some (s, r)"
proof (induction s)
  case Nil
  then show ?case by (simp add: JsonEscape_def char_val_def)
next
  case (Cons c s)
  then show ?case by (simp add: JsonEscape_def unescape_escape_char del: json_escape_char.simps)
qed

lemma decode_encode_char:
  "DecodePathComponent (percent_encode_char c @ r) = map_option ((#) c) (DecodePathComponent r)"
proof (cases "percent_safe c")
  case True
  then show ?thesis by (simp add: percent_safe_def)
next
  case False
  have "0 \<le> hex_value (hex_digit (char_val c div 16))" "0 \<le> hex_value (hex_digit (char_val c mod 16))"
    using char_val_less [of c] by (simp_all add: hex_value_digit)
  with False hex_pair [of c] show ?thesis by (simp add: Let_def)
qed

lemma DecodePathComponent_encode: "DecodePathComponent (percent_encode s) = Some s"
  by (induction s) (simp_all add: percent_encode_def decode_encode_char del: percent_encode_char.simps)

lemma percent_encode_clean:
  "CHR ''?'' \<notin> set (percent_encode s)" "CHR ''&'' \<notin> set (percent_encode s)" "\<forall>c\<in>set (percent_encode s). 33 \<le> char_val c"
  "percent_encode s = [] \<longleftrightarrow> s = []"
proof -
  have h: "hex_digit n \<noteq> CHR ''?'' \<and> hex_digit n \<noteq> CHR ''&'' \<and> 33 \<le> char_val (hex_digit n)" if "n < 16" for n
  proof -
    have "n < 10 \<or> 10 \<le> n" by auto
    then show ?thesis using that by (auto simp: hex_digit_def char_eq) (auto simp: char_val_def)
  qed
  have c: "c \<noteq> CHR ''?'' \<and> c \<noteq> CHR ''&'' \<and> 33 \<le> char_val c" if "c \<in> set (percent_encode_char x)" for c x
  proof (cases "percent_safe x")
    case False
    have "char_val x div 16 < 16" "char_val x mod 16 < 16" using char_val_less [of x] by simp_all
    note d = h [OF this(1)] h [OF this(2)]
    have "c = CHR ''%'' \<or> c = hex_digit (char_val x div 16) \<or> c = hex_digit (char_val x mod 16)" using that False by auto
    moreover have "33 \<le> char_val CHR ''%''" by (simp add: char_val_def)
    ultimately show ?thesis using d by auto
  qed (use that in \<open>simp add: percent_safe_def\<close>)
  show "CHR ''?'' \<notin> set (percent_encode s)" "CHR ''&'' \<notin> set (percent_encode s)" "\<forall>c\<in>set (percent_encode s). 33 \<le> char_val c"
    using c by (auto simp: percent_encode_def simp del: percent_encode_char.simps)
  show "percent_encode s = [] \<longleftrightarrow> s = []" by (cases s) (auto simp: percent_encode_def)
qed

end
