(* ===== verification/Http.thy ===== *)
theory Http
  imports Json
begin

text \<open>
  The HTTP layer of \<open>src/api/rest_server.cpp\<close>: receiving a request from a socket, sending
  bytes, and building a response.  A socket is the list of what its \<open>recv\<close> calls deliver; an
  empty delivery, or the end of the list, stands for a result \<open>\<le> 0\<close>.  The answers of \<open>send\<close>
  are a list of integers.
\<close>

section \<open>Strings\<close>

definition crlf :: string where
  "crlf = [CHR 0x0D, CHR 0x0A]"

definition crlf2 :: string where
  "crlf2 = crlf @ crlf"

text \<open>\<open>std::string::find(pat)\<close>: the first occurrence.\<close>

fun find_sub :: "string \<Rightarrow> string \<Rightarrow> nat option" where
  "find_sub pat [] = (if pat = [] then Some 0 else None)"
| "find_sub pat (c # cs) =
     (if take (length pat) (c # cs) = pat then Some 0 else map_option Suc (find_sub pat cs))"

definition tolower :: "char \<Rightarrow> char" where
  "tolower c = (if 65 \<le> char_val c \<and> char_val c \<le> 90 then char_of (char_val c + 32) else c)"

definition is_blank :: "char \<Rightarrow> bool" where
  "is_blank c \<longleftrightarrow> c = CHR '' '' \<or> char_val c = 9"

text \<open>From \<open>find_first_not_of(" \t")\<close> to \<open>find_last_not_of(" \t")\<close>.\<close>

definition trim_blanks :: "string \<Rightarrow> string" where
  "trim_blanks s = rev (dropWhile is_blank (rev (dropWhile is_blank s)))"

text \<open>The words that \<open>>>\<close> reads from a stream one after the other.\<close>

function stream_words :: "string \<Rightarrow> string list" where
  "stream_words s =
     (case dropWhile is_space s of
        [] \<Rightarrow> []
      | c # cs \<Rightarrow> (c # takeWhile (\<lambda>x. \<not> is_space x) cs) # stream_words (dropWhile (\<lambda>x. \<not> is_space x) cs))"
  by pat_completeness auto
termination
proof (relation "measure length")
  fix s :: string and c cs
  assume "dropWhile is_space s = c # cs"
  then have "length (c # cs) \<le> length s" by (metis length_dropWhile_le)
  then show "(dropWhile (\<lambda>x. \<not> is_space x) cs, s) \<in> measure length"
    using length_dropWhile_le [of "\<lambda>x. \<not> is_space x" cs] by simp
qed simp

declare stream_words.simps [simp del]

section \<open>The headers\<close>

text \<open>
  One header line: \<^term>\<open>None\<close> when it is not the content length, \<^term>\<open>Some None\<close> when it is
  malformed.
\<close>

definition content_length_line :: "string \<Rightarrow> u64 option option" where
  "content_length_line line =
     (case find_sub '':'' line of
        None \<Rightarrow> None
      | Some colon \<Rightarrow>
          if map tolower (take colon line) \<noteq> ''content-length'' then None
          else
            let val = drop (colon + 1) line
            in if \<forall>c\<in>set val. is_blank c then Some None
               else
                 let val = trim_blanks val
                 in case stoull val of
                      None \<Rightarrow> Some None
                    | Some (n, consumed) \<Rightarrow> Some (if consumed = length val then Some n else None))"

text \<open>The loop over the lines, on what is left of the headers; \<^term>\<open>None\<close> is the return of \<open>false\<close>.\<close>

function ParseContentLength :: "string \<Rightarrow> u64 option" where
  "ParseContentLength headers =
     (if headers = [] then Some 0
      else
        let end = (case find_sub crlf headers of None \<Rightarrow> length headers | Some e \<Rightarrow> e)
        in case content_length_line (take end headers) of
             Some r \<Rightarrow> r
           | None \<Rightarrow>
               if end = length headers then Some 0
               else ParseContentLength (drop (end + 2) headers))"
  by pat_completeness auto
termination by (relation "measure length") auto

declare ParseContentLength.simps [simp del]

section \<open>Receiving a request\<close>

record HttpRequest =
  req_method :: string
  req_target :: string
  req_body :: string

definition HttpRequest_init :: HttpRequest where
  "HttpRequest_init = \<lparr>req_method = '''', req_target = '''', req_body = ''''\<rparr>"

definition kMaxHeaderSize :: nat where
  "kMaxHeaderSize = 64 * 1024"

text \<open>
  The loop that reads until the end of the headers: \<^term>\<open>None\<close> when \<open>recv\<close> fails, otherwise
  where the headers end (if they do), the buffer and what is left in the socket.
\<close>

fun receive_headers :: "bytes list \<Rightarrow> string \<Rightarrow> (nat option \<times> string \<times> bytes list) option" where
  "receive_headers [] buffer = (if length buffer < kMaxHeaderSize then None else Some (None, buffer, []))"
| "receive_headers (chunk # socket) buffer =
     (if length buffer < kMaxHeaderSize then
        if chunk = [] then None
        else
          let buffer = buffer @ chunk
          in case find_sub crlf2 buffer of
               Some e \<Rightarrow> Some (Some e, buffer, socket)
             | None \<Rightarrow> receive_headers socket buffer
      else Some (None, buffer, chunk # socket))"

text \<open>The loop that reads the body: \<^term>\<open>None\<close> when \<open>recv\<close> fails.\<close>

fun receive_body :: "nat \<Rightarrow> nat \<Rightarrow> bytes list \<Rightarrow> string \<Rightarrow> string option" where
  "receive_body body_start n [] buffer = (if length buffer - body_start < n then None else Some buffer)"
| "receive_body body_start n (chunk # socket) buffer =
     (if length buffer - body_start < n then
        if chunk = [] then None else receive_body body_start n socket (buffer @ chunk)
      else Some buffer)"

text \<open>\<open>request_line >> method >> target >> version\<close>; a failed extraction leaves its string as it is.\<close>

definition read_request_line :: "string \<Rightarrow> HttpRequest \<Rightarrow> HttpRequest \<times> string" where
  "read_request_line line request =
     (case stream_words line of
        [] \<Rightarrow> (request, '''')
      | [a] \<Rightarrow> (request\<lparr>req_method := a\<rparr>, '''')
      | [a, b] \<Rightarrow> (request\<lparr>req_method := a, req_target := b\<rparr>, '''')
      | a # b # v # _ \<Rightarrow> (request\<lparr>req_method := a, req_target := b\<rparr>, v))"

text \<open>
  The result is the returned flag, the request and the error code.  It is undefined where
  \<open>header_length\<close> wraps below zero and \<open>headers\<close> is a view past the end of the buffer: that
  is a request whose first line end is also the end of its headers.
\<close>

definition ReceiveRequest ::
  "bytes list \<Rightarrow> u64 \<Rightarrow> HttpRequest \<Rightarrow> nat \<Rightarrow> (bool \<times> HttpRequest \<times> nat) option" where
  "ReceiveRequest socket max_body_size request error_code =
     (case receive_headers socket [] of
        None \<Rightarrow> Some (False, request, error_code)
      | Some (None, buffer, socket) \<Rightarrow> Some (False, request, 400)
      | Some (Some header_end, buffer, socket) \<Rightarrow>
          case find_sub crlf buffer of
            None \<Rightarrow> Some (False, request, 400)
          | Some request_line_end \<Rightarrow>
              if request_line_end > header_end then Some (False, request, 400)
              else
                let (request, version) = read_request_line (take request_line_end buffer) request
                in if req_method request = [] \<or> req_target request = [] \<or> version \<noteq> ''HTTP/1.1''
                   then Some (False, request, 400)
                   else
                     let header_start = request_line_end + 2
                     in if header_end < header_start then None
                        else
                          let headers = take (header_end - header_start) (drop header_start buffer)
                          in case ParseContentLength headers of
                               None \<Rightarrow> Some (False, request, 400)
                             | Some content_length \<Rightarrow>
                                 if content_length > max_body_size then Some (False, request, 413)
                                 else
                                   let body_start = header_end + 4
                                   in case receive_body body_start (unat content_length) socket buffer of
                                        None \<Rightarrow> Some (False, request, 400)
                                      | Some buffer \<Rightarrow>
                                          Some (True, request\<lparr>req_body := take (unat content_length) (drop body_start buffer)\<rparr>,
                                            error_code))"

section \<open>Responses\<close>

text \<open>\<open>SendAll\<close>: the returned flag and the bytes the socket took.\<close>

fun SendAll :: "int list \<Rightarrow> bytes \<Rightarrow> bool \<times> bytes" where
  "SendAll [] bs = (bs = [], [])"
| "SendAll (n # ns) bs =
     (if bs = [] then (True, [])
      else if n \<le> 0 then (False, [])
      else let (ok, sent) = SendAll ns (drop (nat n) bs) in (ok, take (nat n) bs @ sent))"

definition BuildResponse :: "nat \<Rightarrow> string \<Rightarrow> string \<Rightarrow> string" where
  "BuildResponse c body content_type =
     ''HTTP/1.1 '' @ to_dec c @ '' '' @ ReasonPhrase c @ crlf @
     ''Content-Type: '' @ content_type @ crlf @
     ''Content-Length: '' @ to_dec (length body) @ crlf @
     ''Connection: close'' @ crlf @
     ''Access-Control-Allow-Origin: *'' @ crlf @
     ''Access-Control-Allow-Methods: GET, PUT, DELETE, POST, OPTIONS'' @ crlf @
     ''Access-Control-Allow-Headers: Content-Type'' @ crlf @
     crlf @ body"

end
