(* ===== verification/Http_Correct.thy ===== *)
theory Http_Correct
  imports Http
begin

text \<open>
  What the HTTP layer guarantees: the way a request is cut into packets does not matter, what a
  client writes is what the server reads, and a reader finds the body of a response.
  \<open>write_request\<close> is a reference writer of HTTP/1.1 requests.
\<close>

section \<open>Searching\<close>

lemma find_sub_Some:
  assumes "find_sub pat s = Some i"
  shows "take (length pat) (drop i s) = pat" and "i + length pat \<le> length s"
    and "\<And>j. j < i \<Longrightarrow> take (length pat) (drop j s) \<noteq> pat"
proof -
  have "take (length pat) (drop i s) = pat \<and> i + length pat \<le> length s \<and> (\<forall>j<i. take (length pat) (drop j s) \<noteq> pat)"
    using assms
  proof (induction s arbitrary: i)
    case Nil
    then show ?case by (simp split: if_splits)
  next
    case (Cons c s)
    show ?case
    proof (cases "take (length pat) (c # s) = pat")
      case True
      moreover from True have "length pat \<le> length (c # s)" by (metis length_take min.absorb_iff2 nat_le_linear take_all)
      ultimately show ?thesis using Cons.prems by simp
    next
      case False
      then obtain k where k: "i = Suc k" "find_sub pat s = Some k" using Cons.prems by auto
      have "take (length pat) (drop j (c # s)) \<noteq> pat" if "j < i" for j
        using that False Cons.IH [OF k(2)] k(1) by (cases j) auto
      then show ?thesis using Cons.IH [OF k(2)] k(1) by simp
    qed
  qed
  then show "take (length pat) (drop i s) = pat" "i + length pat \<le> length s"
    "\<And>j. j < i \<Longrightarrow> take (length pat) (drop j s) \<noteq> pat" by blast+
qed

lemma find_sub_append: "find_sub pat s = Some i \<Longrightarrow> find_sub pat (s @ t) = Some i"
proof (induction s arbitrary: i)
  case Nil
  then show ?case by (cases t) (auto split: if_splits)
next
  case (Cons c s)
  show ?case
  proof (cases "take (length pat) (c # s) = pat")
    case True
    moreover from True have "length pat \<le> length (c # s)" by (metis length_take min.absorb_iff2 nat_le_linear take_all)
    then have "take (length pat) (c # s @ t) = take (length pat) (c # s)" by (cases "length pat") simp_all
    ultimately show ?thesis using Cons.prems by simp
  next
    case False
    then obtain k where k: "i = Suc k" "find_sub pat s = Some k" using Cons.prems by auto
    have "take (length pat) (c # s @ t) \<noteq> pat"
    proof
      assume a: "take (length pat) (c # s @ t) = pat"
      have "length pat \<le> length s" using find_sub_Some(2) [OF k(2)] by simp
      then have "take (length pat) (c # s @ t) = take (length pat) (c # s)" by (cases "length pat") simp_all
      with a False show False by simp
    qed
    then show ?thesis using Cons.IH [OF k(2)] k(1) by simp
  qed
qed

lemma find_sub_None: "find_sub pat s = None \<Longrightarrow> take (length pat) (drop i s) \<noteq> pat"
proof (induction s arbitrary: i)
  case (Cons c s)
  then show ?case by (cases i) (auto split: if_splits)
qed (auto split: if_splits)

text \<open>An occurrence that fits into a beginning of the text is found there.\<close>

lemma find_sub_shrink:
  assumes "find_sub pat (s @ t) = Some i" and "i + length pat \<le> length s"
  shows "find_sub pat s = Some i"
proof (cases "find_sub pat s")
  case None
  have "take (length pat) (drop i s) = pat" using find_sub_Some(1) [OF assms(1)] assms(2) by simp
  with find_sub_None [OF None] show ?thesis by blast
next
  case (Some k)
  with find_sub_append [OF Some] assms show ?thesis by simp
qed

lemma find_sub_skip:
  assumes "pat = p # ps" and "p \<notin> set a"
  shows "find_sub pat (a @ s) = map_option ((+) (length a)) (find_sub pat s)"
  using assms(2) by (induction a) (cases "find_sub pat s"; auto simp: assms(1))+

lemma crlf_lengths [simp]: "length crlf = 2" "length crlf2 = 4"
  by (simp_all add: crlf2_def crlf_def)

section \<open>Packets\<close>

text \<open>How a request is cut into packets does not matter, as long as its headers fit.\<close>

lemma receive_headers_found:
  assumes "[] \<notin> set chunks" and "find_sub crlf2 (buffer @ concat chunks) = Some e" and "e + 4 \<le> kMaxHeaderSize"
    and "find_sub crlf2 buffer = None"
  shows "\<exists>got rest. chunks = got @ rest \<and> receive_headers chunks buffer = Some (Some e, buffer @ concat got, rest) \<and>
    e + 4 \<le> length (buffer @ concat got)"
  using assms
proof (induction chunks arbitrary: buffer)
  case Nil
  then show ?case by simp
next
  case (Cons chunk chunks)
  have small: "length buffer < kMaxHeaderSize"
  proof (rule ccontr)
    assume "\<not> length buffer < kMaxHeaderSize"
    then have "e + length crlf2 \<le> length buffer" using Cons.prems(3) by (simp add: crlf2_def crlf_def)
    with find_sub_shrink [OF Cons.prems(2)] Cons.prems(4) show False by simp
  qed
  show ?case
  proof (cases "find_sub crlf2 (buffer @ chunk)")
    case (Some k)
    have "k = e" using find_sub_append [OF Some, of "concat chunks"] Cons.prems(2) by simp
    moreover have "k + 4 \<le> length (buffer @ chunk)" using find_sub_Some(2) [OF Some] by (simp add: crlf2_def crlf_def)
    ultimately show ?thesis using small Some Cons.prems(1)
      by (intro exI [of _ "[chunk]"] exI [of _ chunks]) auto
  next
    case None
    obtain got rest where "chunks = got @ rest" "receive_headers chunks (buffer @ chunk) = Some (Some e, (buffer @ chunk) @ concat got, rest)"
      "e + 4 \<le> length ((buffer @ chunk) @ concat got)"
      using Cons.IH [of "buffer @ chunk"] Cons.prems None by auto
    then show ?thesis using small None Cons.prems(1)
      by (intro exI [of _ "chunk # got"] exI [of _ rest]) auto
  qed
qed

lemma receive_headers_missing:
  assumes "find_sub crlf2 (buffer @ concat chunks) = None"
  shows "receive_headers chunks buffer = None \<or> (\<exists>b r. receive_headers chunks buffer = Some (None, b, r))"
  using assms
proof (induction chunks arbitrary: buffer)
  case (Cons chunk chunks)
  have "find_sub crlf2 (buffer @ chunk) = None"
    using find_sub_append [of crlf2 "buffer @ chunk" _ "concat chunks"] Cons.prems by (cases "find_sub crlf2 (buffer @ chunk)") auto
  then show ?case using Cons.IH [of "buffer @ chunk"] Cons.prems by simp
qed simp

lemma receive_body_enough:
  assumes "[] \<notin> set chunks" and "s \<le> length buffer" and "s + n \<le> length (buffer @ concat chunks)"
  shows "\<exists>b. receive_body s n chunks buffer = Some b \<and> take n (drop s b) = take n (drop s (buffer @ concat chunks))"
  using assms
proof (induction chunks arbitrary: buffer)
  case (Cons chunk chunks)
  show ?case
  proof (cases "length buffer - s < n")
    case True
    then show ?thesis using Cons.IH [of "buffer @ chunk"] Cons.prems by auto
  next
    case False
    then show ?thesis using Cons.prems by simp
  qed
qed auto

lemma receive_body_short:
  assumes "[] \<notin> set chunks" and "s \<le> length buffer" and "length (buffer @ concat chunks) < s + n"
  shows "receive_body s n chunks buffer = None"
  using assms by (induction chunks arbitrary: buffer) auto

lemma concat_Nil_iff: "[] \<notin> set xs \<Longrightarrow> concat xs = [] \<longleftrightarrow> xs = []"
  by (cases xs) auto

lemma receive_chunking:
  assumes ne: "[] \<notin> set chunks" and e: "find_sub crlf2 (concat chunks) = Some e" and m: "e + 4 \<le> kMaxHeaderSize"
  shows "ReceiveRequest chunks limit request c = ReceiveRequest [concat chunks] limit request c"
proof -
  let ?s = "concat chunks"
  have s: "?s \<noteq> []" using e by (intro notI) (simp add: crlf2_def crlf_def)
  obtain got rest where r: "chunks = got @ rest" "receive_headers chunks [] = Some (Some e, concat got, rest)"
      "e + 4 \<le> length (concat got)"
    using receive_headers_found [OF ne, of "[]"] e m by (auto simp: crlf2_def crlf_def)
  have one: "receive_headers [?s] [] = Some (Some e, ?s, [])" using e s by (simp add: kMaxHeaderSize_def)
  have split: "?s = concat got @ concat rest" using r(1) by simp
  have l: "find_sub crlf ?s = find_sub crlf (concat got)" if "find_sub crlf (concat got) \<noteq> None"
    using that find_sub_append [of crlf "concat got" _ "concat rest"] split by auto
  have some: "find_sub crlf (concat got) \<noteq> None"
  proof
    assume n: "find_sub crlf (concat got) = None"
    have "take 4 (drop e (concat got)) = crlf2"
      using find_sub_Some(1) [OF e] r(3) split by simp
    from arg_cong [OF this, of "take 2"] have "take 2 (drop e (concat got)) = crlf" by (simp add: crlf2_def crlf_def)
    then show False using find_sub_None [OF n, of e] by simp
  qed
  then obtain k where k: "find_sub crlf (concat got) = Some k" by auto
  have t: "take k ?s = take k (concat got)" using find_sub_Some(2) [OF k] split by simp
  have h: "take (e - (k + 2)) (drop (k + 2) ?s) = take (e - (k + 2)) (drop (k + 2) (concat got))"
    using r(3) split find_sub_Some(2) [OF k] by (simp add: crlf_def)
  have nr: "[] \<notin> set rest" using ne r(1) by simp
  have body: "(case receive_body (e + 4) n rest (concat got) of None \<Rightarrow> x
        | Some b \<Rightarrow> Some (True, q\<lparr>req_body := take n (drop (e + 4) b)\<rparr>, c)) =
      (case receive_body (e + 4) n [] ?s of None \<Rightarrow> x
        | Some b \<Rightarrow> Some (True, q\<lparr>req_body := take n (drop (e + 4) b)\<rparr>, c))" for n x and q :: HttpRequest
  proof (cases "e + 4 + n \<le> length ?s")
    case True
    then show ?thesis using receive_body_enough [OF nr r(3), of n] split r(3) by auto
  next
    case False
    then show ?thesis using receive_body_short [OF nr r(3), of n] split r(3) by auto
  qed
  show ?thesis
    unfolding ReceiveRequest_def r(2) one option.case prod.case k l [OF some] t h Let_def body by (rule refl)
qed

section \<open>Lines\<close>

definition plain_line :: "string \<Rightarrow> bool" where
  "plain_line l \<longleftrightarrow> l \<noteq> [] \<and> CHR 0x0D \<notin> set l"

abbreviation write_lines :: "string list \<Rightarrow> string" where
  "write_lines ls \<equiv> concat (map (\<lambda>l. l @ crlf) ls)"

lemma find_line_end: "CHR 0x0D \<notin> set l \<Longrightarrow> find_sub crlf (l @ crlf @ r) = Some (length l)"
  by (subst find_sub_skip [of _ "CHR 0x0D" "[CHR 0x0A]"]) (simp_all add: crlf_def)

lemma find_line_missing: "CHR 0x0D \<notin> set l \<Longrightarrow> find_sub crlf l = None"
  using find_sub_skip [of crlf "CHR 0x0D" "[CHR 0x0A]" l "[]"] by (simp add: crlf_def)

lemma crlf_step: "c \<noteq> CHR 0x0D \<Longrightarrow> find_sub crlf2 (crlf @ c # t) = map_option (\<lambda>n. n + 2) (find_sub crlf2 (c # t))"
  by (simp add: crlf2_def crlf_def option.map_comp comp_def)

lemma find_headers_end:
  assumes "\<forall>l\<in>set ls. plain_line l" and "ls \<noteq> []"
  shows "find_sub crlf2 (write_lines ls @ crlf @ r) = Some (length (write_lines ls) - 2)"
  using assms
proof (induction ls)
  case (Cons l ls)
  have skip: "find_sub crlf2 (l @ s) = map_option ((+) (length l)) (find_sub crlf2 s)" for s
    by (rule find_sub_skip [of _ "CHR 0x0D" "[CHR 0x0A, CHR 0x0D, CHR 0x0A]"])
      (use Cons.prems in \<open>simp_all add: crlf2_def crlf_def plain_line_def\<close>)
  have "find_sub crlf2 (crlf @ crlf @ s) = Some 0" for s by (simp add: crlf2_def crlf_def)
  note here = this [of r]
  show ?case
  proof (cases ls)
    case Nil
    then show ?thesis by (simp add: skip here)
  next
    case (Cons k ks)
    obtain c cs where k: "k = c # cs" "c \<noteq> CHR 0x0D" using Cons Cons.prems by (cases k) (auto simp: plain_line_def)
    have ih: "find_sub crlf2 (write_lines ls @ crlf @ r) = Some (length (write_lines ls) - 2)"
      using Cons.IH Cons.prems Cons by simp
    have "find_sub crlf2 (crlf @ write_lines ls @ crlf @ r) = map_option (\<lambda>n. n + 2) (find_sub crlf2 (write_lines ls @ crlf @ r))"
      using k Cons crlf_step [of c "cs @ crlf @ write_lines ks @ crlf @ r"] by simp
    moreover have "2 \<le> length (write_lines ls)" using Cons by simp
    ultimately show ?thesis using ih by (simp add: skip)
  qed
qed simp

lemma ParseContentLength_lines:
  assumes "\<forall>l\<in>set ls. plain_line l \<and> content_length_line l = None"
    and "plain_line cl" and "content_length_line cl = Some n" and "r = [] \<or> (\<exists>t. r = crlf @ t)"
  shows "ParseContentLength (write_lines ls @ cl @ r) = n"
  using assms(1)
proof (induction ls)
  case Nil
  then show ?case
    using assms(2-4) find_line_end [of cl] find_line_missing [of cl]
    by (subst ParseContentLength.simps) (auto simp: plain_line_def Let_def)
next
  case (Cons l ls)
  then show ?case using find_line_end [of l "write_lines ls @ cl @ r"]
    by (subst ParseContentLength.simps) (simp add: plain_line_def Let_def)
qed

lemma ParseContentLength_absent:
  assumes "\<forall>l\<in>set ls. plain_line l \<and> content_length_line l = None" and "plain_line l" "content_length_line l = None"
  shows "ParseContentLength (write_lines ls @ l) = Some 0"
  using assms(1)
proof (induction ls)
  case Nil
  then show ?case using assms(2,3) find_line_missing [of l]
    by (subst ParseContentLength.simps) (auto simp: plain_line_def Let_def)
next
  case (Cons k ls)
  then show ?case using find_line_end [of k "write_lines ls @ l"]
    by (subst ParseContentLength.simps) (simp add: plain_line_def Let_def)
qed

definition content_length_header :: "nat \<Rightarrow> string" where
  "content_length_header n = ''Content-Length: '' @ to_dec n"

lemma digit_facts: "is_digit c \<Longrightarrow> \<not> is_blank c \<and> c \<noteq> CHR 0x0D"
  by (auto simp: is_digit_def is_blank_def char_val_def)

lemma trim_blanks_to_dec: "trim_blanks (CHR '' '' # to_dec n) = to_dec n"
proof -
  have d: "dropWhile is_blank xs = xs" if "\<forall>c\<in>set xs. is_digit c" for xs
    using that digit_facts by (cases xs) auto
  show ?thesis using d [of "to_dec n"] d [of "rev (to_dec n)"] to_dec_digits [of n]
    by (simp add: trim_blanks_def is_blank_def)
qed

lemma content_length_header_line:
  assumes "n < 2 ^ 64"
  shows "content_length_line (content_length_header n) = Some (Some (of_nat n))" and "plain_line (content_length_header n)"
proof -
  have f: "find_sub '':'' (content_length_header n) = Some 14"
    by (simp add: content_length_header_def)
  have low: "map tolower (take 14 (content_length_header n)) = ''content-length''"
    by (simp add: content_length_header_def tolower_def char_val_def) (simp add: char_eq char_val_def)
  have drop: "drop (14 + 1) (content_length_header n) = CHR '' '' # to_dec n"
    by (simp add: content_length_header_def)
  have d: "\<not> (\<forall>c\<in>set (to_dec n). is_blank c)" using to_dec_digits [of n] digit_facts to_dec_not_Nil [of n]
    by (cases "to_dec n") auto
  show "content_length_line (content_length_header n) = Some (Some (of_nat n))"
    unfolding content_length_line_def f option.case low drop
    using d by (simp add: trim_blanks_to_dec stoull_to_dec [OF assms] Let_def)
  show "plain_line (content_length_header n)"
    using to_dec_digits [of n] digit_facts by (auto simp: content_length_header_def plain_line_def)
qed

section \<open>Responses\<close>

text \<open>A response has a head and a body, and the head says how long the body is.\<close>

lemma ReasonPhrase_plain: "CHR 0x0D \<notin> set (ReasonPhrase c)"
  by (simp add: ReasonPhrase_def)

lemma BuildResponse_lines:
  "BuildResponse c body t = write_lines
     [''HTTP/1.1 '' @ to_dec c @ '' '' @ ReasonPhrase c, ''Content-Type: '' @ t, content_length_header (length body),
      ''Connection: close'', ''Access-Control-Allow-Origin: *'',
      ''Access-Control-Allow-Methods: GET, PUT, DELETE, POST, OPTIONS'', ''Access-Control-Allow-Headers: Content-Type''] @
     crlf @ body"
  by (simp add: BuildResponse_def content_length_header_def)

lemma response_parses:
  assumes "length body < 2 ^ 64" and t: "CHR 0x0D \<notin> set t"
  shows "\<exists>line headers. BuildResponse c body t = line @ crlf @ headers @ crlf2 @ body \<and>
    find_sub crlf (BuildResponse c body t) = Some (length line) \<and>
    find_sub crlf2 (BuildResponse c body t) = Some (length (line @ crlf @ headers)) \<and>
    stream_words line ! 1 = to_dec c \<and>
    ParseContentLength headers = Some (of_nat (length body))"
proof -
  let ?l0 = "''HTTP/1.1 '' @ to_dec c @ '' '' @ ReasonPhrase c" and ?l1 = "''Content-Type: '' @ t"
  let ?ls = "[?l0, ?l1, content_length_header (length body), ''Connection: close'', ''Access-Control-Allow-Origin: *'',
      ''Access-Control-Allow-Methods: GET, PUT, DELETE, POST, OPTIONS'', ''Access-Control-Allow-Headers: Content-Type'']"
  let ?rest = "crlf @ ''Connection: close'' @ crlf @ ''Access-Control-Allow-Origin: *'' @ crlf @
      ''Access-Control-Allow-Methods: GET, PUT, DELETE, POST, OPTIONS'' @ crlf @ ''Access-Control-Allow-Headers: Content-Type''"
  let ?h = "write_lines [?l1] @ content_length_header (length body) @ ?rest"
  have R: "BuildResponse c body t = write_lines ?ls @ crlf @ body" by (rule BuildResponse_lines)
  have p0: "plain_line ?l0" using ReasonPhrase_plain to_dec_digits [of c] digit_facts by (auto simp: plain_line_def)
  have p1: "plain_line ?l1" using t by (simp add: plain_line_def)
  have "\<forall>l\<in>set ?ls. plain_line l" using p0 p1 content_length_header_line [OF assms(1)] by (simp add: plain_line_def)
  from find_headers_end [OF this, of body] have e: "find_sub crlf2 (BuildResponse c body t) = Some (length (write_lines ?ls) - 2)"
    using R by simp
  have n1: "content_length_line ?l1 = None" by (simp add: content_length_line_def tolower_def char_val_def)
  have cl: "ParseContentLength ?h = Some (of_nat (length body))"
    by (rule ParseContentLength_lines) (use p1 n1 content_length_header_line [OF assms(1)] in simp_all)
  have w: "stream_words ?l0 ! 1 = to_dec c"
  proof -
    have ns: "\<forall>x\<in>set (to_dec c). \<not> is_space x" using to_dec_digits [of c] digit_not_space by blast
    obtain d ds where dd: "to_dec c = d # ds" by (cases "to_dec c") auto
    have "takeWhile (\<lambda>x. \<not> is_space x) (ds @ CHR '' '' # ReasonPhrase c) = ds" using ns dd by (subst takeWhile_append2) (auto simp: is_space_def)
    moreover have "dropWhile is_space (to_dec c @ r) = to_dec c @ r" for r using ns dd by simp
    ultimately show ?thesis
      by (subst stream_words.simps, subst stream_words.simps) (simp add: is_space_def dd)
  qed
  have "BuildResponse c body t = ?l0 @ crlf @ ?h @ crlf2 @ body" by (simp add: BuildResponse_def content_length_header_def crlf2_def)
  moreover have "length (write_lines ?ls) - 2 = length (?l0 @ crlf @ ?h)" by simp
  moreover have "find_sub crlf (BuildResponse c body t) = Some (length ?l0)"
    unfolding calculation(1) by (rule find_line_end) (use p0 in \<open>simp add: plain_line_def\<close>)
  ultimately show ?thesis using e w cl by metis
qed

lemma SendAll_prefix:
  assumes "SendAll ns bs = (ok, sent)"
  shows "\<exists>rest. bs = sent @ rest \<and> (ok \<longleftrightarrow> rest = [])"
  using assms
proof (induction ns arbitrary: bs ok sent)
  case Nil
  then show ?case by auto
next
  case (Cons n ns)
  show ?case
  proof (cases "bs = [] \<or> n \<le> 0")
    case True
    then show ?thesis using Cons.prems by (auto split: if_splits)
  next
    case False
    obtain o' s' where r: "SendAll ns (drop (nat n) bs) = (o', s')" by fastforce
    from Cons.IH [OF this] obtain rest where d: "drop (nat n) bs = s' @ rest" "o' \<longleftrightarrow> rest = []" by blast
    have "bs = take (nat n) bs @ s' @ rest" using append_take_drop_id [of "nat n" bs] d(1) by simp
    moreover have "sent = take (nat n) bs @ s'" "ok = o'" using Cons.prems False r by auto
    ultimately show ?thesis using d(2) by (intro exI [of _ rest]) simp
  qed
qed

end
