(* ===== verification/Http_Requests.thy ===== *)
theory Http_Requests
  imports Http_Correct "HOL-Library.Sublist"
begin

text \<open>
  What \<open>ReceiveRequest\<close> does with the requests a client writes.  \<open>write_request\<close> is a
  reference writer of HTTP/1.1: a request line, header lines, and a body announced by a
  \<open>Content-Length\<close> header if there is one.
\<close>

definition is_word :: "string \<Rightarrow> bool" where
  "is_word w \<longleftrightarrow> w \<noteq> [] \<and> (\<forall>c\<in>set w. \<not> is_space c)"

definition request_line :: "string \<Rightarrow> string \<Rightarrow> string" where
  "request_line m t = m @ '' '' @ t @ '' HTTP/1.1''"

definition other_header :: "string \<Rightarrow> bool" where
  "other_header l \<longleftrightarrow> plain_line l \<and> content_length_line l = None"

definition header_lines :: "string list \<Rightarrow> string option \<Rightarrow> string list" where
  "header_lines hs body = hs @ (case body of None \<Rightarrow> [] | Some b \<Rightarrow> [content_length_header (length b)])"

definition write_head :: "string \<Rightarrow> string \<Rightarrow> string list \<Rightarrow> string" where
  "write_head m t ls = write_lines (request_line m t # ls) @ crlf"

definition write_request :: "string \<Rightarrow> string \<Rightarrow> string list \<Rightarrow> string option \<Rightarrow> string" where
  "write_request m t hs body = write_head m t (header_lines hs body) @ (case body of None \<Rightarrow> [] | Some b \<Rightarrow> b)"

text \<open>Requests that the server can take: with at least one header, and a head that fits.\<close>

definition good_request :: "string \<Rightarrow> string \<Rightarrow> string list \<Rightarrow> string option \<Rightarrow> bool" where
  "good_request m t hs body \<longleftrightarrow> is_word m \<and> is_word t \<and> (\<forall>h\<in>set hs. other_header h) \<and> header_lines hs body \<noteq> [] \<and>
     length (write_head m t (header_lines hs body)) \<le> kMaxHeaderSize \<and>
     (case body of None \<Rightarrow> True | Some b \<Rightarrow> length b < 2 ^ 64)"

section \<open>The request line\<close>

lemma stream_words_space: "is_space c \<Longrightarrow> stream_words (c # s) = stream_words s"
  by (subst (1 2) stream_words.simps) simp

lemma stream_words_word:
  assumes "is_word w" and "s = [] \<or> is_space (hd s)"
  shows "stream_words (w @ s) = w # stream_words s"
proof -
  obtain c cs where w: "w = c # cs" "\<not> is_space c" "\<forall>x\<in>set cs. \<not> is_space x" using assms(1) by (cases w) (auto simp: is_word_def)
  have "takeWhile (\<lambda>x. \<not> is_space x) (cs @ s) = cs" "dropWhile (\<lambda>x. \<not> is_space x) (cs @ s) = s"
    using w(3) assms(2) by (cases s; simp add: takeWhile_eq_all_conv)+
  then show ?thesis using w by (subst stream_words.simps) simp
qed

lemma stream_words_Nil [simp]: "stream_words [] = []"
  by (simp add: stream_words.simps)

lemma blank_space [simp]: "is_space CHR '' ''"
  by (simp add: is_space_def)

lemma stream_words_request_line:
  assumes "is_word m" and "is_word t"
  shows "stream_words (request_line m t) = [m, t, ''HTTP/1.1'']"
proof -
  have v: "is_word ''HTTP/1.1''" by (simp add: is_word_def is_space_def)
  show ?thesis
    using stream_words_word [OF assms(1), of "'' '' @ t @ '' HTTP/1.1''"] stream_words_word [OF assms(2), of "'' HTTP/1.1''"]
      stream_words_word [OF v, of "[]"]
    by (simp add: request_line_def stream_words_space)
qed

lemma read_request_line_written:
  "is_word m \<Longrightarrow> is_word t \<Longrightarrow> read_request_line (request_line m t) q = (q\<lparr>req_method := m, req_target := t\<rparr>, ''HTTP/1.1'')"
  by (simp add: read_request_line_def stream_words_request_line)

lemma cr_space: "is_space CHR 0x0D"
  by (simp add: is_space_def)

lemma word_no_cr: "is_word w \<Longrightarrow> CHR 0x0D \<notin> set w"
  using cr_space unfolding is_word_def by blast

lemma request_line_plain: "is_word m \<Longrightarrow> is_word t \<Longrightarrow> plain_line (request_line m t)"
  by (simp add: plain_line_def request_line_def word_no_cr)

section \<open>A complete head\<close>

definition headers_of :: "string list \<Rightarrow> string" where
  "headers_of ls = take (length (write_lines ls) - 2) (write_lines ls)"

lemma headers_of_snoc: "headers_of (ls @ [l]) = write_lines ls @ l"
  by (simp add: headers_of_def)

lemma ReceiveRequest_head:
  assumes w: "is_word m" "is_word t" and ls: "\<forall>l\<in>set ls. plain_line l"
    and fit: "length (write_head m t ls) \<le> kMaxHeaderSize"
    and ne: "[] \<notin> set chunks" and s: "concat chunks = write_head m t ls @ rest"
  shows "ReceiveRequest chunks limit HttpRequest_init c =
    (let q = \<lparr>req_method = m, req_target = t, req_body = ''''\<rparr>
     in if ls = [] then None
        else case ParseContentLength (headers_of ls) of
          None \<Rightarrow> Some (False, q, 400)
        | Some n \<Rightarrow>
            if n > limit then Some (False, q, 413)
            else if length rest < unat n then Some (False, q, 400)
            else Some (True, q\<lparr>req_body := take (unat n) rest\<rparr>, c))"
proof -
  let ?r = "request_line m t"
  have plain: "\<forall>l\<in>set (?r # ls). plain_line l" using ls request_line_plain [OF w] by simp
  define e where "e = length (write_lines (?r # ls)) - 2"
  have e: "find_sub crlf2 (concat chunks) = Some e"
    using find_headers_end [OF plain, of rest] s by (simp add: write_head_def e_def)
  have "e + 4 \<le> kMaxHeaderSize" using fit by (simp add: write_head_def e_def)
  note one = receive_chunking [OF ne e this]
  have head: "receive_headers [concat chunks] [] = Some (Some e, concat chunks, [])"
    using e s by (simp add: kMaxHeaderSize_def write_head_def crlf_def)
  have k: "find_sub crlf (concat chunks) = Some (length ?r)"
    using find_line_end [of ?r "write_lines ls @ crlf @ rest"] plain s by (simp add: write_head_def plain_line_def)
  have line: "take (length ?r) (concat chunks) = ?r" by (simp add: s write_head_def)
  have le: "length ?r > e \<longleftrightarrow> False" by (simp add: e_def)
  have hs: "e < length ?r + 2 \<longleftrightarrow> ls = []" by (cases ls) (simp_all add: e_def)
  have headers: "take (e - (length ?r + 2)) (drop (length ?r + 2) (concat chunks)) = headers_of ls" if "ls \<noteq> []"
    using that by (cases ls) (simp_all add: s write_head_def headers_of_def e_def)
  have body: "drop (e + 4) (concat chunks) = rest" by (simp add: s write_head_def e_def)
  have len: "length (concat chunks) - (e + 4) = length rest" by (simp add: s write_head_def e_def)
  have words: "m \<noteq> []" "t \<noteq> []" using w by (auto simp: is_word_def)
  show ?thesis
  proof (cases "ls = []")
    case True
    then show ?thesis unfolding one unfolding ReceiveRequest_def head option.case prod.case k line le if_False
      read_request_line_written [OF w] Let_def hs
      using words by (simp add: HttpRequest_init_def)
  next
    case False
    show ?thesis unfolding one unfolding ReceiveRequest_def head option.case prod.case k line le if_False
      read_request_line_written [OF w] Let_def hs headers [OF False] receive_body.simps len body
      using words False by (cases "ParseContentLength (headers_of ls)") (simp_all add: HttpRequest_init_def body)
  qed
qed

lemma ParseContentLength_written:
  assumes "good_request m t hs body"
  shows "ParseContentLength (headers_of (header_lines hs body)) =
    Some (case body of None \<Rightarrow> 0 | Some b \<Rightarrow> of_nat (length b))"
proof (cases body)
  case None
  then obtain ks l where hs: "hs = ks @ [l]" using assms by (cases hs rule: rev_cases) (auto simp: good_request_def header_lines_def)
  show ?thesis using assms None ParseContentLength_absent [of ks l]
    by (simp add: header_lines_def hs headers_of_snoc good_request_def other_header_def)
next
  case (Some b)
  then have "length b < 2 ^ 64" using assms by (simp add: good_request_def)
  from content_length_header_line [OF this] show ?thesis
    using assms Some ParseContentLength_lines [of hs "content_length_header (length b)" _ "[]"]
    by (simp add: header_lines_def headers_of_snoc good_request_def other_header_def)
qed

lemma good_request_plain: "good_request m t hs body \<Longrightarrow> \<forall>l\<in>set (header_lines hs body). plain_line l"
  by (auto simp: good_request_def header_lines_def other_header_def content_length_header_line split: option.splits)

lemma receive_written:
  assumes good: "good_request m t hs body" and ne: "[] \<notin> set chunks"
    and s: "concat chunks = write_head m t (header_lines hs body) @ rest"
  shows "ReceiveRequest chunks limit HttpRequest_init c =
    (let n = (case body of None \<Rightarrow> 0 | Some b \<Rightarrow> length b); q = \<lparr>req_method = m, req_target = t, req_body = ''''\<rparr>
     in if n > unat limit then Some (False, q, 413)
        else if length rest < n then Some (False, q, 400)
        else Some (True, q\<lparr>req_body := take n rest\<rparr>, c))"
proof -
  have w: "is_word m" "is_word t" "length (write_head m t (header_lines hs body)) \<le> kMaxHeaderSize"
    and l: "header_lines hs body \<noteq> []" and b: "case body of None \<Rightarrow> True | Some b \<Rightarrow> length b < 2 ^ 64"
    using good by (auto simp: good_request_def)
  have n: "unat (case body of None \<Rightarrow> 0 :: u64 | Some b \<Rightarrow> of_nat (length b)) = (case body of None \<Rightarrow> 0 | Some b \<Rightarrow> length b)"
    using b by (simp add: unat_of_nat take_bit_nat_eq_self split: option.splits)
  show ?thesis
    using ReceiveRequest_head [OF w(1,2) good_request_plain [OF good] w(3) ne s, of limit c] l n
    by (simp add: ParseContentLength_written [OF good] Let_def word_less_nat_alt)
qed

lemma receive_truncated:
  assumes good: "good_request m t hs body" and ne: "[] \<notin> set chunks"
    and s: "strict_prefix (concat chunks) (write_request m t hs body)"
  shows "\<exists>q e. ReceiveRequest chunks limit HttpRequest_init c = Some (False, q, e) \<and> e \<in> {c, 400, 413}"
proof (cases "find_sub crlf2 (concat chunks)")
  case None
  then show ?thesis using receive_headers_missing [of "[]" chunks] by (auto simp: ReceiveRequest_def)
next
  case (Some k)
  let ?h = "write_head m t (header_lines hs body)"
  have plain: "\<forall>l\<in>set (request_line m t # header_lines hs body). plain_line l"
    using good_request_plain [OF good] good request_line_plain by (auto simp: good_request_def)
  obtain u where u: "write_request m t hs body = concat chunks @ u" "u \<noteq> []" using s by (auto simp: strict_prefix_def prefix_def)
  have w: "find_sub crlf2 (?h @ r) = Some (length ?h - 4)" for r
    using find_headers_end [OF plain, of r] by (simp add: write_head_def)
  have "k = length ?h - 4"
    using find_sub_append [OF Some, of u] w by (simp add: write_request_def u(1) [symmetric])
  then have "length ?h \<le> length (concat chunks)" using find_sub_Some(2) [OF Some] by simp
  then obtain rest where r: "concat chunks = ?h @ rest"
    using u(1) by (auto simp: write_request_def append_eq_append_conv2) (metis append_eq_conv_conj append_Nil2)
  then have "rest @ u = (case body of None \<Rightarrow> [] | Some b \<Rightarrow> b)" using u(1) by (simp add: write_request_def)
  then have "length rest < (case body of None \<Rightarrow> 0 | Some b \<Rightarrow> length b)" using u(2) by (cases body) auto
  then show ?thesis using receive_written [OF good ne r, of limit c] by (simp add: Let_def)
qed

end
