(* ===== verification/Rest.thy ===== *)
theory Rest
  imports Engine_Properties Http_Requests
begin

text \<open>
  \<open>include/api/rest_server.h\<close> and the request handling of \<open>src/api/rest_server.cpp\<close>: the
  endpoints over the engine, a client connection from its first byte to its last, and the life
  cycle of the server.  \<open>KVEngine::MemoryUsage\<close> adds up capacities that the C++ library chooses,
  so it is a parameter \<open>mem\<close>; \<open>crc\<close>, \<open>e\<close> and \<open>e'\<close> are those of the engine's operations.
\<close>

section \<open>Statistics and range scans\<close>

definition json_number :: "string \<Rightarrow> nat \<Rightarrow> string" where
  "json_number name n = quoted name @ '':'' @ to_dec n"

definition StatsJson :: "(KVEngine \<Rightarrow> nat) \<Rightarrow> KVEngine \<Rightarrow> string" where
  "StatsJson mem E =
     (let wal = KVEngine_GetWalStats E
      in ''{'' @ json_number ''keys'' (KVEngine_Size E) @ '','' @
         json_number ''nodes'' (node_count (engine_tree E)) @ '','' @
         json_number ''height'' (tree_height (engine_tree E)) @ '','' @
         json_number ''memory_bytes'' (mem E) @ '','' @
         quoted ''wal'' @ '':{'' @
         json_number ''total_writes'' (unat (st_total_writes wal)) @ '','' @
         json_number ''total_bytes_written'' (unat (st_total_bytes_written wal)) @ '','' @
         json_number ''total_syncs'' (unat (st_total_syncs wal)) @ '','' @
         json_number ''current_file_number'' (unat (st_current_file_number wal)) @ '','' @
         json_number ''current_file_size'' (st_current_file_size wal) @ ''}}'')"

definition item_json :: "bytes \<Rightarrow> bytes \<Rightarrow> string" where
  "item_json k v = ''{'' @ quoted ''key'' @ '':'' @ quoted (JsonEscape k) @ '','' @ quoted ''value'' @ '':'' @ quoted (JsonEscape v) @ ''}''"

text \<open>The loop over the iterator: the body written so far, the count and the iterator; fuel as for \<open>scan\<close>.\<close>

fun range_scan_loop :: "nat \<Rightarrow> BPlusTree \<Rightarrow> Iterator \<Rightarrow> bool \<Rightarrow> nat \<Rightarrow> string \<Rightarrow> (string \<times> nat \<times> Iterator) option" where
  "range_scan_loop 0 T iter first cnt body = None"
| "range_scan_loop (Suc n) T iter first cnt body = do {
     v \<leftarrow> Valid T iter;
     if \<not> v then Some (body, cnt, iter)
     else do {
       k \<leftarrow> Iterator_key T iter;
       x \<leftarrow> Iterator_value T iter;
       iter \<leftarrow> Next T iter;
       range_scan_loop n T iter False (cnt + 1) (body @ (if first then [] else '','') @ item_json k x)
     }
   }"

definition RangeScanJson :: "KVEngine \<Rightarrow> bytes \<Rightarrow> bytes \<Rightarrow> (string \<times> nat) option" where
  "RangeScanJson E start limit = do {
     let T = engine_tree E;
     iter \<leftarrow> KVEngine_NewIterator_range E start limit;
     (body, cnt, iter) \<leftarrow> range_scan_loop (Suc (tree_size T)) T iter True 0 (''{'' @ quoted ''items'' @ '':['');
     if \<not> Status_ok (it_status iter)
     then Some (ErrorJson (Status_ToString (it_status iter)), StatusHttpCode (it_status iter))
     else Some (body @ ''],'' @ quoted ''count'' @ '':'' @ to_dec cnt @ ''}'', 200)
   }"

text \<open>\<open>std::getline(stream, part, delim)\<close> until it fails.\<close>

function getline_parts :: "char \<Rightarrow> string \<Rightarrow> string list" where
  "getline_parts d s =
     (if s = [] then []
      else takeWhile (\<lambda>c. c \<noteq> d) s # getline_parts d (drop 1 (dropWhile (\<lambda>c. c \<noteq> d) s)))"
  by pat_completeness auto
termination
proof (relation "measure (\<lambda>(d, s). length s)")
  fix d :: char and s :: string
  assume "s \<noteq> []"
  then show "((d, drop 1 (dropWhile (\<lambda>c. c \<noteq> d) s)), d, s) \<in> measure (\<lambda>(d, s). length s)"
    using length_dropWhile_le [of "\<lambda>c. c \<noteq> d" s] by (cases "length s") auto
qed simp

declare getline_parts.simps [simp del]

text \<open>The loop over the parameters; \<open>Inl\<close> is the error it returns.\<close>

fun parse_parameters :: "string list \<Rightarrow> string \<Rightarrow> string \<Rightarrow> string + string \<times> string" where
  "parse_parameters [] start limit = Inr (start, limit)"
| "parse_parameters (parameter # ps) start limit =
     (if parameter = [] then parse_parameters ps start limit
      else
        case find_sub ''='' parameter of
          None \<Rightarrow> Inl ''invalid query parameter''
        | Some equals \<Rightarrow>
            case DecodePathComponent (drop (equals + 1) parameter) of
              None \<Rightarrow> Inl ''invalid query parameter encoding''
            | Some val \<Rightarrow>
                if take equals parameter = ''start'' then parse_parameters ps val limit
                else if take equals parameter = ''limit'' then parse_parameters ps start val
                else parse_parameters ps start limit)"

text \<open>\<open>std::string\<close> compares bytes like \<open>Slice\<close>.\<close>

definition ParseRangeQuery :: "string \<Rightarrow> string + string \<times> string" where
  "ParseRangeQuery target =
     (if take 6 target \<noteq> ''/scan?'' then Inl ''invalid scan endpoint''
      else
        case parse_parameters (getline_parts CHR ''&'' (drop 6 target)) [] [] of
          Inl err \<Rightarrow> Inl err
        | Inr (start, limit) \<Rightarrow>
            if start = [] then Inl ''start parameter is required''
            else if limit = [] then Inl ''limit parameter is required''
            else if Slice_compare start limit \<ge> 0 then Inl ''start must be less than limit''
            else Inr (start, limit))"

section \<open>The endpoints\<close>

definition ok_json :: string where
  "ok_json = ''{'' @ quoted ''status'' @ '':'' @ quoted ''ok'' @ ''}''"

definition ok_key_json :: "bytes \<Rightarrow> string" where
  "ok_key_json key = ''{'' @ quoted ''status'' @ '':'' @ quoted ''ok'' @ '','' @ quoted ''key'' @ '':'' @ quoted (JsonEscape key) @ ''}''"

text \<open>The body and code for an operation that only has a status.\<close>

definition status_response :: "Status \<Rightarrow> string \<Rightarrow> string \<times> nat" where
  "status_response s body = (if Status_ok s then body else ErrorJson (Status_ToString s), StatusHttpCode s)"

definition handle_key ::
  "(bytes \<Rightarrow> u32) \<Rightarrow> WalEnv \<Rightarrow> WalEnv \<Rightarrow> KVEngine \<Rightarrow> HttpRequest \<Rightarrow> bytes \<Rightarrow> (string \<times> nat \<times> KVEngine) option" where
  "handle_key crc e e' E request key =
     (if req_method request = ''GET'' then do {
        (s, val) \<leftarrow> KVEngine_Get E key (Some []);
        if \<not> Status_ok s then Some (ErrorJson (Status_ToString s), StatusHttpCode s, E)
        else do { x \<leftarrow> val; Some (item_json key x, 200, E) }
      }
      else if req_method request = ''PUT'' then do {
        (s, E) \<leftarrow> KVEngine_Put crc e e' key (req_body request) E;
        let (body, c) = status_response s (ok_key_json key);
        Some (body, c, E)
      }
      else if req_method request = ''DELETE'' then do {
        (s, E) \<leftarrow> KVEngine_Delete crc e e' key E;
        let (body, c) = status_response s (ok_key_json key);
        Some (body, c, E)
      }
      else Some (ErrorJson ''method not allowed'', 405, E))"

definition HandleRequest ::
  "(bytes \<Rightarrow> u32) \<Rightarrow> (KVEngine \<Rightarrow> nat) \<Rightarrow> WalEnv \<Rightarrow> WalEnv \<Rightarrow> KVEngine \<Rightarrow> HttpRequest \<Rightarrow>
    (string \<times> nat \<times> KVEngine) option" where
  "HandleRequest crc mem e e' E request =
     (if req_method request = ''OPTIONS'' then Some (''{}'', 200, E)
      else if req_target request = ''/health'' \<and> req_method request = ''GET'' then Some (ok_json, 200, E)
      else if req_target request = ''/stats'' \<and> req_method request = ''GET'' then Some (StatsJson mem E, 200, E)
      else if req_target request = ''/flush'' \<and> req_method request = ''POST'' then
        let (s, E) = KVEngine_Flush E; (body, c) = status_response s ok_json in Some (body, c, E)
      else if req_target request = ''/sync'' \<and> req_method request = ''POST'' then
        let (s, E) = KVEngine_Sync e E; (body, c) = status_response s ok_json in Some (body, c, E)
      else if req_method request = ''GET'' \<and> take 6 (req_target request) = ''/scan?'' then
        case ParseRangeQuery (req_target request) of
          Inl err \<Rightarrow> Some (ErrorJson err, 400, E)
        | Inr (start, limit) \<Rightarrow> map_option (\<lambda>(body, c). (body, c, E)) (RangeScanJson E start limit)
      else if take 4 (req_target request) = ''/kv/'' \<and> length (req_target request) > 4 then
        case DecodePathComponent (drop 4 (req_target request)) of
          None \<Rightarrow> Some (ErrorJson ''invalid key encoding'', 400, E)
        | Some key \<Rightarrow>
            if key = [] then Some (ErrorJson ''invalid key encoding'', 400, E)
            else handle_key crc e e' E request key
      else Some (ErrorJson ''endpoint not found'', 404, E))"

section \<open>A client connection\<close>

record RestServerOptions =
  host :: string
  port :: "16 word"
  max_body_size :: u64

definition RestServerOptions_default :: RestServerOptions where
  "RestServerOptions_default = \<lparr>host = ''127.0.0.1'', port = 8080, max_body_size = 1024 * 1024\<rparr>"

definition default_content_type :: string where
  "default_content_type = ''application/json''"

text \<open>
  \<open>packets\<close> is what the client's socket delivers and \<open>sends\<close> what its \<open>send\<close> calls answer;
  the result is the engine and the bytes the client gets.
\<close>

definition HandleClient ::
  "(bytes \<Rightarrow> u32) \<Rightarrow> (KVEngine \<Rightarrow> nat) \<Rightarrow> WalEnv \<Rightarrow> WalEnv \<Rightarrow> RestServerOptions \<Rightarrow> KVEngine \<Rightarrow> bytes list \<Rightarrow> int list \<Rightarrow>
    (KVEngine \<times> bytes) option" where
  "HandleClient crc mem e e' opts E packets sends = do {
     (ok, request, parse_error) \<leftarrow> ReceiveRequest packets (max_body_size opts) HttpRequest_init 400;
     if \<not> ok then
       let body = ErrorJson (if parse_error = 413 then ''request body too large'' else ''malformed HTTP request'')
       in Some (E, snd (SendAll sends (BuildResponse parse_error body default_content_type)))
     else do {
       (body, c, E) \<leftarrow> HandleRequest crc mem e e' E request;
       Some (E, snd (SendAll sends (BuildResponse c body default_content_type)))
     }
   }"

section \<open>The server\<close>

text \<open>
  \<open>open_sockets\<close> are the descriptors that the process has open; \<open>accepting\<close> says that the accept
  thread runs (is joinable).  \<open>StartEnv\<close> holds the answers of the system calls.
\<close>

record RestServer =
  rest_options :: RestServerOptions
  running :: bool
  server_socket :: int
  accepting :: bool
  open_sockets :: "int set"

record StartEnv =
  socket_result :: int
  inet_pton_ok :: bool
  bind_ok :: bool
  listen_ok :: bool

definition RestServer_new :: "RestServerOptions \<Rightarrow> int set \<Rightarrow> RestServer" where
  "RestServer_new opts S = \<lparr>rest_options = opts, running = False, server_socket = -1, accepting = False, open_sockets = S\<rparr>"

definition CloseSocket :: "int \<Rightarrow> RestServer \<Rightarrow> RestServer" where
  "CloseSocket fd s = s\<lparr>open_sockets := open_sockets s - {fd}\<rparr>"

definition RestServer_Start :: "StartEnv \<Rightarrow> RestServer \<Rightarrow> Status \<times> RestServer" where
  "RestServer_Start env s =
     (if running s then (Status_AlreadyExists ''REST server is already running'', s)
      else if port (rest_options s) = 0 then (Status_InvalidArgument ''port must be between 1 and 65535'', s)
      else
        let socket_fd = socket_result env
        in if socket_fd = -1 then (Status_IOError ''failed to create server socket'', s)
           else
             let s = s\<lparr>open_sockets := insert socket_fd (open_sockets s)\<rparr>
             in if \<not> inet_pton_ok env then (Status_InvalidArgument ''host must be an IPv4 address'', CloseSocket socket_fd s)
                else if \<not> bind_ok env then
                  (Status_IOError (''failed to bind '' @ host (rest_options s) @ '':'' @ to_dec (unat (port (rest_options s)))),
                   CloseSocket socket_fd s)
                else if \<not> listen_ok env then (Status_IOError ''failed to listen on server socket'', CloseSocket socket_fd s)
                else (Status_OK, s\<lparr>server_socket := socket_fd, running := True, accepting := True\<rparr>))"

definition RestServer_Stop :: "RestServer \<Rightarrow> RestServer" where
  "RestServer_Stop s =
     (if \<not> running s then s
      else
        let s = s\<lparr>running := False\<rparr>;
            s = (if server_socket s \<noteq> -1 then (CloseSocket (server_socket s) s)\<lparr>server_socket := -1\<rparr> else s)
        in s\<lparr>accepting := False\<rparr>)"

definition RestServer_destroy :: "RestServer \<Rightarrow> RestServer" where
  "RestServer_destroy s = RestServer_Stop s"

definition IsRunning :: "RestServer \<Rightarrow> bool" where
  "IsRunning s = running s"

text \<open>
  \<open>AcceptLoop\<close>: each round has the value of \<open>running_\<close> before the call, the result of
  \<open>accept\<close> and the value of \<open>running_\<close> after a failure; the result are the sockets that get a
  thread with \<open>HandleClient\<close>.
\<close>

fun AcceptLoop :: "(bool \<times> int \<times> bool) list \<Rightarrow> int list" where
  "AcceptLoop [] = []"
| "AcceptLoop ((run, client_socket, still) # rounds) =
     (if \<not> run then []
      else if client_socket = -1 then (if still then AcceptLoop rounds else [])
      else client_socket # AcceptLoop rounds)"

end
