(* ===== verification/Rest_Correct.thy ===== *)
theory Rest_Correct
  imports Rest
begin

text \<open>
  The endpoints against the abstract store: a \<open>rest_call\<close> is what a client asks for,
  \<open>call_request\<close> the request it writes, \<open>call_response\<close> the answer that the map of the
  engine's keys and values prescribes.
\<close>

section \<open>Calls\<close>

datatype rest_call = RGet bytes | RPut bytes bytes | RDelete bytes | RHealth | RFlush | RSync

fun call_method :: "rest_call \<Rightarrow> string" where
  "call_method (RGet _) = ''GET''"
| "call_method (RPut _ _) = ''PUT''"
| "call_method (RDelete _) = ''DELETE''"
| "call_method RHealth = ''GET''"
| "call_method RFlush = ''POST''"
| "call_method RSync = ''POST''"

fun call_target :: "rest_call \<Rightarrow> string" where
  "call_target (RGet k) = ''/kv/'' @ percent_encode k"
| "call_target (RPut k _) = ''/kv/'' @ percent_encode k"
| "call_target (RDelete k) = ''/kv/'' @ percent_encode k"
| "call_target RHealth = ''/health''"
| "call_target RFlush = ''/flush''"
| "call_target RSync = ''/sync''"

fun call_body :: "rest_call \<Rightarrow> string option" where
  "call_body (RPut _ v) = Some v"
| "call_body _ = None"

definition call_request :: "string list \<Rightarrow> rest_call \<Rightarrow> string" where
  "call_request hs c = write_request (call_method c) (call_target c) hs (call_body c)"

fun call_ops :: "rest_call \<Rightarrow> store_op list" where
  "call_ops (RPut k v) = [PutOp k v]"
| "call_ops (RDelete k) = [DeleteOp k]"
| "call_ops _ = []"

definition not_found_json :: string where
  "not_found_json = ErrorJson ''NotFound: Key not found''"

fun call_response :: "(bytes \<rightharpoonup> bytes) \<Rightarrow> rest_call \<Rightarrow> string \<times> nat" where
  "call_response m (RGet k) = (case m k of Some v \<Rightarrow> (item_json k v, 200) | None \<Rightarrow> (not_found_json, 404))"
| "call_response m (RPut k v) = (ok_key_json k, 200)"
| "call_response m (RDelete k) = (if m k = None then (not_found_json, 404) else (ok_key_json k, 200))"
| "call_response m RHealth = (ok_json, 200)"
| "call_response m RFlush = (ok_json, 200)"
| "call_response m RSync = (ok_json, 200)"

text \<open>Calls with a nonempty key, and what the server and the log of the engine take.\<close>

fun good_call :: "RestServerOptions \<Rightarrow> KVEngine \<Rightarrow> rest_call \<Rightarrow> bool" where
  "good_call opts E (RGet k) \<longleftrightarrow> k \<noteq> []"
| "good_call opts E (RPut k v) \<longleftrightarrow> k \<noteq> [] \<and> length v \<le> unat (max_body_size opts) \<and> engine_fits E k v"
| "good_call opts E (RDelete k) \<longleftrightarrow> k \<noteq> [] \<and> engine_fits E k []"
| "good_call opts E _ \<longleftrightarrow> True"

section \<open>One request\<close>

lemma NotFound_ToString: "Status_ToString (Status_NotFound m) = (if m = [] then ''NotFound'' else ''NotFound: '' @ m)"
  by (simp add: Status_ToString_def status_factories Status_ok_def)

lemma StatusHttpCode_simps [simp]:
  "StatusHttpCode Status_OK = 200" "StatusHttpCode (Status_NotFound m) = 404"
  by (simp_all add: StatusHttpCode_def status_factories)

lemma kv_target:
  assumes "req_target r = ''/kv/'' @ percent_encode k" and "k \<noteq> []" and "req_method r \<noteq> ''OPTIONS''"
  shows "HandleRequest crc mem e e' E r = handle_key crc e e' E r k"
proof -
  have "take 4 (req_target r) = ''/kv/''" "drop 4 (req_target r) = percent_encode k" "length (req_target r) > 4"
    "take 6 (req_target r) \<noteq> ''/scan?''"
    using assms(1,2) percent_encode_clean(4) [of k] by (simp_all add: eval_nat_numeral)
  then show ?thesis
    using assms by (simp add: HandleRequest_def DecodePathComponent_encode)
qed

lemma handle_get:
  assumes "answers E m" and "req_method r = ''GET''"
  shows "handle_key crc e e' E r k = Some (case m k of Some v \<Rightarrow> (item_json k v, 200, E) | None \<Rightarrow> (not_found_json, 404, E))"
  using assms by (cases "m k") (simp_all add: handle_key_def answers_def not_found_json_def NotFound_ToString)

lemma call_words: "is_word (call_method c)" "is_word (call_target c)"
proof -
  have w: "\<not> is_space x" if "x \<in> set (percent_encode k)" for x k
    using percent_encode_clean(3) [of k] that by (auto simp: is_space_def char_val_def)
  show "is_word (call_method c)" by (cases c) (simp_all add: is_word_def is_space_def)
  have p: "is_word (''/kv/'' @ percent_encode k)" for k
    using w [of _ k] by (auto simp: is_word_def) (simp_all add: is_space_def)
  show "is_word (call_target c)" using p by (cases c) (simp_all add: is_word_def is_space_def)
qed

lemma rest_call_step:
  assumes new: "key_order (comparator (btree_options opts))" "enable_wal opts" "healthy e0"
    "log_holds crc d rs0" "KVEngine_new crc e0 (\<lambda>name. True) opts d = Some E" and run: "engine_run crc E ops F"
    and e: "reliable e" "reliable e'" and c: "good_call sopts F c"
    and r: "r = \<lparr>req_method = call_method c, req_target = call_target c, req_body = (case call_body c of None \<Rightarrow> [] | Some b \<Rightarrow> b)\<rparr>"
  shows "\<exists>G. HandleRequest crc mem e e' F r = Some (fst (call_response (map_after (log_ops rs0 @ ops)) c), snd (call_response (map_after (log_ops rs0 @ ops)) c), G) \<and>
    engine_run crc F (call_ops c) G \<and> engine_run crc E (ops @ call_ops c) G"
proof (cases c)
  case (RGet k)
  have "req_target r = ''/kv/'' @ percent_encode k" "k \<noteq> []" "req_method r = ''GET''" using c r RGet by simp_all
  with kv_target [OF this(1,2), of crc mem e e' F] handle_get [OF engine_run_map [OF new run] this(3), of crc e e' k] run engine_run.start [of crc F]
  show ?thesis by (cases "map_after (log_ops rs0 @ ops) k") (simp_all add: RGet)
next
  case (RPut k v)
  have p: "req_target r = ''/kv/'' @ percent_encode k" "k \<noteq> []" "req_method r = ''PUT''" "engine_fits F k v" "req_body r = v"
    using c r RPut by simp_all
  from engine_put_step [OF new run e p(2,4)] kv_target [OF p(1,2), of crc mem e e' F] p(3,5)
  show ?thesis by (auto simp: RPut handle_key_def status_response_def)
next
  case (RDelete k)
  have p: "req_target r = ''/kv/'' @ percent_encode k" "k \<noteq> []" "req_method r = ''DELETE''" "engine_fits F k []"
    using c r RDelete by simp_all
  from engine_delete_step [OF new run e p(4)] kv_target [OF p(1,2), of crc mem e e' F] p(3)
  show ?thesis
    by (cases "map_after (log_ops rs0 @ ops) k") (auto simp: RDelete handle_key_def status_response_def not_found_json_def NotFound_ToString)
next
  case RHealth
  then show ?thesis using run engine_run.start [of crc F] by (simp add: r HandleRequest_def)
next
  case RFlush
  have "HandleRequest crc mem e e' F r = Some (ok_json, 200, snd (KVEngine_Flush F))"
    using engine_flush_step [of F] by (simp add: r RFlush HandleRequest_def split_beta status_response_def)
  then show ?thesis using engine_run.flush [OF run] engine_run.flush [OF engine_run.start [of crc F]] by (simp add: RFlush)
next
  case RSync
  have "HandleRequest crc mem e e' F r = Some (ok_json, 200, snd (KVEngine_Sync e F))"
    using engine_sync_step [OF new run e(1)] by (simp add: r RSync HandleRequest_def split_beta status_response_def)
  then show ?thesis using engine_run.sync [OF run e(1)] engine_run.sync [OF engine_run.start [of crc F] e(1)] by (simp add: RSync)
qed

end
