(* ===== verification/Rest_Scan.thy ===== *)
theory Rest_Scan
  imports Rest_Correct
begin

text \<open>
  The range scan endpoint: the query a client writes is read back, and the body lists the entries
  of the range in order.
\<close>

section \<open>The query\<close>

definition scan_target :: "bytes \<Rightarrow> bytes \<Rightarrow> string" where
  "scan_target start limit = ''/scan?start='' @ percent_encode start @ ''&limit='' @ percent_encode limit"

lemma getline_parts_Nil [simp]: "getline_parts d [] = []"
  by (simp add: getline_parts.simps)

lemma getline_parts_last: "d \<notin> set s \<Longrightarrow> s \<noteq> [] \<Longrightarrow> getline_parts d s = [s]"
proof -
  assume a: "d \<notin> set s" "s \<noteq> []"
  then have "\<forall>c\<in>set s. c \<noteq> d" by blast
  then have e: "takeWhile (\<lambda>c. c \<noteq> d) s = s" "dropWhile (\<lambda>c. c \<noteq> d) s = []"
    by (simp_all add: takeWhile_eq_all_conv dropWhile_eq_Nil_conv)
  show ?thesis using a(2) by (subst getline_parts.simps) (simp only: e if_False drop_Nil getline_parts_Nil)
qed

lemma getline_parts_step: "d \<notin> set s \<Longrightarrow> getline_parts d (s @ d # r) = s # getline_parts d r"
proof -
  assume "d \<notin> set s"
  then have a: "\<forall>c\<in>set s. c \<noteq> d" by blast
  have "takeWhile (\<lambda>c. c \<noteq> d) (s @ d # r) = s" "dropWhile (\<lambda>c. c \<noteq> d) (s @ d # r) = d # r"
    using a by (simp_all add: takeWhile_append dropWhile_append)
  then show ?thesis by (subst getline_parts.simps) simp
qed

lemma ParseRangeQuery_written:
  assumes "start \<noteq> []" and "limit \<noteq> []"
  shows "ParseRangeQuery (scan_target start limit) =
    (if Slice_compare start limit < 0 then Inr (start, limit) else Inl ''start must be less than limit'')"
proof -
  have q: "drop 6 (scan_target start limit) = (''start='' @ percent_encode start) @ CHR ''&'' # (''limit='' @ percent_encode limit)"
    "take 6 (scan_target start limit) = ''/scan?''"
    by (simp_all add: scan_target_def)
  have c: "CHR ''&'' \<notin> set (''start='' @ percent_encode start)" "CHR ''&'' \<notin> set (''limit='' @ percent_encode limit)"
    using percent_encode_clean(2) by simp_all
  have parts: "getline_parts CHR ''&'' (drop 6 (scan_target start limit)) =
      [''start='' @ percent_encode start, ''limit='' @ percent_encode limit]"
    unfolding q(1) getline_parts_step [OF c(1)] using getline_parts_last [OF c(2)] by simp
  have f: "find_sub ''='' (''start='' @ s) = Some 5" "find_sub ''='' (''limit='' @ s) = Some 5" for s by simp_all
  have p: "parse_parameters [''start='' @ percent_encode start, ''limit='' @ percent_encode limit] [] [] = Inr (start, limit)"
    by (simp add: DecodePathComponent_encode)
  show ?thesis unfolding ParseRangeQuery_def q(2) parts p using assms by simp
qed

section \<open>The loop\<close>

fun comma_join :: "string list \<Rightarrow> string" where
  "comma_join [] = []"
| "comma_join [x] = x"
| "comma_join (x # y # zs) = x @ '','' @ comma_join (y # zs)"

definition scan_json :: "entry list \<Rightarrow> string" where
  "scan_json es = ''{'' @ quoted ''items'' @ '':['' @ comma_join (map (\<lambda>(k, v). item_json k v) es) @ ''],'' @
     quoted ''count'' @ '':'' @ to_dec (length es) @ ''}''"

definition item_rest :: "bool \<Rightarrow> entry list \<Rightarrow> string" where
  "item_rest first es = (if es = [] \<or> first then [] else '','') @ comma_join (map (\<lambda>(k, v). item_json k v) es)"

lemma item_rest_Cons: "item_rest first (e # es) = (if first then [] else '','') @ item_json (fst e) (snd e) @ item_rest False es"
  by (cases es; cases e) (simp_all add: item_rest_def)

lemma range_scan_ready:
  assumes o: "key_order c" and "key_order.ready c T iter es" and "length es < n"
  shows "\<exists>iter'. range_scan_loop n T iter first cnt body = Some (body @ item_rest first es, cnt + length es, iter') \<and>
    Status_ok (it_status iter')"
  using assms(2,3)
proof (induction n iter es arbitrary: first cnt body rule: key_order.drive_iterator [OF o, consumes 2, case_names stop step])
  case (stop n iter)
  then show ?case by (simp add: key_order.ready_def [OF o] item_rest_def)
next
  case (step n iter e es iter')
  from step(6) [of False "cnt + 1" "body @ (if first then [] else '','') @ item_json (fst e) (snd e)"] step(2-4)
  show ?case by (simp add: tree_item_eq item_rest_Cons)
qed

lemma RangeScanJson_store:
  assumes o: "key_order c" and t: "tree_store c (engine_tree E) es" and m: "tree_max (engine_tree E) < 2 ^ 31"
  shows "RangeScanJson E start limit = Some (scan_json (filter (in_range c (Some start) (Some limit)) es), 200)"
proof -
  let ?T = "engine_tree E"
  let ?es = "filter (in_range c (Some start) (Some limit)) es"
  have r: "represents ?T es" "tree_cmp ?T = c" using t by (auto simp: tree_store_def)
  obtain iter where iter: "Iterator_new ?T (Some start) (Some limit) = Some iter" "key_order.ready c ?T iter ?es"
    using key_order.Iterator_new_ready [OF o r m] by blast
  have "tree_size ?T = length es" using rep_leaves [OF r(1)] by metis
  then have "length ?es < Suc (tree_size ?T)" by (simp add: less_Suc_eq_le)
  from range_scan_ready [OF o iter(2) this, of True 0 "''{'' @ quoted ''items'' @ '':[''"] iter(1)
  show ?thesis
    by (auto simp: RangeScanJson_def KVEngine_NewIterator_range_def NewIterator_range_def scan_json_def item_rest_def
        simp del: range_scan_loop.simps)
qed

end
