(* ===== verification/Rest_Properties.thy ===== *)
theory Rest_Properties
  imports Rest_Scan
begin

text \<open>
  The properties of the REST server: the texts it writes and reads, the requests it receives, and
  the store it serves.  The witnesses run the sample engine behind a server with default options.
\<close>

section \<open>Concrete requests\<close>

abbreviation sample_headers :: "string list" where
  "sample_headers \<equiv> [''Host: db'']"

abbreviation sample_put_call :: rest_call where
  "sample_put_call \<equiv> RPut ''k'' ''v''"

lemma sample_header_ok: "other_header ''Host: db''" "content_length_line ''Host: db'' = None"
  by (simp_all add: other_header_def plain_line_def content_length_line_def tolower_def char_val_def)

lemma sample_good:
  "good_request (call_method sample_put_call) (call_target sample_put_call) sample_headers (call_body sample_put_call)"
  "good_request ''GET'' ''/kv/k'' sample_headers None"
  "good_request ''GET'' (scan_target ''a'' ''z'') sample_headers None"
proof -
  have p: "percent_encode ''k'' = ''k''" "percent_encode ''a'' = ''a''" "percent_encode ''z'' = ''z''"
    by (simp_all add: percent_encode_def percent_safe_def char_val_def)
  have d: "to_dec (Suc 0) = ''1''" by (simp add: to_dec.simps digit_char_def) (simp add: char_eq char_val_def)
  note unfold = good_request_def header_lines_def write_head_def request_line_def kMaxHeaderSize_def is_word_def is_space_def
    sample_header_ok content_length_header_def p d scan_target_def
  show "good_request (call_method sample_put_call) (call_target sample_put_call) sample_headers (call_body sample_put_call)"
    by (simp add: unfold)
  show "good_request ''GET'' ''/kv/k'' sample_headers None" by (simp add: unfold)
  show "good_request ''GET'' (scan_target ''a'' ''z'') sample_headers None" by (simp add: unfold)
qed

abbreviation no_memory :: "KVEngine \<Rightarrow> nat" where
  "no_memory \<equiv> \<lambda>E. 0"

lemma sample_server_good: "engine_fits E ''k'' ''v'' \<Longrightarrow> good_call RestServerOptions_default E sample_put_call"
  by (simp add: RestServerOptions_default_def)

section \<open>Texts\<close>

text \<open>
  What \<open>JsonEscape\<close> writes between quotes is a JSON string that denotes the original bytes, and the
  closing quote is found where it stands, whatever the key or value contains.
\<close>

theorem json_string_roundtrip: "unescape_string (JsonEscape s @ CHR 0x22 # rest) = Some (s, rest)"
  by (rule unescape_JsonEscape)

text \<open>
  A key that a client percent-encodes in a path is decoded to the same bytes; the encoded text
  contains no character that ends a path component or a query parameter.
\<close>

theorem percent_roundtrip:
  "DecodePathComponent (percent_encode key) = Some key \<and> set (percent_encode key) \<inter> {CHR ''?'', CHR ''&'', CHR '' ''} = {}"
  using DecodePathComponent_encode percent_encode_clean [of key] by (fastforce simp: char_val_def)

section \<open>Requests\<close>

text \<open>
  C32. How a request is cut into packets does not matter: if its headers end within 64 KiB, every
  sequence of nonempty packets is read like the one packet that holds all bytes.
\<close>

theorem receive_packets:
  assumes "[] \<notin> set packets" and "find_sub crlf2 (concat packets) = Some n" and "n + 4 \<le> kMaxHeaderSize"
  shows "ReceiveRequest packets limit request c = ReceiveRequest [concat packets] limit request c"
  by (rule receive_chunking [OF assms])

theorem receive_packets_witness:
  "ReceiveRequest [[CHR 0x0D], [CHR 0x0A, CHR 0x0D], [CHR 0x0A]] 10 HttpRequest_init 400 =
   ReceiveRequest [[CHR 0x0D, CHR 0x0A, CHR 0x0D, CHR 0x0A]] 10 HttpRequest_init 400"
  using receive_packets [of "[[CHR 0x0D], [CHR 0x0A, CHR 0x0D], [CHR 0x0A]]" 0 10 HttpRequest_init 400]
  by (simp add: crlf2_def crlf_def kMaxHeaderSize_def)

text \<open>
  C16. A request that a client writes, with at least one header, arrives with its method, target and body
  if the body is within the limit, and is refused with code 413 otherwise; what follows it in the
  stream is not taken.
\<close>

theorem receive_roundtrip:
  assumes "good_request m t hs body" and "[] \<notin> set packets" and "concat packets = write_request m t hs body @ extra"
  shows "ReceiveRequest packets limit HttpRequest_init c =
    (let b = (case body of None \<Rightarrow> [] | Some b \<Rightarrow> b); q = \<lparr>req_method = m, req_target = t, req_body = []\<rparr>
     in if length b > unat limit then Some (False, q, 413) else Some (True, q\<lparr>req_body := b\<rparr>, c))"
proof -
  have "concat packets = write_head m t (header_lines hs body) @ (case body of None \<Rightarrow> [] | Some b \<Rightarrow> b) @ extra"
    using assms(3) by (simp add: write_request_def)
  from receive_written [OF assms(1,2) this, of limit c] show ?thesis by (cases body) (simp_all add: Let_def)
qed

theorem receive_roundtrip_witness:
  "ReceiveRequest [call_request sample_headers sample_put_call] 1024 HttpRequest_init 400 =
     Some (True, \<lparr>req_method = ''PUT'', req_target = ''/kv/k'', req_body = ''v''\<rparr>, 400)"
proof -
  have "percent_encode ''k'' = ''k''" by (simp add: percent_encode_def percent_safe_def char_val_def)
  moreover have "call_request sample_headers sample_put_call \<noteq> []" by (simp add: call_request_def write_request_def write_head_def crlf_def)
  ultimately show ?thesis
    using receive_roundtrip [OF sample_good(1), of "[call_request sample_headers sample_put_call]" "[]" 1024 400]
    by (simp add: call_request_def Let_def)
qed

text \<open>
  A request without headers, which HTTP allows, has undefined behaviour: the length of the header view
  wraps below zero, and the view reaches past the end of the buffer.
\<close>

theorem receive_no_headers_undefined:
  assumes "is_word m" and "is_word t" and "[] \<notin> set packets" and "concat packets = write_head m t [] @ rest"
    and "length (write_head m t []) \<le> kMaxHeaderSize"
  shows "ReceiveRequest packets limit HttpRequest_init c = None"
  using ReceiveRequest_head [OF assms(1,2) _ assms(5,3,4), of limit c] by (simp add: Let_def)

theorem receive_no_headers_undefined_witness:
  "ReceiveRequest [''GET /health HTTP/1.1'' @ crlf @ crlf] 1024 HttpRequest_init 400 = None"
  using receive_no_headers_undefined [of "''GET''" "''/health''" "[''GET /health HTTP/1.1'' @ crlf @ crlf]" "[]" 1024 400]
  by (simp add: is_word_def is_space_def write_head_def request_line_def kMaxHeaderSize_def crlf_def)

section \<open>Responses\<close>

text \<open>
  A client that reads a response finds its code in the status line, the length of its body in the
  headers, and the body after the first empty line.
\<close>

theorem response_roundtrip:
  assumes "length body < 2 ^ 64" and "CHR 0x0D \<notin> set content_type"
  shows "\<exists>line headers. BuildResponse c body content_type = line @ crlf @ headers @ crlf2 @ body \<and>
    find_sub crlf (BuildResponse c body content_type) = Some (length line) \<and>
    find_sub crlf2 (BuildResponse c body content_type) = Some (length (line @ crlf @ headers)) \<and>
    stream_words line ! 1 = to_dec c \<and> ParseContentLength headers = Some (of_nat (length body))"
  by (rule response_parses [OF assms])

theorem response_roundtrip_witness:
  "\<exists>line headers. BuildResponse 404 ''{}'' default_content_type = line @ crlf @ headers @ crlf2 @ ''{}'' \<and>
     stream_words line ! 1 = ''404'' \<and> ParseContentLength headers = Some 2"
proof -
  have d: "to_dec 404 = ''404''" by (simp add: to_dec.simps digit_char_def) (simp add: char_eq char_val_def)
  from response_roundtrip [of "''{}''" default_content_type 404] show ?thesis
    by (auto simp: default_content_type_def d)
qed

text \<open>
  \<open>SendAll\<close> hands the socket a beginning of the text, without gaps or repetitions however \<open>send\<close>
  splits it, and returns true exactly when all of it was taken.
\<close>

theorem SendAll_delivers:
  "\<exists>rest. bs = snd (SendAll ns bs) @ rest \<and> (fst (SendAll ns bs) \<longleftrightarrow> rest = [])"
  using SendAll_prefix [of ns bs] by (cases "SendAll ns bs") simp

section \<open>The store behind the server\<close>

lemma HandleClient_request:
  assumes "ReceiveRequest packets (max_body_size sopts) HttpRequest_init 400 = Some (True, r, 400)"
    and "HandleRequest crc mem e e' F r = Some (body, c, G)"
  shows "HandleClient crc mem e e' sopts F packets sends =
    Some (G, snd (SendAll sends (BuildResponse c body default_content_type)))"
  using assms by (simp add: HandleClient_def)

text \<open>One request, from its packets to the response.\<close>

lemma rest_serves_store_step:
  assumes "key_order (comparator (btree_options opts))" "enable_wal opts" "healthy e0"
    and "log_holds crc d rs0" and "KVEngine_new crc e0 (\<lambda>name. True) opts d = Some E" and "engine_run crc E ops F"
    and "reliable e" "reliable e'" and "good_call sopts F call"
    and "good_request (call_method call) (call_target call) hs (call_body call)"
    and "[] \<notin> set packets" and "concat packets = call_request hs call @ extra"
  shows "\<exists>G. HandleClient crc mem e e' sopts F packets sends =
      Some (G, snd (SendAll sends (BuildResponse (snd (call_response (map_after (log_ops rs0 @ ops)) call))
        (fst (call_response (map_after (log_ops rs0 @ ops)) call)) default_content_type))) \<and>
    engine_run crc F (call_ops call) G \<and> engine_run crc E (ops @ call_ops call) G"
proof -
  let ?b = "case call_body call of None \<Rightarrow> [] | Some b \<Rightarrow> b"
  have "concat packets = write_head (call_method call) (call_target call) (header_lines hs (call_body call)) @ ?b @ extra"
    using assms(12) by (simp add: call_request_def write_request_def)
  note w = receive_written [OF assms(10,11) this, of "max_body_size sopts" 400]
  have "length ?b \<le> unat (max_body_size sopts)" using assms(9) by (cases call) simp_all
  then have r: "ReceiveRequest packets (max_body_size sopts) HttpRequest_init 400 =
      Some (True, \<lparr>req_method = call_method call, req_target = call_target call, req_body = ?b\<rparr>, 400)"
    using w by (cases "call_body call") (simp_all add: Let_def)
  obtain G where "HandleRequest crc mem e e' F \<lparr>req_method = call_method call, req_target = call_target call, req_body = ?b\<rparr> =
      Some (fst (call_response (map_after (log_ops rs0 @ ops)) call), snd (call_response (map_after (log_ops rs0 @ ops)) call), G)"
    "engine_run crc F (call_ops call) G" "engine_run crc E (ops @ call_ops call) G"
    using rest_call_step [OF assms(1-9) refl] by blast
  with HandleClient_request [OF r this(1)] show ?thesis by blast
qed

text \<open>
  C3. The server is the store it fronts: on every engine that runs over an empty directory, a client that
  writes a GET, PUT, DELETE, health, flush or sync request, in any packets, gets exactly the response that the
  map of live keys prescribes, and the engine has executed the call and nothing else.
\<close>

theorem rest_serves_store:
  assumes "key_order (comparator (btree_options opts))" "enable_wal opts" "healthy e0"
    and "KVEngine_new crc e0 (\<lambda>name. True) opts [] = Some E" and "engine_run crc E ops F"
    and "reliable e" "reliable e'" and "good_call sopts F call"
    and "good_request (call_method call) (call_target call) hs (call_body call)"
    and "[] \<notin> set packets" and "concat packets = call_request hs call @ extra"
  shows "\<exists>G. HandleClient crc mem e e' sopts F packets sends =
      Some (G, snd (SendAll sends (BuildResponse (snd (call_response (map_after ops) call))
        (fst (call_response (map_after ops) call)) default_content_type))) \<and>
    engine_run crc E (ops @ call_ops call) G"
  using rest_serves_store_step [OF assms(1-3) log_holds_empty assms(4-11)] by auto

theorem rest_serves_store_witness:
  "\<exists>E G. new_sample False = Some E \<and>
     HandleClient byte_sum no_memory quiet quiet RestServerOptions_default E [call_request sample_headers sample_put_call] [1000] =
       Some (G, snd (SendAll [1000] (BuildResponse 200 (ok_key_json ''k'') default_content_type))) \<and>
     engine_run byte_sum E [PutOp ''k'' ''v''] G"
proof -
  obtain E where E: "new_sample False = Some E" "engine_fits E ''k'' ''v''" by (rule sample_engine)
  have "call_request sample_headers sample_put_call \<noteq> []"
    by (simp add: call_request_def write_request_def write_head_def crlf_def)
  then show ?thesis
    using rest_serves_store [OF sample_order _ quiet_ok(1) E(1) engine_run.start quiet_ok(2,2) sample_server_good [OF E(2)]
        sample_good(1), of "[call_request sample_headers sample_put_call]" "[]" no_memory "[1000]"] E(1)
    by auto
qed

text \<open>
  C14. \<open>GET /scan\<close> with a start below its limit lists exactly the live entries with
  \<open>start \<le> key < limit\<close> in key order, and their number.
\<close>

theorem rest_range_scan:
  assumes "key_order (comparator (btree_options opts))" "enable_wal opts" "healthy e0" "max_keys_per_node (btree_options opts) < 2 ^ 31"
    and "KVEngine_new crc e0 (\<lambda>name. True) opts [] = Some E" and "engine_run crc E ops F"
    and "start \<noteq> []" "limit \<noteq> []" "Slice_compare start limit < 0"
    and "good_request ''GET'' (scan_target start limit) hs None"
    and "[] \<notin> set packets" and "concat packets = write_request ''GET'' (scan_target start limit) hs None @ extra"
  shows "\<exists>es. HandleClient crc mem e e' sopts F packets sends =
      Some (F, snd (SendAll sends (BuildResponse 200 (scan_json es) default_content_type))) \<and>
    sorted_wrt (key_lt (comparator (btree_options opts))) (map fst es) \<and>
    (\<forall>k. map_of es k = (if in_range (comparator (btree_options opts)) (Some start) (Some limit) (k, []) then map_after ops k else None))"
proof -
  define c where "c = comparator (btree_options opts)"
  have o: "key_order c" using assms(1) by (simp add: c_def)
  let ?es = "fold (op_spec c) ops []"
  obtain v rs where t: "tree_store c (engine_tree F) ?es"
    by (rule run_facts [OF assms(1-3) log_holds_empty assms(5,6)]) (auto simp: c_def)
  have "tree_max (engine_tree F) < 2 ^ 31"
    using engine_run_options [OF assms(6,1-3) log_holds_empty assms(5)] new_engine_max [OF assms(1-3) log_holds_empty assms(5)] assms(4) by simp
  note j = RangeScanJson_store [OF o t this, of start limit]
  let ?r = "\<lparr>req_method = ''GET'', req_target = scan_target start limit, req_body = []\<rparr>"
  let ?f = "filter (in_range c (Some start) (Some limit)) ?es"
  have "concat packets = write_head ''GET'' (scan_target start limit) (header_lines hs None) @ extra"
    using assms(12) by (simp add: write_request_def)
  from receive_written [OF assms(10,11) this, of "max_body_size sopts" 400]
  have r: "ReceiveRequest packets (max_body_size sopts) HttpRequest_init 400 = Some (True, ?r, 400)" by (simp add: Let_def)
  have "HandleRequest crc mem e e' F ?r = Some (scan_json ?f, 200, F)"
    using ParseRangeQuery_written [OF assms(7,8)] assms(9) j by (simp add: HandleRequest_def) (simp add: scan_target_def)
  note h = HandleClient_request [OF r this, of sends]
  from h range_facts [OF o t, of "Some start" "Some limit"] show ?thesis
    unfolding c_def [symmetric] by blast
qed

theorem rest_range_scan_witness:
  "\<exists>E es. new_sample False = Some E \<and>
     HandleClient byte_sum no_memory quiet quiet RestServerOptions_default E [write_request ''GET'' (scan_target ''a'' ''z'') sample_headers None] [1000] =
       Some (E, snd (SendAll [1000] (BuildResponse 200 (scan_json es) default_content_type))) \<and> map_of es ''k'' = None"
proof -
  obtain E where E: "new_sample False = Some E" "engine_fits E ''k'' ''v''" by (rule sample_engine)
  have n: "write_request ''GET'' (scan_target ''a'' ''z'') sample_headers None \<noteq> []"
    by (simp add: write_request_def write_head_def crlf_def)
  have a: "max_keys_per_node (btree_options (sample_options False)) < 2 ^ 31" by (simp add: sample_options_def small_options_def)
  have c: "Slice_compare ''a'' ''z'' < 0" by code_simp
  from rest_range_scan [OF sample_order _ quiet_ok(1) a E(1) engine_run.start _ _ c sample_good(3),
      of "[write_request ''GET'' (scan_target ''a'' ''z'') sample_headers None]" "[]" no_memory quiet quiet RestServerOptions_default "[1000]"]
  show ?thesis using n E(1) by force
qed

text \<open>
  A request that is cut off before its end is never applied: the client gets an error and the engine is
  what it was, even for a PUT whose body arrived in part.
\<close>

theorem rest_truncated_ignored:
  assumes "good_request m t hs body" and "[] \<notin> set packets" and "strict_prefix (concat packets) (write_request m t hs body)"
  shows "\<exists>c m. HandleClient crc mem e e' sopts E packets sends =
      Some (E, snd (SendAll sends (BuildResponse c (ErrorJson m) default_content_type))) \<and>
    (c, m) \<in> {(400, ''malformed HTTP request''), (413, ''request body too large'')}"
proof -
  obtain q c where r: "ReceiveRequest packets (max_body_size sopts) HttpRequest_init 400 = Some (False, q, c)" "c \<in> {400, 413}"
    using receive_truncated [OF assms, of "max_body_size sopts" 400] by auto
  then show ?thesis
    by (intro exI [of _ c] exI [of _ "if c = 413 then ''request body too large'' else ''malformed HTTP request''"])
      (auto simp: HandleClient_def Let_def)
qed

theorem rest_truncated_ignored_witness:
  "\<exists>E c m. new_sample False = Some E \<and>
     HandleClient byte_sum no_memory quiet quiet RestServerOptions_default E [''PUT''] [1000] =
       Some (E, snd (SendAll [1000] (BuildResponse c (ErrorJson m) default_content_type))) \<and>
     (c, m) \<in> {(400, ''malformed HTTP request''), (413, ''request body too large'')}"
proof -
  obtain E where E: "new_sample False = Some E" "engine_fits E ''k'' ''v''" by (rule sample_engine)
  have "strict_prefix (concat [''PUT'']) (call_request sample_headers sample_put_call)"
    by (simp add: call_request_def write_request_def write_head_def request_line_def)
  from rest_truncated_ignored [OF sample_good(1) _ this [unfolded call_request_def], of byte_sum no_memory quiet quiet
      RestServerOptions_default E "[1000]"] E(1) show ?thesis by (simp del: SendAll.simps)
qed

text \<open>
  Requests other than PUT, DELETE and POST leave the engine as it is.
\<close>

theorem rest_reads_change_nothing:
  assumes "HandleRequest crc mem e e' E r = Some (body, c, F)" and "req_method r \<notin> {''PUT'', ''DELETE'', ''POST''}"
  shows "F = E"
proof -
  have k: "handle_key crc e e' E r key = Some (body, c, F) \<Longrightarrow> F = E" for key
    using assms(2) by (auto simp: handle_key_def split: if_splits bind_splits)
  then show ?thesis using assms
    by (auto simp: HandleRequest_def Let_def split: if_splits option.splits sum.splits)
qed

theorem rest_reads_change_nothing_witness:
  "\<exists>E body c F. new_sample False = Some E \<and>
     HandleRequest byte_sum no_memory quiet quiet E \<lparr>req_method = ''GET'', req_target = ''/stats'', req_body = ''x''\<rparr> = Some (body, c, F) \<and>
     F = E"
proof -
  obtain E where E: "new_sample False = Some E" "engine_fits E ''k'' ''v''" by (rule sample_engine)
  let ?r = "\<lparr>req_method = ''GET'', req_target = ''/stats'', req_body = ''x''\<rparr>"
  have "HandleRequest byte_sum no_memory quiet quiet E ?r = Some (StatsJson no_memory E, 200, E)" by (simp add: HandleRequest_def)
  with E(1) rest_reads_change_nothing [OF this] show ?thesis by auto
qed

text \<open>
  Requests for a key with a method the server does not know get code 405, keys that cannot be decoded or are
  empty 400, and paths outside the endpoints 404; none changes the engine.
\<close>

theorem rest_error_responses:
  assumes "req_method r \<noteq> ''OPTIONS''"
  shows "(\<forall>t. t \<noteq> [] \<longrightarrow> req_target r = ''/kv/'' @ t \<longrightarrow> HandleRequest crc mem e e' E r =
      (case DecodePathComponent t of
         None \<Rightarrow> Some (ErrorJson ''invalid key encoding'', 400, E)
       | Some key \<Rightarrow>
           if key = [] then Some (ErrorJson ''invalid key encoding'', 400, E)
           else if req_method r \<notin> {''GET'', ''PUT'', ''DELETE''} then Some (ErrorJson ''method not allowed'', 405, E)
           else handle_key crc e e' E r key)) \<and>
    (\<not> prefix ''/kv/'' (req_target r) \<and> \<not> prefix ''/scan?'' (req_target r) \<and>
       req_target r \<notin> {''/health'', ''/stats'', ''/flush'', ''/sync''} \<longrightarrow>
     HandleRequest crc mem e e' E r = Some (ErrorJson ''endpoint not found'', 404, E))"
proof (intro conjI allI impI)
  fix t
  assume t: "t \<noteq> []" "req_target r = ''/kv/'' @ t"
  then have "take 4 (req_target r) = ''/kv/''" "drop 4 (req_target r) = t" "length (req_target r) > 4"
    "take 6 (req_target r) \<noteq> ''/scan?''"
    by (simp_all add: eval_nat_numeral)
  then show "HandleRequest crc mem e e' E r =
      (case DecodePathComponent t of
         None \<Rightarrow> Some (ErrorJson ''invalid key encoding'', 400, E)
       | Some key \<Rightarrow>
           if key = [] then Some (ErrorJson ''invalid key encoding'', 400, E)
           else if req_method r \<notin> {''GET'', ''PUT'', ''DELETE''} then Some (ErrorJson ''method not allowed'', 405, E)
           else handle_key crc e e' E r key)"
    using assms t by (simp add: HandleRequest_def handle_key_def split: option.splits)
next
  assume t: "\<not> prefix ''/kv/'' (req_target r) \<and> \<not> prefix ''/scan?'' (req_target r) \<and>
       req_target r \<notin> {''/health'', ''/stats'', ''/flush'', ''/sync''}"
  then have "take 4 (req_target r) \<noteq> ''/kv/''" "take 6 (req_target r) \<noteq> ''/scan?''"
    using take_is_prefix [of 4 "req_target r"] take_is_prefix [of 6 "req_target r"] by metis+
  then show "HandleRequest crc mem e e' E r = Some (ErrorJson ''endpoint not found'', 404, E)"
    using assms t by (simp add: HandleRequest_def)
qed

theorem rest_error_responses_witness:
  "\<exists>E. new_sample False = Some E \<and>
     HandleRequest byte_sum no_memory quiet quiet E \<lparr>req_method = ''PATCH'', req_target = ''/kv/k'', req_body = ''x''\<rparr> =
       Some (ErrorJson ''method not allowed'', 405, E) \<and>
     HandleRequest byte_sum no_memory quiet quiet E \<lparr>req_method = ''GET'', req_target = ''/nowhere'', req_body = ''x''\<rparr> =
       Some (ErrorJson ''endpoint not found'', 404, E)"
proof -
  obtain E where E: "new_sample False = Some E" "engine_fits E ''k'' ''v''" by (rule sample_engine)
  let ?p = "\<lparr>req_method = ''PATCH'', req_target = ''/kv/k'', req_body = ''x''\<rparr>"
  let ?n = "\<lparr>req_method = ''GET'', req_target = ''/nowhere'', req_body = ''x''\<rparr>"
  from conjunct1 [OF rest_error_responses [of ?p byte_sum no_memory quiet quiet E]]
    conjunct2 [OF rest_error_responses [of ?n byte_sum no_memory quiet quiet E]] E(1)
  show ?thesis by simp
qed

section \<open>The server\<close>

text \<open>
  \<open>Start\<close> either fails and leaves the server and the open sockets as they were, or runs the server;
  then a second \<open>Start\<close> is refused, \<open>Stop\<close> closes what \<open>Start\<close> opened, and a second \<open>Stop\<close> does nothing.
\<close>

theorem server_start_stop:
  assumes "\<not> running s" and "socket_result env \<notin> open_sockets s" and "RestServer_Start env s = (st, s')"
  shows "if Status_ok st then
      running s' \<and> server_socket s' = socket_result env \<and>
      RestServer_Start env' s' = (Status_AlreadyExists ''REST server is already running'', s') \<and>
      RestServer_Stop s' = s\<lparr>server_socket := -1, accepting := False\<rparr> \<and>
      RestServer_Stop (RestServer_Stop s') = RestServer_Stop s'
    else s' = s"
  using assms
  by (cases s) (auto simp: RestServer_Start_def RestServer_Stop_def CloseSocket_def Let_def split: if_splits)

theorem server_start_stop_witness:
  "\<exists>s'. RestServer_Start \<lparr>socket_result = 3, inet_pton_ok = True, bind_ok = True, listen_ok = True\<rparr>
      (RestServer_new RestServerOptions_default {0, 1, 2}) = (Status_OK, s') \<and> running s' \<and>
    open_sockets (RestServer_Stop s') = {0, 1, 2}"
proof -
  let ?env = "\<lparr>socket_result = 3, inet_pton_ok = True, bind_ok = True, listen_ok = True\<rparr>"
  let ?s = "RestServer_new RestServerOptions_default {0, 1, 2}"
  obtain st s' where r: "RestServer_Start ?env ?s = (st, s')" by fastforce
  then have "st = Status_OK"
    by (simp add: RestServer_Start_def RestServer_new_def RestServerOptions_default_def Let_def)
  then show ?thesis using server_start_stop [OF _ _ r] r by (simp add: RestServer_new_def)
qed

end
