(* ===== verification/Cli.thy ===== *)
theory Cli
  imports Engine_Properties Json
begin

text \<open>
  \<open>src/cli/cli.cpp\<close>: the command line over the engine, and the \<open>Print\<close> operations of the
  engine and the tree that it calls.  What a command writes to the console is part of its result.
  The standard library's \<open>isspace\<close> and \<open>toupper\<close> are undefined on a negative \<open>char\<close> other than
  \<open>EOF\<close>, which is what a byte from 128 to 254 is on the platforms of the code; a command with
  such a byte is therefore \<^term>\<open>None\<close>.
\<close>

definition nl :: string where
  "nl = [CHR 0x0A]"

section \<open>Printing the engine\<close>

definition key_line :: "bytes list \<Rightarrow> string" where
  "key_line keys = concat (map (\<lambda>key. key @ '' '') keys) @ nl"

text \<open>\<open>PrintNode\<close>; its recursion gets the fuel of the other descents.\<close>

fun PrintNode :: "nat \<Rightarrow> BPlusTree \<Rightarrow> nat \<Rightarrow> nat \<Rightarrow> string option"
  and PrintNodes :: "nat \<Rightarrow> BPlusTree \<Rightarrow> nat list \<Rightarrow> nat \<Rightarrow> string option" where
  "PrintNode 0 T node_id depth = None"
| "PrintNode (Suc n) T node_id depth =
     (case GetNode T node_id of
        None \<Rightarrow> Some []
      | Some (Leaf leaf) \<Rightarrow>
          Some (replicate (depth * 2) CHR '' '' @ ''Leaf ['' @ to_dec (length (leaf_keys leaf)) @ '']: '' @ key_line (leaf_keys leaf))
      | Some (Internal internal) \<Rightarrow> do {
          rest \<leftarrow> PrintNodes n T (inner_children internal) (depth + 1);
          Some (replicate (depth * 2) CHR '' '' @ ''Internal ['' @ to_dec (length (inner_keys internal)) @ '']: '' @
            key_line (inner_keys internal) @ rest)
        })"
| "PrintNodes n T [] depth = Some []"
| "PrintNodes n T (child # children) depth = do {
     a \<leftarrow> PrintNode n T child depth;
     b \<leftarrow> PrintNodes n T children depth;
     Some (a @ b)
   }"

definition BPlusTree_Print :: "BPlusTree \<Rightarrow> string option" where
  "BPlusTree_Print T = do {
     rest \<leftarrow> (if root_id T \<noteq> 0 then PrintNode (tree_fuel T) T (root_id T) 0 else Some []);
     Some (''B+ Tree: size='' @ to_dec (tree_size T) @ '', nodes='' @ to_dec (node_count T) @
       '', height='' @ to_dec (tree_height T) @ '', root_is_leaf='' @ (if root_is_leaf T then ''true'' else ''false'') @ nl @ rest)
   }"

definition KVEngine_Print :: "(KVEngine \<Rightarrow> nat) \<Rightarrow> KVEngine \<Rightarrow> string option" where
  "KVEngine_Print mem E = do {
     tree \<leftarrow> BPlusTree_Print (engine_tree E);
     Some (''=== KV Engine ==='' @ nl @
       ''Size: '' @ to_dec (tree_size (engine_tree E)) @ nl @
       ''Nodes: '' @ to_dec (node_count (engine_tree E)) @ nl @
       ''Height: '' @ to_dec (tree_height (engine_tree E)) @ nl @
       ''Memory: '' @ to_dec (mem E) @ '' bytes'' @ nl @
       ''Sequence: '' @ to_dec (unat (sequence_number E)) @ nl @
       (case engine_wal E of
          None \<Rightarrow> []
        | Some w \<Rightarrow>
            let stats = Wal_GetStats w
            in ''WAL: files='' @ to_dec (unat (st_current_file_number stats)) @
               '', size='' @ to_dec (st_current_file_size stats) @
               '', writes='' @ to_dec (unat (st_total_writes stats)) @ nl) @
       tree)
   }"

section \<open>Parsing\<close>

definition ctype_ok :: "char \<Rightarrow> bool" where
  "ctype_ok c \<longleftrightarrow> char_val c < 128 \<or> char_val c = 255"

definition isspace :: "char \<Rightarrow> bool option" where
  "isspace c = (if ctype_ok c then Some (is_space c) else None)"

definition toupper :: "char \<Rightarrow> char option" where
  "toupper c =
     (if ctype_ok c then Some (if 97 \<le> char_val c \<and> char_val c \<le> 122 then char_of (char_val c - 32) else c) else None)"

definition is_quote :: "char \<Rightarrow> bool" where
  "is_quote c \<longleftrightarrow> char_val c = 34 \<or> char_val c = 39"

text \<open>The loop over the characters; \<open>prev\<close> is the character before, if there is one.\<close>

fun parse_loop :: "char option \<Rightarrow> string list \<Rightarrow> string \<Rightarrow> bool \<Rightarrow> char \<Rightarrow> string \<Rightarrow> string list option" where
  "parse_loop prev args current in_quotes quote_char [] = Some (if current \<noteq> [] then args @ [current] else args)"
| "parse_loop prev args current in_quotes quote_char (c # cs) =
     (if is_quote c \<and> prev \<noteq> Some CHR 0x5C then
        if \<not> in_quotes then parse_loop (Some c) args current True c cs
        else if c = quote_char then parse_loop (Some c) args current False CHR 0x00 cs
        else parse_loop (Some c) args (current @ [c]) in_quotes quote_char cs
      else do {
        space \<leftarrow> isspace c;
        if space \<and> \<not> in_quotes then
          if current \<noteq> [] then parse_loop (Some c) (args @ [current]) [] in_quotes quote_char cs
          else parse_loop (Some c) args current in_quotes quote_char cs
        else parse_loop (Some c) args (current @ [c]) in_quotes quote_char cs
      })"

definition ParseCommand :: "string \<Rightarrow> string list option" where
  "ParseCommand command_line = parse_loop None [] [] False CHR 0x00 command_line"

section \<open>The handlers\<close>

text \<open>A handler returns its status, the engine and what it printed.\<close>

type_synonym cli_result = "(Status \<times> KVEngine \<times> string) option"

definition print_ok :: "Status \<Rightarrow> string \<Rightarrow> string" where
  "print_ok s m = (if Status_ok s then m @ nl else [])"

fun join_args :: "string \<Rightarrow> string list \<Rightarrow> string" where
  "join_args val [] = val"
| "join_args val (a # as) = join_args (val @ '' '' @ a) as"

definition HandlePut :: "(bytes \<Rightarrow> u32) \<Rightarrow> WalEnv \<Rightarrow> WalEnv \<Rightarrow> string list \<Rightarrow> KVEngine \<Rightarrow> cli_result" where
  "HandlePut crc e e' args E =
     (case args of
        key # val # words \<Rightarrow> do {
          (s, E) \<leftarrow> KVEngine_Put crc e e' key (join_args val words) E;
          Some (s, E, print_ok s ''OK'')
        }
      | _ \<Rightarrow> Some (Status_InvalidArgument ''Usage: PUT <key> <value>'', E, []))"

definition HandleGet :: "string list \<Rightarrow> KVEngine \<Rightarrow> cli_result" where
  "HandleGet args E =
     (case args of
        [key] \<Rightarrow> do {
          (s, val) \<leftarrow> KVEngine_Get E key (Some []);
          if Status_ok s then do { x \<leftarrow> val; Some (s, E, x @ nl) } else Some (s, E, [])
        }
      | _ \<Rightarrow> Some (Status_InvalidArgument ''Usage: GET <key>'', E, []))"

definition HandleDelete :: "(bytes \<Rightarrow> u32) \<Rightarrow> WalEnv \<Rightarrow> WalEnv \<Rightarrow> string list \<Rightarrow> KVEngine \<Rightarrow> cli_result" where
  "HandleDelete crc e e' args E =
     (case args of
        [key] \<Rightarrow> do {
          (s, E) \<leftarrow> KVEngine_Delete crc e e' key E;
          Some (s, E, print_ok s ''OK'')
        }
      | _ \<Rightarrow> Some (Status_InvalidArgument ''Usage: DELETE <key>'', E, []))"

fun print_scan :: "nat \<Rightarrow> BPlusTree \<Rightarrow> Iterator \<Rightarrow> nat \<Rightarrow> string \<Rightarrow> (string \<times> nat) option" where
  "print_scan 0 T iter cnt out = None"
| "print_scan (Suc n) T iter cnt out = do {
     v \<leftarrow> Valid T iter;
     if \<not> v then Some (out, cnt)
     else do {
       k \<leftarrow> Iterator_key T iter;
       x \<leftarrow> Iterator_value T iter;
       iter \<leftarrow> Next T iter;
       print_scan n T iter (cnt + 1) (out @ k @ '' = '' @ x @ nl)
     }
   }"

definition HandleScan :: "string list \<Rightarrow> KVEngine \<Rightarrow> cli_result" where
  "HandleScan args E = do {
     let T = engine_tree E;
     iter \<leftarrow> (case args of
       [] \<Rightarrow> KVEngine_NewIterator E
     | [start] \<Rightarrow> KVEngine_NewIterator_from E start
     | start # limit # _ \<Rightarrow> KVEngine_NewIterator_range E start limit);
     iter \<leftarrow> SeekToFirst T iter;
     (out, cnt) \<leftarrow> print_scan (Suc (tree_size T)) T iter 0 [];
     Some (Status_OK, E, out @ (if cnt = 0 then ''(empty)'' else ''--- '' @ to_dec cnt @ '' key(s) ---'') @ nl)
   }"

definition HandleSize :: "KVEngine \<Rightarrow> cli_result" where
  "HandleSize E = Some (Status_OK, E, ''Keys: '' @ to_dec (KVEngine_Size E) @ nl)"

definition HandlePrint :: "(KVEngine \<Rightarrow> nat) \<Rightarrow> KVEngine \<Rightarrow> cli_result" where
  "HandlePrint mem E = do { out \<leftarrow> KVEngine_Print mem E; Some (Status_OK, E, out) }"

definition HandleStats :: "(KVEngine \<Rightarrow> nat) \<Rightarrow> KVEngine \<Rightarrow> cli_result" where
  "HandleStats mem E =
     (let wal_stats = KVEngine_GetWalStats E
      in Some (Status_OK, E,
           ''=== Engine Stats ==='' @ nl @
           ''Keys: '' @ to_dec (KVEngine_Size E) @ nl @
           ''Nodes: '' @ to_dec (node_count (engine_tree E)) @ nl @
           ''Height: '' @ to_dec (tree_height (engine_tree E)) @ nl @
           ''Memory: '' @ to_dec (mem E) @ '' bytes'' @ nl @
           ''=== WAL Stats ==='' @ nl @
           ''Files: '' @ to_dec (unat (st_current_file_number wal_stats)) @ nl @
           ''Current file size: '' @ to_dec (st_current_file_size wal_stats) @ '' bytes'' @ nl @
           ''Total writes: '' @ to_dec (unat (st_total_writes wal_stats)) @ nl @
           ''Total bytes: '' @ to_dec (unat (st_total_bytes_written wal_stats)) @ nl @
           ''Total syncs: '' @ to_dec (unat (st_total_syncs wal_stats)) @ nl))"

definition HandleVerify :: "KVEngine \<Rightarrow> cli_result" where
  "HandleVerify E = do {
     ok \<leftarrow> KVEngine_Verify E;
     Some (Status_OK, E, (if ok then ''Tree verification passed'' else ''Tree verification FAILED'') @ nl)
   }"

definition help_text :: string where
  "help_text =
     ''Available commands:'' @ nl @
     ''  PUT <key> <value>           - Insert or update a key-value pair'' @ nl @
     ''  GET <key>                   - Retrieve value for key'' @ nl @
     ''  DELETE <key>                - Delete a key'' @ nl @
     ''  SCAN [start] [limit]        - Range scan (optional start/limit keys)'' @ nl @
     ''  SIZE                        - Show number of keys'' @ nl @
     ''  PRINT                       - Print tree structure'' @ nl @
     ''  STATS                       - Show engine and WAL statistics'' @ nl @
     ''  VERIFY                      - Verify tree integrity'' @ nl @
     ''  WALSTATS                    - Show WAL statistics'' @ nl @
     ''  FLUSH                       - Flush buffered WAL data'' @ nl @
     ''  SYNC                        - Flush and synchronize WAL'' @ nl @
     ''  HELP                        - Show this help'' @ nl @
     ''  EXIT / QUIT                 - Exit the CLI'' @ nl @
     nl @
     ''Examples:'' @ nl @
     ''  PUT name '' @ quoted ''John Doe'' @ nl @
     ''  GET name'' @ nl @
     ''  SCAN a z'' @ nl @
     ''  DELETE name'' @ nl"

definition HandleHelp :: "KVEngine \<Rightarrow> cli_result" where
  "HandleHelp E = Some (Status_OK, E, help_text)"

section \<open>Commands\<close>

definition dispatch ::
  "(bytes \<Rightarrow> u32) \<Rightarrow> (KVEngine \<Rightarrow> nat) \<Rightarrow> WalEnv \<Rightarrow> WalEnv \<Rightarrow> string \<Rightarrow> string list \<Rightarrow> KVEngine \<Rightarrow> cli_result" where
  "dispatch crc mem e e' cmd args E =
     (if cmd = ''PUT'' then HandlePut crc e e' args E
      else if cmd = ''GET'' then HandleGet args E
      else if cmd = ''DELETE'' \<or> cmd = ''DEL'' then HandleDelete crc e e' args E
      else if cmd = ''SCAN'' then HandleScan args E
      else if cmd = ''SIZE'' then HandleSize E
      else if cmd = ''PRINT'' then HandlePrint mem E
      else if cmd = ''STATS'' then HandleStats mem E
      else if cmd = ''HELP'' then HandleHelp E
      else if cmd = ''VERIFY'' then HandleVerify E
      else if cmd = ''WALSTATS'' then HandleStats mem E
      else if cmd = ''FLUSH'' then let (s, E) = KVEngine_Flush E in Some (s, E, print_ok s ''OK'')
      else if cmd = ''SYNC'' then let (s, E) = KVEngine_Sync e E in Some (s, E, print_ok s ''OK'')
      else Some (Status_InvalidArgument (''Unknown command: '' @ cmd @ ''. Type '' @ [CHR 0x27] @ ''help'' @ [CHR 0x27] @ '' for available commands.''), E, []))"

fun upper_all :: "string \<Rightarrow> string option" where
  "upper_all [] = Some []"
| "upper_all (c # cs) = do { d \<leftarrow> toupper c; ds \<leftarrow> upper_all cs; Some (d # ds) }"

definition ExecuteCommand ::
  "(bytes \<Rightarrow> u32) \<Rightarrow> (KVEngine \<Rightarrow> nat) \<Rightarrow> WalEnv \<Rightarrow> WalEnv \<Rightarrow> string \<Rightarrow> KVEngine \<Rightarrow> cli_result" where
  "ExecuteCommand crc mem e e' command_line E = do {
     args \<leftarrow> ParseCommand command_line;
     case args of
       [] \<Rightarrow> Some (Status_OK, E, [])
     | a # args \<Rightarrow> do { cmd \<leftarrow> upper_all a; dispatch crc mem e e' cmd args E }
   }"

section \<open>The interactive loop\<close>

definition is_trimmed :: "char \<Rightarrow> bool" where
  "is_trimmed c \<longleftrightarrow> c = CHR '' '' \<or> char_val c \<in> {9, 13, 10}"

definition trim_line :: "string \<Rightarrow> string" where
  "trim_line s = rev (dropWhile is_trimmed (rev (dropWhile is_trimmed s)))"

text \<open>Each line of the input comes with the answers of the system calls that its command makes.\<close>

fun run_lines ::
  "(bytes \<Rightarrow> u32) \<Rightarrow> (KVEngine \<Rightarrow> nat) \<Rightarrow> (string \<times> WalEnv \<times> WalEnv) list \<Rightarrow> KVEngine \<Rightarrow> (KVEngine \<times> string) option" where
  "run_lines crc mem [] E = Some (E, ''kv> '')"
| "run_lines crc mem ((line, e, e') # lines) E =
     (let line = trim_line line
      in if line = [] then map_option (\<lambda>(E, out). (E, ''kv> '' @ out)) (run_lines crc mem lines E)
         else if line = ''exit'' \<or> line = ''quit'' then Some (E, ''kv> Goodbye!'' @ nl)
         else do {
           (s, E, out) \<leftarrow> ExecuteCommand crc mem e e' line E;
           (E, rest) \<leftarrow> run_lines crc mem lines E;
           Some (E, ''kv> '' @ out @ (if Status_ok s then [] else ''Error: '' @ Status_ToString s @ nl) @ rest)
         })"

definition CLI_Run ::
  "(bytes \<Rightarrow> u32) \<Rightarrow> (KVEngine \<Rightarrow> nat) \<Rightarrow> (string \<times> WalEnv \<times> WalEnv) list \<Rightarrow> KVEngine \<Rightarrow> (KVEngine \<times> string) option" where
  "CLI_Run crc mem lines E =
     map_option (\<lambda>(E, out). (E,
       ''KV Engine Interactive CLI v1.0.0'' @ nl @
       ''Type '' @ [CHR 0x27] @ ''help'' @ [CHR 0x27] @ '' for available commands, '' @ [CHR 0x27] @ ''exit'' @ [CHR 0x27] @ '' to quit'' @ nl @ nl @ out))
     (run_lines crc mem lines E)"

end
