(* ===== verification/Cli_Properties.thy ===== *)
theory Cli_Properties
  imports Cli
begin

text \<open>
  The properties of the command line: what it reads back from a quoted line, the store it serves,
  and where it is undefined.
\<close>

section \<open>Printing\<close>

lemma PrintNode_total:
  "sits M (GetNode T) t \<Longrightarrow> pwf m lo h (er t) \<Longrightarrow> h < n \<Longrightarrow> \<exists>s. PrintNode n T (gid t) d = Some s"
proof (induction n arbitrary: lo h t d)
  case (Suc n)
  show ?case
  proof (cases t)
    case (GLeaf i nx kvs)
    with Suc.prems(1) show ?thesis by (simp add: lnode_def)
  next
    case (GNode i ks ts)
    with Suc.prems obtain h' where h: "h = Suc h'" by (cases h) auto
    have "\<exists>s. PrintNode n T (gid c) (d + 1) = Some s" if "c \<in> set ts" for c
      using Suc.IH [of c "m div 2" h' "d + 1"] Suc.prems GNode h that by auto
    then have "\<exists>s. PrintNodes n T (map gid ts) (d + 1) = Some s" by (induction ts) force+
    then show ?thesis using Suc.prems(1) GNode by (auto simp: inode_def)
  qed
qed simp

lemma Print_total:
  assumes "tree_store c T es"
  shows "\<exists>s. BPlusTree_Print T = Some s"
proof -
  have "represents T es" using assms by (simp add: tree_store_def)
  then obtain t h where "gid t = root_id T" "pwf (tree_max T) (root_fill h) h (er t)" "sits (tree_max T) (GetNode T) t" "h < tree_fuel T"
    by (rule rep_leaves)
  then show ?thesis using PrintNode_total [of "tree_max T" T t "tree_max T" "root_fill h" h "tree_fuel T" 0]
    by (auto simp: BPlusTree_Print_def)
qed

section \<open>Parsing\<close>

text \<open>
  Arguments that can be quoted: nonempty ASCII text without a double quote that does not end in a
  backslash.
\<close>

definition quotable :: "string \<Rightarrow> bool" where
  "quotable a \<longleftrightarrow> a \<noteq> [] \<and> last a \<noteq> CHR 0x5C \<and> (\<forall>c\<in>set a. ctype_ok c \<and> c \<noteq> CHR 0x22)"

definition bare :: "string \<Rightarrow> bool" where
  "bare w \<longleftrightarrow> w \<noteq> [] \<and> last w \<noteq> CHR 0x5C \<and> (\<forall>c\<in>set w. ctype_ok c \<and> \<not> is_quote c \<and> \<not> is_space c)"

definition command_text :: "string \<Rightarrow> string list \<Rightarrow> string" where
  "command_text cmd args = cmd @ concat (map (\<lambda>a. CHR '' '' # quoted a) args)"

lemma quote_char [simp]: "is_quote CHR 0x22"
  by (simp add: is_quote_def char_val_def)

lemma blank_char [simp]: "\<not> is_quote CHR '' ''" "isspace CHR '' '' = Some True"
  by (simp_all add: is_quote_def isspace_def ctype_ok_def is_space_def char_val_def)

lemma parse_inside:
  assumes "\<forall>c\<in>set a. ctype_ok c \<and> c \<noteq> CHR 0x22" and "a = [] \<longrightarrow> prev \<noteq> Some CHR 0x5C" and "a \<noteq> [] \<longrightarrow> last a \<noteq> CHR 0x5C"
  shows "parse_loop prev args cur True CHR 0x22 (a @ CHR 0x22 # rest) =
    parse_loop (Some CHR 0x22) args (cur @ a) False CHR 0x00 rest"
  using assms
proof (induction a arbitrary: prev cur)
  case (Cons c a)
  have "parse_loop prev args cur True CHR 0x22 ((c # a) @ CHR 0x22 # rest) =
      parse_loop (Some c) args (cur @ [c]) True CHR 0x22 (a @ CHR 0x22 # rest)"
    using Cons.prems(1) by (simp add: isspace_def)
  also have "\<dots> = parse_loop (Some CHR 0x22) args ((cur @ [c]) @ a) False CHR 0x00 rest"
    using Cons.prems(1,3) by (intro Cons.IH) (simp_all split: if_splits)
  finally show ?case by simp
qed simp

lemma parse_args:
  assumes "\<forall>a\<in>set as. quotable a" and "prev \<noteq> Some CHR 0x5C" and "cur \<noteq> []"
  shows "parse_loop prev args cur False CHR 0x00 (concat (map (\<lambda>a. CHR '' '' # quoted a) as)) = Some (args @ cur # as)"
  using assms
proof (induction as arbitrary: prev args cur)
  case (Cons a as)
  have "parse_loop prev args cur False CHR 0x00 (concat (map (\<lambda>a. CHR '' '' # quoted a) (a # as))) =
      parse_loop (Some CHR 0x22) (args @ [cur]) [] True CHR 0x22 (a @ CHR 0x22 # concat (map (\<lambda>a. CHR '' '' # quoted a) as))"
    using Cons.prems(3) by (simp add: quoted_def)
  also have "\<dots> = parse_loop (Some CHR 0x22) (args @ [cur]) a False CHR 0x00 (concat (map (\<lambda>a. CHR '' '' # quoted a) as))"
    using Cons.prems(1) by (subst parse_inside) (auto simp: quotable_def)
  also have "\<dots> = Some ((args @ [cur]) @ a # as)"
    using Cons.prems(1) by (intro Cons.IH) (auto simp: quotable_def)
  finally show ?case by simp
qed simp

lemma parse_bare:
  assumes "\<forall>c\<in>set w. ctype_ok c \<and> \<not> is_quote c \<and> \<not> is_space c" and "w \<noteq> []"
  shows "parse_loop prev args cur False q (w @ rest) = parse_loop (Some (last w)) args (cur @ w) False q rest"
  using assms
proof (induction w arbitrary: prev cur)
  case (Cons c w)
  have "parse_loop prev args cur False q ((c # w) @ rest) = parse_loop (Some c) args (cur @ [c]) False q (w @ rest)"
    using Cons.prems(1) by (simp add: isspace_def)
  then show ?case using Cons by (cases "w = []") simp_all
qed simp

lemma ParseCommand_text:
  assumes "bare cmd" and "\<forall>a\<in>set args. quotable a"
  shows "ParseCommand (command_text cmd args) = Some (cmd # args)"
proof -
  have "parse_loop None [] [] False CHR 0x00 (cmd @ concat (map (\<lambda>a. CHR '' '' # quoted a) args)) =
      parse_loop (Some (last cmd)) [] cmd False CHR 0x00 (concat (map (\<lambda>a. CHR '' '' # quoted a) args))"
    using assms(1) parse_bare [of cmd None "[]" "[]" "CHR 0x00"] by (simp add: bare_def)
  also have "\<dots> = Some ([] @ cmd # args)"
    using assms by (intro parse_args) (auto simp: bare_def)
  finally show ?thesis by (simp add: ParseCommand_def command_text_def)
qed

lemma parse_undefined: "\<exists>c\<in>set s. \<not> ctype_ok c \<Longrightarrow> parse_loop prev args cur b q s = None"
proof (induction s arbitrary: prev args cur b q)
  case (Cons c s)
  have "is_quote c \<Longrightarrow> ctype_ok c" by (auto simp: is_quote_def ctype_ok_def)
  with Cons show ?case by (cases "ctype_ok c") (auto simp: isspace_def)
qed simp

text \<open>
  A command line made of a word and quoted arguments is split into exactly that word and those arguments,
  blanks and apostrophes inside them included.
\<close>

theorem cli_parse_roundtrip:
  assumes "bare cmd" and "list_all quotable args"
  shows "ParseCommand (command_text cmd args) = Some (cmd # args)"
  using ParseCommand_text assms by (simp add: list_all_iff)

theorem cli_parse_roundtrip_witness:
  "ParseCommand (command_text ''PUT'' [''a b'', ''c'']) = Some [''PUT'', ''a b'', ''c'']"
  by (rule cli_parse_roundtrip) (simp_all add: bare_def quotable_def ctype_ok_def is_quote_def is_space_def char_val_def)

text \<open>
  A command line that contains a byte outside ASCII, even inside quotes, is undefined: \<open>std::isspace\<close> is
  called with a negative \<open>char\<close>.
\<close>

lemma cli_non_ascii_undefined:
  assumes "c \<in> set line" and "128 \<le> char_val c" and "char_val c \<noteq> 255"
  shows "ExecuteCommand crc mem e e' line E = None"
proof -
  have "\<not> ctype_ok c" using assms(2,3) by (simp add: ctype_ok_def)
  with assms(1) have "ParseCommand line = None" unfolding ParseCommand_def by (intro parse_undefined) blast
  then show ?thesis by (simp add: ExecuteCommand_def)
qed

section \<open>The store behind the command line\<close>

datatype cli_call = CGet bytes | CPut bytes bytes | CDelete bytes

fun cli_text :: "cli_call \<Rightarrow> string" where
  "cli_text (CGet k) = command_text ''GET'' [k]"
| "cli_text (CPut k v) = command_text ''PUT'' [k, v]"
| "cli_text (CDelete k) = command_text ''DELETE'' [k]"

fun cli_ops :: "cli_call \<Rightarrow> store_op list" where
  "cli_ops (CGet k) = []"
| "cli_ops (CPut k v) = [PutOp k v]"
| "cli_ops (CDelete k) = [DeleteOp k]"

fun cli_response :: "(bytes \<rightharpoonup> bytes) \<Rightarrow> cli_call \<Rightarrow> Status \<times> string" where
  "cli_response m (CGet k) = (case m k of Some v \<Rightarrow> (Status_OK, v @ nl) | None \<Rightarrow> (Status_NotFound ''Key not found'', []))"
| "cli_response m (CPut k v) = (Status_OK, ''OK'' @ nl)"
| "cli_response m (CDelete k) = (if m k = None then (Status_NotFound ''Key not found'', []) else (Status_OK, ''OK'' @ nl))"

fun good_cli :: "KVEngine \<Rightarrow> cli_call \<Rightarrow> bool" where
  "good_cli E (CGet k) \<longleftrightarrow> quotable k"
| "good_cli E (CPut k v) \<longleftrightarrow> quotable k \<and> quotable v \<and> engine_fits E k v"
| "good_cli E (CDelete k) \<longleftrightarrow> quotable k \<and> engine_fits E k []"

lemma upper_words:
  "upper_all ''GET'' = Some ''GET''" "upper_all ''PUT'' = Some ''PUT''" "upper_all ''DELETE'' = Some ''DELETE''"
  by (simp_all add: toupper_def ctype_ok_def char_val_def)

lemma bare_words: "bare ''GET''" "bare ''PUT''" "bare ''DELETE''"
  by (simp_all add: bare_def ctype_ok_def is_quote_def is_space_def char_val_def)

lemma cli_serves_store_step:
  assumes "key_order (comparator (btree_options opts))" "enable_wal opts" "healthy e0"
    and "log_holds crc d rs0" and "KVEngine_new crc e0 (\<lambda>name. True) opts d = Some E" and "engine_run crc E ops F"
    and "reliable e" "reliable e'" and "good_cli F call"
  shows "\<exists>G. ExecuteCommand crc mem e e' (cli_text call) F =
      Some (fst (cli_response (map_after (log_ops rs0 @ ops)) call), G, snd (cli_response (map_after (log_ops rs0 @ ops)) call)) \<and>
    engine_run crc E (ops @ cli_ops call) G"
proof (cases call)
  case (CGet k)
  then show ?thesis using assms(6,9) engine_run_map [OF assms(1-6)]
    by (cases "map_after (log_ops rs0 @ ops) k")
      (simp_all add: ExecuteCommand_def ParseCommand_text bare_words upper_words dispatch_def HandleGet_def answers_def
        del: upper_all.simps)
next
  case (CPut k v)
  then have k: "k \<noteq> []" "engine_fits F k v" using assms(9) by (auto simp: quotable_def)
  from engine_put_step [OF assms(1-8) k] CPut assms(9) show ?thesis
    by (auto simp: ExecuteCommand_def ParseCommand_text bare_words upper_words dispatch_def HandlePut_def print_ok_def
        simp del: upper_all.simps)
next
  case (CDelete k)
  then have k: "engine_fits F k []" using assms(9) by auto
  from engine_delete_step [OF assms(1-8) k] CDelete assms(9) show ?thesis
    by (cases "map_after (log_ops rs0 @ ops) k")
      (auto simp: ExecuteCommand_def ParseCommand_text bare_words upper_words dispatch_def HandleDelete_def print_ok_def
        simp del: upper_all.simps)
qed

text \<open>
  The command line is the store it fronts: GET, PUT and DELETE with quoted arguments return and print what
  the map of live keys prescribes, and the engine has executed the call and nothing else.
\<close>

theorem cli_serves_store:
  assumes "key_order (comparator (btree_options opts))" "enable_wal opts" "healthy e0"
    and "KVEngine_new crc e0 (\<lambda>name. True) opts [] = Some E" and "engine_run crc E ops F"
    and "reliable e" "reliable e'" and "good_cli F call"
  shows "\<exists>G. ExecuteCommand crc mem e e' (cli_text call) F =
      Some (fst (cli_response (map_after ops) call), G, snd (cli_response (map_after ops) call)) \<and>
    engine_run crc E (ops @ cli_ops call) G"
  using cli_serves_store_step [OF assms(1-3) log_holds_empty assms(4-8)] by simp

theorem cli_serves_store_witness:
  "\<exists>E G. new_sample False = Some E \<and>
     ExecuteCommand byte_sum (\<lambda>E. 0) quiet quiet (command_text ''PUT'' [''k'', ''v'']) E = Some (Status_OK, G, ''OK'' @ nl) \<and>
     engine_run byte_sum E [PutOp ''k'' ''v''] G"
proof -
  obtain E where E: "new_sample False = Some E" "engine_fits E ''k'' ''v''" by (rule sample_engine)
  have "good_cli E (CPut ''k'' ''v'')" using E(2) by (simp add: quotable_def ctype_ok_def char_val_def)
  from cli_serves_store [OF sample_order _ quiet_ok(1) E(1) engine_run.start quiet_ok(2,2) this] E(1) show ?thesis by fastforce
qed

section \<open>Scans\<close>

definition scan_lines :: "entry list \<Rightarrow> string" where
  "scan_lines es = concat (map (\<lambda>(k, v). k @ '' = '' @ v @ nl) es) @
     (if es = [] then ''(empty)'' else ''--- '' @ to_dec (length es) @ '' key(s) ---'') @ nl"

lemma print_scan_ready:
  assumes o: "key_order c" and "key_order.ready c T iter es" and "length es < n"
  shows "print_scan n T iter cnt out = Some (out @ concat (map (\<lambda>(k, v). k @ '' = '' @ v @ nl) es), cnt + length es)"
  using assms(2,3)
  by (induction n iter es arbitrary: cnt out rule: key_order.drive_iterator [OF o, consumes 2]) (simp_all add: tree_item_eq split_beta)

lemma HandleScan_store:
  assumes o: "key_order c" and t: "tree_store c (engine_tree E) es" and m: "tree_max (engine_tree E) < 2 ^ 31"
    and args: "length args \<le> 2"
  shows "HandleScan args E = Some (Status_OK, E, scan_lines (filter (in_range c
    (if args = [] then None else Some (args ! 0)) (if length args \<le> 1 then None else Some (args ! 1))) es))"
proof -
  let ?T = "engine_tree E"
  define start where "start = (if args = [] then None else Some (args ! 0))"
  define limit where "limit = (if length args \<le> 1 then None else Some (args ! 1))"
  let ?es = "filter (in_range c start limit) es"
  have r: "represents ?T es" "tree_cmp ?T = c" using t by (auto simp: tree_store_def)
  obtain it1 it2 where it: "Iterator_new ?T start limit = Some it1" "SeekToFirst ?T it1 = Some it2" "key_order.ready c ?T it2 ?es"
    using key_order.new_SeekToFirst_ready [OF o r m] by blast
  have "tree_size ?T = length es" using rep_leaves [OF r(1)] by metis
  then have "length ?es < Suc (tree_size ?T)" by (simp add: less_Suc_eq_le)
  note p = print_scan_ready [OF o it(3) this, of 0 "[]"]
  have i: "(case args of [] \<Rightarrow> KVEngine_NewIterator E | [start] \<Rightarrow> KVEngine_NewIterator_from E start
      | start # limit # _ \<Rightarrow> KVEngine_NewIterator_range E start limit) = Some it1"
    using args unfolding it(1) [symmetric]
    by (simp add: start_def limit_def KVEngine_NewIterator_def KVEngine_NewIterator_from_def KVEngine_NewIterator_range_def
        NewIterator_def NewIterator_from_def NewIterator_range_def split: list.splits)
  show ?thesis
    unfolding HandleScan_def Let_def i start_def [symmetric] limit_def [symmetric] using it(2) p
    by (simp add: scan_lines_def del: print_scan.simps)
qed

text \<open>
  C31. SCAN with up to two quoted arguments prints exactly the live entries from the first argument up to but not
  including the second, in key order, and their number.
\<close>

theorem cli_scan:
  assumes "key_order (comparator (btree_options opts))" "enable_wal opts" "healthy e0" "max_keys_per_node (btree_options opts) < 2 ^ 31"
    and "KVEngine_new crc e0 (\<lambda>name. True) opts [] = Some E" and "engine_run crc E ops F"
    and "list_all quotable args" "length args \<le> 2"
  shows "\<exists>es. ExecuteCommand crc mem e e' (command_text ''SCAN'' args) F = Some (Status_OK, F, scan_lines es) \<and>
    sorted_wrt (key_lt (comparator (btree_options opts))) (map fst es) \<and>
    (\<forall>k. map_of es k = (if in_range (comparator (btree_options opts)) (if args = [] then None else Some (args ! 0))
       (if length args \<le> 1 then None else Some (args ! 1)) (k, []) then map_after ops k else None))"
proof -
  define c where "c = comparator (btree_options opts)"
  have o: "key_order c" using assms(1) by (simp add: c_def)
  let ?es = "fold (op_spec c) ops []"
  define start where "start = (if args = [] then None else Some (args ! 0))"
  define limit where "limit = (if length args \<le> 1 then None else Some (args ! 1))"
  obtain v rs where t: "tree_store c (engine_tree F) ?es"
    by (rule run_facts [OF assms(1-3) log_holds_empty assms(5,6)]) (auto simp: c_def)
  have "tree_max (engine_tree F) < 2 ^ 31"
    using engine_run_options [OF assms(6,1-3) log_holds_empty assms(5)] new_engine_max [OF assms(1-3) log_holds_empty assms(5)] assms(4) by simp
  note j = HandleScan_store [OF o t this assms(8), folded start_def limit_def]
  let ?f = "filter (in_range c start limit) ?es"
  have w: "bare ''SCAN''" "upper_all ''SCAN'' = Some ''SCAN''"
    by (simp_all add: bare_def toupper_def ctype_ok_def is_quote_def is_space_def char_val_def)
  have "ParseCommand (command_text ''SCAN'' args) = Some (''SCAN'' # args)"
    using ParseCommand_text [OF w(1)] assms(7) by (simp add: list_all_iff)
  then have x: "ExecuteCommand crc mem e e' (command_text ''SCAN'' args) F = Some (Status_OK, F, scan_lines ?f)"
    using j w(2) by (simp add: ExecuteCommand_def dispatch_def del: upper_all.simps)
  from x range_facts [OF o t, of start limit] show ?thesis
    unfolding c_def [symmetric] start_def [symmetric] limit_def [symmetric] by blast
qed

theorem cli_scan_witness:
  "\<exists>E es. new_sample False = Some E \<and>
     ExecuteCommand byte_sum (\<lambda>E. 0) quiet quiet (command_text ''SCAN'' [''a'', ''z'']) E = Some (Status_OK, E, scan_lines es) \<and>
     map_of es ''k'' = None"
proof -
  obtain E where E: "new_sample False = Some E" "engine_fits E ''k'' ''v''" by (rule sample_engine)
  have a: "max_keys_per_node (btree_options (sample_options False)) < 2 ^ 31" by (simp add: sample_options_def small_options_def)
  have q: "list_all quotable [''a'', ''z'']" by (simp add: quotable_def ctype_ok_def char_val_def)
  from cli_scan [OF sample_order _ quiet_ok(1) a E(1) engine_run.start q, of "\<lambda>E. 0" quiet quiet] E(1)
  show ?thesis by force
qed

section \<open>Inspection\<close>

text \<open>
  C33. PRINT and VERIFY return on every engine, whatever calls it has executed: printing descends to the leaves and
  ends, verification passes, and neither changes the engine.
\<close>

theorem cli_inspection_returns:
  assumes "key_order (comparator (btree_options opts))" "enable_wal opts" "healthy e0"
    and "KVEngine_new crc e0 (\<lambda>name. True) opts [] = Some E" and "engine_run crc E ops F"
  shows "(\<exists>out. ExecuteCommand crc mem e e' ''print'' F = Some (Status_OK, F, out)) \<and>
    ExecuteCommand crc mem e e' ''verify'' F = Some (Status_OK, F, ''Tree verification passed'' @ nl)"
proof -
  obtain v rs where t: "tree_store (comparator (btree_options opts)) (engine_tree F)
      (fold (op_spec (comparator (btree_options opts))) ops [])"
    by (rule run_facts [OF assms(1-3) log_holds_empty assms(4,5)]) auto
  have w: "ParseCommand ''print'' = Some [''print'']" "ParseCommand ''verify'' = Some [''verify'']"
    "upper_all ''print'' = Some ''PRINT''" "upper_all ''verify'' = Some ''VERIFY''"
    by code_simp+
  have "Verify (engine_tree F) = Some True"
    using t key_order.Verify_rep [OF assms(1)] by (auto simp: tree_store_def)
  moreover obtain out where "BPlusTree_Print (engine_tree F) = Some out" using Print_total [OF t] by blast
  ultimately show ?thesis
    by (simp add: ExecuteCommand_def w dispatch_def HandlePrint_def KVEngine_Print_def HandleVerify_def KVEngine_Verify_def
        del: upper_all.simps)
qed

theorem cli_inspection_returns_witness:
  "\<exists>E. new_sample False = Some E \<and> (\<exists>out. ExecuteCommand byte_sum (\<lambda>E. 0) quiet quiet ''print'' E = Some (Status_OK, E, out))"
proof -
  obtain E where E: "new_sample False = Some E" "engine_fits E ''k'' ''v''" by (rule sample_engine)
  from cli_inspection_returns [OF sample_order _ quiet_ok(1) E(1) engine_run.start, of "\<lambda>E. 0" quiet quiet] E(1)
  show ?thesis by auto
qed

end
