(* ===== verification/SSTable.thy ===== *)
theory SSTable
  imports Complex_Main Codec Status Slice Wal
begin

text \<open>
  \<open>include/sstable/sstable.h\<close> and the first half of \<open>src/sstable/sstable.cpp\<close>: the checksum, the
  block handles and the footer, and \<open>SSTableBuilder\<close>.

  A \<open>std::vector<char>\<close> is the list of its bytes.  The builder takes a pointer to the end of a vector
  and writes through it after a \<open>resize\<close>: this is defined only if the vector was not
  reallocated, so the vectors that are written in this way carry the capacity that
  \<open>reserve\<close> and the earlier insertions guarantee.  \<open>data() + size()\<close> of an empty vector
  is taken for \<open>&v[0] + v.size()\<close>.  The output stream keeps what it has
  accepted; the bytes reach the file when it is closed.
\<close>

section \<open>The checksum\<close>

definition crc_table_0 :: "u32 list" where
  "crc_table_0 = [
     0x00000000, 0x77073096, 0xEE0E612C, 0x990951BA, 0x076DC419, 0x706AF48F, 0xE963A535, 0x9E6495A3,
     0x0EDB8832, 0x79DCB8A4, 0xE0D5E91E, 0x97D2D988, 0x09B64C2B, 0x7EB17CBD, 0xE7B82D07, 0x90BF1D91,
     0x1DB71064, 0x6AB020F2, 0xF3B97148, 0x84BE41DE, 0x1ADAD47D, 0x6DDDE4EB, 0xF4D4B551, 0x83D385C7,
     0x136C9856, 0x646BA8C0, 0xFD62F97A, 0x8A65C9EC, 0x14015C4F, 0x63066CD9, 0xFA0F3D63, 0x8D080DF5]"

definition crc_table_1 :: "u32 list" where
  "crc_table_1 = [
     0x3B6E20C8, 0x4C69105E, 0xD56041E4, 0xA2677172, 0x3C03E4D1, 0x4B04D447, 0xD20D85FD, 0xA50AB56B,
     0x35B5A8FA, 0x42B2986C, 0xDBBBC9D6, 0xACBCF940, 0x32D86CE3, 0x45DF5C75, 0xDCD60DCF, 0xABD13D59,
     0x26D930AC, 0x51DE003A, 0xC8D75180, 0xBFD06116, 0x21B4F4B5, 0x56B3C423, 0xCFBA9599, 0xB8BDA50F,
     0x2802B89E, 0x5F058808, 0xC60CD9B2, 0xB10BE924, 0x2F6F7C87, 0x58684C11, 0xC1611DAB, 0xB6662D3D]"

definition crc_table_2 :: "u32 list" where
  "crc_table_2 = [
     0x76DC4190, 0x01DB7106, 0x98D220BC, 0xEFD5102A, 0x71B18589, 0x06B6B51F, 0x9FBFE4A5, 0xE8B8D433,
     0x7807C9A2, 0x0F00F934, 0x9609A88E, 0xE10E9818, 0x7F6A0DBB, 0x086D3D2D, 0x91646C97, 0xE6635C01,
     0x6B6B51F4, 0x1C6C6162, 0x856530D8, 0xF262004E, 0x6C0695ED, 0x1B01A57B, 0x8208F4C1, 0xF50FC457,
     0x65B0D9C6, 0x12B7E950, 0x8BBEB8EA, 0xFCB9887C, 0x62DD1DDF, 0x15DA2D49, 0x8CD37CF3, 0xFBD44C65]"

definition crc_table_3 :: "u32 list" where
  "crc_table_3 = [
     0x4DB26158, 0x3AB551CE, 0xA3BC0074, 0xD4BB30E2, 0x4ADFA541, 0x3DD895D7, 0xA4D1C46D, 0xD3D6F4FB,
     0x4369E96A, 0x346ED9FC, 0xAD678846, 0xDA60B8D0, 0x44042D73, 0x33031DE5, 0xAA0A4C5F, 0xDD0D7CC9,
     0x5005713C, 0x270241AA, 0xBE0B1010, 0xC90C2086, 0x5768B525, 0x206F85B3, 0xB966D409, 0xCE61E49F,
     0x5EDEF90E, 0x29D9C998, 0xB0D09822, 0xC7D7A8B4, 0x59B33D17, 0x2EB40D81, 0xB7BD5C3B, 0xC0BA6CAD]"

definition crc_table_4 :: "u32 list" where
  "crc_table_4 = [
     0xEDB88320, 0x9ABFB3B6, 0x03B6E20C, 0x74B1D29A, 0xEAD54739, 0x9DD277AF, 0x04DB2615, 0x73DC1683,
     0xE3630B12, 0x94643B84, 0x0D6D6A3E, 0x7A6A5AA8, 0xE40ECF0B, 0x9309FF9D, 0x0A00AE27, 0x7D079EB1,
     0xF00F9344, 0x8708A3D2, 0x1E01F268, 0x6906C2FE, 0xF762575D, 0x806567CB, 0x196C3671, 0x6E6B06E7,
     0xFED41B76, 0x89D32BE0, 0x10DA7A5A, 0x67DD4ACC, 0xF9B9DF6F, 0x8EBEEFF9, 0x17B7BE43, 0x60B08ED5]"

definition crc_table_5 :: "u32 list" where
  "crc_table_5 = [
     0xD6D6A3E8, 0xA1D1937E, 0x38D8C2C4, 0x4FDFF252, 0xD1BB67F1, 0xA6BC5767, 0x3FB506DD, 0x48B2364B,
     0xD80D2BDA, 0xAF0A1B4C, 0x36034AF6, 0x41047A60, 0xDF60EFC3, 0xA867DF55, 0x316E8EEF, 0x4669BE79,
     0xCB61F38E, 0xBC66C318, 0x256FD2A0, 0x5268E236, 0xCC0C7795, 0xBB0B4703, 0x220216B9, 0x5505262F,
     0xC5BA3BBE, 0xB2BD0B28, 0x2BB45A92, 0x5CB36A04, 0xC2D7FFA7, 0xB5D0CF31, 0x2CD99E8B, 0x5BDEAE1D]"

definition crc_table_6 :: "u32 list" where
  "crc_table_6 = [
     0x9B64C2B0, 0xEC63F226, 0x756AA39C, 0x026D930A, 0x9C0906A9, 0xEB0E363F, 0x72076785, 0x05005713,
     0x95BF4A82, 0xE2B87A14, 0x7BB12BAE, 0x0CB61B38, 0x92D28E90, 0xE5D5BE02, 0x7CDCEFB7, 0x0BDBDF21,
     0x86D3D2D4, 0xF1D4E242, 0x68DDB3F8, 0x1FDA836E, 0x81BE16CD, 0xF6B9265B, 0x6FB077E1, 0x18B74777,
     0x88085AE6, 0xFF0F6A70, 0x66063BCA, 0x11010B5C, 0x8F659EFF, 0xF862AE69, 0x616BFFD3, 0x166CCF45]"

definition crc_table_7 :: "u32 list" where
  "crc_table_7 = [
     0xA00AE278, 0xD70DD2EE, 0x4E048354, 0x3903B3C2, 0xA7672661, 0xD06016F7, 0x4969474D, 0x3E6E77DB,
     0xAED16A4A, 0xD9D65AD8, 0x40DF0B66, 0x37D83BF0, 0xA9BCAE53, 0xDEBB9EC5, 0x47B2CF7F, 0x30B5FFE9,
     0xBDBDF21C, 0xCABAC28A, 0x53B39330, 0x24B4A3A6, 0xBAD03605, 0xCDD70693, 0x54DE5729, 0x23D967BF,
     0xB3667A2E, 0xC4614AB8, 0x5D681B02, 0x2A6F2B94, 0xB40BBE37, 0xC30C8EA1, 0x5A05DF1B, 0x2D02EF8D]"

definition crc_table :: "u32 list" where
  "crc_table = crc_table_0 @ crc_table_1 @ crc_table_2 @ crc_table_3 @ crc_table_4 @ crc_table_5 @ crc_table_6 @ crc_table_7"

lemmas crc_tables = crc_table_0_def crc_table_1_def crc_table_2_def crc_table_3_def crc_table_4_def crc_table_5_def crc_table_6_def crc_table_7_def

text \<open>\<open>crc ^ data[i]\<close> may sign-extend the byte, but only the low eight bits are used.\<close>

definition crc_update :: "u32 \<Rightarrow> char \<Rightarrow> u32" where
  "crc_update crc ch = (crc_table ! unat ((crc XOR word_of_char ch) AND 0xFF)) XOR drop_bit 8 crc"

definition ComputeCRC32 :: "bytes \<Rightarrow> u32" where
  "ComputeCRC32 data = NOT (foldl crc_update 0xFFFFFFFF data)"

section \<open>Block handles and the footer\<close>

record BlockHandle =
  bh_offset :: u64
  bh_size :: u64

definition BlockHandle_Encode :: "BlockHandle \<Rightarrow> bytes" where
  "BlockHandle_Encode h = EncodeFixed64 (bh_offset h) @ EncodeFixed64 (bh_size h)"

text \<open>The output argument is left as it was when the input is too small.\<close>

definition BlockHandle_Decode :: "bytes \<Rightarrow> BlockHandle \<Rightarrow> (Status \<times> BlockHandle) option" where
  "BlockHandle_Decode input handle =
     (if length input < 16 then Some (Status_Corruption ''BlockHandle too small'', handle)
      else do {
        off \<leftarrow> DecodeFixed64 input;
        sz \<leftarrow> DecodeFixed64 (drop 8 input);
        Some (Status_OK, \<lparr>bh_offset = off, bh_size = sz\<rparr>)
      })"

record SSTableFooter =
  index_block :: BlockHandle
  filter_block :: BlockHandle
  meta_block :: BlockHandle
  magic_number :: u64
  footer_version :: u32
  footer_crc32 :: u32

definition kMagic :: u64 where
  "kMagic = 0xDBDBDBDBDBDBDBDB"

definition SSTableFooter_default :: SSTableFooter where
  "SSTableFooter_default =
     \<lparr>index_block = \<lparr>bh_offset = 0, bh_size = 0\<rparr>, filter_block = \<lparr>bh_offset = 0, bh_size = 0\<rparr>,
      meta_block = \<lparr>bh_offset = 0, bh_size = 0\<rparr>, magic_number = kMagic, footer_version = 1, footer_crc32 = 0\<rparr>"

definition kEncodedSize :: nat where
  "kEncodedSize = 8 + 8 + 8 + 8 + 8 + 8 + 8 + 8 + 4 + 4"

definition SSTableFooter_Encode :: "SSTableFooter \<Rightarrow> bytes" where
  "SSTableFooter_Encode f =
     (let fields = BlockHandle_Encode (index_block f) @ BlockHandle_Encode (filter_block f) @ BlockHandle_Encode (meta_block f) @
            EncodeFixed64 (magic_number f) @ EncodeFixed32 (footer_version f) @ EncodeFixed32 (footer_crc32 f)
      in fields @ replicate (kEncodedSize - length fields) (char_of (0::nat)))"

definition SSTableFooter_Decode :: "bytes \<Rightarrow> SSTableFooter \<Rightarrow> (Status \<times> SSTableFooter) option" where
  "SSTableFooter_Decode input footer =
     (if length input < kEncodedSize then Some (Status_Corruption ''Footer too small'', footer)
      else do {
        io \<leftarrow> DecodeFixed64 input;
        iz \<leftarrow> DecodeFixed64 (drop 8 input);
        fo \<leftarrow> DecodeFixed64 (drop 16 input);
        fz \<leftarrow> DecodeFixed64 (drop 24 input);
        mo \<leftarrow> DecodeFixed64 (drop 32 input);
        mz \<leftarrow> DecodeFixed64 (drop 40 input);
        magic \<leftarrow> DecodeFixed64 (drop 48 input);
        ver \<leftarrow> DecodeFixed32 (drop 56 input);
        crc \<leftarrow> DecodeFixed32 (drop 60 input);
        let footer = \<lparr>index_block = \<lparr>bh_offset = io, bh_size = iz\<rparr>, filter_block = \<lparr>bh_offset = fo, bh_size = fz\<rparr>,
          meta_block = \<lparr>bh_offset = mo, bh_size = mz\<rparr>, magic_number = magic, footer_version = ver, footer_crc32 = crc\<rparr>;
        if magic_number footer \<noteq> 0xDBDBDBDBDBDBDBDB then Some (Status_Corruption ''Invalid magic number'', footer)
        else Some (Status_OK, footer)
      })"

section \<open>The builder\<close>

record SSTableOptions =
  sst_block_size :: nat
  block_restart_interval :: nat
  sst_enable_compression :: bool
  sst_compression_threshold :: u32
  sst_comparator :: "Comparator option"
  enable_bloom_filter :: bool
  bloom_filter_bits_per_key :: rat

definition SSTableOptions_default :: SSTableOptions where
  "SSTableOptions_default = \<lparr>sst_block_size = 4096, block_restart_interval = 16, sst_enable_compression = False,
     sst_compression_threshold = 1024, sst_comparator = None, enable_bloom_filter = True, bloom_filter_bits_per_key = 10\<rparr>"

text \<open>What the system calls answer: whether a file can be opened, and how many bytes it takes.\<close>

record SstEnv =
  sst_open_ok :: bool
  sst_limit :: "nat option"

type_synonym sst_files = "string \<rightharpoonup> bytes"

record SSTableBuilder =
  sst_options :: SSTableOptions
  sst_file_open :: bool
  sst_file_good :: bool
  sst_stream :: bytes
  sst_filename :: string
  index_buffer :: bytes
  filter_buffer :: bytes
  filter_keys_hash :: "u64 list"
  current_block :: bytes
  block_capacity :: nat
  restart_points :: "u32 list"
  last_key :: bytes
  entries_in_block :: nat
  block_offset :: nat
  index_entries :: "(bytes \<times> BlockHandle) list"
  min_seq :: u64
  max_seq :: u64
  smallest_key :: bytes
  largest_key :: bytes
  num_entries :: nat
  sst_num_entries :: nat
  sst_file_size :: nat
  finished :: bool
  abandoned :: bool

definition SSTableBuilder_new :: "SSTableOptions \<Rightarrow> SSTableBuilder" where
  "SSTableBuilder_new opts =
     \<lparr>sst_options = opts, sst_file_open = False, sst_file_good = True, sst_stream = [], sst_filename = [],
      index_buffer = [], filter_buffer = [], filter_keys_hash = [], current_block = [],
      block_capacity = sst_block_size opts, restart_points = [], last_key = [], entries_in_block = 0, block_offset = 0,
      index_entries = [], min_seq = 2 ^ 64 - 1, max_seq = 0, smallest_key = [], largest_key = [], num_entries = 0,
      sst_num_entries = 0, sst_file_size = 0, finished = False, abandoned = False\<rparr>"

text \<open>\<open>file.write\<close>: on a stream that is not open or has failed, the bytes are lost and the stream fails.\<close>

definition stream_write :: "bytes \<Rightarrow> SSTableBuilder \<Rightarrow> SSTableBuilder" where
  "stream_write bs b =
     (if sst_file_good b \<and> sst_file_open b then b\<lparr>sst_stream := sst_stream b @ bs\<rparr> else b\<lparr>sst_file_good := False\<rparr>)"

definition ResetBlock :: "SSTableBuilder \<Rightarrow> SSTableBuilder" where
  "ResetBlock b = b\<lparr>current_block := [], restart_points := [0], last_key := [], entries_in_block := 0\<rparr>"

text \<open>The \<open>while (shared < min_len && key[shared] == last_key[shared])\<close> loop.\<close>

fun shared_prefix :: "bytes \<Rightarrow> bytes \<Rightarrow> nat" where
  "shared_prefix (a # as) (b # bs) = (if a = b then Suc (shared_prefix as bs) else 0)"
| "shared_prefix _ _ = 0"

text \<open>The hash of the bloom filter.\<close>

definition bloom_hash :: "bytes \<Rightarrow> u64" where
  "bloom_hash key = foldl (\<lambda>hash ch. hash * 31 + of_nat (of_char ch)) 0 key"

definition encode_restarts :: "u32 list \<Rightarrow> bytes" where
  "encode_restarts rs = concat (map EncodeFixed32 rs) @ EncodeFixed32 (of_nat (length rs))"

definition FlushBlock :: "SSTableBuilder \<Rightarrow> SSTableBuilder" where
  "FlushBlock b =
     (if entries_in_block b = 0 then b
      else
        let block = current_block b @ encode_restarts (restart_points b);
            handle = \<lparr>bh_offset = of_nat (block_offset b), bh_size = of_nat (length block)\<rparr>;
            b = stream_write block (b\<lparr>current_block := block, block_capacity := max (block_capacity b) (length block)\<rparr>);
            b = b\<lparr>block_offset := block_offset b + length block, index_entries := index_entries b @ [(last_key b, handle)]\<rparr>;
            b = (if enable_bloom_filter (sst_options b)
                 then b\<lparr>filter_keys_hash := filter_keys_hash b @ map (\<lambda>e. bloom_hash (fst e)) (index_entries b)\<rparr> else b)
        in ResetBlock b)"

text \<open>
  The header of an entry is written through the pointer that was taken before the \<open>resize\<close>.
\<close>

definition write_through :: "nat \<Rightarrow> bytes \<Rightarrow> bytes \<Rightarrow> bytes option" where
  "write_through capacity block header =
     (if length block + length header \<le> capacity then Some (block @ header) else None)"

definition entry_header :: "nat \<Rightarrow> nat \<Rightarrow> nat \<Rightarrow> u64 \<Rightarrow> bool \<Rightarrow> bytes" where
  "entry_header shared unshared value_len seq deleted =
     EncodeFixed32 (of_nat shared) @ EncodeFixed32 (of_nat unshared) @ EncodeFixed32 (of_nat value_len) @
     EncodeFixed32 (ucast seq) @ [char_of (if deleted then 1 else (0::nat))]"

definition AddToBlock :: "bytes \<Rightarrow> bytes \<Rightarrow> u64 \<Rightarrow> bool \<Rightarrow> SSTableBuilder \<Rightarrow> SSTableBuilder option" where
  "AddToBlock key val seq deleted b = do {
     let shared = shared_prefix key (last_key b);
     let unshared = length key - shared;
     let needed = 4 + 4 + 4 + 4 + 1 + unshared + length val;
     let b = (if length (current_block b) + needed > sst_block_size (sst_options b) \<and> entries_in_block b > 0
              then FlushBlock b else b);
     block \<leftarrow> write_through (block_capacity b) (current_block b) (entry_header shared unshared (length val) seq deleted);
     let block = block @ drop shared key @ val;
     let entries = entries_in_block b + 1;
     if block_restart_interval (sst_options b) = 0 then None
     else
       let restarts = (if entries mod block_restart_interval (sst_options b) = 0
                       then restart_points b @ [of_nat (length block - 17 - unshared - length val)] else restart_points b)
       in Some (b\<lparr>current_block := block, block_capacity := max (block_capacity b) (length block),
                  entries_in_block := entries, restart_points := restarts, last_key := key\<rparr>)
   }"

definition SSTableBuilder_Add ::
  "bytes \<Rightarrow> bytes \<Rightarrow> u64 \<Rightarrow> bool \<Rightarrow> SSTableBuilder \<Rightarrow> (Status \<times> SSTableBuilder) option" where
  "SSTableBuilder_Add key val seq deleted b =
     (if finished b \<or> abandoned b
      then Some (Status_InvalidArgument ''Builder already finished or abandoned'', b)
      else if num_entries b > 0 \<and> Compare (sst_comparator (sst_options b)) key (last_key b) \<le> 0
      then Some (Status_InvalidArgument ''Keys must be added in strictly increasing order'', b)
      else do {
        let b = b\<lparr>min_seq := min (min_seq b) seq, max_seq := max (max_seq b) seq\<rparr>;
        b \<leftarrow> AddToBlock key val seq deleted b;
        Some (Status_OK, b\<lparr>num_entries := num_entries b + 1\<rparr>)
      })"

section \<open>Finishing a table\<close>

text \<open>The index block, from a vector without capacity.\<close>

fun index_loop :: "nat \<Rightarrow> (bytes \<times> BlockHandle) list \<Rightarrow> nat \<Rightarrow> bytes \<Rightarrow> bytes \<Rightarrow> nat \<Rightarrow> u32 list \<Rightarrow> (bytes \<times> u32 list) option" where
  "index_loop interval [] capacity data last_idx_key entries restarts = Some (data, restarts)"
| "index_loop interval ((key, handle) # rest) capacity data last_idx_key entries restarts = do {
     let shared = shared_prefix key last_idx_key;
     let unshared = length key - shared;
     let handle_size = length (BlockHandle_Encode handle);
     data \<leftarrow> write_through capacity data
       (EncodeFixed32 (of_nat shared) @ EncodeFixed32 (of_nat unshared) @ EncodeFixed32 (of_nat handle_size));
     let data = data @ drop shared key @ BlockHandle_Encode handle;
     let entries = entries + 1;
     if interval = 0 then None
     else
       let restarts = (if entries mod interval = 0 then restarts @ [of_nat (length data - 12 - unshared - handle_size)] else restarts)
       in index_loop interval rest (max capacity (length data)) data key entries restarts
   }"

definition WriteIndexBlock :: "SSTableBuilder \<Rightarrow> SSTableBuilder option" where
  "WriteIndexBlock b = do {
     (data, restarts) \<leftarrow> index_loop (block_restart_interval (sst_options b)) (index_entries b) 0 [] [] 0 [0];
     let data = data @ encode_restarts restarts;
     let b = stream_write data b;
     Some (b\<lparr>block_offset := block_offset b + length data, index_buffer := data\<rparr>)
   }"

text \<open>
  \<open>static_cast<size_t>(bits_per_key * 0.69)\<close>: the double nearest to 0.69 is
  $6214967485771284 / 2^{53}$, and the product is rounded to 53 significant bits, ties to even.
\<close>

fun bit_len :: "nat \<Rightarrow> nat" where
  "bit_len n = (if n = 0 then 0 else Suc (bit_len (n div 2)))"

declare bit_len.simps [simp del]

definition round_53 :: "nat \<Rightarrow> nat" where
  "round_53 p =
     (let e = bit_len p - 53; q = p div 2 ^ e; r = 2 * (p mod 2 ^ e)
      in (if r > 2 ^ e \<or> r = 2 ^ e \<and> odd q then q + 1 else q) * 2 ^ e)"

definition times_069 :: "nat \<Rightarrow> nat" where
  "times_069 n = round_53 (n * 6214967485771284) div 2 ^ 53"

text \<open>The cast truncates, and is undefined where the value does not fit.\<close>

definition fits_size :: "rat \<Rightarrow> bool" where
  "fits_size x \<longleftrightarrow> - 1 < x \<and> x < 2 ^ 64"

definition size_of_double :: "rat \<Rightarrow> nat" where
  "size_of_double x = nat \<lfloor>x\<rfloor>"

text \<open>\<open>filter[bit / 8] |= (1 << (bit % 8))\<close>, and the probe of a hash.\<close>

definition set_bloom_bit :: "u64 \<Rightarrow> u8 list \<Rightarrow> u8 list option" where
  "set_bloom_bit pos f = do {
     byte \<leftarrow> vec_get f (unat (pos div 8));
     vec_set f (unat (pos div 8)) (byte OR push_bit (unat (pos mod 8)) 1)
   }"

definition bloom_probe :: "u64 \<Rightarrow> u64 \<Rightarrow> nat \<Rightarrow> u64" where
  "bloom_probe bits hash i = (hash + of_nat i * 0x9e3779b97f4a7c15) mod bits"

definition bloom_add :: "u64 \<Rightarrow> nat \<Rightarrow> u64 \<Rightarrow> u8 list \<Rightarrow> u8 list option" where
  "bloom_add bits k hash f = for_range 0 k (\<lambda>i f. if bits = 0 then None else set_bloom_bit (bloom_probe bits hash i) f) f"

fun bloom_add_all :: "u64 \<Rightarrow> nat \<Rightarrow> u64 list \<Rightarrow> u8 list \<Rightarrow> u8 list option" where
  "bloom_add_all bits k [] f = Some f"
| "bloom_add_all bits k (hash # hashes) f = do { f \<leftarrow> bloom_add bits k hash f; bloom_add_all bits k hashes f }"

definition char_of_byte :: "u8 \<Rightarrow> char" where
  "char_of_byte w = char_of (unat w)"

definition WriteFilterBlock :: "SSTableBuilder \<Rightarrow> SSTableBuilder option" where
  "WriteFilterBlock b =
     (if \<not> enable_bloom_filter (sst_options b) \<or> filter_keys_hash b = [] then Some b
      else if \<not> fits_size (bloom_filter_bits_per_key (sst_options b)) then None
      else do {
        let bits_per_key = size_of_double (bloom_filter_bits_per_key (sst_options b));
        let bits = length (filter_keys_hash b) * bits_per_key;
        let n_bytes = (bits + 7) div 8;
        let k = times_069 bits_per_key;
        f \<leftarrow> bloom_add_all (of_nat bits) k (filter_keys_hash b) (replicate n_bytes 0);
        let data = map char_of_byte f @ EncodeFixed32 (of_nat k);
        let b = stream_write data b;
        Some (b\<lparr>filter_buffer := data, block_offset := block_offset b + length data\<rparr>)
      })"

definition WriteMetaBlock :: "SSTableBuilder \<Rightarrow> SSTableBuilder" where
  "WriteMetaBlock b =
     (let meta = EncodeFixed64 (min_seq b) @ EncodeFixed64 (max_seq b) @
            EncodeFixed32 (of_nat (length (smallest_key b))) @ smallest_key b @
            EncodeFixed32 (of_nat (length (largest_key b))) @ largest_key b;
          b = stream_write meta b
      in b\<lparr>block_offset := block_offset b + length meta\<rparr>)"

definition stream_open :: "SstEnv \<Rightarrow> SSTableBuilder \<Rightarrow> SSTableBuilder" where
  "stream_open e b =
     (if sst_file_open b then b\<lparr>sst_file_good := False\<rparr>
      else if sst_open_ok e then b\<lparr>sst_file_open := True, sst_file_good := True, sst_stream := []\<rparr>
      else b\<lparr>sst_file_good := False\<rparr>)"

text \<open>\<open>close\<close> hands the accepted bytes to the file, and fails if some are not taken.\<close>

definition stream_close :: "SstEnv \<Rightarrow> SSTableBuilder \<Rightarrow> sst_files \<Rightarrow> SSTableBuilder \<times> sst_files" where
  "stream_close e b fs =
     (if sst_file_open b
      then (b\<lparr>sst_file_open := False, sst_file_good := sst_file_good b \<and> accepts_all (sst_limit e) (sst_stream b), sst_stream := []\<rparr>,
            fs(sst_filename b \<mapsto> accepted (sst_limit e) (sst_stream b)))
      else (b\<lparr>sst_file_good := False\<rparr>, fs))"

definition SSTableBuilder_Finish ::
  "SstEnv \<Rightarrow> string \<Rightarrow> SSTableBuilder \<Rightarrow> sst_files \<Rightarrow> (Status \<times> SSTableBuilder \<times> sst_files) option" where
  "SSTableBuilder_Finish e filename b fs =
     (if finished b \<or> abandoned b
      then Some (Status_InvalidArgument ''Builder already finished or abandoned'', b, fs)
      else
        let created = \<not> sst_file_open b; b = stream_open e (b\<lparr>sst_filename := filename\<rparr>)
        in if \<not> sst_file_open b then Some (Status_IOError (''Failed to open file: '' @ filename), b, fs)
           else do {
             let fs = (if created then fs(filename \<mapsto> []) else fs);
             let b = FlushBlock b;
             b \<leftarrow> WriteIndexBlock b;
             let index_handle = \<lparr>bh_offset = of_nat (block_offset b - length (index_buffer b)), bh_size = of_nat (length (index_buffer b))\<rparr>;
             (filter_handle, b) \<leftarrow>
               (if enable_bloom_filter (sst_options b) then do {
                  let filter_start = block_offset b;
                  b \<leftarrow> WriteFilterBlock b;
                  Some (\<lparr>bh_offset = of_nat filter_start, bh_size = of_nat (length (filter_buffer b))\<rparr>, b)
                } else Some (\<lparr>bh_offset = 0, bh_size = 0\<rparr>, b));
             let meta_start = block_offset b;
             let b = WriteMetaBlock b;
             let meta_handle = \<lparr>bh_offset = of_nat meta_start, bh_size = of_nat (block_offset b - meta_start)\<rparr>;
             let footer = SSTableFooter_default\<lparr>index_block := index_handle, filter_block := filter_handle,
                            meta_block := meta_handle, footer_version := 1\<rparr>;
             let footer_data = SSTableFooter_Encode footer;
             let footer = footer\<lparr>footer_crc32 := ComputeCRC32 (take (length footer_data - 4) footer_data)\<rparr>;
             let (b, fs) = stream_close e (stream_write footer_data b) fs;
             if \<not> sst_file_good b then Some (Status_IOError ''Error writing SSTable file'', b, fs)
             else Some (Status_OK, b\<lparr>sst_file_size := block_offset b + length footer_data,
                                     sst_num_entries := num_entries b, finished := True\<rparr>, fs)
           })"

text \<open>\<open>Abandon\<close> closes and removes the file.\<close>

definition SSTableBuilder_Abandon :: "SstEnv \<Rightarrow> SSTableBuilder \<Rightarrow> sst_files \<Rightarrow> SSTableBuilder \<times> sst_files" where
  "SSTableBuilder_Abandon e b fs =
     (let b = b\<lparr>abandoned := True\<rparr>;
          (b, fs) = (if sst_file_open b then stream_close e b fs else (b, fs))
      in (b, if sst_filename b \<noteq> [] then fs(sst_filename b := None) else fs))"

end
