(* ===== verification/SSTable_Reader.thy ===== *)
theory SSTable_Reader
  imports SSTable
begin

text \<open>
  The second half of \<open>src/sstable/sstable.cpp\<close>: \<open>SSTableReader\<close> and its iterator.  The files are
  a map from names to contents, and \<open>can_open\<close> tells which of them can be opened.  A read past the end of the
  file leaves the rest of the buffer zero and the stream failed.  Allocations succeed.  A copy from
  outside a buffer is \<^term>\<open>None\<close>.
\<close>

record SSTableReaderOptions =
  rd_comparator :: "Comparator option"
  verify_checksums :: bool
  prefetch_index_and_filter :: bool

definition SSTableReaderOptions_default :: SSTableReaderOptions where
  "SSTableReaderOptions_default = \<lparr>rd_comparator = None, verify_checksums = True, prefetch_index_and_filter = True\<rparr>"

record SSTableReader =
  rd_options :: SSTableReaderOptions
  rd_filename :: string
  rd_footer :: SSTableFooter
  index_block_data :: bytes
  filter_block_data :: bytes
  meta_block_data :: bytes
  impl_num_entries :: nat
  impl_min_seq :: u64
  impl_max_seq :: u64
  impl_smallest_key :: bytes
  impl_largest_key :: bytes
  rd_index_entries :: "(bytes \<times> BlockHandle) list"
  bloom_filter :: "u8 list"
  bloom_k :: nat
  bloom_bits :: u64
  file_number :: u64
  rd_file_size :: nat
  rd_num_entries :: nat
  rd_min_sequence :: u64
  rd_max_sequence :: u64
  rd_smallest_key :: bytes
  rd_largest_key :: bytes

definition SSTableReader_new :: "SSTableReaderOptions \<Rightarrow> SSTableReader" where
  "SSTableReader_new opts =
     \<lparr>rd_options = opts, rd_filename = [], rd_footer = SSTableFooter_default, index_block_data = [], filter_block_data = [],
      meta_block_data = [], impl_num_entries = 0, impl_min_seq = 0, impl_max_seq = 0, impl_smallest_key = [],
      impl_largest_key = [], rd_index_entries = [], bloom_filter = [], bloom_k = 0, bloom_bits = 0, file_number = 0,
      rd_file_size = 0, rd_num_entries = 0, rd_min_sequence = 0, rd_max_sequence = 0, rd_smallest_key = [], rd_largest_key = []\<rparr>"

section \<open>Restart points\<close>

text \<open>
  The last four bytes are the number of restart points, and the points stand before them.  The
  product \<open>num_restarts * 4\<close> is computed on 32 bits.
\<close>

fun fixed32s :: "nat \<Rightarrow> bytes \<Rightarrow> u32 list" where
  "fixed32s 0 bs = []"
| "fixed32s (Suc n) bs = (case DecodeFixed32 bs of Some v \<Rightarrow> v | None \<Rightarrow> 0) # fixed32s n (drop 4 bs)"

definition restart_bytes :: "u32 \<Rightarrow> nat" where
  "restart_bytes num_restarts = unat (num_restarts * 4)"

definition read_restarts :: "bytes \<Rightarrow> u32 \<Rightarrow> u32 list option" where
  "read_restarts data num_restarts =
     (if length data < 4 + restart_bytes num_restarts then None
      else Some (fixed32s (unat num_restarts)
        (take (restart_bytes num_restarts) (drop (length data - 4 - restart_bytes num_restarts) data))))"

definition read_num_restarts :: "bytes \<Rightarrow> u32 option" where
  "read_num_restarts data = DecodeFixed32 (drop (length data - 4) data)"

section \<open>Parsing\<close>

declare Option.bind_cong [fundef_cong]

function parse_index_entries ::
  "bytes \<Rightarrow> nat \<Rightarrow> nat \<Rightarrow> bytes \<Rightarrow> (bytes \<times> BlockHandle) list \<Rightarrow> (bytes \<times> BlockHandle) list option" where
  "parse_index_entries data next_restart pos prev_key entries =
     (if pos < next_restart \<and> pos + 12 \<le> length data then do {
        shared \<leftarrow> map_option unat (DecodeFixed32 (drop pos data));
        unshared \<leftarrow> map_option unat (DecodeFixed32 (drop (pos + 4) data));
        handle_size \<leftarrow> map_option unat (DecodeFixed32 (drop (pos + 8) data));
        if pos + 12 + shared + unshared + handle_size > length data then Some entries
        else do {
          let key = take shared prev_key @ take unshared (drop (pos + 12) data);
          (s, handle) \<leftarrow> BlockHandle_Decode (take handle_size (drop (pos + 12 + unshared) data)) \<lparr>bh_offset = 0, bh_size = 0\<rparr>;
          if \<not> Status_ok s then Some entries
          else parse_index_entries data next_restart (pos + 12 + unshared + handle_size) key (entries @ [(key, handle)])
        }
      } else Some entries)"
  by pat_completeness auto
termination by (relation "measure (\<lambda>(data, next_restart, pos, prev_key, entries). length data - pos)") auto

declare parse_index_entries.simps [simp del]

text \<open>The loop over the restart points.\<close>

fun parse_index_restarts ::
  "bytes \<Rightarrow> nat \<Rightarrow> u32 list \<Rightarrow> (bytes \<times> BlockHandle) list \<Rightarrow> (bytes \<times> BlockHandle) list option" where
  "parse_index_restarts data limit [] entries = Some entries"
| "parse_index_restarts data limit (r # rs) entries = do {
     let next_restart = (case rs of [] \<Rightarrow> limit | r' # _ \<Rightarrow> unat r');
     entries \<leftarrow> parse_index_entries data next_restart (unat r) [] entries;
     parse_index_restarts data limit rs entries
   }"

definition ParseIndexBlock :: "SSTableReader \<Rightarrow> SSTableReader option" where
  "ParseIndexBlock R =
     (let data = index_block_data R in
      if length data < 4 then Some R
      else do {
        num_restarts \<leftarrow> read_num_restarts data;
        if num_restarts = 0 \<or> unat num_restarts > length data div 4 then Some R
        else do {
          restarts \<leftarrow> read_restarts data num_restarts;
          entries \<leftarrow> parse_index_restarts data (length data - 4 - restart_bytes num_restarts) restarts (rd_index_entries R);
          let R = R\<lparr>rd_index_entries := entries, impl_num_entries := length entries\<rparr>;
          Some (if entries \<noteq> [] then R\<lparr>impl_smallest_key := fst (hd entries), impl_largest_key := fst (last entries)\<rparr> else R)
        }
      })"

definition byte_of_char :: "char \<Rightarrow> u8" where
  "byte_of_char ch = of_nat (of_char ch)"

definition ParseFilterBlock :: "SSTableReader \<Rightarrow> SSTableReader option" where
  "ParseFilterBlock R =
     (let data = filter_block_data R in
      if length data < 4 then Some R
      else do {
        k \<leftarrow> DecodeFixed32 (drop (length data - 4) data);
        Some (R\<lparr>bloom_k := unat k, bloom_bits := of_nat ((length data - 4) * 8),
                bloom_filter := map byte_of_char (take (length data - 4) data)\<rparr>)
      })"

definition ParseMetaBlock :: "SSTableReader \<Rightarrow> SSTableReader option" where
  "ParseMetaBlock R =
     (let data = meta_block_data R in
      if length data < 24 then Some R
      else do {
        mn \<leftarrow> DecodeFixed64 data;
        mx \<leftarrow> DecodeFixed64 (drop 8 data);
        smallest_len \<leftarrow> map_option unat (DecodeFixed32 (drop 16 data));
        let R = R\<lparr>impl_min_seq := mn, impl_max_seq := mx\<rparr>;
        let fits = (20 + smallest_len \<le> length data);
        let R = (if fits then R\<lparr>impl_smallest_key := take smallest_len (drop 20 data)\<rparr> else R);
        let pos = (if fits then 20 + smallest_len else 20);
        largest_len \<leftarrow> map_option unat (DecodeFixed32 (drop pos data));
        Some (if pos + 4 + largest_len \<le> length data
              then R\<lparr>impl_largest_key := take largest_len (drop (pos + 4) data)\<rparr> else R)
      })"

section \<open>Opening\<close>

text \<open>
  \<open>seekg(offset)\<close>, a buffer resized to \<open>n\<close> bytes, and a \<open>read\<close> into it: the bytes that are not read are
  those that the buffer held before, or zero.  An offset that is negative as a \<open>streamoff\<close> fails, and nothing is
  read from a stream that has failed.
\<close>

definition resize :: "nat \<Rightarrow> bytes \<Rightarrow> bytes" where
  "resize n buf = take n buf @ replicate (n - length buf) (char_of (0::nat))"

definition seek_read :: "bytes \<Rightarrow> bytes \<Rightarrow> bool \<Rightarrow> u64 \<Rightarrow> nat \<Rightarrow> bytes \<times> bool" where
  "seek_read old file good offset n =
     (let buf = resize n old
      in if \<not> good \<or> offset \<ge> 2 ^ 63 then (buf, False)
         else let got = take n (drop (unat offset) file) in (got @ drop (length got) buf, length got = n))"

definition LoadFile :: "(string \<Rightarrow> bool) \<Rightarrow> sst_files \<Rightarrow> string \<Rightarrow> SSTableReader \<Rightarrow> (Status \<times> SSTableReader) option" where
  "LoadFile can_open fs fname R =
     (let R = R\<lparr>rd_filename := fname\<rparr> in
      case fs fname of
        None \<Rightarrow> Some (Status_IOError (''Failed to open file: '' @ fname), R)
      | Some file \<Rightarrow>
          if \<not> can_open fname then Some (Status_IOError (''Failed to open file: '' @ fname), R)
          else if length file < kEncodedSize then Some (Status_Corruption ''File too small'', R)
          else do {
            let (footer_data, good) = seek_read [] file True (of_nat (length file - kEncodedSize)) kEncodedSize;
            (s, footer) \<leftarrow> SSTableFooter_Decode footer_data (rd_footer R);
            let R = R\<lparr>rd_footer := footer\<rparr>;
            if \<not> Status_ok s then Some (s, R)
            else if ComputeCRC32 (take (length footer_data - 4) footer_data) \<noteq> footer_crc32 footer
            then Some (Status_Corruption ''Footer CRC mismatch'', R)
            else do {
              (R, good) \<leftarrow> (if bh_size (index_block footer) > 0 then do {
                  let (data, good) = seek_read (index_block_data R) file good (bh_offset (index_block footer)) (unat (bh_size (index_block footer)));
                  R \<leftarrow> ParseIndexBlock (R\<lparr>index_block_data := data\<rparr>);
                  Some (R, good)
                } else Some (R, good));
              (R, good) \<leftarrow> (if bh_size (filter_block footer) > 0 then do {
                  let (data, good) = seek_read (filter_block_data R) file good (bh_offset (filter_block footer)) (unat (bh_size (filter_block footer)));
                  R \<leftarrow> ParseFilterBlock (R\<lparr>filter_block_data := data\<rparr>);
                  Some (R, good)
                } else Some (R, good));
              (R, good) \<leftarrow> (if bh_size (meta_block footer) > 0 then do {
                  let (data, good) = seek_read (meta_block_data R) file good (bh_offset (meta_block footer)) (unat (bh_size (meta_block footer)));
                  R \<leftarrow> ParseMetaBlock (R\<lparr>meta_block_data := data\<rparr>);
                  Some (R, good)
                } else Some (R, good));
              Some (Status_OK, R)
            }
          })"

definition SSTableReader_Open :: "(string \<Rightarrow> bool) \<Rightarrow> sst_files \<Rightarrow> string \<Rightarrow> SSTableReader \<Rightarrow> (Status \<times> SSTableReader) option" where
  "SSTableReader_Open can_open fs filename R = do {
     (s, R) \<leftarrow> LoadFile can_open fs filename R;
     if \<not> Status_ok s then Some (s, R)
     else Some (Status_OK, R\<lparr>file_number := 0,
       rd_file_size := length (index_block_data R) + length (filter_block_data R) + length (meta_block_data R) + kEncodedSize,
       rd_num_entries := impl_num_entries R, rd_min_sequence := impl_min_seq R, rd_max_sequence := impl_max_seq R,
       rd_smallest_key := impl_smallest_key R, rd_largest_key := impl_largest_key R\<rparr>)
   }"

section \<open>Lookups\<close>

text \<open>The probes of \<open>BloomFilterCheck\<close>, from the \<open>i\<close>-th on.\<close>

fun bloom_check_loop :: "SSTableReader \<Rightarrow> u64 \<Rightarrow> nat \<Rightarrow> nat \<Rightarrow> bool option" where
  "bloom_check_loop R hash i 0 = Some True"
| "bloom_check_loop R hash i (Suc n) =
     (if bloom_bits R = 0 then None
      else do {
        let pos = bloom_probe (bloom_bits R) hash i;
        byte \<leftarrow> vec_get (bloom_filter R) (unat (pos div 8));
        if byte AND push_bit (unat (pos mod 8)) 1 = 0 then Some False else bloom_check_loop R hash (Suc i) n
      })"

definition BloomFilterCheck :: "SSTableReader \<Rightarrow> bytes \<Rightarrow> bool option" where
  "BloomFilterCheck R key =
     (if bloom_filter R = [] \<or> bloom_k R = 0 then Some True else bloom_check_loop R (bloom_hash key) 0 (bloom_k R))"

text \<open>The loop over the restart points, which compares no keys.\<close>

function restart_search :: "nat \<Rightarrow> nat \<Rightarrow> nat" where
  "restart_search left right =
     (if left < right then let mid = (left + right) div 2 in restart_search (mid + 1) right else left)"
  by pat_completeness auto
termination by (relation "measure (\<lambda>(left, right). right - left)") auto

declare restart_search.simps [simp del]

text \<open>The decoded header of an entry of a data block: 17 bytes at a position.\<close>

definition read_entry_header :: "bytes \<Rightarrow> nat \<Rightarrow> (nat \<times> nat \<times> nat \<times> u32 \<times> bool) option" where
  "read_entry_header data pos = do {
     shared \<leftarrow> DecodeFixed32 (drop pos data);
     unshared \<leftarrow> DecodeFixed32 (drop (pos + 4) data);
     value_len \<leftarrow> DecodeFixed32 (drop (pos + 8) data);
     seq \<leftarrow> DecodeFixed32 (drop (pos + 12) data);
     flag \<leftarrow> vec_get data (pos + 16);
     Some (unat shared, unat unshared, unat value_len, seq, flag \<noteq> char_of (0::nat))
   }"

function block_search ::
  "Comparator option \<Rightarrow> bytes \<Rightarrow> bytes \<Rightarrow> nat \<Rightarrow> nat \<Rightarrow> bytes \<Rightarrow> (bytes \<times> u32 \<times> bool) option option" where
  "block_search c data key search_end pos prev_key =
     (if pos < search_end \<and> pos + 12 \<le> length data then do {
        (shared, unshared, value_len, seq, flag) \<leftarrow> read_entry_header data pos;
        if pos + 17 + shared + unshared + value_len > length data then Some None
        else
          let cur_key = take shared prev_key @ take unshared (drop (pos + 17) data);
              cmp = Compare c cur_key key
          in if cmp = 0 then Some (Some (take value_len (drop (pos + 17 + unshared) data), seq, flag))
             else if cmp > 0 then Some None
             else block_search c data key search_end (pos + 17 + unshared + value_len) cur_key
      } else Some None)"
  by pat_completeness auto
termination by (relation "measure (\<lambda>(c, data, key, search_end, pos, prev_key). length data - pos)") auto

declare block_search.simps [simp del]

definition search_block :: "Comparator option \<Rightarrow> bytes \<Rightarrow> bytes \<Rightarrow> (Status \<times> (bytes \<times> u32 \<times> bool) option) option" where
  "search_block c data key =
     (if length data < 4 then Some (Status_NotFound ''Empty block'', None)
      else do {
        num_restarts \<leftarrow> read_num_restarts data;
        if num_restarts = 0 \<or> unat num_restarts > length data div 4
        then Some (Status_Corruption ''Invalid restart count'', None)
        else do {
          restarts \<leftarrow> read_restarts data num_restarts;
          let left = restart_search 0 (unat num_restarts);
          search_start \<leftarrow> (if left > 0 then map_option unat (vec_get restarts (left - 1)) else Some 0);
          search_end \<leftarrow> (if left < unat num_restarts then map_option unat (vec_get restarts left)
                         else Some (length data - 4 - restart_bytes num_restarts));
          found \<leftarrow> block_search c data key search_end search_start [];
          Some (case found of
              Some x \<Rightarrow> (Status_OK, Some x)
            | None \<Rightarrow> (Status_NotFound ''Key not found in block'', None))
        }
      })"

text \<open>\<open>value\<close>, and the two output pointers that may be null.\<close>

definition GetFromBlock ::
  "(string \<Rightarrow> bool) \<Rightarrow> sst_files \<Rightarrow> SSTableReader \<Rightarrow> BlockHandle \<Rightarrow> bytes \<Rightarrow> bytes \<Rightarrow> u64 option \<Rightarrow> bool option \<Rightarrow>
    (Status \<times> bytes \<times> u64 option \<times> bool option) option" where
  "GetFromBlock can_open fs R handle key val seq deleted =
     (case fs (rd_filename R) of
        None \<Rightarrow> Some (Status_IOError ''Failed to open file'', val, seq, deleted)
      | Some file \<Rightarrow>
          if \<not> can_open (rd_filename R) then Some (Status_IOError ''Failed to open file'', val, seq, deleted)
          else do {
            (s, found) \<leftarrow> search_block (rd_comparator (rd_options R))
              (fst (seek_read [] file True (bh_offset handle) (unat (bh_size handle)))) key;
            Some (case found of
                Some (v, q, d) \<Rightarrow> (s, v, map_option (\<lambda>_. ucast q) seq, map_option (\<lambda>_. d) deleted)
              | None \<Rightarrow> (s, val, seq, deleted))
          })"

text \<open>The binary search of the index, on \<open>int\<close> bounds.\<close>

function index_search :: "Comparator option \<Rightarrow> (bytes \<times> BlockHandle) list \<Rightarrow> bytes \<Rightarrow> int \<Rightarrow> int \<Rightarrow> int \<Rightarrow> int option" where
  "index_search c entries key left right found =
     (if left \<le> right then do {
        let mid = (left + right) div 2;
        e \<leftarrow> (if mid < 0 then None else vec_get entries (nat mid));
        if Compare c key (fst e) \<le> 0 then index_search c entries key left (mid - 1) mid
        else index_search c entries key (mid + 1) right found
      } else Some found)"
  by pat_completeness auto
termination by (relation "measure (\<lambda>(c, entries, key, left, right, found). nat (right - left + 1))") auto

declare index_search.simps [simp del]

definition SSTableReader_Get ::
  "(string \<Rightarrow> bool) \<Rightarrow> sst_files \<Rightarrow> SSTableReader \<Rightarrow> bytes \<Rightarrow> bytes \<Rightarrow> u64 option \<Rightarrow> bool option \<Rightarrow>
    (Status \<times> bytes \<times> u64 option \<times> bool option) option" where
  "SSTableReader_Get can_open fs R key val seq deleted = do {
     might \<leftarrow> BloomFilterCheck R key;
     if \<not> might then Some (Status_NotFound ''Key not found (bloom filter)'', val, seq, deleted)
     else do {
       let size = int (length (rd_index_entries R));
       found \<leftarrow> index_search (rd_comparator (rd_options R)) (rd_index_entries R) key 0 (size - 1) (-1);
       let found = (if found = -1 then size - 1 else found);
       if found \<ge> 0 \<and> found < size
       then GetFromBlock can_open fs R (snd (rd_index_entries R ! nat found)) key val seq deleted
       else Some (Status_NotFound ''Key not found'', val, seq, deleted)
     }
   }"

definition MightContain :: "SSTableReader \<Rightarrow> bytes \<Rightarrow> bool option" where
  "MightContain R key = BloomFilterCheck R key"

record SSTableStats =
  data_size :: nat
  index_size :: nat
  filter_size :: nat
  num_data_blocks :: nat
  stats_num_entries :: nat

definition SSTableReader_GetStats :: "SSTableReader \<Rightarrow> SSTableStats" where
  "SSTableReader_GetStats R =
     \<lparr>data_size = rd_file_size R - length (index_block_data R) - length (filter_block_data R) - length (meta_block_data R) - kEncodedSize,
      index_size = length (index_block_data R), filter_size = length (filter_block_data R),
      num_data_blocks = length (rd_index_entries R), stats_num_entries = impl_num_entries R\<rparr>"

section \<open>The iterator\<close>

record SSTableIterator =
  current_block_idx :: nat
  current_entry_idx :: nat
  current_block_data :: bytes
  it_current_key :: bytes
  it_current_value :: bytes
  current_seq :: u64
  current_deleted :: bool
  it_status :: Status
  valid :: bool

definition SSTableIterator_new :: SSTableIterator where
  "SSTableIterator_new = \<lparr>current_block_idx = 0, current_entry_idx = 0, current_block_data = [], it_current_key = [],
     it_current_value = [], current_seq = 0, current_deleted = False, it_status = Status_OK, valid = False\<rparr>"

definition ParseFirstEntry :: "SSTableIterator \<Rightarrow> SSTableIterator option" where
  "ParseFirstEntry it =
     (let data = current_block_data it in
      if length data < 4 then Some (it\<lparr>valid := False\<rparr>)
      else do {
        num_restarts \<leftarrow> read_num_restarts data;
        if num_restarts = 0 then Some (it\<lparr>valid := False\<rparr>)
        else do {
          restarts \<leftarrow> read_restarts data num_restarts;
          r \<leftarrow> vec_get restarts 0;
          let pos = unat r;
          if pos + 17 \<le> length data then do {
            (shared, unshared, value_len, seq, flag) \<leftarrow> read_entry_header data pos;
            if pos + 17 + shared + unshared + value_len \<le> length data
            then Some (it\<lparr>it_current_key := take unshared (drop (pos + 17) data),
                          it_current_value := take value_len (drop (pos + 17 + unshared) data),
                          current_seq := ucast seq, current_deleted := flag, valid := True\<rparr>)
            else Some (it\<lparr>valid := False\<rparr>)
          } else Some (it\<lparr>valid := False\<rparr>)
        }
      })"

definition LoadBlock :: "(string \<Rightarrow> bool) \<Rightarrow> sst_files \<Rightarrow> SSTableReader \<Rightarrow> nat \<Rightarrow> SSTableIterator \<Rightarrow> SSTableIterator option" where
  "LoadBlock can_open fs R block_idx it =
     (if block_idx \<ge> length (rd_index_entries R) then Some (it\<lparr>valid := False\<rparr>)
      else let handle = snd (rd_index_entries R ! block_idx) in
        case fs (rd_filename R) of
          None \<Rightarrow> Some (it\<lparr>it_status := Status_IOError ''Failed to open file'', valid := False\<rparr>)
        | Some file \<Rightarrow>
            if \<not> can_open (rd_filename R) then Some (it\<lparr>it_status := Status_IOError ''Failed to open file'', valid := False\<rparr>)
            else ParseFirstEntry (it\<lparr>
              current_block_data := fst (seek_read (current_block_data it) file True (bh_offset handle) (unat (bh_size handle))),
              current_block_idx := block_idx, current_entry_idx := 0\<rparr>))"

definition NextEntry :: "SSTableIterator \<Rightarrow> SSTableIterator option" where
  "NextEntry it =
     (let data = current_block_data it in
      if length data < 4 then Some (it\<lparr>valid := False\<rparr>)
      else do {
        num_restarts \<leftarrow> read_num_restarts data;
        restarts \<leftarrow> read_restarts data num_restarts;
        Some (it\<lparr>valid := False\<rparr>)
      })"

definition SSTableIterator_Valid :: "SSTableIterator \<Rightarrow> bool" where
  "SSTableIterator_Valid it \<longleftrightarrow> valid it \<and> Status_ok (it_status it)"

definition SSTableIterator_SeekToFirst where
  "SSTableIterator_SeekToFirst can_open fs R it = LoadBlock can_open fs R 0 it"

definition SSTableIterator_SeekToLast where
  "SSTableIterator_SeekToLast can_open fs R it =
     (if rd_index_entries R = [] then Some (it\<lparr>valid := False\<rparr>)
      else do {
        it \<leftarrow> LoadBlock can_open fs R (length (rd_index_entries R) - 1) it;
        Some (it\<lparr>valid := False\<rparr>)
      })"

definition SSTableIterator_Seek where
  "SSTableIterator_Seek can_open fs R target it = do {
     found \<leftarrow> index_search (rd_comparator (rd_options R)) (rd_index_entries R) target 0 (int (length (rd_index_entries R)) - 1) 0;
     LoadBlock can_open fs R (nat found) it
   }"

definition SSTableIterator_Next where
  "SSTableIterator_Next can_open fs R it = do {
     it \<leftarrow> NextEntry it;
     if \<not> valid it \<and> current_block_idx it + 1 < length (rd_index_entries R)
     then LoadBlock can_open fs R (current_block_idx it + 1) it else Some it
   }"

definition SSTableIterator_Prev :: "SSTableIterator \<Rightarrow> SSTableIterator" where
  "SSTableIterator_Prev it = it\<lparr>it_status := Status_NotSupported ''Prev not implemented''\<rparr>"

definition SSTableIterator_key :: "SSTableIterator \<Rightarrow> bytes" where
  "SSTableIterator_key it = it_current_key it"

definition SSTableIterator_value :: "SSTableIterator \<Rightarrow> bytes" where
  "SSTableIterator_value it = it_current_value it"

definition SSTableIterator_sequence_number :: "SSTableIterator \<Rightarrow> u64" where
  "SSTableIterator_sequence_number it = current_seq it"

definition SSTableIterator_is_deleted :: "SSTableIterator \<Rightarrow> bool" where
  "SSTableIterator_is_deleted it = current_deleted it"

definition SSTableIterator_status :: "SSTableIterator \<Rightarrow> Status" where
  "SSTableIterator_status it = it_status it"

end
