(* ===== verification/SSTable_Correct.thy ===== *)
theory SSTable_Correct
  imports SSTable_Reader
begin

text \<open>
  Lemmas on the tables: what the builder appends for an entry and what the reader finds in
  a block, the bits of the bloom filter, and the search of the index.
\<close>

section \<open>Fields\<close>

lemma shared_prefix_take: "take (shared_prefix a b) a = take (shared_prefix a b) b"
  by (induction a b rule: shared_prefix.induct) auto

lemma shared_prefix_length: "shared_prefix a b \<le> length a"
  by (induction a b rule: shared_prefix.induct) auto

lemma shared_prefix_Nil [simp]: "shared_prefix a [] = 0"
  by (cases a) auto

lemma length_entry_header [simp]: "length (entry_header sh un vl s d) = 17"
  by (simp add: entry_header_def)

lemma fixed32_at [simp]: "pos = length pre \<Longrightarrow> DecodeFixed32 (drop pos (pre @ EncodeFixed32 v @ post)) = Some v"
  by (rule fixed32.dec_at)

lemma read_entry_header_at:
  assumes "sh < 2 ^ 32" "un < 2 ^ 32" "vl < 2 ^ 32"
  shows "read_entry_header (pre @ entry_header sh un vl s d @ post) (length pre) = Some (sh, un, vl, ucast s, d)"
proof -
  let ?d = "pre @ entry_header sh un vl s d @ post"
  let ?v = "[of_nat sh, of_nat un, of_nat vl, ucast s] :: u32 list"
  have "DecodeFixed32 (drop (length pre) ?d) = Some (?v ! 0)"
    by (simp add: entry_header_def)
  moreover have "DecodeFixed32 (drop (length pre + 4) ?d) = Some (?v ! 1)"
    using DecodeFixed32_EncodeFixed32 by (simp add: entry_header_def)
  moreover have "DecodeFixed32 (drop (length pre + 8) ?d) = Some (?v ! 2)"
    using DecodeFixed32_EncodeFixed32 by (simp add: entry_header_def)
  moreover have "DecodeFixed32 (drop (length pre + 12) ?d) = Some (?v ! 3)"
    using DecodeFixed32_EncodeFixed32 by (simp add: entry_header_def)
  moreover have "vec_get ?d (length pre + 16) = Some (char_of (if d then 1 else (0::nat)))"
    by (simp add: vec_get_def nth_append entry_header_def)
  ultimately show ?thesis using assms by (simp add: read_entry_header_def unat_of_nat take_bit_nat_eq_self)
qed

section \<open>The entries of a block\<close>

type_synonym sst_entry = "bytes \<times> bytes \<times> u64 \<times> bool"

fun entry_bytes :: "bytes \<Rightarrow> sst_entry \<Rightarrow> bytes" where
  "entry_bytes prev (k, v, s, d) =
     entry_header (shared_prefix k prev) (length k - shared_prefix k prev) (length v) s d @ drop (shared_prefix k prev) k @ v"

fun encode_entries :: "bytes \<Rightarrow> sst_entry list \<Rightarrow> bytes" where
  "encode_entries prev [] = []"
| "encode_entries prev (e # es) = entry_bytes prev e @ encode_entries (fst e) es"

text \<open>
  The reader counts the shared bytes among those that must follow in the block.  An entry is found
  only if as many bytes follow it.
\<close>

fun copies_fit :: "bytes \<Rightarrow> sst_entry list \<Rightarrow> nat \<Rightarrow> bool" where
  "copies_fit prev [] tail = True"
| "copies_fit prev (e # es) tail \<longleftrightarrow>
     shared_prefix (fst e) prev \<le> length (encode_entries (fst e) es) + tail \<and> copies_fit (fst e) es tail"

definition small_entry :: "sst_entry \<Rightarrow> bool" where
  "small_entry e \<longleftrightarrow> length (fst e) < 2 ^ 32 \<and> length (fst (snd e)) < 2 ^ 32"

text \<open>One step of the search, at an entry.\<close>

lemma block_search_entry:
  assumes small: "small_entry (k, v, s, d)" and end_pos: "length pre < search_end"
  shows "block_search c (pre @ entry_bytes prev (k, v, s, d) @ post) key search_end (length pre) prev =
    (if shared_prefix k prev > length post then Some None
     else if Compare c k key = 0 then Some (Some (v, ucast s, d))
     else if Compare c k key > 0 then Some None
     else block_search c (pre @ entry_bytes prev (k, v, s, d) @ post) key search_end
       (length pre + length (entry_bytes prev (k, v, s, d))) k)"
proof -
  let ?sh = "shared_prefix k prev" and ?data = "pre @ entry_bytes prev (k, v, s, d) @ post"
  have len: "length k < 2 ^ 32" "length v < 2 ^ 32" "?sh \<le> length k"
    using small by (simp_all add: small_entry_def shared_prefix_length)
  have hdr: "read_entry_header ?data (length pre) = Some (?sh, length k - ?sh, length v, ucast s, d)"
    using read_entry_header_at [of ?sh "length k - ?sh" "length v" pre s d "drop ?sh k @ v @ post"] len by simp
  have size: "length ?data = length pre + 17 + (length k - ?sh) + length v + length post" by simp
  have key: "take ?sh prev @ take (length k - ?sh) (drop (length pre + 17) ?data) = k"
    using len(3) shared_prefix_take [of k prev] by simp (metis append_take_drop_id)
  have val: "take (length v) (drop (length pre + 17 + (length k - ?sh)) ?data) = v" using len(3) by simp
  have over: "length pre + 17 + ?sh + (length k - ?sh) + length v > length ?data \<longleftrightarrow> ?sh > length post" unfolding size by linarith
  have fits: "length pre + 12 \<le> length ?data" unfolding size by linarith
  have next_pos: "length pre + 17 + (length k - ?sh) + length v = length pre + length (entry_bytes prev (k, v, s, d))" by simp
  show ?thesis
    unfolding next_pos [symmetric]
    by (subst block_search.simps) (simp only: end_pos fits hdr Let_def over key val if_True simp_thms Option.bind.simps prod.case)
qed

lemma block_search_walk:
  assumes o: "key_order c"
  shows "sorted_wrt (key_lt c) (map fst es) \<Longrightarrow> list_all small_entry es \<Longrightarrow> copies_fit prev es (length post) \<Longrightarrow>
    block_search c (pre @ encode_entries prev es @ post) key (length pre + length (encode_entries prev es)) (length pre) prev =
      Some (map_option (\<lambda>(v, s, d). (v, ucast s, d)) (map_of es key))"
proof (induction es arbitrary: pre prev)
  case Nil
  then show ?case by (simp add: block_search.simps)
next
  case (Cons e es)
  obtain k v s d where e: "e = (k, v, s, d)" by (metis prod_cases4)
  let ?post = "encode_entries k es @ post" and ?pre = "pre @ entry_bytes prev e"
  have small: "small_entry (k, v, s, d)" using Cons.prems(2) by (simp add: e)
  have fit: "\<not> shared_prefix k prev > length ?post" using Cons.prems(3) by (simp add: e)
  have sorted: "sorted_wrt (key_lt c) (map fst es)" "\<forall>x\<in>set es. key_lt c k (fst x)" using Cons.prems(1) by (auto simp: e)
  have ih: "block_search c (?pre @ encode_entries k es @ post) key (length ?pre + length (encode_entries k es)) (length ?pre) k =
      Some (map_option (\<lambda>(v, s, d). (v, ucast s, d)) (map_of es key))"
    by (rule Cons.IH) (use sorted(1) Cons.prems(2,3) in \<open>simp_all add: e\<close>)
  have miss: "map_of es key = None" if "Compare c k key > 0"
  proof -
    have lt: "key_lt c key k" using that key_order.cmp_swap [OF o, of key k] by (simp add: key_lt_def)
    have "fst x \<noteq> key" if "x \<in> set es" for x
      using key_order.lt_asym [OF o lt] sorted(2) that by auto
    then show ?thesis by (auto simp: map_of_eq_None_iff)
  qed
  have "length pre < length pre + length (encode_entries prev (e # es))" by (simp add: e)
  from block_search_entry [OF small this, of c prev ?post key] fit ih miss key_order.cmp_eq [OF o, of k key]
  show ?case by (auto simp: e add.assoc)
qed

section \<open>A block and its restart points\<close>

definition block_bytes :: "sst_entry list \<Rightarrow> bytes" where
  "block_bytes es = encode_entries [] es @ encode_restarts [0]"

lemma restart_search_right: "left \<le> right \<Longrightarrow> restart_search left right = right"
proof (induction left right rule: restart_search.induct)
  case (1 left right)
  then show ?case by (subst restart_search.simps) (auto simp: Let_def)
qed

lemma length_encode_restarts [simp]: "length (encode_restarts rs) = 4 * length rs + 4"
  by (induction rs) (simp_all add: encode_restarts_def)

lemma read_num_restarts_at: "read_num_restarts (pre @ encode_restarts rs) = Some (of_nat (length rs))"
proof -
  have "drop (length (pre @ encode_restarts rs) - 4) (pre @ encode_restarts rs) = EncodeFixed32 (of_nat (length rs))"
    using length_encode_restarts [of rs] by (simp add: encode_restarts_def)
  then show ?thesis using fixed32.dec_last by (simp add: read_num_restarts_def)
qed

text \<open>With one restart point, at 0, the whole block is searched.\<close>

lemma search_block_at:
  assumes "block_search c (block_bytes es) key (length (block_bytes es) - 8) 0 [] = Some found"
  shows "search_block c (block_bytes es) key =
    Some (case found of Some x \<Rightarrow> (Status_OK, Some x) | None \<Rightarrow> (Status_NotFound ''Key not found in block'', None))"
proof -
  have n: "read_num_restarts (block_bytes es) = Some 1"
    using read_num_restarts_at [of "encode_entries [] es" "[0]"] by (simp add: block_bytes_def)
  have r: "restart_bytes 1 = 4" by (simp add: restart_bytes_def)
  have rs: "read_restarts (block_bytes es) 1 = Some [0]"
    using fixed32.dec_last [of 0]
    by (simp add: read_restarts_def r block_bytes_def encode_restarts_def)
  have "\<not> length (block_bytes es) < 4" "\<not> unat (1::u32) > length (block_bytes es) div 4"
    by (simp_all add: block_bytes_def)
  then show ?thesis using assms
    by (simp add: search_block_def n rs r restart_search_right vec_get_def)
qed

lemma search_block_bytes:
  assumes o: "key_order c" and "sorted_wrt (key_lt c) (map fst es)" and "list_all small_entry es" and "copies_fit [] es 8"
  shows "search_block c (block_bytes es) key = Some (case map_of es key of
      Some (v, s, d) \<Rightarrow> (Status_OK, Some (v, ucast s, d))
    | None \<Rightarrow> (Status_NotFound ''Key not found in block'', None))"
proof -
  have "block_search c (block_bytes es) key (length (block_bytes es) - 8) 0 [] = Some (map_option (\<lambda>(v, s, d). (v, ucast s, d)) (map_of es key))"
    using block_search_walk [OF assms(1-3), of "[]" "encode_restarts [0]" "[]" key] assms(4)
    by (simp add: block_bytes_def)
  from search_block_at [OF this] show ?thesis by (auto split: option.splits)
qed

lemma search_block_no_restarts:
  "search_block c (pre @ encode_restarts []) key = Some (Status_Corruption ''Invalid restart count'', None)"
  using read_num_restarts_at [of pre "[]"] by (simp add: search_block_def)

section \<open>Reading a block from the file\<close>

lemma seek_read_block:
  assumes "length pre < 2 ^ 63" and "length block < 2 ^ 64"
  shows "seek_read old (pre @ block @ post) True (of_nat (length pre)) (unat (of_nat (length block) :: u64)) = (block, True)"
proof -
  have u: "unat (of_nat (length pre) :: u64) = length pre" "unat (of_nat (length block) :: u64) = length block"
    using assms by (simp_all add: unat_of_nat take_bit_nat_eq_self)
  have "(of_nat (length pre) :: u64) < 2 ^ 63"
    using assms(1) u(1) by (simp add: word_less_nat_alt)
  then show ?thesis by (simp add: seek_read_def resize_def u Let_def)
qed

end
