(* ===== verification/SSTable_Build.thy ===== *)
theory SSTable_Build
  imports SSTable_Correct
begin

text \<open>
  Lemmas on the builder: a block filled from a given state, runs of \<open>Add\<close>, and \<open>Finish\<close>.
\<close>

section \<open>Filling a block\<close>

fun add_block :: "sst_entry list \<Rightarrow> SSTableBuilder \<Rightarrow> SSTableBuilder option" where
  "add_block [] b = Some b"
| "add_block ((k, v, s, d) # es) b = do { b \<leftarrow> AddToBlock k v s d b; add_block es b }"

lemma AddToBlock_stays:
  assumes fit: "length (current_block b) + length (entry_bytes (last_key b) (k, v, s, d)) \<le> sst_block_size (sst_options b)"
    and cap: "sst_block_size (sst_options b) \<le> block_capacity b"
    and int: "entries_in_block b + 1 < block_restart_interval (sst_options b)"
  shows "AddToBlock k v s d b = Some (b\<lparr>current_block := current_block b @ entry_bytes (last_key b) (k, v, s, d),
    entries_in_block := entries_in_block b + 1, last_key := k\<rparr>)"
proof -
  let ?sh = "shared_prefix k (last_key b)"
  have len: "length (entry_bytes (last_key b) (k, v, s, d)) = 17 + (length k - ?sh) + length v" by simp
  have "\<not> length (current_block b) + (4 + 4 + 4 + 4 + 1 + (length k - ?sh) + length v) > sst_block_size (sst_options b)"
    using fit len by simp
  moreover have "length (current_block b) + 17 \<le> block_capacity b" using fit cap len by linarith
  moreover have "max (block_capacity b) (length (current_block b @ entry_bytes (last_key b) (k, v, s, d))) = block_capacity b"
    using fit cap by (simp only: length_append)
  ultimately show ?thesis using int by (simp add: AddToBlock_def write_through_def Let_def)
qed

lemma add_block_bytes:
  assumes "length (current_block b) + length (encode_entries (last_key b) es) \<le> sst_block_size (sst_options b)"
    and "sst_block_size (sst_options b) \<le> block_capacity b"
    and "entries_in_block b + length es < block_restart_interval (sst_options b)"
  shows "\<exists>b'. add_block es b = Some b' \<and> current_block b' = current_block b @ encode_entries (last_key b) es \<and>
    restart_points b' = restart_points b \<and> entries_in_block b' = entries_in_block b + length es \<and> sst_options b' = sst_options b"
  using assms
proof (induction es arbitrary: b)
  case (Cons e es)
  obtain k v s d where e: "e = (k, v, s, d)" by (metis prod_cases4)
  let ?b = "b\<lparr>current_block := current_block b @ entry_bytes (last_key b) (k, v, s, d), entries_in_block := entries_in_block b + 1, last_key := k\<rparr>"
  have "AddToBlock k v s d b = Some ?b"
    by (rule AddToBlock_stays) (use Cons.prems in \<open>simp_all add: e\<close>)
  moreover have "\<exists>b'. add_block es ?b = Some b' \<and> current_block b' = current_block ?b @ encode_entries (last_key ?b) es \<and>
      restart_points b' = restart_points ?b \<and> entries_in_block b' = entries_in_block ?b + length es \<and> sst_options b' = sst_options ?b"
    by (rule Cons.IH) (use Cons.prems in \<open>simp_all add: e\<close>)
  ultimately show ?case by (simp add: e)
qed simp

section \<open>Runs of Add\<close>

fun sst_add_all :: "sst_entry list \<Rightarrow> SSTableBuilder \<Rightarrow> (Status list \<times> SSTableBuilder) option" where
  "sst_add_all [] b = Some ([], b)"
| "sst_add_all ((k, v, s, d) # es) b = do {
     (st, b) \<leftarrow> SSTableBuilder_Add k v s d b;
     (sts, b) \<leftarrow> sst_add_all es b;
     Some (st # sts, b)
   }"

text \<open>What a run accepts: every entry whose key is greater than that of the last accepted one.\<close>

fun accepted_entries :: "Comparator option \<Rightarrow> bytes option \<Rightarrow> sst_entry list \<Rightarrow> sst_entry list" where
  "accepted_entries c prev [] = []"
| "accepted_entries c prev (e # es) =
     (if (case prev of None \<Rightarrow> True | Some p \<Rightarrow> key_lt c p (fst e)) then e # accepted_entries c (Some (fst e)) es
      else accepted_entries c prev es)"

fun add_statuses :: "Comparator option \<Rightarrow> bytes option \<Rightarrow> sst_entry list \<Rightarrow> Status list" where
  "add_statuses c prev [] = []"
| "add_statuses c prev (e # es) =
     (if (case prev of None \<Rightarrow> True | Some p \<Rightarrow> key_lt c p (fst e)) then Status_OK # add_statuses c (Some (fst e)) es
      else Status_InvalidArgument ''Keys must be added in strictly increasing order'' # add_statuses c prev es)"

lemma accepted_sorted:
  assumes o: "key_order c"
  shows "sorted_wrt (key_lt c) (map fst (accepted_entries c prev es)) \<and>
    (\<forall>p e. prev = Some p \<longrightarrow> e \<in> set (accepted_entries c prev es) \<longrightarrow> key_lt c p (fst e))"
proof (induction es arbitrary: prev)
  case (Cons e es)
  show ?case
  proof (cases "case prev of None \<Rightarrow> True | Some p \<Rightarrow> key_lt c p (fst e)")
    case True
    have tail: "sorted_wrt (key_lt c) (map fst (accepted_entries c (Some (fst e)) es))"
      "\<forall>x\<in>set (accepted_entries c (Some (fst e)) es). key_lt c (fst e) (fst x)"
      using Cons.IH [of "Some (fst e)"] by blast+
    have "key_lt c p (fst x)" if "prev = Some p" "x \<in> insert e (set (accepted_entries c (Some (fst e)) es))" for p x
      using that True tail(2) key_order.lt_trans [OF o, of p "fst e" "fst x"] by auto
    then show ?thesis using True tail by simp
  next
    case False
    then have same: "accepted_entries c prev (e # es) = accepted_entries c prev es" by (simp only: accepted_entries.simps if_False)
    show ?thesis unfolding same by (rule Cons.IH)
  qed
qed simp

definition sst_inv :: "SSTableOptions \<Rightarrow> SSTableBuilder \<Rightarrow> sst_entry list \<Rightarrow> bool" where
  "sst_inv opts b acc \<longleftrightarrow> sst_options b = opts \<and> \<not> finished b \<and> \<not> abandoned b \<and> \<not> sst_file_open b \<and>
     sst_block_size opts \<le> block_capacity b \<and> (entries_in_block b = 0 \<longrightarrow> current_block b = []) \<and>
     num_entries b = length acc \<and> (acc \<noteq> [] \<longrightarrow> last_key b = fst (last acc) \<and> entries_in_block b > 0) \<and>
     min_seq b = fold min (map (fst \<circ> snd \<circ> snd) acc) (2 ^ 64 - 1) \<and> max_seq b = fold max (map (fst \<circ> snd \<circ> snd) acc) 0 \<and>
     smallest_key b = [] \<and> largest_key b = []"

lemma sst_inv_new: "sst_inv opts (SSTableBuilder_new opts) []"
  by (simp add: sst_inv_def SSTableBuilder_new_def)

text \<open>The fields of the builder that a flushed block does not touch.\<close>

lemma FlushBlock_fields:
  "sst_options (FlushBlock b) = sst_options b" "finished (FlushBlock b) = finished b" "abandoned (FlushBlock b) = abandoned b"
  "sst_file_open (FlushBlock b) = sst_file_open b" "block_capacity b \<le> block_capacity (FlushBlock b)"
  "num_entries (FlushBlock b) = num_entries b" "min_seq (FlushBlock b) = min_seq b" "max_seq (FlushBlock b) = max_seq b"
  "smallest_key (FlushBlock b) = smallest_key b" "largest_key (FlushBlock b) = largest_key b"
  "entries_in_block b > 0 \<Longrightarrow> current_block (FlushBlock b) = []"
  "entries_in_block b > 0 \<Longrightarrow> index_entries (FlushBlock b) \<noteq> []"
  by (simp_all add: FlushBlock_def ResetBlock_def stream_write_def Let_def)

lemma AddToBlock_total:
  assumes size: "17 \<le> sst_block_size (sst_options b)" "0 < block_restart_interval (sst_options b)"
    and cap: "sst_block_size (sst_options b) \<le> block_capacity b" and empty: "entries_in_block b = 0 \<longrightarrow> current_block b = []"
  shows "\<exists>b'. AddToBlock k v s d b = Some b' \<and> last_key b' = k \<and> entries_in_block b' > 0 \<and> block_capacity b \<le> block_capacity b' \<and>
    sst_options b' = sst_options b \<and> finished b' = finished b \<and> abandoned b' = abandoned b \<and> sst_file_open b' = sst_file_open b \<and>
    num_entries b' = num_entries b \<and> min_seq b' = min_seq b \<and> max_seq b' = max_seq b \<and>
    smallest_key b' = smallest_key b \<and> largest_key b' = largest_key b"
proof -
  let ?sh = "shared_prefix k (last_key b)"
  let ?needed = "4 + 4 + 4 + 4 + 1 + (length k - ?sh) + length v"
  define c where "c = (if length (current_block b) + ?needed > sst_block_size (sst_options b) \<and> entries_in_block b > 0 then FlushBlock b else b)"
  have c: "sst_options c = sst_options b" "finished c = finished b" "abandoned c = abandoned b" "sst_file_open c = sst_file_open b"
    "block_capacity b \<le> block_capacity c" "num_entries c = num_entries b" "min_seq c = min_seq b" "max_seq c = max_seq b"
    "smallest_key c = smallest_key b" "largest_key c = largest_key b"
    by (simp_all add: c_def FlushBlock_fields)
  have "length (current_block c) + 17 \<le> block_capacity c"
  proof (cases "length (current_block b) + ?needed > sst_block_size (sst_options b) \<and> entries_in_block b > 0")
    case True
    then have "current_block c = []" by (simp add: c_def FlushBlock_fields)
    then show ?thesis using size(1) cap c(5) by simp
  next
    case False
    then show ?thesis using size(1) cap empty by (cases "entries_in_block b = 0") (simp_all add: c_def)
  qed
  then have w: "write_through (block_capacity c) (current_block c) (entry_header ?sh (length k - ?sh) (length v) s d) =
      Some (current_block c @ entry_header ?sh (length k - ?sh) (length v) s d)"
    by (simp add: write_through_def)
  show ?thesis
    unfolding AddToBlock_def Let_def c_def [symmetric] w using size(2) c by simp
qed

lemma sst_add_step:
  assumes size: "17 \<le> sst_block_size opts" "0 < block_restart_interval opts" and inv: "sst_inv opts b acc"
    and ok: "acc = [] \<or> key_lt (sst_comparator opts) (fst (last acc)) k" and o: "key_order (sst_comparator opts)"
  shows "\<exists>b'. SSTableBuilder_Add k v s d b = Some (Status_OK, b') \<and> sst_inv opts b' (acc @ [(k, v, s, d)])"
proof -
  let ?b = "b\<lparr>min_seq := min (min_seq b) s, max_seq := max (max_seq b) s\<rparr>"
  obtain b' where b': "AddToBlock k v s d ?b = Some b'" "last_key b' = k" "entries_in_block b' > 0"
    "block_capacity ?b \<le> block_capacity b'" "sst_options b' = sst_options ?b" "finished b' = finished ?b" "abandoned b' = abandoned ?b"
    "sst_file_open b' = sst_file_open ?b" "num_entries b' = num_entries ?b" "min_seq b' = min_seq ?b" "max_seq b' = max_seq ?b"
    "smallest_key b' = smallest_key ?b" "largest_key b' = largest_key ?b"
    using AddToBlock_total [of ?b k v s d] size inv by (auto simp: sst_inv_def)
  have "\<not> (num_entries b > 0 \<and> Compare (sst_comparator opts) k (last_key b) \<le> 0)"
    using inv ok key_order.cmp_le [OF o, of k "last_key b"] by (auto simp: sst_inv_def)
  moreover have "sst_options b = opts" "\<not> finished b" "\<not> abandoned b" using inv by (simp_all add: sst_inv_def)
  ultimately have "SSTableBuilder_Add k v s d b = Some (Status_OK, b'\<lparr>num_entries := num_entries b' + 1\<rparr>)"
    using b'(1) unfolding SSTableBuilder_Add_def by auto
  moreover have "sst_inv opts (b'\<lparr>num_entries := num_entries b' + 1\<rparr>) (acc @ [(k, v, s, d)])"
    using inv b' by (simp add: sst_inv_def min.commute max.commute)
  ultimately show ?thesis by blast
qed

lemma sst_add_reject:
  assumes "sst_inv opts b acc" "acc \<noteq> []" "\<not> key_lt (sst_comparator opts) (fst (last acc)) k" "key_order (sst_comparator opts)"
  shows "SSTableBuilder_Add k v s d b =
    Some (Status_InvalidArgument ''Keys must be added in strictly increasing order'', b)"
  using assms key_order.cmp_le [OF assms(4), of k "last_key b"] by (simp add: SSTableBuilder_Add_def sst_inv_def)

lemma sst_add_run:
  assumes size: "17 \<le> sst_block_size opts" "0 < block_restart_interval opts" and o: "key_order (sst_comparator opts)"
  shows "sst_inv opts b acc \<Longrightarrow> \<exists>b'. sst_add_all es b =
      Some (add_statuses (sst_comparator opts) (if acc = [] then None else Some (fst (last acc))) es, b') \<and>
    sst_inv opts b' (acc @ accepted_entries (sst_comparator opts) (if acc = [] then None else Some (fst (last acc))) es)"
proof (induction es arbitrary: b acc)
  case (Cons e es)
  obtain k v s d where e: "e = (k, v, s, d)" by (metis prod_cases4)
  show ?case
  proof (cases "acc = [] \<or> key_lt (sst_comparator opts) (fst (last acc)) k")
    case True
    obtain b1 where b1: "SSTableBuilder_Add k v s d b = Some (Status_OK, b1)" "sst_inv opts b1 (acc @ [e])"
      using sst_add_step [OF size Cons.prems True o, of v s d] by (auto simp: e)
    from Cons.IH [OF b1(2)] b1(1) True show ?thesis by (auto simp: e)
  next
    case False
    then show ?thesis using sst_add_reject [OF Cons.prems _ _ o, of k v s d] Cons.IH [OF Cons.prems] by (auto simp: e)
  qed
qed simp

section \<open>Finish\<close>

lemma index_loop_undefined: "es \<noteq> [] \<Longrightarrow> index_loop interval es 0 [] k n rs = None"
  by (cases es) (auto simp: write_through_def)

lemma sst_finish_undefined:
  assumes inv: "sst_inv opts b acc" and "acc \<noteq> []" and "sst_open_ok env"
  shows "WriteIndexBlock (FlushBlock (stream_open env (b\<lparr>sst_filename := filename\<rparr>))) = None"
    and "SSTableBuilder_Finish env filename b fs = None"
proof -
  let ?b = "stream_open env (b\<lparr>sst_filename := filename\<rparr>)"
  have b: "sst_file_open ?b" "entries_in_block ?b > 0"
    using assms by (auto simp: sst_inv_def stream_open_def)
  then show "WriteIndexBlock (FlushBlock ?b) = None"
    using index_loop_undefined FlushBlock_fields(12) [of ?b] by (simp add: WriteIndexBlock_def)
  then show "SSTableBuilder_Finish env filename b fs = None" using b inv by (simp add: SSTableBuilder_Finish_def Let_def sst_inv_def)
qed

end
