(* ===== verification/SSTable_Lookup.thy ===== *)
theory SSTable_Lookup
  imports SSTable_Build
begin

text \<open>
  Lemmas on lookups: the bits of the bloom filter, the binary search of the index, and \<open>Get\<close> on a
  file whose blocks are well formed.
\<close>

section \<open>Bloom filter\<close>

definition has_bit :: "u8 list \<Rightarrow> u64 \<Rightarrow> bool" where
  "has_bit f pos \<longleftrightarrow> unat (pos div 8) < length f \<and> bit (f ! unat (pos div 8)) (unat (pos mod 8))"

lemma unat_mod8: "unat (pos mod 8 :: u64) < 8"
  by (simp add: unat_mod)

lemma byte_bit: "i < 8 \<Longrightarrow> (byte AND push_bit i 1 = (0 :: u8)) \<longleftrightarrow> \<not> bit byte i"
  by (simp add: push_bit_eq_mult and_exp_eq_0_iff_not_bit)

lemma set_bloom_bit_ok:
  assumes "unat (pos div 8) < length f"
  shows "\<exists>f'. set_bloom_bit pos f = Some f' \<and> length f' = length f \<and> has_bit f' pos \<and> (\<forall>p. has_bit f p \<longrightarrow> has_bit f' p)"
proof -
  let ?i = "unat (pos div 8)" and ?j = "unat (pos mod 8)"
  let ?f = "f[?i := f ! ?i OR push_bit ?j 1]"
  have j: "?j < 8" by (rule unat_mod8)
  have "set_bloom_bit pos f = Some ?f" using assms by (simp add: set_bloom_bit_def vec_defs)
  moreover have "has_bit ?f pos" using assms j by (simp add: has_bit_def bit_or_iff bit_exp_iff)
  moreover have "has_bit ?f p" if "has_bit f p" for p
    using that assms by (cases "unat (p div 8) = ?i") (simp_all add: has_bit_def bit_or_iff)
  ultimately show ?thesis by (intro exI [of _ ?f]) simp
qed

lemma bloom_probe_in:
  assumes "bits \<noteq> 0" "unat bits \<le> 8 * n"
  shows "unat (bloom_probe bits hash i div 8) < n"
proof -
  have "unat (bloom_probe bits hash i) < unat bits"
    using assms(1) by (simp add: bloom_probe_def unat_mod word_gt_0 unat_gt_0)
  then show ?thesis using assms(2) by (simp add: unat_div)
qed

lemma bloom_add_ok:
  assumes "bits \<noteq> 0" "unat bits \<le> 8 * length f"
  shows "\<exists>f'. bloom_add bits k hash f = Some f' \<and> length f' = length f \<and>
    (\<forall>i<k. has_bit f' (bloom_probe bits hash i)) \<and> (\<forall>p. has_bit f p \<longrightarrow> has_bit f' p)"
proof -
  let ?P = "\<lambda>i f'. length f' = length f \<and> (\<forall>j<i. has_bit f' (bloom_probe bits hash j)) \<and> (\<forall>p. has_bit f p \<longrightarrow> has_bit f' p)"
  have "\<exists>f'. for_range 0 k (\<lambda>i f. if bits = 0 then None else set_bloom_bit (bloom_probe bits hash i) f) f = Some f' \<and> ?P (0 + k) f'"
  proof (rule for_range_total)
    fix i g assume g: "?P i g"
    have "unat (bloom_probe bits hash i div 8) < length g" using bloom_probe_in assms g by simp
    then obtain h where "set_bloom_bit (bloom_probe bits hash i) g = Some h" "length h = length g"
      "has_bit h (bloom_probe bits hash i)" "\<forall>p. has_bit g p \<longrightarrow> has_bit h p"
      using set_bloom_bit_ok by blast
    with g assms(1) show "\<exists>h. (if bits = 0 then None else set_bloom_bit (bloom_probe bits hash i) g) = Some h \<and> ?P (Suc i) h"
      by (auto simp: less_Suc_eq)
  qed simp
  then show ?thesis by (simp add: bloom_add_def)
qed

lemma bloom_add_all_ok:
  assumes "bits \<noteq> 0"
  shows "unat bits \<le> 8 * length f \<Longrightarrow> \<exists>f'. bloom_add_all bits k hashes f = Some f' \<and> length f' = length f \<and>
    (\<forall>hash\<in>set hashes. \<forall>i<k. has_bit f' (bloom_probe bits hash i)) \<and> (\<forall>p. has_bit f p \<longrightarrow> has_bit f' p)"
proof (induction hashes arbitrary: f)
  case (Cons hash hashes)
  obtain g where g: "bloom_add bits k hash f = Some g" "length g = length f" "\<forall>i<k. has_bit g (bloom_probe bits hash i)"
    "\<forall>p. has_bit f p \<longrightarrow> has_bit g p" using bloom_add_ok [OF assms Cons.prems] by blast
  from Cons.IH [of g] g(2) Cons.prems obtain h where "bloom_add_all bits k hashes g = Some h" "length h = length g"
    "\<forall>hash\<in>set hashes. \<forall>i<k. has_bit h (bloom_probe bits hash i)" "\<forall>p. has_bit g p \<longrightarrow> has_bit h p" by auto
  with g show ?case by auto
qed simp

lemma bloom_check_ok:
  assumes "bloom_bits R \<noteq> 0"
  shows "\<forall>j. i \<le> j \<and> j < i + n \<longrightarrow> has_bit (bloom_filter R) (bloom_probe (bloom_bits R) hash j) \<Longrightarrow>
    bloom_check_loop R hash i n = Some True"
proof (induction n arbitrary: i)
  case (Suc n)
  let ?p = "bloom_probe (bloom_bits R) hash i"
  have h: "has_bit (bloom_filter R) ?p" using Suc.prems by simp
  have "\<not> bloom_filter R ! unat (?p div 8) AND push_bit (unat (?p mod 8)) 1 = 0"
    using h byte_bit [OF unat_mod8] by (simp add: has_bit_def)
  moreover have "bloom_check_loop R hash (Suc i) n = Some True" using Suc.prems by (intro Suc.IH) auto
  ultimately show ?case using assms h by (simp add: has_bit_def vec_get_def)
qed simp

lemma byte_of_char_of_byte [simp]: "byte_of_char (char_of_byte w) = w"
proof -
  have "unat w < 256" using unsigned_less [of w] by simp
  then show ?thesis by (simp add: byte_of_char_def char_of_byte_def)
qed

lemma fits_size_positive: "0 < size_of_double x \<Longrightarrow> size_of_double x < 2 ^ 64 \<Longrightarrow> fits_size x"
proof -
  assume "0 < size_of_double x" and small: "size_of_double x < 2 ^ 64"
  then have pos: "1 \<le> \<lfloor>x\<rfloor>" by (simp add: size_of_double_def)
  then have "\<lfloor>x\<rfloor> < 2 ^ 64" using small by (simp add: size_of_double_def nat_less_iff)
  then have "x < of_int (2 ^ 64)" by (simp only: floor_less_iff)
  moreover have "1 \<le> x" using pos by (simp add: le_floor_iff)
  ultimately show "fits_size x" by (simp add: fits_size_def)
qed

lemma write_filter_ok:
  assumes "enable_bloom_filter (sst_options b)" and "filter_keys_hash b \<noteq> []"
    and bits: "bits = length (filter_keys_hash b) * size_of_double (bloom_filter_bits_per_key (sst_options b))" "0 < bits" "bits < 2 ^ 64"
  shows "\<exists>b' f. WriteFilterBlock b = Some b' \<and>
    filter_buffer b' = map char_of_byte f @ EncodeFixed32 (of_nat (times_069 (size_of_double (bloom_filter_bits_per_key (sst_options b))))) \<and>
    length f = (bits + 7) div 8 \<and>
    (\<forall>hash\<in>set (filter_keys_hash b). \<forall>i<times_069 (size_of_double (bloom_filter_bits_per_key (sst_options b))).
      has_bit f (bloom_probe (of_nat bits) hash i))"
proof -
  let ?k = "times_069 (size_of_double (bloom_filter_bits_per_key (sst_options b)))"
  have u: "unat (of_nat bits :: u64) = bits" using bits(3) by (simp add: unat_of_nat take_bit_nat_eq_self)
  have nz: "(of_nat bits :: u64) \<noteq> 0" using u bits(2) by (metis neq0_conv unat_0)
  have "unat (of_nat bits :: u64) \<le> 8 * length (replicate ((bits + 7) div 8) (0 :: u8))" unfolding u by simp
  from bloom_add_all_ok [OF nz this, of ?k "filter_keys_hash b"] obtain f where
    "bloom_add_all (of_nat bits) ?k (filter_keys_hash b) (replicate ((bits + 7) div 8) 0) = Some f" "length f = (bits + 7) div 8"
    "\<forall>hash\<in>set (filter_keys_hash b). \<forall>i<?k. has_bit f (bloom_probe (of_nat bits) hash i)" by auto
  note f = this
  let ?data = "map char_of_byte f @ EncodeFixed32 (of_nat ?k)"
  let ?b = "(stream_write ?data b)\<lparr>filter_buffer := ?data, block_offset := block_offset (stream_write ?data b) + length ?data\<rparr>"
  have fits: "fits_size (bloom_filter_bits_per_key (sst_options b))"
  proof (rule fits_size_positive)
    let ?s = "size_of_double (bloom_filter_bits_per_key (sst_options b))"
    show "0 < ?s" using bits(1,2) by simp
    have "1 * ?s \<le> bits" unfolding bits(1) by (rule mult_right_mono) (use assms(2) in \<open>simp_all add: Suc_le_eq\<close>)
    then show "?s < 2 ^ 64" using bits(3) by linarith
  qed
  have "WriteFilterBlock b = Some ?b"
    using assms(1,2) fits f(1) unfolding WriteFilterBlock_def Let_def bits(1) [symmetric] by simp
  then show ?thesis using f(2,3) by (intro exI [of _ ?b] exI [of _ f] conjI) simp_all
qed

section \<open>The index\<close>

text \<open>Every index before the result has a smaller key, and every index from it on does not.\<close>

lemma index_search_spec:
  assumes "key_order c" and "sorted_wrt (key_lt c) (map fst entries)"
    and "0 \<le> left" and "left \<le> right + 1" and "right < int (length entries)"
    and "\<forall>i. i < nat left \<longrightarrow> key_lt c (fst (entries ! i)) key"
    and "\<forall>i. nat (right + 1) \<le> i \<and> i < length entries \<longrightarrow> \<not> key_lt c (fst (entries ! i)) key"
    and "found = (if right + 1 < int (length entries) then right + 1 else dflt)"
  shows "\<exists>n \<le> length entries. index_search c entries key left right found = Some (if n < length entries then int n else dflt) \<and>
    (\<forall>i<n. key_lt c (fst (entries ! i)) key) \<and> (\<forall>i. n \<le> i \<and> i < length entries \<longrightarrow> \<not> key_lt c (fst (entries ! i)) key)"
  using assms
proof (induction c entries key left right found rule: index_search.induct)
  case (1 c entries key left right found)
  note o = 1(3) and s = 1(4)
  show ?case
  proof (cases "left \<le> right")
    case False
    then have "left = right + 1" using 1(6) by simp
    with 1(5-10) False show ?thesis
      by (intro exI [of _ "nat left"]) (auto simp: index_search.simps)
  next
    case True
    let ?mid = "(left + right) div 2"
    have m: "0 \<le> ?mid" "left \<le> ?mid" "?mid \<le> right" "nat ?mid < length entries" using True 1(5,7) by auto
    have g: "(if ?mid < 0 then None else vec_get entries (nat ?mid)) = Some (entries ! nat ?mid)" using m by (simp add: vec_get_def)
    have ord: "key_lt c (fst (entries ! i)) (fst (entries ! j))" if "i < j" "j < length entries" for i j
      using s that by (simp add: sorted_wrt_iff_nth_less)
    show ?thesis
    proof (cases "Compare c key (fst (entries ! nat ?mid)) \<le> 0")
      case le: True
      then have nlt: "\<not> key_lt c (fst (entries ! nat ?mid)) key" using key_order.cmp_le [OF o] by simp
      have "\<not> key_lt c (fst (entries ! i)) key" if "nat ?mid \<le> i" "i < length entries" for i
        using that nlt ord [of "nat ?mid" i] key_order.lt_trans [OF o] by (metis le_neq_implies_less)
      then have "\<exists>n \<le> length entries. index_search c entries key left (?mid - 1) ?mid = Some (if n < length entries then int n else dflt) \<and>
          (\<forall>i<n. key_lt c (fst (entries ! i)) key) \<and> (\<forall>i. n \<le> i \<and> i < length entries \<longrightarrow> \<not> key_lt c (fst (entries ! i)) key)"
        using m 1(8) by (intro 1(1) [OF True refl g le o s]) (use 1(5) in auto)
      then show ?thesis using True g le by (subst index_search.simps) (simp add: Let_def)
    next
      case gt: False
      then have lt: "key_lt c (fst (entries ! nat ?mid)) key" using key_order.cmp_le [OF o] by simp
      have "key_lt c (fst (entries ! i)) key" if "i < nat (?mid + 1)" for i
      proof (cases "i = nat ?mid")
        case False
        then have "i < nat ?mid" using that by linarith
        then show ?thesis using ord [of i "nat ?mid"] m(4) lt key_order.lt_trans [OF o] by blast
      qed (use lt in simp)
      then have "\<exists>n \<le> length entries. index_search c entries key (?mid + 1) right found = Some (if n < length entries then int n else dflt) \<and>
          (\<forall>i<n. key_lt c (fst (entries ! i)) key) \<and> (\<forall>i. n \<le> i \<and> i < length entries \<longrightarrow> \<not> key_lt c (fst (entries ! i)) key)"
        using m 1(7,9,10) by (intro 1(2) [OF True refl g gt o s]) auto
      then show ?thesis using True g gt by (subst index_search.simps) (simp add: Let_def)
    qed
  qed
qed

end
