(* ===== verification/SSTable_Properties.thy ===== *)
theory SSTable_Properties
  imports SSTable_Build
begin

text \<open>
  The properties of the checksum, of the footer and of the builder: which entries it accepts, what
  \<open>Finish\<close> does, and what the reader makes of the one table that it does write.
\<close>

section \<open>Encodings\<close>

text \<open>The table entry of the reflected CRC-32 polynomial, by eight shifts.\<close>

definition crc_bit :: "u32 \<Rightarrow> u32" where
  "crc_bit c = (if bit c 0 then 0xEDB88320 XOR drop_bit 1 c else drop_bit 1 c)"

definition crc_entry :: "nat \<Rightarrow> u32" where
  "crc_entry n = crc_bit (crc_bit (crc_bit (crc_bit (crc_bit (crc_bit (crc_bit (crc_bit (of_nat n))))))))"

lemmas crc_eval = crc_entry_def crc_bit_def upt_rec crc_tables

lemma crc_rows:
  "map crc_entry [0..<32] = crc_table_0" "map crc_entry [32..<64] = crc_table_1" "map crc_entry [64..<96] = crc_table_2"
  "map crc_entry [96..<128] = crc_table_3" "map crc_entry [128..<160] = crc_table_4"
  by (simp_all add: crc_eval)

lemma crc_rows_wrong:
  "map crc_entry [160..<192] = crc_table_5[16 := 0xCB61B38C, 17 := 0xBC66831A]"
  "map crc_entry [192..<224] = crc_table_6[12 := 0x92D28E9B, 13 := 0xE5D5BE0D]"
  "map crc_entry [224..<256] = crc_table_7[9 := 0xD9D65ADC]"
  by (simp_all add: crc_eval)

lemma crc_row_lengths: "length crc_table_0 = 32" "length crc_table_1 = 32" "length crc_table_2 = 32" "length crc_table_3 = 32"
  "length crc_table_4 = 32" "length crc_table_5 = 32" "length crc_table_6 = 32" "length crc_table_7 = 32"
  by (simp_all add: crc_tables)

lemma upt_rows: "[0..<256::nat] = [0..<32] @ [32..<64] @ [64..<96] @ [96..<128] @ [128..<160] @ [160..<192] @ [192..<224] @ [224..<256]"
proof -
  have u: "[a..<c] = [a..<b] @ [b..<c]" if "a \<le> b" "b \<le> c" for a b c :: nat
    using that upt_add_eq_append [of a b "c - b"] by simp
  have "[0..<256::nat] = [0..<32] @ [32..<256]" "[32..<256::nat] = [32..<64] @ [64..<256]" "[64..<256::nat] = [64..<96] @ [96..<256]"
    "[96..<256::nat] = [96..<128] @ [128..<256]" "[128..<256::nat] = [128..<160] @ [160..<256]"
    "[160..<256::nat] = [160..<192] @ [192..<256]" "[192..<256::nat] = [192..<224] @ [224..<256]"
    by (rule u; simp)+
  then show ?thesis by (simp only: append_assoc)
qed

text \<open>
  The table of \<open>ComputeCRC32\<close> is the table of CRC-32 (the reflected polynomial EDB88320) except
  in five entries, 176, 177, 204, 205 and 233.
\<close>

theorem crc_table_wrong_entries:
  "map crc_entry [0..<256] =
     crc_table[176 := 0xCB61B38C, 177 := 0xBC66831A, 204 := 0x92D28E9B, 205 := 0xE5D5BE0D, 233 := 0xD9D65ADC] \<and>
   map ((!) crc_table) [176, 177, 204, 205, 233] = [0xCB61F38E, 0xBC66C318, 0x92D28E90, 0xE5D5BE02, 0xD9D65AD8]"
proof
  show "map crc_entry [0..<256] =
     crc_table[176 := 0xCB61B38C, 177 := 0xBC66831A, 204 := 0x92D28E9B, 205 := 0xE5D5BE0D, 233 := 0xD9D65ADC]"
    unfolding upt_rows map_append crc_rows crc_rows_wrong crc_table_def by (simp add: list_update_append crc_row_lengths)
  have "crc_table_5 ! 16 = 0xCB61F38E" "crc_table_5 ! 17 = 0xBC66C318" "crc_table_6 ! 12 = 0x92D28E90"
    "crc_table_6 ! 13 = 0xE5D5BE02" "crc_table_7 ! 9 = 0xD9D65AD8" by (simp_all add: crc_tables)
  then show "map ((!) crc_table) [176, 177, 204, 205, 233] = [0xCB61F38E, 0xBC66C318, 0x92D28E90, 0xE5D5BE02, 0xD9D65AD8]"
    by (simp add: crc_table_def nth_append crc_row_lengths)
qed

text \<open>
  A footer survives encoding and decoding, whatever follows it in the buffer; with another magic
  number than the expected one the fields are still read, and the answer is a corruption.
\<close>

theorem footer_roundtrip:
  "SSTableFooter_Decode (SSTableFooter_Encode f @ rest) g =
     Some (if magic_number f = kMagic then Status_OK else Status_Corruption ''Invalid magic number'', f)"
proof -
  let ?e = "\<lambda>h. EncodeFixed64 (bh_offset h) @ EncodeFixed64 (bh_size h)"
  obtain ib fb mb m v c where f: "f = \<lparr>index_block = ib, filter_block = fb, meta_block = mb, magic_number = m, footer_version = v, footer_crc32 = c\<rparr>"
    by (cases f)
  have enc: "SSTableFooter_Encode f @ rest = ?e ib @ ?e fb @ ?e mb @ EncodeFixed64 m @ EncodeFixed32 v @ EncodeFixed32 c @
      (replicate 8 (char_of (0::nat)) @ rest)"
    by (simp add: SSTableFooter_Encode_def BlockHandle_Encode_def kEncodedSize_def f)
  have len: "\<not> length (SSTableFooter_Encode f @ rest) < kEncodedSize" unfolding enc by (simp add: kEncodedSize_def)
  show ?thesis using len unfolding SSTableFooter_Decode_def enc by (simp add: f kMagic_def)
qed

section \<open>The builder\<close>

lemma default_sst_order: "key_order (sst_comparator SSTableOptions_default)"
  by (simp add: SSTableOptions_default_def default_order.key_order_axioms)

text \<open>
  C26. A run of \<open>Add\<close> on a new builder (with blocks of at least 17 bytes and a positive restart interval) is always defined, across
  block boundaries: an entry is accepted if and only if its key is greater than the last accepted one, and rejected as an
  invalid argument otherwise, so the accepted keys are strictly increasing; the builder counts them and keeps the
  least and the greatest of their sequence numbers.
\<close>

theorem builder_add_run:
  assumes "key_order (sst_comparator opts)" and "17 \<le> sst_block_size opts" and "0 < block_restart_interval opts"
    and "acc = accepted_entries (sst_comparator opts) None es"
  shows "\<exists>b. sst_add_all es (SSTableBuilder_new opts) = Some (add_statuses (sst_comparator opts) None es, b) \<and>
    sorted_wrt (key_lt (sst_comparator opts)) (map fst acc) \<and> num_entries b = length acc \<and>
    min_seq b = fold min (map (fst \<circ> snd \<circ> snd) acc) (2 ^ 64 - 1) \<and> max_seq b = fold max (map (fst \<circ> snd \<circ> snd) acc) 0"
proof -
  obtain b where b: "sst_add_all es (SSTableBuilder_new opts) = Some (add_statuses (sst_comparator opts) None es, b)" "sst_inv opts b acc"
    using sst_add_run [OF assms(2,3,1) sst_inv_new, of es] assms(4) by auto
  have sorted: "sorted_wrt (key_lt (sst_comparator opts)) (map fst acc)"
    using accepted_sorted [OF assms(1)] assms(4) by blast
  have fields: "num_entries b = length acc" "min_seq b = fold min (map (fst \<circ> snd \<circ> snd) acc) (2 ^ 64 - 1)"
    "max_seq b = fold max (map (fst \<circ> snd \<circ> snd) acc) 0" using b(2) by (simp_all only: sst_inv_def)
  show ?thesis by (intro exI [of _ b] conjI b(1) sorted fields)
qed

theorem builder_add_run_witness:
  "\<exists>b. sst_add_all [(''b'', ''1'', 7, False), (''a'', ''2'', 8, False), (''c'', [], 9, True)] (SSTableBuilder_new SSTableOptions_default) =
      Some ([Status_OK, Status_InvalidArgument ''Keys must be added in strictly increasing order'', Status_OK], b) \<and>
    min_seq b = 7 \<and> max_seq b = 9"
proof -
  have "17 \<le> sst_block_size SSTableOptions_default" "0 < block_restart_interval SSTableOptions_default"
    "sst_comparator SSTableOptions_default = None" by (simp_all add: SSTableOptions_default_def)
  moreover have "key_lt None ''b'' ''c''" "\<not> key_lt None ''b'' ''a''"
    by (simp_all add: key_lt_def Compare_def Slice_compare_lex byte_val_def)
  ultimately show ?thesis
    using builder_add_run [OF default_sst_order _ _ refl, of "[(''b'', ''1'', 7, False), (''a'', ''2'', 8, False), (''c'', [], 9, True)]"]
    by (auto simp del: sst_add_all.simps)
qed

text \<open>
  \<open>WriteIndexBlock\<close> takes a pointer into an empty vector and writes the header of the first index entry
  through it after the vector was enlarged.  So \<open>Finish\<close> is undefined after every run of \<open>Add\<close>
  with at least one entry, whenever the file could be opened.
\<close>

theorem builder_finish_undefined:
  assumes "key_order (sst_comparator opts)" and "17 \<le> sst_block_size opts" and "0 < block_restart_interval opts"
    and "es \<noteq> []" and "sst_open_ok env"
  shows "(sst_add_all es (SSTableBuilder_new opts) \<bind> (\<lambda>(sts, b). SSTableBuilder_Finish env filename b files)) = None"
proof -
  have "accepted_entries (sst_comparator opts) None es \<noteq> []" using assms(4) by (cases es) auto
  then show ?thesis
    using sst_add_run [OF assms(2,3,1) sst_inv_new, of es] sst_finish_undefined [OF _ _ assms(5)] by auto
qed

theorem builder_finish_undefined_witness:
  "(sst_add_all [(''a'', ''1'', 1, False)] (SSTableBuilder_new SSTableOptions_default) \<bind>
    (\<lambda>(sts, b). SSTableBuilder_Finish \<lparr>sst_open_ok = True, sst_limit = None\<rparr> ''/db/1.sst'' b Map.empty)) = None"
  by (rule builder_finish_undefined [OF default_sst_order]) (simp_all add: SSTableOptions_default_def)

section \<open>The empty table\<close>

definition empty_footer :: "bool \<Rightarrow> SSTableFooter" where
  "empty_footer bloom = SSTableFooter_default\<lparr>index_block := \<lparr>bh_offset = 0, bh_size = 8\<rparr>,
     filter_block := \<lparr>bh_offset = (if bloom then 8 else 0), bh_size = 0\<rparr>, meta_block := \<lparr>bh_offset = 8, bh_size = 24\<rparr>, footer_version := 1\<rparr>"

definition empty_table :: "bool \<Rightarrow> bytes" where
  "empty_table bloom = encode_restarts [0] @ EncodeFixed64 (2 ^ 64 - 1) @ EncodeFixed64 0 @ EncodeFixed32 0 @ EncodeFixed32 0 @
     SSTableFooter_Encode (empty_footer bloom)"

lemmas crc_table_list = crc_table_def [unfolded crc_tables append.simps]

definition crc_from :: "u32 \<Rightarrow> nat list \<Rightarrow> u32" where
  "crc_from c ns = foldl crc_update c (map char_of ns)"

lemma crc_from_simps:
  "crc_from c [] = c"
  "crc_from c (n # ns) = crc_from ((crc_table ! unat ((c XOR of_nat (n mod 256)) AND 0xFF)) XOR drop_bit 8 c) ns"
  by (simp_all add: crc_from_def crc_update_def word_of_char_def)

lemma replicate_4: "replicate 4 x = [x, x, x, x]"
  by (simp add: eval_nat_numeral)

lemma empty_footer_bytes:
  "take 68 (SSTableFooter_Encode (empty_footer bloom)) = map char_of ([0,0,0,0,0,0,0,0, 8,0,0,0,0,0,0,0, if bloom then 8 else 0,0,0,0,0,0,0,0,
    0,0,0,0,0,0,0,0, 8,0,0,0,0,0,0,0, 24,0,0,0,0,0,0,0, 219,219,219,219,219,219,219,219, 1,0,0,0, 0,0,0,0, 0,0,0,0 :: nat])"
  by (simp add: empty_footer_def SSTableFooter_Encode_def SSTableFooter_default_def BlockHandle_Encode_def EncodeFixed64_def
    EncodeFixed32_def kMagic_def char_of_word_def kEncodedSize_def replicate_4)

lemma empty_footer_crc: "ComputeCRC32 (take 68 (SSTableFooter_Encode (empty_footer bloom))) \<noteq> 0"
proof -
  have "crc_from 0xFFFFFFFF ([0,0,0,0,0,0,0,0, 8,0,0,0,0,0,0,0, 8,0,0,0,0,0,0,0,
    0,0,0,0,0,0,0,0, 8,0,0,0,0,0,0,0, 24,0,0,0,0,0,0,0, 219,219,219,219,219,219,219,219, 1,0,0,0, 0,0,0,0, 0,0,0,0]) = NOT 3020410547"
    by (simp add: crc_from_simps crc_table_list)
  moreover have "crc_from 0xFFFFFFFF ([0,0,0,0,0,0,0,0, 8,0,0,0,0,0,0,0, 0,0,0,0,0,0,0,0,
    0,0,0,0,0,0,0,0, 8,0,0,0,0,0,0,0, 24,0,0,0,0,0,0,0, 219,219,219,219,219,219,219,219, 1,0,0,0, 0,0,0,0, 0,0,0,0]) = NOT 1593053786"
    by (simp add: crc_from_simps crc_table_list)
  ultimately show ?thesis unfolding empty_footer_bytes ComputeCRC32_def
    by (cases bloom) (simp_all add: crc_from_def)
qed

lemma length_footer [simp]: "length (SSTableFooter_Encode f) = 72"
  by (simp add: SSTableFooter_Encode_def BlockHandle_Encode_def kEncodedSize_def)

lemma finish_empty:
  "\<exists>b. SSTableBuilder_Finish \<lparr>sst_open_ok = True, sst_limit = None\<rparr> filename (SSTableBuilder_new opts) files =
    Some (Status_OK, b, files(filename \<mapsto> empty_table (enable_bloom_filter opts)))"
  by (simp add: SSTableBuilder_Finish_def stream_open_def SSTableBuilder_new_def FlushBlock_def WriteIndexBlock_def stream_write_def
      WriteFilterBlock_def WriteMetaBlock_def stream_close_def accepts_all_def accepted_def empty_table_def empty_footer_def Let_def)

text \<open>
  The checksum of the footer is computed after the footer was encoded, and the file keeps a zero: the
  table of an empty builder is written, and no reader opens it.
\<close>

theorem empty_table_rejected:
  "\<exists>b files' R. SSTableBuilder_Finish \<lparr>sst_open_ok = True, sst_limit = None\<rparr> filename (SSTableBuilder_new opts) files =
      Some (Status_OK, b, files') \<and>
    SSTableReader_Open (\<lambda>_. True) files' filename (SSTableReader_new ropts) = Some (Status_Corruption ''Footer CRC mismatch'', R)"
proof -
  let ?f = "empty_footer (enable_bloom_filter opts)" and ?t = "empty_table (enable_bloom_filter opts)"
  obtain pre where t: "?t = pre @ SSTableFooter_Encode ?f" "length pre = 32"
    by (simp add: empty_table_def)
  have read: "seek_read [] (pre @ SSTableFooter_Encode ?f) True 32 72 = (SSTableFooter_Encode ?f, True)"
    using t(2) seek_read_block [of pre "SSTableFooter_Encode ?f" "[]" "[]"] by simp
  have "magic_number ?f = kMagic" "footer_crc32 ?f = 0" by (simp_all add: empty_footer_def SSTableFooter_default_def)
  then have "\<exists>R. LoadFile (\<lambda>_. True) (files(filename \<mapsto> ?t)) filename (SSTableReader_new ropts) = Some (Status_Corruption ''Footer CRC mismatch'', R)"
    using t footer_roundtrip [of ?f "[]" SSTableFooter_default] empty_footer_crc [of "enable_bloom_filter opts"]
    by (simp add: LoadFile_def read kEncodedSize_def SSTableReader_new_def)
  then show ?thesis using finish_empty [of filename opts files] by (auto simp: SSTableReader_Open_def)
qed

end
