(* ===== verification/SSTable_Reads.thy ===== *)
theory SSTable_Reads
  imports SSTable_Lookup SSTable_Properties
begin

text \<open>
  The properties of the reader: a block read back, the bloom filter, and lookups in a file with well
  formed blocks; with the blocks and the filters of the builder that the reader does not accept.
\<close>

section \<open>Blocks\<close>

text \<open>
  C24. A block that is filled from a reset state with fewer entries than the restart interval, in
  increasing order of their keys, is read back: \<open>GetFromBlock\<close> answers the value of every key in it,
  the low 32 bits of its sequence number and its deletion flag, and "not found" for every other
  key.  The entries must be followed in the block by at least as many bytes as they share with their
  predecessors.
\<close>

theorem block_roundtrip:
  assumes "key_order (rd_comparator (rd_options R))" and "sorted_wrt (key_lt (rd_comparator (rd_options R))) (map fst es)"
    and "list_all small_entry es" and "copies_fit [] es 8"
    and "length es < block_restart_interval (sst_options b)"
    and "length (encode_entries [] es) \<le> sst_block_size (sst_options b)" and "sst_block_size (sst_options b) \<le> block_capacity b"
    and "length pre < 2 ^ 63" and "length (encode_entries [] es) + 8 < 2 ^ 64"
  shows "\<exists>b'. add_block es (ResetBlock b) = Some b' \<and>
    (let block = current_block b' @ encode_restarts (restart_points b') in
      GetFromBlock (\<lambda>_. True) (files(rd_filename R \<mapsto> pre @ block @ post)) R
        \<lparr>bh_offset = of_nat (length pre), bh_size = of_nat (length block)\<rparr> key x q d =
      Some (case map_of es key of
          Some (v, s, del) \<Rightarrow> (Status_OK, v, map_option (\<lambda>_. ucast (ucast s :: u32)) q, map_option (\<lambda>_. del) d)
        | None \<Rightarrow> (Status_NotFound ''Key not found in block'', x, q, d)))"
proof -
  obtain b' where b': "add_block es (ResetBlock b) = Some b'" "current_block b' = encode_entries [] es" "restart_points b' = [0]"
    using add_block_bytes [of "ResetBlock b" es] assms(5-7) by (auto simp: ResetBlock_def)
  have block: "current_block b' @ encode_restarts (restart_points b') = block_bytes es" by (simp add: b'(2,3) block_bytes_def)
  have "length (block_bytes es) < 2 ^ 64" using assms(9) by (simp add: block_bytes_def)
  note read = seek_read_block [OF assms(8) this, of "[]" post]
  show ?thesis
    using read search_block_bytes [OF assms(1-4), of key]
    by (intro exI [of _ b'] conjI b'(1)) (unfold block Let_def, auto simp: GetFromBlock_def split: option.splits)
qed

theorem block_roundtrip_witness:
  "\<exists>b'. add_block [(''a'', ''1'', 2 ^ 32 + 5, False), (''ab'', [], 9, True)] (ResetBlock (SSTableBuilder_new SSTableOptions_default)) = Some b' \<and>
    (let block = current_block b' @ encode_restarts (restart_points b') in
      GetFromBlock (\<lambda>_. True) [''t'' \<mapsto> block] (SSTableReader_new SSTableReaderOptions_default\<lparr>rd_filename := ''t''\<rparr>)
        \<lparr>bh_offset = 0, bh_size = of_nat (length block)\<rparr> ''a'' [] (Some 0) (Some True) = Some (Status_OK, ''1'', Some 5, Some False))"
proof -
  let ?R = "SSTableReader_new SSTableReaderOptions_default\<lparr>rd_filename := ''t''\<rparr>"
  let ?b = "SSTableBuilder_new SSTableOptions_default" and ?es = "[(''a'', ''1'', 2 ^ 32 + 5, False), (''ab'', [], 9, True)]"
  have opts: "rd_comparator (rd_options ?R) = None" "sst_options ?b = SSTableOptions_default" "sst_block_size SSTableOptions_default = 4096"
    "block_capacity ?b = 4096" "block_restart_interval SSTableOptions_default = 16" "rd_filename ?R = ''t''"
    by (simp_all add: SSTableReader_new_def SSTableReaderOptions_default_def SSTableBuilder_new_def SSTableOptions_default_def)
  have lt: "key_lt None ''a'' ''ab''" by (simp add: key_lt_def Compare_def Slice_compare_lex)
  have seq: "(ucast (ucast (2 ^ 32 + 5 :: u64) :: u32) :: u64) = 5" by simp
  show ?thesis
    using block_roundtrip [of ?R ?es ?b "[]" Map.empty "[]" "''a''" "[]" "Some 0" "Some True"] lt seq default_order.key_order_axioms
    unfolding opts by (simp add: small_entry_def Let_def)
qed

text \<open>
  The first block of a builder has no restart point (only \<open>ResetBlock\<close>, after a flush, adds the
  first), and the reader rejects it: every lookup in it is a corruption.
\<close>

theorem first_block_rejected:
  assumes "length es < block_restart_interval opts" and "length (encode_entries [] es) \<le> sst_block_size opts"
  shows "\<exists>b. add_block es (SSTableBuilder_new opts) = Some b \<and>
    search_block c (current_block b @ encode_restarts (restart_points b)) key = Some (Status_Corruption ''Invalid restart count'', None)"
proof -
  obtain b where "add_block es (SSTableBuilder_new opts) = Some b" "restart_points b = []"
    using add_block_bytes [of "SSTableBuilder_new opts" es] assms by (auto simp: SSTableBuilder_new_def)
  then show ?thesis using search_block_no_restarts by (intro exI [of _ b]) simp
qed

theorem first_block_rejected_witness:
  "\<exists>b. add_block [(''a'', ''1'', 7, False)] (SSTableBuilder_new SSTableOptions_default) = Some b \<and>
    search_block None (current_block b @ encode_restarts (restart_points b)) ''a'' = Some (Status_Corruption ''Invalid restart count'', None)"
  by (rule first_block_rejected) (simp_all add: SSTableOptions_default_def)

text \<open>
  The bounds check of the reader counts the shared prefix of an entry among the bytes that must
  follow it.  So the last key of a block is not found if it shares more than eight bytes (the size
  of the one restart point and of their number) with the key before.
\<close>

theorem long_prefix_not_found:
  assumes "key_order c" and "key_lt c k1 k2" and "8 < shared_prefix k2 k1"
    and "small_entry (k1, v1, s1, d1)" and "small_entry (k2, v2, s2, d2)"
  shows "search_block c (block_bytes [(k1, v1, s1, d1), (k2, v2, s2, d2)]) k2 = Some (Status_NotFound ''Key not found in block'', None)"
proof -
  let ?b1 = "entry_bytes [] (k1, v1, s1, d1)" and ?b2 = "entry_bytes k1 (k2, v2, s2, d2)" and ?r = "encode_restarts [0]"
  let ?data = "block_bytes [(k1, v1, s1, d1), (k2, v2, s2, d2)]" and ?stop = "length (block_bytes [(k1, v1, s1, d1), (k2, v2, s2, d2)]) - 8"
  have data: "?data = [] @ ?b1 @ (?b2 @ ?r)" "?data = ?b1 @ ?b2 @ ?r" by (simp_all add: block_bytes_def)
  have pos: "length [] < ?stop" "length ?b1 < ?stop" by (simp_all add: block_bytes_def)
  have "Compare c k1 k2 < 0" using assms(2) by (simp add: key_lt_def)
  then have step1: "block_search c ?data k2 ?stop 0 [] = block_search c ?data k2 ?stop (length ?b1) k1"
    using block_search_entry [OF assms(4) pos(1), of c "[]" "?b2 @ ?r" k2] unfolding data(1) [symmetric]
    by (simp del: entry_bytes.simps)
  have "shared_prefix k2 k1 > length ?r" using assms(3) by simp
  then have step2: "block_search c ?data k2 ?stop (length ?b1) k1 = Some None"
    using block_search_entry [OF assms(5) pos(2), of c k1 ?r k2] unfolding data(2) [symmetric] by (simp del: entry_bytes.simps)
  show ?thesis
    using search_block_at [OF step1 [unfolded step2]] by simp
qed

section \<open>The bloom filter\<close>

text \<open>
  C28. If the number of bits of the filter is a multiple of eight, the filter that the builder writes has no false
  negatives: the reader that loads it answers that every key whose hash was added might be there.
\<close>

theorem bloom_no_false_negative:
  assumes "enable_bloom_filter (sst_options b)"
    and "bits = length (filter_keys_hash b) * size_of_double (bloom_filter_bits_per_key (sst_options b))"
    and "0 < bits" and "bits < 2 ^ 64" and "8 dvd bits" and "bloom_hash key \<in> set (filter_keys_hash b)"
  shows "\<exists>b' R'. WriteFilterBlock b = Some b' \<and> ParseFilterBlock (R\<lparr>filter_block_data := filter_buffer b'\<rparr>) = Some R' \<and>
    MightContain R' key = Some True"
proof -
  let ?k = "times_069 (size_of_double (bloom_filter_bits_per_key (sst_options b)))"
  have ne: "filter_keys_hash b \<noteq> []" using assms(6) by auto
  obtain b' f where b': "WriteFilterBlock b = Some b'" "filter_buffer b' = map char_of_byte f @ EncodeFixed32 (of_nat ?k)"
    "length f = (bits + 7) div 8" "\<forall>hash\<in>set (filter_keys_hash b). \<forall>i<?k. has_bit f (bloom_probe (of_nat bits) hash i)"
    using write_filter_ok [OF assms(1) ne assms(2-4)] by blast
  have len: "length f * 8 = bits" using b'(3) assms(5) by auto
  have u: "unat (of_nat bits :: u64) = bits" using assms(4) by (simp add: unat_of_nat take_bit_nat_eq_self)
  have nz: "(of_nat bits :: u64) \<noteq> 0" using u assms(3) by (metis neq0_conv unat_0)
  let ?R = "R\<lparr>filter_block_data := filter_buffer b'\<rparr>"
  define R' where "R' = ?R\<lparr>bloom_k := unat (of_nat ?k :: u32), bloom_bits := of_nat bits, bloom_filter := f\<rparr>"
  have parse: "ParseFilterBlock ?R = Some R'"
    using fixed32.dec_last [of "of_nat ?k"] len
    by (simp add: ParseFilterBlock_def b'(2) R'_def comp_def)
  have "unat (of_nat ?k :: u32) \<le> ?k" by (simp add: unat_of_nat take_bit_eq_mod)
  then have "bloom_check_loop R' (bloom_hash key) 0 (unat (of_nat ?k :: u32)) = Some True"
    using b'(4) assms(6) nz by (intro bloom_check_ok) (auto simp: R'_def)
  then have "MightContain R' key = Some True" by (simp add: MightContain_def BloomFilterCheck_def R'_def)
  with b'(1) parse show ?thesis by blast
qed

lemma bit_len_numeral: "bit_len (numeral n) = Suc (bit_len (numeral n div 2))" "bit_len (Suc 0) = 1" "bit_len 0 = 0"
  by (subst bit_len.simps, simp)+

lemma times_069_10: "times_069 10 = 6"
  by (simp add: times_069_def round_53_def bit_len_numeral Let_def)

theorem bloom_no_false_negative_witness:
  "\<exists>b' R'. WriteFilterBlock (SSTableBuilder_new SSTableOptions_default\<lparr>filter_keys_hash := [97, 98, 99, 100]\<rparr>) = Some b' \<and>
    ParseFilterBlock (SSTableReader_new SSTableReaderOptions_default\<lparr>filter_block_data := filter_buffer b'\<rparr>) = Some R' \<and>
    MightContain R' ''b'' = Some True"
  by (rule bloom_no_false_negative [of _ 40])
    (simp_all add: SSTableBuilder_new_def SSTableOptions_default_def size_of_double_def bloom_hash_def)

lemma for_range_numeral:
  "for_range lo (numeral n) body s = (body lo s \<bind> for_range (Suc lo) (pred_numeral n) body)"
  by (simp add: numeral_eq_Suc)

lemma bloom_check_loop_numeral:
  "bloom_check_loop R hash i (numeral n) =
     (if bloom_bits R = 0 then None
      else do {
        byte \<leftarrow> vec_get (bloom_filter R) (unat (bloom_probe (bloom_bits R) hash i div 8));
        if byte AND push_bit (unat (bloom_probe (bloom_bits R) hash i mod 8)) 1 = 0 then Some False
        else bloom_check_loop R hash (Suc i) (pred_numeral n)
      })"
  by (simp add: numeral_eq_Suc Let_def)

text \<open>
  The builder takes the probes modulo the number of bits and the reader modulo eight times the
  number of bytes.  With one key and the default of ten bits per key they are 10 and 16, and the
  reader denies the key that the filter was built from.
\<close>

theorem bloom_false_negative:
  "\<exists>b R. WriteFilterBlock (SSTableBuilder_new SSTableOptions_default\<lparr>filter_keys_hash := [bloom_hash ''a'']\<rparr>) = Some b \<and>
    ParseFilterBlock (SSTableReader_new SSTableReaderOptions_default\<lparr>filter_block_data := filter_buffer b\<rparr>) = Some R \<and>
    MightContain R ''a'' = Some False"
proof -
  let ?b = "SSTableBuilder_new SSTableOptions_default\<lparr>filter_keys_hash := [bloom_hash ''a'']\<rparr>"
  have hash: "bloom_hash ''a'' = 97" by (simp add: bloom_hash_def)
  have probes: "bloom_add_all 10 6 [97] [0, 0] = Some [246, 0]"
    by (simp add: bloom_add_def for_range_numeral bloom_probe_def set_bloom_bit_def vec_defs)
  let ?data = "map char_of_byte [246, 0] @ EncodeFixed32 6"
  let ?b' = "(stream_write ?data ?b)\<lparr>filter_buffer := ?data, block_offset := block_offset (stream_write ?data ?b) + length ?data\<rparr>"
  have opts: "sst_options (SSTableBuilder_new SSTableOptions_default) = SSTableOptions_default" "enable_bloom_filter SSTableOptions_default"
    "size_of_double (bloom_filter_bits_per_key SSTableOptions_default) = 10"
    "fits_size (bloom_filter_bits_per_key SSTableOptions_default)"
    by (simp_all add: SSTableBuilder_new_def SSTableOptions_default_def size_of_double_def fits_size_def)
  have "WriteFilterBlock ?b = Some ?b'"
    using probes by (simp add: WriteFilterBlock_def Let_def opts times_069_10 hash numeral_2_eq_2 del: bloom_add_all.simps)
  let ?R = "SSTableReader_new SSTableReaderOptions_default\<lparr>filter_block_data := ?data\<rparr>"
  define R' where "R' = ?R\<lparr>bloom_k := 6, bloom_bits := 16, bloom_filter := [246, 0]\<rparr>"
  have parse: "ParseFilterBlock ?R = Some R'"
    using fixed32.dec_last [of 6] by (simp add: ParseFilterBlock_def R'_def)
  have "MightContain R' ''a'' = Some False"
    by (simp add: MightContain_def BloomFilterCheck_def hash R'_def bloom_check_loop_numeral bloom_probe_def vec_get_def)
  with \<open>WriteFilterBlock ?b = Some ?b'\<close> parse show ?thesis by (intro exI [of _ ?b'] exI [of _ R']) simp
qed

section \<open>Lookups\<close>

text \<open>The blocks of a file, as an index lists them.\<close>

definition table_file :: "Comparator option \<Rightarrow> bytes \<Rightarrow> (bytes \<times> BlockHandle) list \<Rightarrow> sst_entry list list \<Rightarrow> bool" where
  "table_file c file entries bss \<longleftrightarrow> sorted_wrt (key_lt c) (map fst (concat bss)) \<and>
     list_all2 (\<lambda>(k, h) es. es \<noteq> [] \<and> k = fst (last es) \<and> list_all small_entry es \<and> copies_fit [] es 8 \<and>
       (\<exists>pre post. file = pre @ block_bytes es @ post \<and> h = \<lparr>bh_offset = of_nat (length pre), bh_size = of_nat (length (block_bytes es))\<rparr>) )
       entries bss \<and> length file < 2 ^ 63"

lemma sorted_keys_concat:
  assumes "sorted_wrt lt (map fst (concat bss))" "i < length bss"
  shows "sorted_wrt lt (map fst (bss ! i))"
proof -
  have "concat bss = concat (take i bss) @ bss ! i @ concat (drop (Suc i) bss)"
    using concat_map_split [of i bss "\<lambda>x. x"] assms(2) by simp
  with assms(1) show ?thesis by (simp add: sorted_wrt_append)
qed

lemma last_key_greatest:
  assumes "sorted_wrt (key_lt c) (map fst es)" "x \<in> set es"
  shows "fst x = fst (last es) \<or> key_lt c (fst x) (fst (last es))"
  using assms by (induction es) auto

lemma set_take_nth: "set (take n xs) = {xs ! i | i. i < n \<and> i < length xs}"
  by (auto simp: set_conv_nth) (metis nth_take)

lemma map_of_concat_block:
  assumes o: "key_order c" and s: "sorted_wrt (key_lt c) (map fst (concat bss))" and n: "n < length bss"
    and before: "\<forall>i<n. bss ! i \<noteq> [] \<and> key_lt c (fst (last (bss ! i))) key"
    and at: "bss ! n \<noteq> []" "n + 1 < length bss \<longrightarrow> \<not> key_lt c (fst (last (bss ! n))) key"
  shows "map_of (concat bss) key = map_of (bss ! n) key"
proof -
  have split: "concat bss = concat (take n bss) @ bss ! n @ concat (drop (Suc n) bss)"
    using concat_map_split [of n bss "\<lambda>x. x"] n by simp
  have "key_lt c (fst x) key" if x: "x \<in> set (concat (take n bss))" for x
  proof -
    obtain i where i: "i < n" "x \<in> set (bss ! i)" using x n by (auto simp: set_take_nth)
    have "sorted_wrt (key_lt c) (map fst (bss ! i))" using sorted_keys_concat [OF s] i(1) n by simp
    from last_key_greatest [OF this i(2)] before i(1) show ?thesis using key_order.lt_trans [OF o] by metis
  qed
  then have "map_of (concat (take n bss)) key = None"
    using key_order.lt_irrefl [OF o] by (auto simp: map_of_eq_None_iff)
  moreover have "map_of (concat (drop (Suc n) bss)) key = None"
  proof (cases "n + 1 < length bss")
    case True
    have "key_lt c (fst (last (bss ! n))) (fst x)" if "x \<in> set (concat (drop (Suc n) bss))" for x
      using s that at(1) unfolding split by (auto simp: sorted_wrt_append)
    then show ?thesis using at(2) True by (auto simp: map_of_eq_None_iff)
  qed simp
  ultimately show ?thesis unfolding split by (simp add: map_add_def split: option.splits)
qed

text \<open>
  C15. \<open>Get\<close> on a table whose blocks are well formed and listed by the index with their last keys
  answers like the map of all its entries, whenever the bloom filter lets the key pass: the value,
  the low 32 bits of the sequence number and the deletion flag of a key that is there, and "not found" for any other.
\<close>

theorem reader_get:
  assumes "key_order (rd_comparator (rd_options R))" and "files (rd_filename R) = Some file"
    and "table_file (rd_comparator (rd_options R)) file (rd_index_entries R) bss" and "BloomFilterCheck R key = Some True"
  shows "SSTableReader_Get (\<lambda>_. True) files R key x q d =
    Some (case map_of (concat bss) key of
        Some (v, s, del) \<Rightarrow> (Status_OK, v, map_option (\<lambda>_. ucast (ucast s :: u32)) q, map_option (\<lambda>_. del) d)
      | None \<Rightarrow> (Status_NotFound (if bss = [] then ''Key not found'' else ''Key not found in block''), x, q, d))"
proof -
  let ?c = "rd_comparator (rd_options R)" and ?ix = "rd_index_entries R"
  have sorted: "sorted_wrt (key_lt ?c) (map fst (concat bss))" and len: "length ?ix = length bss" and fsize: "length file < 2 ^ 63"
    using assms(3) by (auto simp: table_file_def list_all2_lengthD)
  have block: "bss ! i \<noteq> [] \<and> fst (?ix ! i) = fst (last (bss ! i)) \<and> list_all small_entry (bss ! i) \<and> copies_fit [] (bss ! i) 8 \<and>
      (\<exists>pre post. file = pre @ block_bytes (bss ! i) @ post \<and>
        snd (?ix ! i) = \<lparr>bh_offset = of_nat (length pre), bh_size = of_nat (length (block_bytes (bss ! i)))\<rparr>)" if "i < length bss" for i
    using assms(3) that len by (auto simp: table_file_def dest!: list_all2_nthD2 [where p = i] split: prod.splits)
  have keys: "sorted_wrt (key_lt ?c) (map fst ?ix)"
  proof -
    have "key_lt ?c (fst (?ix ! i)) (fst (?ix ! j))" if "i < j" "j < length bss" for i j
    proof -
      have "concat bss = concat (take j bss) @ bss ! j @ concat (drop (Suc j) bss)"
        using concat_map_split [of j bss "\<lambda>x. x"] that by simp
      moreover have "bss ! i \<in> set (take j bss)" using that by (auto simp: set_take_nth)
      then have "last (bss ! i) \<in> set (concat (take j bss))" using block [of i] that by (auto intro!: bexI [of _ "bss ! i"])
      moreover have "last (bss ! j) \<in> set (bss ! j)" using block [of j] that by simp
      ultimately have "key_lt ?c (fst (last (bss ! i))) (fst (last (bss ! j)))"
        using sorted by (simp add: sorted_wrt_append) blast
      then show ?thesis using block that by simp
    qed
    then show ?thesis using len by (simp add: sorted_wrt_iff_nth_less)
  qed
  have "\<exists>n \<le> length ?ix. index_search ?c ?ix key 0 (int (length ?ix) - 1) (-1) = Some (if n < length ?ix then int n else -1) \<and>
      (\<forall>i<n. key_lt ?c (fst (?ix ! i)) key) \<and> (\<forall>i. n \<le> i \<and> i < length ?ix \<longrightarrow> \<not> key_lt ?c (fst (?ix ! i)) key)"
    by (rule index_search_spec [OF assms(1) keys]) auto
  then obtain n where n: "n \<le> length bss" "index_search ?c ?ix key 0 (int (length ?ix) - 1) (-1) = Some (if n < length bss then int n else -1)"
    "\<forall>i<n. key_lt ?c (fst (?ix ! i)) key" "\<forall>i. n \<le> i \<and> i < length bss \<longrightarrow> \<not> key_lt ?c (fst (?ix ! i)) key"
    unfolding len by blast
  show ?thesis
  proof (cases "bss = []")
    case True
    then show ?thesis using n(2) assms(4) len by (simp add: SSTableReader_Get_def)
  next
    case False
    define m where "m = (if n < length bss then n else length bss - 1)"
    have m: "m < length bss" using False by (simp add: m_def)
    have found: "(let f = (if n < length bss then int n else -1); f = (if f = -1 then int (length ?ix) - 1 else f) in f) = int m"
      using m by (auto simp: m_def len Let_def)
    have "m \<le> n" using n(1) by (simp add: m_def)
    have "bss ! i \<noteq> [] \<and> key_lt ?c (fst (last (bss ! i))) key" if "i < m" for i
    proof -
      have "i < n" "i < length bss" using that m \<open>m \<le> n\<close> by simp_all
      then show ?thesis using n(3) block [of i] by metis
    qed
    then have "\<forall>i<m. bss ! i \<noteq> [] \<and> key_lt ?c (fst (last (bss ! i))) key" by blast
    moreover have "m + 1 < length bss \<longrightarrow> \<not> key_lt ?c (fst (last (bss ! m))) key" using n(4) block [OF m] by (auto simp: m_def)
    ultimately have "map_of (concat bss) key = map_of (bss ! m) key"
      using block [OF m] by (intro map_of_concat_block [OF assms(1) sorted m]) blast+
    moreover obtain pre post where pp: "file = pre @ block_bytes (bss ! m) @ post"
      "snd (?ix ! m) = \<lparr>bh_offset = of_nat (length pre), bh_size = of_nat (length (block_bytes (bss ! m)))\<rparr>"
      using block [OF m] by blast
    have "length pre < 2 ^ 63" "length (block_bytes (bss ! m)) < 2 ^ 64" using fsize pp(1) by simp_all
    note read = seek_read_block [OF this, of "[]" post]
    have "SSTableReader_Get (\<lambda>_. True) files R key x q d = GetFromBlock (\<lambda>_. True) files R (snd (?ix ! m)) key x q d"
      using assms(4) n(2) found m len False by (simp add: SSTableReader_Get_def Let_def split: if_splits)
    moreover have "search_block ?c (block_bytes (bss ! m)) key = Some (case map_of (bss ! m) key of
      Some (v, s, d) \<Rightarrow> (Status_OK, Some (v, ucast s, d)) | None \<Rightarrow> (Status_NotFound ''Key not found in block'', None))"
      using block [OF m] by (intro search_block_bytes [OF assms(1) sorted_keys_concat [OF sorted m]]) auto
    ultimately show ?thesis using assms(2) read False
      by (auto simp: GetFromBlock_def pp split: option.splits)
  qed
qed

text \<open>The file of the witness: two blocks.\<close>

definition example_blocks :: "sst_entry list list" where
  "example_blocks = [[(''a'', ''1'', 1, False), (''b'', ''2'', 2, False)], [(''k'', [], 3, True)]]"

definition example_file :: bytes where
  "example_file = concat (map block_bytes example_blocks)"

definition example_reader :: SSTableReader where
  "example_reader = SSTableReader_new SSTableReaderOptions_default
     \<lparr>rd_filename := ''t'', rd_index_entries :=
        [(''b'', \<lparr>bh_offset = 0, bh_size = 46\<rparr>), (''k'', \<lparr>bh_offset = 46, bh_size = 26\<rparr>)]\<rparr>"

theorem reader_get_witness:
  "SSTableReader_Get (\<lambda>_. True) [''t'' \<mapsto> example_file] example_reader ''b'' [] (Some 0) (Some True) =
      Some (Status_OK, ''2'', Some 2, Some False) \<and>
   SSTableReader_Get (\<lambda>_. True) [''t'' \<mapsto> example_file] example_reader ''c'' [] None None =
      Some (Status_NotFound ''Key not found in block'', [], None, None)"
proof -
  let ?R = example_reader
  have R: "rd_comparator (rd_options ?R) = None" "rd_filename ?R = ''t''" "BloomFilterCheck ?R key = Some True" for key
    by (simp_all add: example_reader_def SSTableReader_new_def SSTableReaderOptions_default_def BloomFilterCheck_def)
  have sizes: "length (block_bytes (example_blocks ! 0)) = 46" "length (block_bytes (example_blocks ! 1)) = 26"
    by (simp_all add: block_bytes_def example_blocks_def)
  have lt: "key_lt None ''a'' ''b''" "key_lt None ''a'' ''k''" "key_lt None ''b'' ''k''"
    by (simp_all add: key_lt_def Compare_def Slice_compare_lex byte_val_def)
  have ex: "example_file = [] @ block_bytes (example_blocks ! 0) @ block_bytes (example_blocks ! 1)"
    "example_file = block_bytes (example_blocks ! 0) @ block_bytes (example_blocks ! 1) @ []"
    by (simp_all add: example_file_def example_blocks_def)
  have len: "length example_file < 9223372036854775808" unfolding ex(1) using sizes by simp
  have e0: "\<exists>pre post. example_file = pre @ block_bytes (example_blocks ! 0) @ post \<and>
      \<lparr>bh_offset = 0, bh_size = 46\<rparr> = \<lparr>bh_offset = of_nat (length pre), bh_size = of_nat (length (block_bytes (example_blocks ! 0)))\<rparr>"
    by (intro exI conjI, rule ex(1)) (simp add: sizes)
  have e1: "\<exists>pre post. example_file = pre @ block_bytes (example_blocks ! 1) @ post \<and>
      \<lparr>bh_offset = 46, bh_size = 26\<rparr> = \<lparr>bh_offset = of_nat (length pre), bh_size = of_nat (length (block_bytes (example_blocks ! 1)))\<rparr>"
    by (intro exI conjI, rule ex(2)) (simp add: sizes [simplified])
  have t: "table_file None example_file (rd_index_entries ?R) example_blocks"
    using e0 e1 lt len sizes
    by (simp add: table_file_def example_reader_def example_blocks_def small_entry_def)
  have get: "SSTableReader_Get (\<lambda>_. True) [''t'' \<mapsto> example_file] ?R key x q d =
    Some (case map_of (concat example_blocks) key of
        Some (v, s, del) \<Rightarrow> (Status_OK, v, map_option (\<lambda>_. ucast (ucast s :: u32)) q, map_option (\<lambda>_. del) d)
      | None \<Rightarrow> (Status_NotFound (if example_blocks = [] then ''Key not found'' else ''Key not found in block''), x, q, d))" for key x q d
    using reader_get [of ?R "[''t'' \<mapsto> example_file]" example_file example_blocks key x q d] t
    unfolding R by (simp add: default_order.key_order_axioms)
  show ?thesis unfolding get by (simp add: example_blocks_def)
qed

end
