(* ===== verification/MemTable.thy ===== *)
theory MemTable
  imports Status Slice Text
begin

text \<open>
  \<open>include/memtable/memtable.h\<close> and \<open>src/memtable/memtable.cpp\<close>: the skip list of the memory
  table over an explicit heap.  A pointer is an address, 0 is the null pointer, and reading through
  an address that holds no node is undefined (\<^term>\<open>None\<close>).  The coin tosses of \<open>RandomLevel\<close>
  are an input, as is the number of bytes that a node of a given level occupies.  The walks take
  fuel: every step moves to a later node or one level down, so one unit per allocated address and
  per level is enough.
\<close>

record MemTableOptions =
  max_size :: u64
  max_level :: nat
  mem_comparator :: "Comparator option"

definition MemTableOptions_default :: MemTableOptions where
  "MemTableOptions_default = \<lparr>max_size = 64 * 1024 * 1024, max_level = 12, mem_comparator = None\<rparr>"

record MemNode =
  node_key :: bytes
  node_value :: bytes
  forward :: "nat list"
  node_seq :: u64
  node_deleted :: bool

definition MemNode_new :: "bytes \<Rightarrow> bytes \<Rightarrow> nat \<Rightarrow> u64 \<Rightarrow> bool \<Rightarrow> MemNode" where
  "MemNode_new k v level seq deleted =
     \<lparr>node_key = k, node_value = v, forward = replicate level 0, node_seq = seq, node_deleted = deleted\<rparr>"

record SkipList =
  skip_nodes :: "nat \<rightharpoonup> MemNode"
  skip_next :: nat
  skip_head :: nat
  skip_max_level :: nat
  current_max_level :: nat
  skip_comparator :: "Comparator option"

record MemTable =
  table_impl :: SkipList
  table_options :: MemTableOptions
  table_size :: u64
  memory_usage :: u64
  max_sequence :: u64

section \<open>The skip list\<close>

text \<open>\<open>new Node(...)\<close>, and an assignment to \<open>forward[i]\<close> of a node.\<close>

definition new_skip_node :: "MemNode \<Rightarrow> SkipList \<Rightarrow> nat \<times> SkipList" where
  "new_skip_node n S = (skip_next S, S\<lparr>skip_nodes := (skip_nodes S)(skip_next S \<mapsto> n), skip_next := skip_next S + 1\<rparr>)"

definition set_forward :: "nat \<Rightarrow> nat \<Rightarrow> nat \<Rightarrow> SkipList \<Rightarrow> SkipList option" where
  "set_forward a i p S = do {
     n \<leftarrow> skip_nodes S a;
     fs \<leftarrow> vec_set (forward n) i p;
     Some (S\<lparr>skip_nodes := (skip_nodes S)(a \<mapsto> n\<lparr>forward := fs\<rparr>)\<rparr>)
   }"

definition get_forward :: "SkipList \<Rightarrow> nat \<Rightarrow> nat \<Rightarrow> nat option" where
  "get_forward S a i = do { n \<leftarrow> skip_nodes S a; vec_get (forward n) i }"

definition SkipList_new :: "MemTableOptions \<Rightarrow> SkipList" where
  "SkipList_new options =
     (let S = \<lparr>skip_nodes = Map.empty, skip_next = 1, skip_head = 0, skip_max_level = max_level options,
               current_max_level = 1, skip_comparator = mem_comparator options\<rparr>;
          (head, S) = new_skip_node (MemNode_new [] [] (max_level options + 1) 0 False) S
      in S\<lparr>skip_head := head\<rparr>)"

text \<open>The destructor deletes the nodes along the lowest level and then the head.\<close>

fun delete_nodes :: "nat \<Rightarrow> nat \<Rightarrow> SkipList \<Rightarrow> SkipList option" where
  "delete_nodes 0 current S = None"
| "delete_nodes (Suc n) current S =
     (if current = 0 then Some S
      else do {
        next_node \<leftarrow> get_forward S current 0;
        delete_nodes n next_node (S\<lparr>skip_nodes := (skip_nodes S)(current := None)\<rparr>)
      })"

definition SkipList_destroy :: "SkipList \<Rightarrow> SkipList option" where
  "SkipList_destroy S = do {
     current \<leftarrow> get_forward S (skip_head S) 0;
     S \<leftarrow> delete_nodes (skip_next S) current S;
     Some (S\<lparr>skip_nodes := (skip_nodes S)(skip_head S := None)\<rparr>)
   }"

text \<open>\<open>coins\<close> are the values of \<open>dist(rng) < probability\<close>.\<close>

fun RandomLevel_loop :: "nat \<Rightarrow> bool list \<Rightarrow> nat \<Rightarrow> nat" where
  "RandomLevel_loop max_lev [] level = level"
| "RandomLevel_loop max_lev (coin # coins) level =
     (if level < max_lev \<and> coin then RandomLevel_loop max_lev coins (level + 1) else level)"

definition RandomLevel :: "bool list \<Rightarrow> SkipList \<Rightarrow> nat" where
  "RandomLevel coins S = RandomLevel_loop (skip_max_level S) coins 1"

definition CompareKeys :: "SkipList \<Rightarrow> bytes \<Rightarrow> bytes \<Rightarrow> int" where
  "CompareKeys S a b = (case skip_comparator S of Some c \<Rightarrow> c a b | None \<Rightarrow> Slice_compare a b)"

text \<open>\<open>next && CompareKeys(next->key, key) < 0\<close>.\<close>

definition next_is_less :: "SkipList \<Rightarrow> nat \<Rightarrow> bytes \<Rightarrow> bool option" where
  "next_is_less S nx key =
     (if nx = 0 then Some False else do { n \<leftarrow> skip_nodes S nx; Some (CompareKeys S (node_key n) key < 0) })"

definition skip_fuel :: "SkipList \<Rightarrow> nat" where
  "skip_fuel S = skip_next S + current_max_level S"

text \<open>\<open>prev\<close> is \<^term>\<open>None\<close> for a null pointer to the vector.\<close>

definition set_prev :: "nat list option \<Rightarrow> nat \<Rightarrow> nat \<Rightarrow> nat list option option" where
  "set_prev prev level current = (case prev of None \<Rightarrow> Some None | Some p \<Rightarrow> map_option Some (vec_set p level current))"

fun find_ge_loop :: "nat \<Rightarrow> SkipList \<Rightarrow> bytes \<Rightarrow> nat \<Rightarrow> nat \<Rightarrow> nat list option \<Rightarrow> (nat \<times> nat list option) option" where
  "find_ge_loop 0 S key current level prev = None"
| "find_ge_loop (Suc n) S key current level prev = do {
     next_node \<leftarrow> get_forward S current level;
     less \<leftarrow> next_is_less S next_node key;
     if less then find_ge_loop n S key next_node level prev
     else do {
       prev \<leftarrow> set_prev prev level current;
       if level = 0 then Some (next_node, prev) else find_ge_loop n S key current (level - 1) prev
     }
   }"

definition FindGreaterOrEqual :: "SkipList \<Rightarrow> bytes \<Rightarrow> bool \<Rightarrow> (nat \<times> nat list option) option" where
  "FindGreaterOrEqual S key with_prev =
     find_ge_loop (skip_fuel S) S key (skip_head S) (current_max_level S - 1)
       (if with_prev then Some (replicate (skip_max_level S + 1) 0) else None)"

fun find_less_loop :: "nat \<Rightarrow> SkipList \<Rightarrow> bytes \<Rightarrow> nat \<Rightarrow> nat \<Rightarrow> nat option" where
  "find_less_loop 0 S key current level = None"
| "find_less_loop (Suc n) S key current level = do {
     next_node \<leftarrow> get_forward S current level;
     less \<leftarrow> next_is_less S next_node key;
     if less then find_less_loop n S key next_node level
     else if level = 0 then Some current
     else find_less_loop n S key current (level - 1)
   }"

definition FindLessThan :: "SkipList \<Rightarrow> bytes \<Rightarrow> nat option" where
  "FindLessThan S key = find_less_loop (skip_fuel S) S key (skip_head S) (current_max_level S - 1)"

fun find_last_loop :: "nat \<Rightarrow> SkipList \<Rightarrow> nat \<Rightarrow> nat \<Rightarrow> nat option" where
  "find_last_loop 0 S current level = None"
| "find_last_loop (Suc n) S current level = do {
     next_node \<leftarrow> get_forward S current level;
     if next_node \<noteq> 0 then find_last_loop n S next_node level
     else if level = 0 then Some current
     else find_last_loop n S current (level - 1)
   }"

definition FindLast :: "SkipList \<Rightarrow> nat option" where
  "FindLast S = find_last_loop (skip_fuel S) S (skip_head S) (current_max_level S - 1)"

definition InsertNode :: "nat \<Rightarrow> nat list \<Rightarrow> SkipList \<Rightarrow> SkipList option" where
  "InsertNode node prev S = do {
     n \<leftarrow> skip_nodes S node;
     let levels = length (forward n);
     S \<leftarrow> for_range 0 levels (\<lambda>i S. do {
       p \<leftarrow> vec_get prev i;
       f \<leftarrow> get_forward S p i;
       S \<leftarrow> set_forward node i f S;
       set_forward p i node S
     }) S;
     Some (if levels > current_max_level S then S\<lparr>current_max_level := levels\<rparr> else S)
   }"

text \<open>The end of \<open>DeleteNode\<close>: \<open>next\<close> is unlinked from its predecessors, deleted, and the level lowered.\<close>

fun lower_level :: "SkipList \<Rightarrow> nat \<Rightarrow> nat option" where
  "lower_level S 0 = Some 0"
| "lower_level S (Suc l) =
     (if l = 0 then Some 1
      else do { f \<leftarrow> get_forward S (skip_head S) l; if f = 0 then lower_level S l else Some (Suc l) })"

definition unlink_node :: "nat \<Rightarrow> nat list option \<Rightarrow> SkipList \<Rightarrow> SkipList option" where
  "unlink_node nx prev S = do {
     S \<leftarrow> for_range 0 (current_max_level S) (\<lambda>i S.
       case prev of
         None \<Rightarrow> Some S
       | Some ps \<Rightarrow> do {
           p \<leftarrow> vec_get ps i;
           f \<leftarrow> get_forward S p i;
           if f = nx then do { g \<leftarrow> get_forward S nx i; set_forward p i g S } else Some S
         }) S;
     let S = S\<lparr>skip_nodes := (skip_nodes S)(nx := None)\<rparr>;
     l \<leftarrow> lower_level S (current_max_level S);
     Some (S\<lparr>current_max_level := l\<rparr>)
   }"

fun delete_node_loop ::
  "nat \<Rightarrow> bytes \<Rightarrow> nat \<Rightarrow> nat \<Rightarrow> nat list option \<Rightarrow> SkipList \<Rightarrow> (bool \<times> nat list option \<times> SkipList) option" where
  "delete_node_loop 0 key current level prev S = None"
| "delete_node_loop (Suc n) key current level prev S = do {
     next_node \<leftarrow> get_forward S current level;
     less \<leftarrow> next_is_less S next_node key;
     if less then delete_node_loop n key next_node level prev S
     else do {
       prev \<leftarrow> set_prev prev level current;
       if level = 0 then
         if next_node = 0 then Some (False, prev, S)
         else do {
           m \<leftarrow> skip_nodes S next_node;
           if CompareKeys S (node_key m) key = 0
           then do { S \<leftarrow> unlink_node next_node prev S; Some (True, prev, S) }
           else Some (False, prev, S)
         }
       else delete_node_loop n key current (level - 1) prev S
     }
   }"

definition DeleteNode :: "bytes \<Rightarrow> bool \<Rightarrow> SkipList \<Rightarrow> (bool \<times> nat list option \<times> SkipList) option" where
  "DeleteNode key with_prev S =
     delete_node_loop (skip_fuel S) key (skip_head S) (current_max_level S - 1)
       (if with_prev then Some (replicate (skip_max_level S + 1) 0) else None) S"

section \<open>The table\<close>

definition MemTable_new :: "MemTableOptions \<Rightarrow> MemTable" where
  "MemTable_new options =
     \<lparr>table_impl = SkipList_new options, table_options = options, table_size = 0, memory_usage = 0, max_sequence = 0\<rparr>"

text \<open>\<open>existing && CompareKeys(existing->key, key) == 0\<close>: the node, if the pointer is not null and the key equal.\<close>

definition matching_node :: "SkipList \<Rightarrow> nat \<Rightarrow> bytes \<Rightarrow> MemNode option option" where
  "matching_node S p key =
     (if p = 0 then Some None
      else do { n \<leftarrow> skip_nodes S p; Some (if CompareKeys S (node_key n) key = 0 then Some n else None) })"

definition write_node :: "nat \<Rightarrow> MemNode \<Rightarrow> SkipList \<Rightarrow> SkipList" where
  "write_node p n S = S\<lparr>skip_nodes := (skip_nodes S)(p \<mapsto> n)\<rparr>"

text \<open>A new node of a random level, linked behind \<open>prev\<close>; its level is returned.\<close>

definition insert_new :: "bool list \<Rightarrow> bytes \<Rightarrow> bytes \<Rightarrow> u64 \<Rightarrow> bool \<Rightarrow> nat list option \<Rightarrow> SkipList \<Rightarrow> (nat \<times> SkipList) option" where
  "insert_new coins key val seq deleted prev S = do {
     let level = RandomLevel coins S;
     let (p, S) = new_skip_node (MemNode_new key val level seq deleted) S;
     ps \<leftarrow> prev;
     S \<leftarrow> InsertNode p ps S;
     Some (level, S)
   }"

definition MemTable_Put ::
  "(nat \<Rightarrow> nat) \<Rightarrow> bool list \<Rightarrow> bytes \<Rightarrow> bytes \<Rightarrow> u64 \<Rightarrow> MemTable \<Rightarrow> (Status \<times> MemTable) option" where
  "MemTable_Put node_bytes coins key val seq M = do {
     (existing, prev) \<leftarrow> FindGreaterOrEqual (table_impl M) key True;
     m \<leftarrow> matching_node (table_impl M) existing key;
     case m of
       Some n \<Rightarrow>
         Some (Status_OK, M\<lparr>
           table_impl := write_node existing (n\<lparr>node_value := val, node_seq := seq, node_deleted := False\<rparr>) (table_impl M),
           memory_usage := memory_usage M + (of_nat (length val) - of_nat (length (node_value n))),
           max_sequence := max (max_sequence M) seq\<rparr>)
     | None \<Rightarrow> do {
         (level, S) \<leftarrow> insert_new coins key val seq False prev (table_impl M);
         Some (Status_OK, M\<lparr>
           table_impl := S,
           table_size := table_size M + 1,
           memory_usage := memory_usage M + of_nat (length key + length val + node_bytes level),
           max_sequence := max (max_sequence M) seq\<rparr>)
       }
   }"

text \<open>\<open>Get\<close> returns its status and the values behind its two pointers (the second may be null).\<close>

definition MemTable_Get ::
  "bytes \<Rightarrow> bytes \<Rightarrow> u64 option \<Rightarrow> MemTable \<Rightarrow> (Status \<times> bytes \<times> u64 option) option" where
  "MemTable_Get key val seq M = do {
     (p, _) \<leftarrow> FindGreaterOrEqual (table_impl M) key False;
     m \<leftarrow> matching_node (table_impl M) p key;
     Some (case m of
         None \<Rightarrow> (Status_NotFound ''Key not found'', val, seq)
       | Some n \<Rightarrow>
           if node_deleted n then (Status_NotFound ''Key deleted'', val, seq)
           else (Status_OK, node_value n, map_option (\<lambda>_. node_seq n) seq))
   }"

definition MemTable_Delete ::
  "(nat \<Rightarrow> nat) \<Rightarrow> bool list \<Rightarrow> bytes \<Rightarrow> u64 \<Rightarrow> MemTable \<Rightarrow> (Status \<times> MemTable) option" where
  "MemTable_Delete node_bytes coins key seq M = do {
     (existing, prev) \<leftarrow> FindGreaterOrEqual (table_impl M) key True;
     m \<leftarrow> matching_node (table_impl M) existing key;
     case m of
       Some n \<Rightarrow>
         let M' = (if \<not> node_deleted n
                   then M\<lparr>table_size := table_size M - 1, memory_usage := memory_usage M - of_nat (length (node_value n))\<rparr>
                   else M);
             n' = (if \<not> node_deleted n then n\<lparr>node_value := []\<rparr> else n)
         in Some (Status_OK, M'\<lparr>
              table_impl := write_node existing (n'\<lparr>node_deleted := True, node_seq := seq\<rparr>) (table_impl M),
              max_sequence := max (max_sequence M) seq\<rparr>)
     | None \<Rightarrow> do {
         (level, S) \<leftarrow> insert_new coins key [] seq True prev (table_impl M);
         Some (Status_OK, M\<lparr>
           table_impl := S,
           memory_usage := memory_usage M + of_nat (length key + node_bytes level),
           max_sequence := max (max_sequence M) seq\<rparr>)
       }
   }"

definition Contains :: "bytes \<Rightarrow> MemTable \<Rightarrow> bool option" where
  "Contains key M = do {
     (p, _) \<leftarrow> FindGreaterOrEqual (table_impl M) key False;
     m \<leftarrow> matching_node (table_impl M) p key;
     Some (m \<noteq> None)
   }"

definition MemTable_IsFull :: "MemTable \<Rightarrow> bool" where
  "MemTable_IsFull M \<longleftrightarrow> memory_usage M \<ge> max_size (table_options M)"

section \<open>The iterator\<close>

record MemTableIterator =
  iter_current :: nat
  iter_status :: Status

definition mem_FindFirst :: "MemTable \<Rightarrow> MemTableIterator \<Rightarrow> MemTableIterator option" where
  "mem_FindFirst M it = do {
     p \<leftarrow> get_forward (table_impl M) (skip_head (table_impl M)) 0;
     Some (it\<lparr>iter_current := p\<rparr>)
   }"

definition MemTableIterator_new :: "MemTable \<Rightarrow> MemTableIterator option" where
  "MemTableIterator_new M = mem_FindFirst M \<lparr>iter_current = 0, iter_status = Status_OK\<rparr>"

definition mem_Valid :: "MemTableIterator \<Rightarrow> bool" where
  "mem_Valid it \<longleftrightarrow> iter_current it \<noteq> 0 \<and> Status_ok (iter_status it)"

definition mem_SeekToFirst :: "MemTable \<Rightarrow> MemTableIterator \<Rightarrow> MemTableIterator option" where
  "mem_SeekToFirst M it = mem_FindFirst M it"

definition mem_status :: "MemTableIterator \<Rightarrow> Status" where
  "mem_status it = iter_status it"

definition mem_NewIterator :: "MemTable \<Rightarrow> MemTableIterator option" where
  "mem_NewIterator M = MemTableIterator_new M"

definition mem_SeekToLast :: "MemTable \<Rightarrow> MemTableIterator \<Rightarrow> MemTableIterator option" where
  "mem_SeekToLast M it = do {
     p \<leftarrow> FindLast (table_impl M);
     Some (it\<lparr>iter_current := (if p = skip_head (table_impl M) then 0 else p)\<rparr>)
   }"

definition mem_Seek :: "MemTable \<Rightarrow> bytes \<Rightarrow> MemTableIterator \<Rightarrow> MemTableIterator option" where
  "mem_Seek M target it = do {
     (p, _) \<leftarrow> FindGreaterOrEqual (table_impl M) target False;
     Some (it\<lparr>iter_current := p\<rparr>)
   }"

definition mem_Next :: "MemTable \<Rightarrow> MemTableIterator \<Rightarrow> MemTableIterator option" where
  "mem_Next M it =
     (if iter_current it = 0 then Some it
      else do { p \<leftarrow> get_forward (table_impl M) (iter_current it) 0; Some (it\<lparr>iter_current := p\<rparr>) })"

definition mem_Prev :: "MemTableIterator \<Rightarrow> MemTableIterator" where
  "mem_Prev it = it\<lparr>iter_status := Status_NotSupported ''Prev not implemented for skip list iterator''\<rparr>"

text \<open>\<open>key()\<close>, \<open>value()\<close>, \<open>sequence_number()\<close> and \<open>is_deleted()\<close>, with their defaults at the end.\<close>

definition mem_read :: "(MemNode \<Rightarrow> 'a) \<Rightarrow> 'a \<Rightarrow> MemTable \<Rightarrow> MemTableIterator \<Rightarrow> 'a option" where
  "mem_read sel dflt M it =
     (if iter_current it = 0 then Some dflt else map_option sel (skip_nodes (table_impl M) (iter_current it)))"

definition mem_key :: "MemTable \<Rightarrow> MemTableIterator \<Rightarrow> bytes option" where
  "mem_key = mem_read node_key []"

definition mem_value :: "MemTable \<Rightarrow> MemTableIterator \<Rightarrow> bytes option" where
  "mem_value = mem_read node_value []"

definition mem_sequence_number :: "MemTable \<Rightarrow> MemTableIterator \<Rightarrow> u64 option" where
  "mem_sequence_number = mem_read node_seq 0"

definition mem_is_deleted :: "MemTable \<Rightarrow> MemTableIterator \<Rightarrow> bool option" where
  "mem_is_deleted = mem_read node_deleted False"

section \<open>Print and Verify\<close>

fun print_nodes :: "nat \<Rightarrow> SkipList \<Rightarrow> nat \<Rightarrow> string option" where
  "print_nodes 0 S current = None"
| "print_nodes (Suc n) S current =
     (if current = 0 then Some []
      else do {
        m \<leftarrow> skip_nodes S current;
        f \<leftarrow> get_forward S current 0;
        rest \<leftarrow> print_nodes n S f;
        Some (''  '' @ node_key m @ '' -> '' @ (if node_deleted m then ''[DELETED]'' else node_value m) @
          '' (seq='' @ to_dec (unat (node_seq m)) @ '')'' @ [CHR 0x0A] @ rest)
      })"

definition MemTable_Print :: "MemTable \<Rightarrow> string option" where
  "MemTable_Print M = do {
     p \<leftarrow> get_forward (table_impl M) (skip_head (table_impl M)) 0;
     rest \<leftarrow> print_nodes (skip_fuel (table_impl M)) (table_impl M) p;
     Some (''MemTable: size='' @ to_dec (unat (table_size M)) @ '', memory='' @ to_dec (unat (memory_usage M)) @
       '', max_seq='' @ to_dec (unat (max_sequence M)) @ [CHR 0x0A] @ rest)
   }"

fun verify_nodes :: "nat \<Rightarrow> SkipList \<Rightarrow> nat \<Rightarrow> bool option" where
  "verify_nodes 0 S current = None"
| "verify_nodes (Suc n) S current =
     (if current = 0 then Some True
      else do {
        f \<leftarrow> get_forward S current 0;
        if f = 0 then Some True
        else do {
          a \<leftarrow> skip_nodes S current;
          b \<leftarrow> skip_nodes S f;
          if CompareKeys S (node_key a) (node_key b) \<ge> 0 then Some False else verify_nodes n S f
        }
      })"

definition MemTable_Verify :: "MemTable \<Rightarrow> bool option" where
  "MemTable_Verify M = do {
     p \<leftarrow> get_forward (table_impl M) (skip_head (table_impl M)) 0;
     verify_nodes (skip_fuel (table_impl M)) (table_impl M) p
   }"

end
