(* ===== verification/Flush.thy ===== *)
theory Flush
  imports MemTable SSTable
begin

text \<open>
  \<open>include/flush/flush.h\<close> and \<open>src/flush/flush.cpp\<close>: the flush manager with its background threads,
  and the flush scheduler.

  The threads share the queue and the counters of \<open>Impl\<close>.  A thread is its program counter between
  the critical sections of \<open>FlushThreadMain\<close>; \<open>thread_step\<close> is one step of some thread, and
  the calls of the other threads (\<open>ScheduleFlush\<close>, the two halves of \<open>Stop\<close>) come in between.  A
  callback is known by a number, and its invocations are recorded.  The clock and the random number
  of the file name are inputs.  The destination of a null \<open>impl_\<close> is \<^term>\<open>None\<close>.
\<close>

section \<open>The flush of one table\<close>

record FlushOptions =
  max_memtable_size :: u64
  max_write_buffer_size :: u64
  max_background_flushes :: int
  db_path :: string
  sstable_options :: SSTableOptions
  flush_comparator :: "Comparator option"

definition FlushOptions_default :: FlushOptions where
  "FlushOptions_default = \<lparr>max_memtable_size = 64 * 1024 * 1024, max_write_buffer_size = 128 * 1024 * 1024,
     max_background_flushes = 4, db_path = [], sstable_options = SSTableOptions_default, flush_comparator = None\<rparr>"

text \<open>The numbers of a \<open>FlushResult\<close> are not initialised before they are assigned (\<^term>\<open>None\<close>).\<close>

record FlushResult =
  res_file :: string
  res_min_sequence :: "u64 option"
  res_max_sequence :: "u64 option"
  res_num_entries :: "nat option"
  res_file_size :: "nat option"
  res_smallest_key :: bytes
  res_largest_key :: bytes

definition FlushResult_new :: FlushResult where
  "FlushResult_new = \<lparr>res_file = [], res_min_sequence = None, res_max_sequence = None, res_num_entries = None,
     res_file_size = None, res_smallest_key = [], res_largest_key = []\<rparr>"

text \<open>
  The loop over the table: the status of the first rejected entry ends it.  It is \<^term>\<open>None\<close> where a read or
  \<open>Add\<close> is undefined, or where the fuel does not last; the number of nodes ever allocated is enough for
  every table that puts and deletes have built (\<open>flush_loop\<close> in \<open>Flush_Properties\<close>).
\<close>

fun flush_entries :: "nat \<Rightarrow> MemTable \<Rightarrow> MemTableIterator \<Rightarrow> SSTableBuilder \<Rightarrow> (Status \<times> MemTableIterator \<times> SSTableBuilder) option" where
  "flush_entries 0 M it b = None"
| "flush_entries (Suc n) M it b =
     (if \<not> mem_Valid it then Some (Status_OK, it, b)
      else do {
        k \<leftarrow> mem_key M it;
        v \<leftarrow> mem_value M it;
        q \<leftarrow> mem_sequence_number M it;
        d \<leftarrow> mem_is_deleted M it;
        (s, b) \<leftarrow> SSTableBuilder_Add k v q d b;
        if \<not> Status_ok s then Some (s, it, b)
        else do { it \<leftarrow> mem_Next M it; flush_entries n M it b }
      })"

definition flush_filename :: "FlushOptions \<Rightarrow> nat \<Rightarrow> nat \<Rightarrow> string" where
  "flush_filename opts timestamp rnd = db_path opts @ ''/sst_'' @ to_dec timestamp @ ''_'' @ to_dec rnd @ ''.sst''"

definition PerformFlush ::
  "SstEnv \<Rightarrow> nat \<Rightarrow> nat \<Rightarrow> FlushOptions \<Rightarrow> MemTable option \<Rightarrow> FlushResult \<Rightarrow> sst_files \<Rightarrow> (Status \<times> FlushResult \<times> sst_files) option" where
  "PerformFlush e timestamp rnd opts memtable result files =
     (case memtable of
        None \<Rightarrow> Some (Status_OK, result, files)
      | Some M \<Rightarrow>
          if table_size M = 0 then Some (Status_OK, result, files)
          else do {
            let filename = flush_filename opts timestamp rnd;
            let b = SSTableBuilder_new (sstable_options opts);
            it \<leftarrow> MemTableIterator_new M;
            it \<leftarrow> mem_FindFirst M it;
            (s, it, b) \<leftarrow> flush_entries (skip_fuel (table_impl M)) M it b;
            if \<not> Status_ok s then Some (s, result, files)
            else if \<not> Status_ok (iter_status it) then Some (iter_status it, result, files)
            else do {
              (s, b, files) \<leftarrow> SSTableBuilder_Finish e filename b files;
              if \<not> Status_ok s then Some (s, result, files)
              else Some (Status_OK, result\<lparr>res_file := filename, res_min_sequence := Some (min_seq b),
                res_max_sequence := Some (max_seq b), res_num_entries := Some (num_entries b),
                res_file_size := Some (sst_file_size b), res_smallest_key := smallest_key b,
                res_largest_key := largest_key b\<rparr>, files)
            }
          })"

section \<open>The threads\<close>

record FlushJob =
  job_memtable :: MemTable
  job_callback :: "nat option"
  job_id :: u64

text \<open>
  Where a thread is: waiting on the queue; with a job it has popped; performing the flush, counted
  in \<open>active_flushes\<close>; after the callback; and returned.
\<close>

datatype flush_pc = Waiting | Taken FlushJob | Flushing FlushJob | Flushed | Exited

record FlushImpl =
  impl_options :: FlushOptions
  flush_threads :: "flush_pc list"
  flush_queue :: "FlushJob list"
  next_job_id :: u64
  active_flushes :: int
  stopping :: bool
  flush_files :: sst_files
  callbacks :: "(nat \<times> FlushResult \<times> Status) list"

definition FlushImpl_new :: "FlushOptions \<Rightarrow> sst_files \<Rightarrow> FlushImpl" where
  "FlushImpl_new opts files = \<lparr>impl_options = opts, flush_threads = [], flush_queue = [], next_job_id = 1, active_flushes = 0,
     stopping = False, flush_files = files, callbacks = []\<rparr>"

definition set_pc :: "nat \<Rightarrow> flush_pc \<Rightarrow> FlushImpl \<Rightarrow> FlushImpl" where
  "set_pc i pc I = I\<lparr>flush_threads := (flush_threads I)[i := pc]\<rparr>"

definition run_callback :: "nat option \<Rightarrow> FlushResult \<Rightarrow> Status \<Rightarrow> FlushImpl \<Rightarrow> FlushImpl" where
  "run_callback cb result s I = (case cb of None \<Rightarrow> I | Some c \<Rightarrow> I\<lparr>callbacks := callbacks I @ [(c, result, s)]\<rparr>)"

text \<open>
  One step of thread \<open>i\<close> in \<open>FlushThreadMain\<close>: pop a job, or return when stopping with an empty queue
  (both under the mutex of the queue); count; flush and call back; count down and notify.
\<close>

inductive thread_step :: "SstEnv \<Rightarrow> FlushImpl \<Rightarrow> FlushImpl \<Rightarrow> bool" for e :: SstEnv where
  pop: "i < length (flush_threads I) \<Longrightarrow> flush_threads I ! i = Waiting \<Longrightarrow> flush_queue I = job # jobs \<Longrightarrow>
    thread_step e I (set_pc i (Taken job) (I\<lparr>flush_queue := jobs\<rparr>))"
| exit: "i < length (flush_threads I) \<Longrightarrow> flush_threads I ! i = Waiting \<Longrightarrow> stopping I \<Longrightarrow> flush_queue I = [] \<Longrightarrow>
    thread_step e I (set_pc i Exited I)"
| count: "i < length (flush_threads I) \<Longrightarrow> flush_threads I ! i = Taken job \<Longrightarrow>
    thread_step e I (set_pc i (Flushing job) (I\<lparr>active_flushes := active_flushes I + 1\<rparr>))"
| flush: "i < length (flush_threads I) \<Longrightarrow> flush_threads I ! i = Flushing job \<Longrightarrow>
    PerformFlush e timestamp rnd (impl_options I) (Some (job_memtable job)) FlushResult_new (flush_files I) = Some (s, result, files) \<Longrightarrow>
    thread_step e I (set_pc i Flushed (run_callback (job_callback job) result s (I\<lparr>flush_files := files\<rparr>)))"
| finish: "i < length (flush_threads I) \<Longrightarrow> flush_threads I ! i = Flushed \<Longrightarrow>
    thread_step e I (set_pc i Waiting (I\<lparr>active_flushes := active_flushes I - 1\<rparr>))"

section \<open>The manager\<close>

record FlushManager =
  fm_impl :: "FlushImpl option"
  fm_options :: FlushOptions
  fm_memory_usage :: u64
  running :: bool

definition FlushManager_new :: "FlushOptions \<Rightarrow> sst_files \<Rightarrow> FlushManager" where
  "FlushManager_new opts files = \<lparr>fm_impl = Some (FlushImpl_new opts files), fm_options = opts, fm_memory_usage = 0, running = False\<rparr>"

definition FlushManager_Start :: "FlushManager \<Rightarrow> FlushManager option" where
  "FlushManager_Start F =
     (if running F then Some F
      else do {
        I \<leftarrow> fm_impl F;
        Some (F\<lparr>running := True, fm_impl := Some (I\<lparr>stopping := False,
          flush_threads := flush_threads I @ replicate (nat (max_background_flushes (fm_options F))) Waiting\<rparr>)\<rparr>)
      })"

text \<open>\<open>Stop\<close> up to the notification, and its end once every thread has been joined.\<close>

definition Stop_request :: "FlushManager \<Rightarrow> FlushManager option" where
  "Stop_request F =
     (if \<not> running F then Some F
      else do { I \<leftarrow> fm_impl F; Some (F\<lparr>fm_impl := Some (I\<lparr>stopping := True\<rparr>)\<rparr>) })"

definition Stop_joined :: "FlushManager \<Rightarrow> bool" where
  "Stop_joined F \<longleftrightarrow> \<not> running F \<or> (case fm_impl F of None \<Rightarrow> False | Some I \<Rightarrow> list_all (\<lambda>pc. pc = Exited) (flush_threads I))"

definition Stop_end :: "FlushManager \<Rightarrow> FlushManager option" where
  "Stop_end F =
     (if \<not> running F then Some F
      else do { I \<leftarrow> fm_impl F; Some (F\<lparr>fm_impl := Some (I\<lparr>flush_threads := []\<rparr>), running := False\<rparr>) })"

text \<open>
  The move constructor: the new manager, and what is left in the old one, whose \<open>db_path\<close> (a moved
  string) then holds some \<open>left\<close>.
\<close>

definition FlushManager_move :: "string \<Rightarrow> FlushManager \<Rightarrow> FlushManager \<times> FlushManager" where
  "FlushManager_move left other =
     (\<lparr>fm_impl = fm_impl other, fm_options = fm_options other, fm_memory_usage = fm_memory_usage other, running = running other\<rparr>,
      other\<lparr>fm_impl := None, fm_options := (fm_options other)\<lparr>db_path := left\<rparr>\<rparr>)"

text \<open>
  One step: the check of \<open>running_\<close>, the number of the job and the push onto the queue.  This is the call where
  the owners of the manager call it one after the other, since the flush threads read neither \<open>running_\<close> nor
  \<open>next_job_id\<close>; two calls at a time could push their jobs in the other order of their numbers.
\<close>

definition ScheduleFlush :: "MemTable option \<Rightarrow> nat option \<Rightarrow> FlushManager \<Rightarrow> (Status \<times> FlushManager) option" where
  "ScheduleFlush memtable cb F =
     (if \<not> running F then Some (Status_InvalidArgument ''FlushManager not started'', F)
      else case memtable of
        Some M \<Rightarrow>
          if table_size M = 0
          then Some (Status_OK, F\<lparr>fm_impl := map_option (run_callback cb FlushResult_new Status_OK) (fm_impl F)\<rparr>)
          else do {
            I \<leftarrow> fm_impl F;
            let job = \<lparr>job_memtable = M, job_callback = cb, job_id = next_job_id I\<rparr>;
            Some (Status_OK, F\<lparr>fm_impl := Some (I\<lparr>next_job_id := next_job_id I + 1, flush_queue := flush_queue I @ [job]\<rparr>)\<rparr>)
          }
      | None \<Rightarrow> Some (Status_OK, F\<lparr>fm_impl := map_option (run_callback cb FlushResult_new Status_OK) (fm_impl F)\<rparr>))"

text \<open>The condition on which \<open>WaitForFlushes\<close> (and so \<open>FlushAll\<close>) returns.\<close>

definition flushes_done :: "FlushImpl \<Rightarrow> bool" where
  "flushes_done I \<longleftrightarrow> flush_queue I = [] \<and> active_flushes I = 0"

definition FlushAll :: "FlushManager \<Rightarrow> (bool \<times> Status) option" where
  "FlushAll F = do { I \<leftarrow> fm_impl F; Some (flushes_done I, Status_OK) }"

definition PendingFlushes :: "FlushManager \<Rightarrow> u64 option" where
  "PendingFlushes F = do { I \<leftarrow> fm_impl F; Some (of_nat (length (flush_queue I)) + of_int (active_flushes I)) }"

definition FlushManager_MemoryUsage :: "FlushManager \<Rightarrow> u64" where
  "FlushManager_MemoryUsage F = fm_memory_usage F"

text \<open>
  A non-negative double is a pair of a mantissa and an exponent of two: \<open>(m, k)\<close> is $m / 2^k$.
  A conversion and a product are rounded to 53 bits; the quotient is computed with enough bits, the last of which
  says whether the division is exact.  0.8 is $7205759403792794 / 2^{53}$.
\<close>

type_synonym double = "nat \<times> nat"

definition double_of :: "u64 \<Rightarrow> double" where
  "double_of w = (round_53 (unat w), 0)"

definition double_mul :: "double \<Rightarrow> double \<Rightarrow> double" where
  "double_mul x y = (round_53 (fst x * fst y), snd x + snd y)"

definition double_div :: "double \<Rightarrow> double \<Rightarrow> double" where
  "double_div x y =
     (let k = 56 + bit_len (fst y); n = fst x * 2 ^ (k + snd y); q = n div fst y; r = n mod fst y
      in (round_53 (2 * q + (if r = 0 then 0 else 1)), k + snd x + 1))"

definition double_le :: "double \<Rightarrow> double \<Rightarrow> bool" where
  "double_le x y \<longleftrightarrow> fst x * 2 ^ snd y \<le> fst y * 2 ^ snd x"

definition double_trunc :: "double \<Rightarrow> nat" where
  "double_trunc x = fst x div 2 ^ snd x"

definition double_08 :: double where
  "double_08 = (7205759403792794, 53)"

definition NeedsFlush :: "FlushManager \<Rightarrow> bool" where
  "NeedsFlush F \<longleftrightarrow> double_le (double_mul (double_of (max_write_buffer_size (fm_options F))) double_08) (double_of (fm_memory_usage F))"

section \<open>The scheduler\<close>

record SchedulerOptions =
  target_file_size :: u64
  sch_max_write_buffer_size :: u64
  sch_max_background_flushes :: int
  flush_trigger_factor :: double

definition SchedulerOptions_default :: SchedulerOptions where
  "SchedulerOptions_default = \<lparr>target_file_size = 64 * 1024 * 1024, sch_max_write_buffer_size = 128 * 1024 * 1024,
     sch_max_background_flushes = 4, flush_trigger_factor = double_08\<rparr>"

record FlushScheduler =
  sch_options :: SchedulerOptions
  current_memtable_size :: u64
  total_write_buffer_size :: u64
  active_memtables :: int
  pending_flushes :: int

definition FlushScheduler_new :: "SchedulerOptions \<Rightarrow> FlushScheduler" where
  "FlushScheduler_new opts = \<lparr>sch_options = opts, current_memtable_size = 0, total_write_buffer_size = 0, active_memtables = 0,
     pending_flushes = 0\<rparr>"

definition OnMemTableSizeChange :: "u64 \<Rightarrow> FlushScheduler \<Rightarrow> FlushScheduler" where
  "OnMemTableSizeChange new_size S =
     S\<lparr>current_memtable_size := new_size, total_write_buffer_size := total_write_buffer_size S + new_size\<rparr>"

definition OnNewMemTable :: "FlushScheduler \<Rightarrow> FlushScheduler" where
  "OnNewMemTable S = S\<lparr>active_memtables := active_memtables S + 1\<rparr>"

text \<open>The casts of a double that does not fit are undefined.\<close>

definition ShouldFlush :: "FlushScheduler \<Rightarrow> bool option" where
  "ShouldFlush S =
     (let threshold = double_trunc (double_mul (double_of (sch_max_write_buffer_size (sch_options S))) (flush_trigger_factor (sch_options S)))
      in if threshold \<ge> 2 ^ 64 then None else Some (total_write_buffer_size S \<ge> of_nat threshold))"

definition GetFlushPriority :: "FlushScheduler \<Rightarrow> nat option" where
  "GetFlushPriority S =
     (let max_size = sch_max_write_buffer_size (sch_options S)
      in if max_size = 0 then Some 0
         else
           let ratio = double_div (double_of (total_write_buffer_size S)) (double_of max_size);
               priority = double_trunc (double_mul ratio (100, 0))
           in if priority \<ge> 2 ^ 31 then None else Some (min 100 (max 0 priority)))"

definition OnFlushComplete :: "u64 \<Rightarrow> FlushScheduler \<Rightarrow> FlushScheduler" where
  "OnFlushComplete flushed_size S =
     S\<lparr>total_write_buffer_size := total_write_buffer_size S - flushed_size, pending_flushes := pending_flushes S - 1\<rparr>"

end
