(* ===== verification/MemTable_Correct.thy ===== *)
theory MemTable_Correct
  imports MemTable
begin

text \<open>
  The skip list as a sorted list of entries.  \<open>current_max_level\<close> starts at 1 and only an insertion
  of a higher node would raise it, but such an insertion follows a null pointer (\<open>prev\<close> has no
  entry for a level above the current one), so on every defined execution the list has one level.
  \<open>table_rep S xs\<close>: the skip list \<open>S\<close> holds the entries \<open>xs\<close> at their addresses, and nothing
  else is allocated.
\<close>

type_synonym mem_item = "bytes \<times> bytes \<times> u64 \<times> bool"

fun mem_node :: "mem_item \<Rightarrow> nat \<Rightarrow> MemNode" where
  "mem_node (k, v, s, d) nx = \<lparr>node_key = k, node_value = v, forward = [nx], node_seq = s, node_deleted = d\<rparr>"

lemma mem_node_simps [simp]:
  "node_key (mem_node e nx) = fst e" "forward (mem_node e nx) = [nx]"
  "node_value (mem_node e nx) = fst (snd e)" "node_seq (mem_node e nx) = fst (snd (snd e))"
  "node_deleted (mem_node e nx) = snd (snd (snd e))" "(mem_node e nx)\<lparr>forward := [p]\<rparr> = mem_node e p"
  by (cases e; simp)+

text \<open>A path through the heap from one address to another.\<close>

fun skip_seg :: "(nat \<rightharpoonup> MemNode) \<Rightarrow> nat \<Rightarrow> (nat \<times> mem_item) list \<Rightarrow> nat \<Rightarrow> bool" where
  "skip_seg H a [] z \<longleftrightarrow> a = z"
| "skip_seg H a ((b, e) # xs) z \<longleftrightarrow> a = b \<and> a \<noteq> 0 \<and> (\<exists>nx. H a = Some (mem_node e nx) \<and> skip_seg H nx xs z)"

lemma skip_seg_append: "skip_seg H a (xs @ ys) z \<longleftrightarrow> (\<exists>m. skip_seg H a xs m \<and> skip_seg H m ys z)"
proof (induction xs arbitrary: a)
  case (Cons x xs)
  then show ?case by (cases x) auto
qed simp

lemma skip_seg_frame: "b \<notin> fst ` set xs \<Longrightarrow> skip_seg (H(b := v)) a xs z = skip_seg H a xs z"
proof (induction xs arbitrary: a)
  case (Cons x xs)
  then show ?case by (cases x) auto
qed simp

abbreviation first_addr :: "(nat \<times> mem_item) list \<Rightarrow> nat" where
  "first_addr xs \<equiv> (case xs of [] \<Rightarrow> 0 | (a, e) # _ \<Rightarrow> a)"

lemma skip_seg_start: "skip_seg H a xs 0 \<Longrightarrow> a = first_addr xs"
  by (cases xs) auto

definition mem_map :: "(nat \<times> mem_item) list \<Rightarrow> bytes \<rightharpoonup> bytes \<times> u64 \<times> bool" where
  "mem_map xs = map_of (map snd xs)"

definition item_keys :: "(nat \<times> mem_item) list \<Rightarrow> bytes list" where
  "item_keys xs = map (fst \<circ> snd) xs"

definition table_rep :: "Comparator option \<Rightarrow> SkipList \<Rightarrow> (nat \<times> mem_item) list \<Rightarrow> bool" where
  "table_rep c S xs \<longleftrightarrow> skip_comparator S = c \<and> current_max_level S = 1 \<and>
     skip_head S \<noteq> 0 \<and> distinct (skip_head S # map fst xs) \<and>
     dom (skip_nodes S) = insert (skip_head S) (fst ` set xs) \<and> dom (skip_nodes S) \<subseteq> {1..<skip_next S} \<and>
     (\<exists>p. get_forward S (skip_head S) 0 = Some p \<and> skip_seg (skip_nodes S) p xs 0) \<and>
     sorted_wrt (key_lt c) (item_keys xs) \<and> (\<forall>x\<in>set xs. snd (snd (snd (snd x))) \<longrightarrow> fst (snd (snd x)) = [])"

lemma table_repI:
  assumes "skip_comparator S = c" "current_max_level S = 1" "skip_head S \<noteq> 0" "distinct (skip_head S # map fst xs)"
    "dom (skip_nodes S) = insert (skip_head S) (fst ` set xs)" "dom (skip_nodes S) \<subseteq> {1..<skip_next S}"
    "get_forward S (skip_head S) 0 = Some p" "skip_seg (skip_nodes S) p xs 0"
    "sorted_wrt (key_lt c) (item_keys xs)" "\<forall>x\<in>set xs. snd (snd (snd (snd x))) \<longrightarrow> fst (snd (snd x)) = []"
  shows "table_rep c S xs"
  using assms unfolding table_rep_def by blast

lemma table_repD:
  assumes "table_rep c S xs"
  shows "skip_comparator S = c" "current_max_level S = 1" "skip_head S \<noteq> 0" "distinct (skip_head S # map fst xs)"
    "dom (skip_nodes S) = insert (skip_head S) (fst ` set xs)" "insert (skip_head S) (fst ` set xs) \<subseteq> {1..<skip_next S}"
    "sorted_wrt (key_lt c) (item_keys xs)" "\<forall>x\<in>set xs. snd (snd (snd (snd x))) \<longrightarrow> fst (snd (snd x)) = []"
proof -
  have a: "dom (skip_nodes S) = insert (skip_head S) (fst ` set xs)" "dom (skip_nodes S) \<subseteq> {1..<skip_next S}"
    using assms unfolding table_rep_def by blast+
  show "insert (skip_head S) (fst ` set xs) \<subseteq> {1..<skip_next S}" using a(2) unfolding a(1) .
qed (use assms in \<open>simp_all add: table_rep_def\<close>)

lemma table_rep_path:
  assumes "table_rep c S xs"
  obtains p where "get_forward S (skip_head S) 0 = Some p" "skip_seg (skip_nodes S) p xs 0"
  using assms unfolding table_rep_def by blast

lemma CompareKeys_Compare: "skip_comparator S = c \<Longrightarrow> CompareKeys S a b = Compare c a b"
  by (simp add: CompareKeys_def Compare_def split: option.splits)

lemma SkipList_new_rep: "table_rep (mem_comparator opts) (SkipList_new opts) []"
  by (auto simp: table_rep_def SkipList_new_def Let_def new_skip_node_def get_forward_def MemNode_new_def vec_defs item_keys_def)

lemma table_rep_fuel:
  assumes "table_rep c S xs"
  shows "length xs < skip_fuel S"
proof -
  have "distinct (skip_head S # map fst xs)" "set (skip_head S # map fst xs) \<subseteq> {1..<skip_next S}"
    using assms by (auto simp: table_rep_def)
  then have "length (skip_head S # map fst xs) \<le> card {1..<skip_next S}"
    by (metis card_mono distinct_card finite_atLeastLessThan)
  then show ?thesis by (simp add: skip_fuel_def)
qed

section \<open>Searching\<close>

definition below :: "Comparator option \<Rightarrow> bytes \<Rightarrow> (nat \<times> mem_item) list \<Rightarrow> (nat \<times> mem_item) list" where
  "below c key xs = takeWhile (\<lambda>x. key_lt c (fst (snd x)) key) xs"

definition from_key :: "Comparator option \<Rightarrow> bytes \<Rightarrow> (nat \<times> mem_item) list \<Rightarrow> (nat \<times> mem_item) list" where
  "from_key c key xs = dropWhile (\<lambda>x. key_lt c (fst (snd x)) key) xs"

lemma below_from: "below c key xs @ from_key c key xs = xs"
  by (simp add: below_def from_key_def)

lemma get_forward_node: "skip_nodes S a = Some (mem_node e nx) \<Longrightarrow> get_forward S a 0 = Some nx"
  by (simp add: get_forward_def vec_defs)

lemma find_ge_walk:
  assumes "get_forward S cur 0 = Some p" and "skip_seg (skip_nodes S) p xs 0" and "length xs < n" and c: "skip_comparator S = c"
  shows "find_ge_loop n S key cur 0 prev =
    map_option (\<lambda>prev. (first_addr (from_key c key xs), prev)) (set_prev prev 0 (last (cur # map fst (below c key xs))))"
  using assms(1-3)
proof (induction xs arbitrary: n cur p)
  case Nil
  then obtain m where "n = Suc m" by (cases n) auto
  with Nil show ?case
    by (cases "set_prev prev 0 cur") (simp_all add: next_is_less_def from_key_def below_def)
next
  case (Cons x xs)
  obtain a e where x: "x = (a, e)" by (cases x)
  obtain m where n: "n = Suc m" using Cons.prems(3) by (cases n) auto
  obtain nx where a: "p = a" "a \<noteq> 0" "skip_nodes S a = Some (mem_node e nx)" "skip_seg (skip_nodes S) nx xs 0"
    using Cons.prems(2) x by auto
  have less: "next_is_less S p key = Some (key_lt c (fst e) key)"
    using a by (simp add: next_is_less_def CompareKeys_Compare [OF c] key_lt_def)
  show ?case
  proof (cases "key_lt c (fst e) key")
    case True
    then show ?thesis
      using Cons.IH [OF get_forward_node [OF a(3)] a(4), of m] Cons.prems(1,3) n less a(1)
      by (simp add: x below_def from_key_def)
  next
    case False
    then show ?thesis using Cons.prems(1) n less a(1)
      by (cases "set_prev prev 0 cur") (simp_all add: x below_def from_key_def)
  qed
qed

lemma find_less_walk:
  assumes "get_forward S cur 0 = Some p" and "skip_seg (skip_nodes S) p xs 0" and "length xs < n" and c: "skip_comparator S = c"
  shows "find_less_loop n S key cur 0 = Some (last (cur # map fst (below c key xs)))"
  using assms(1-3)
proof (induction xs arbitrary: n cur p)
  case Nil
  then obtain m where "n = Suc m" by (cases n) auto
  with Nil show ?case by (simp add: next_is_less_def below_def)
next
  case (Cons x xs)
  obtain a e where x: "x = (a, e)" by (cases x)
  obtain m where n: "n = Suc m" using Cons.prems(3) by (cases n) auto
  obtain nx where a: "p = a" "a \<noteq> 0" "skip_nodes S a = Some (mem_node e nx)" "skip_seg (skip_nodes S) nx xs 0"
    using Cons.prems(2) x by auto
  have less: "next_is_less S p key = Some (key_lt c (fst e) key)"
    using a by (simp add: next_is_less_def CompareKeys_Compare [OF c] key_lt_def)
  then show ?case
    using Cons.IH [OF get_forward_node [OF a(3)] a(4), of m] Cons.prems(1,3) n a(1)
    by (cases "key_lt c (fst e) key") (simp_all add: x below_def)
qed

lemma find_last_walk:
  assumes "get_forward S cur 0 = Some p" and "skip_seg (skip_nodes S) p xs 0" and "length xs < n"
  shows "find_last_loop n S cur 0 = Some (last (cur # map fst xs))"
  using assms
proof (induction xs arbitrary: n cur p)
  case Nil
  then obtain m where "n = Suc m" by (cases n) auto
  with Nil show ?case by simp
next
  case (Cons x xs)
  obtain a e where x: "x = (a, e)" by (cases x)
  obtain m where n: "n = Suc m" using Cons.prems(3) by (cases n) auto
  obtain nx where a: "p = a" "a \<noteq> 0" "skip_nodes S a = Some (mem_node e nx)" "skip_seg (skip_nodes S) nx xs 0"
    using Cons.prems(2) x by auto
  then show ?case
    using Cons.IH [OF get_forward_node [OF a(3)] a(4), of m] Cons.prems(1,3) n by (simp add: x)
qed

lemma search_table:
  assumes "table_rep c S xs"
  shows "FindGreaterOrEqual S key wp = Some (first_addr (from_key c key xs),
      if wp then Some ((replicate (skip_max_level S + 1) 0)[0 := last (skip_head S # map fst (below c key xs))]) else None)"
    and "FindLessThan S key = Some (last (skip_head S # map fst (below c key xs)))"
    and "FindLast S = Some (last (skip_head S # map fst xs))"
proof -
  obtain p where p: "get_forward S (skip_head S) 0 = Some p" "skip_seg (skip_nodes S) p xs 0"
    using assms by (auto simp: table_rep_def)
  have c: "skip_comparator S = c" "current_max_level S - 1 = 0" using assms by (simp_all add: table_rep_def)
  note f = table_rep_fuel [OF assms]
  show "FindGreaterOrEqual S key wp = Some (first_addr (from_key c key xs),
      if wp then Some ((replicate (skip_max_level S + 1) 0)[0 := last (skip_head S # map fst (below c key xs))]) else None)"
    unfolding FindGreaterOrEqual_def c(2) find_ge_walk [OF p f c(1)] by (simp add: set_prev_def vec_defs del: replicate_Suc)
  show "FindLessThan S key = Some (last (skip_head S # map fst (below c key xs)))"
    unfolding FindLessThan_def c(2) by (rule find_less_walk [OF p f c(1)])
  show "FindLast S = Some (last (skip_head S # map fst xs))"
    unfolding FindLast_def c(2) by (rule find_last_walk [OF p f])
qed

section \<open>Sorted entries\<close>

context key_order begin

lemma sorted_split:
  assumes "sorted_wrt lt (item_keys xs)"
  shows "\<forall>x\<in>set (below comparator key xs). lt (fst (snd x)) key"
    and "\<forall>x\<in>set (from_key comparator key xs). \<not> lt (fst (snd x)) key"
proof -
  show "\<forall>x\<in>set (below comparator key xs). lt (fst (snd x)) key"
    unfolding below_def by (intro ballI) (erule set_takeWhileD [THEN conjunct2])
  show "\<forall>x\<in>set (from_key comparator key xs). \<not> lt (fst (snd x)) key"
    using assms
  proof (induction xs)
    case (Cons x xs)
    show ?case
    proof (cases "lt (fst (snd x)) key")
      case True
      then have e: "from_key comparator key (x # xs) = from_key comparator key xs" by (simp add: from_key_def)
      have "sorted_wrt lt (item_keys xs)" using Cons.prems by (simp add: item_keys_def)
      from Cons.IH [OF this] show ?thesis unfolding e .
    next
      case False
      have "\<not> lt (fst (snd z)) key" if "z \<in> set xs" for z
      proof -
        have "lt (fst (snd x)) (fst (snd z))" using Cons.prems that by (simp add: item_keys_def)
        then show ?thesis using False lt_trans by blast
      qed
      moreover have "from_key comparator key (x # xs) = x # xs" using False by (simp add: from_key_def)
      ultimately show ?thesis using False by (metis set_ConsD)
    qed
  qed (simp add: from_key_def)
qed

text \<open>The entry that a search for a key finds.\<close>

lemma mem_map_from:
  assumes "sorted_wrt lt (item_keys xs)"
  shows "mem_map xs key = (case from_key comparator key xs of [] \<Rightarrow> None
    | x # _ \<Rightarrow> if fst (snd x) = key then Some (snd (snd x)) else None)"
proof -
  note s = sorted_split [OF assms, of key]
  have 1: "map_of (map snd (below comparator key xs)) key = None"
  proof -
    have "key \<notin> fst ` set (map snd (below comparator key xs))" using s(1) by auto
    then show ?thesis by (simp only: map_of_eq_None_iff) simp
  qed
  have sf: "sorted_wrt lt (item_keys (from_key comparator key xs))"
    using assms below_from [of comparator key xs] unfolding item_keys_def by (metis map_append sorted_wrt_append)
  have 2: "map_of (map snd ys) key = (case ys of [] \<Rightarrow> None | x # _ \<Rightarrow> if fst (snd x) = key then Some (snd (snd x)) else None)"
    if "sorted_wrt lt (item_keys ys)" "\<forall>x\<in>set ys. \<not> lt (fst (snd x)) key" for ys :: "(nat \<times> mem_item) list"
  proof (cases ys)
    case (Cons x zs)
    have "map_of (map snd zs) key = None" if "fst (snd x) \<noteq> key"
    proof -
      have "lt key (fst (snd x))" using that Cons \<open>\<forall>x\<in>set ys. \<not> lt (fst (snd x)) key\<close> lt_total by auto
      then have "\<forall>z\<in>set zs. lt key (fst (snd z))"
        using \<open>sorted_wrt lt (item_keys ys)\<close> Cons by (auto simp: item_keys_def intro: lt_trans)
      then have "key \<notin> fst ` set (map snd zs)" by auto
      then show ?thesis by (simp only: map_of_eq_None_iff) simp
    qed
    then show ?thesis using Cons by (cases "snd x") auto
  qed simp
  have "mem_map xs = map_of (map snd (below comparator key xs @ from_key comparator key xs))"
    by (simp only: mem_map_def below_from)
  then show ?thesis using 1 2 [OF sf s(2)] by (simp add: map_add_def)
qed

end

lemma seg_addrs: "skip_seg H a xs z \<Longrightarrow> fst ` set xs \<subseteq> dom H"
proof (induction xs arbitrary: a)
  case (Cons x xs)
  then show ?case by (cases x) auto
qed simp

lemma seg_node: "skip_seg H a (ls @ (b, e) # rs) 0 \<Longrightarrow> b \<noteq> 0 \<and> H b = Some (mem_node e (first_addr rs))"
  by (auto simp: skip_seg_append dest: skip_seg_start)

text \<open>Overwriting an entry in place.\<close>

lemma seg_overwrite:
  assumes "skip_seg H p (ls @ (a, e) # rs) 0" and "distinct (map fst (ls @ (a, e) # rs))"
  shows "skip_seg (H(a \<mapsto> mem_node e' (first_addr rs))) p (ls @ (a, e') # rs) 0"
proof -
  obtain m where m: "skip_seg H p ls m" "skip_seg H m ((a, e) # rs) 0" using assms(1) by (auto simp: skip_seg_append)
  then have rs: "m = a" "a \<noteq> 0" "skip_seg H (first_addr rs) rs 0" by (auto dest: skip_seg_start)
  have "a \<notin> fst ` set ls" "a \<notin> fst ` set rs" using assms(2) by auto
  then show ?thesis using m(1) rs by (auto simp: skip_seg_append skip_seg_frame)
qed

text \<open>Linking a fresh node behind the last entry of \<open>ls\<close>.\<close>

lemma seg_link:
  assumes "skip_seg H p (ls @ [(b, e)]) m" and "skip_seg H m rs 0" and "distinct (map fst (ls @ (b, e) # rs))"
    and "a \<notin> fst ` set (ls @ (b, e) # rs)" and "a \<noteq> 0"
  shows "skip_seg (H(a \<mapsto> mem_node x m, b \<mapsto> mem_node e a)) p (ls @ (b, e) # (a, x) # rs) 0"
proof -
  obtain q where q: "skip_seg H p ls q" "skip_seg H q [(b, e)] m" using assms(1) by (auto simp: skip_seg_append)
  have "b \<notin> fst ` set ls" "b \<notin> fst ` set rs" "a \<notin> fst ` set ls" "a \<notin> fst ` set rs" "a \<noteq> b" using assms(3,4) by auto
  then show ?thesis using q assms(2,5) by (auto simp: skip_seg_append skip_seg_frame)
qed

section \<open>Writing\<close>

lemma matching_node_table:
  assumes rep: "table_rep c S xs" and o: "key_order c"
  shows "matching_node S (first_addr (from_key c key xs)) key =
    Some (case from_key c key xs of [] \<Rightarrow> None
      | x # rs \<Rightarrow> if fst (snd x) = key then Some (mem_node (snd x) (first_addr rs)) else None)"
proof (cases "from_key c key xs")
  case Nil
  then show ?thesis by (simp add: matching_node_def)
next
  case (Cons x rs)
  obtain a e where x: "x = (a, e)" by (cases x)
  obtain p where "skip_seg (skip_nodes S) p xs 0" using rep by (auto simp: table_rep_def)
  then have n: "a \<noteq> 0" "skip_nodes S a = Some (mem_node e (first_addr rs))"
    using seg_node [of "skip_nodes S" p "below c key xs" a e rs] below_from [of c key xs] Cons x by auto
  have "skip_comparator S = c" using rep by (simp add: table_rep_def)
  then have "CompareKeys S (fst e) key = 0 \<longleftrightarrow> fst e = key"
    using key_order.cmp_eq [OF o] by (simp add: CompareKeys_Compare)
  with n show ?thesis by (simp add: matching_node_def Cons x)
qed

lemma get_forward_write:
  "get_forward (write_node a n S) b i = (if b = a then vec_get (forward n) i else get_forward S b i)"
  by (simp add: get_forward_def write_node_def)

lemma write_table:
  assumes rep: "table_rep c S (ls @ (a, k, x) # rs)" and "snd (snd y) \<longrightarrow> fst y = []"
  shows "table_rep c (write_node a (mem_node (k, y) (first_addr rs)) S) (ls @ (a, k, y) # rs)"
proof -
  let ?S = "write_node a (mem_node (k, y) (first_addr rs)) S"
  note d = table_repD [OF rep]
  obtain p where p: "get_forward S (skip_head S) 0 = Some p" "skip_seg (skip_nodes S) p (ls @ (a, k, x) # rs) 0"
    by (rule table_rep_path [OF rep])
  have a: "skip_head S \<noteq> a" "distinct (map fst (ls @ (a, k, x) # rs))" using d(4) by auto
  have S: "skip_head ?S = skip_head S" "skip_next ?S = skip_next S" "skip_comparator ?S = skip_comparator S"
    "current_max_level ?S = current_max_level S" "skip_nodes ?S = (skip_nodes S)(a \<mapsto> mem_node (k, y) (first_addr rs))"
    by (simp_all add: write_node_def)
  have dom: "dom (skip_nodes ?S) = dom (skip_nodes S)" using d(5) by (auto simp: S)
  show ?thesis
  proof (rule table_repI [of _ _ _ p], unfold S(1-4) dom)
    show "get_forward ?S (skip_head S) 0 = Some p" using p(1) a(1) by (simp add: get_forward_write)
    show "skip_seg (skip_nodes ?S) p (ls @ (a, k, y) # rs) 0" unfolding S(5) by (rule seg_overwrite [OF p(2) a(2)])
    show "\<forall>z\<in>set (ls @ (a, k, y) # rs). snd (snd (snd (snd z))) \<longrightarrow> fst (snd (snd z)) = []" using d(8) assms(2) by auto
  qed (use d in \<open>simp_all add: item_keys_def\<close>)
qed

text \<open>Inserting a node of level 1; a node of a higher level is undefined.\<close>

lemma InsertNode_level1:
  assumes "skip_nodes S a = Some n" "forward n = [z]" and "vec_get prev 0 = Some b" and "skip_nodes S b = Some bn" "forward bn = f # fs"
    and "a \<noteq> b" and "current_max_level S = 1"
  shows "InsertNode a prev S = Some (S\<lparr>skip_nodes := (skip_nodes S)(a \<mapsto> n\<lparr>forward := [f]\<rparr>, b \<mapsto> bn\<lparr>forward := a # fs\<rparr>)\<rparr>)"
  using assms by (simp add: InsertNode_def get_forward_def set_forward_def vec_defs)

lemma insert_table:
  assumes rep: "table_rep c S (ls @ rs)" and lev: "RandomLevel coins S = 1"
    and sort: "sorted_wrt (key_lt c) (item_keys ls @ key # item_keys rs)" and del: "deleted \<longrightarrow> val = []"
    and prev: "prev = Some ((replicate (skip_max_level S + 1) 0)[0 := last (skip_head S # map fst ls)])"
  shows "\<exists>S'. insert_new coins key val seq deleted prev S = Some (1, S') \<and> skip_max_level S' = skip_max_level S \<and>
    table_rep c S' (ls @ (skip_next S, key, val, seq, deleted) # rs)"
proof -
  let ?a = "skip_next S" and ?x = "(key, val, seq, deleted)"
  note d = table_repD [OF rep]
  obtain p where p: "get_forward S (skip_head S) 0 = Some p" "skip_seg (skip_nodes S) p (ls @ rs) 0"
    by (rule table_rep_path [OF rep])
  obtain hn f fs where hn: "skip_nodes S (skip_head S) = Some hn" "forward hn = f # fs" "f = p"
  proof -
    obtain n where n: "skip_nodes S (skip_head S) = Some n" "vec_get (forward n) 0 = Some p"
      using p(1) by (auto simp: get_forward_def split: bind_splits)
    then show thesis using that [of n] by (cases "forward n") (simp_all add: vec_defs)
  qed
  have "?a \<notin> insert (skip_head S) (fst ` set (ls @ rs))" using d(6) by (meson atLeastLessThan_iff less_irrefl subsetD)
  then have fresh: "?a \<noteq> skip_head S" "?a \<notin> fst ` set (ls @ rs)" by simp_all
  have a0: "?a \<noteq> 0" using d(6) by auto
  define S1 where "S1 = S\<lparr>skip_nodes := (skip_nodes S)(?a \<mapsto> mem_node ?x 0), skip_next := ?a + 1\<rparr>"
  have alloc: "new_skip_node (MemNode_new key val 1 seq deleted) S = (?a, S1)"
    by (simp add: new_skip_node_def S1_def MemNode_new_def)
  have n1: "skip_nodes S1 ?a = Some (mem_node ?x 0)" "forward (mem_node ?x 0) = [0]" "current_max_level S1 = 1"
    "skip_max_level S1 = skip_max_level S" using d(2) by (simp_all add: S1_def)
  have pv: "vec_get ((replicate (skip_max_level S + 1) 0)[0 := b]) 0 = Some b" for b :: nat by (simp add: vec_defs)
  have new: "insert_new coins key val seq deleted prev S = map_option (Pair 1) (InsertNode ?a (the prev) S1)"
    by (cases "InsertNode ?a (the prev) S1") (simp_all add: insert_new_def lev alloc prev del: replicate_Suc One_nat_def)
  have dist: "distinct (skip_head S # map fst (ls @ (?a, ?x) # rs))" using d(4) fresh by auto
  have sub: "insert ?a (insert (skip_head S) (fst ` set (ls @ rs))) \<subseteq> {1..<?a + 1}"
    using d(6) a0 by (auto simp: less_Suc_eq)
  have keys: "sorted_wrt (key_lt c) (item_keys (ls @ (?a, ?x) # rs))" using sort by (simp add: item_keys_def)
  have dels: "\<forall>z\<in>set (ls @ (?a, ?x) # rs). snd (snd (snd (snd z))) \<longrightarrow> fst (snd (snd z)) = []" using d(8) del by auto
  show ?thesis
  proof (cases ls rule: rev_cases)
    case Nil
    define S2 where "S2 = S1\<lparr>skip_nodes := (skip_nodes S1)(?a \<mapsto> mem_node ?x p, skip_head S \<mapsto> hn\<lparr>forward := ?a # fs\<rparr>)\<rparr>"
    have h1: "skip_nodes S1 (skip_head S) = Some hn" using hn(1) fresh(1) by (simp add: S1_def)
    have i: "InsertNode ?a (the prev) S1 = Some S2"
      using InsertNode_level1 [OF n1(1,2) pv h1 hn(2) fresh(1) n1(3)] hn(3) by (simp add: prev Nil S2_def del: replicate_Suc)
    have "table_rep c S2 (ls @ (?a, ?x) # rs)"
    proof (rule table_repI [of _ _ _ ?a])
      show "get_forward S2 (skip_head S2) 0 = Some ?a" by (simp add: get_forward_def S2_def S1_def vec_defs)
      have "skip_seg (skip_nodes S) p rs 0" "skip_head S \<notin> fst ` set rs" "?a \<notin> fst ` set rs" using p(2) d(4) fresh(2) Nil by auto
      then show "skip_seg (skip_nodes S2) ?a (ls @ (?a, ?x) # rs) 0"
        using a0 fresh(1) Nil by (simp add: S2_def S1_def skip_seg_frame)
      show "dom (skip_nodes S2) = insert (skip_head S2) (fst ` set (ls @ (?a, ?x) # rs))" using d(5) by (auto simp: S2_def S1_def)
      show "dom (skip_nodes S2) \<subseteq> {1..<skip_next S2}" using sub d(5) by (simp add: S2_def S1_def)
    qed (use d dist keys dels in \<open>simp_all add: S2_def S1_def\<close>)
    then show ?thesis using new i n1(4) by (simp add: S2_def)
  next
    case (snoc ks y)
    obtain b e where y: "y = (b, e)" by (cases y)
    obtain m where m: "skip_seg (skip_nodes S) p (ks @ [(b, e)]) m" "skip_seg (skip_nodes S) m rs 0"
      using p(2) snoc y skip_seg_append [of _ p "ks @ [(b, e)]" rs 0] by auto
    then have bn: "skip_nodes S b = Some (mem_node e m)" by (auto simp: skip_seg_append)
    have ab: "?a \<noteq> b" using fresh(2) snoc y by auto
    have hb: "skip_head S \<noteq> b" using d(4) snoc y by auto
    define S2 where "S2 = S1\<lparr>skip_nodes := (skip_nodes S1)(?a \<mapsto> mem_node ?x m, b \<mapsto> mem_node e ?a)\<rparr>"
    have b1: "skip_nodes S1 b = Some (mem_node e m)" using bn ab by (simp add: S1_def)
    have i: "InsertNode ?a (the prev) S1 = Some S2"
      using InsertNode_level1 [OF n1(1,2) pv b1 _ ab n1(3), of m "[]"] by (simp add: prev snoc y S2_def del: replicate_Suc)
    have "skip_seg ((skip_nodes S)(?a \<mapsto> mem_node ?x m, b \<mapsto> mem_node e ?a)) p (ks @ (b, e) # (?a, ?x) # rs) 0"
      by (rule seg_link [OF m]) (use d(4) fresh(2) a0 snoc y in auto)
    then have seg: "skip_seg (skip_nodes S2) p (ls @ (?a, ?x) # rs) 0" by (simp add: S2_def S1_def snoc y)
    have "table_rep c S2 (ls @ (?a, ?x) # rs)"
    proof (rule table_repI [of _ _ _ p])
      show "get_forward S2 (skip_head S2) 0 = Some p" using p(1) fresh(1) hb by (simp add: get_forward_def S2_def S1_def)
      show "skip_seg (skip_nodes S2) p (ls @ (?a, ?x) # rs) 0" by (rule seg)
      show "dom (skip_nodes S2) = insert (skip_head S2) (fst ` set (ls @ (?a, ?x) # rs))"
        using d(5) by (auto simp: S2_def S1_def snoc y)
      show "dom (skip_nodes S2) \<subseteq> {1..<skip_next S2}"
        using sub d(5) by (simp add: S2_def S1_def snoc y insert_absorb insert_commute)
    qed (use d dist keys dels in \<open>simp_all add: S2_def S1_def\<close>)
    then show ?thesis using new i n1(4) by (simp add: S2_def)
  qed
qed

lemma insert_undefined:
  assumes rep: "table_rep c S xs" and lev: "1 < RandomLevel coins S"
  shows "insert_new coins key val seq deleted (Some ((replicate (skip_max_level S + 1) 0)[0 := b])) S = None"
proof -
  let ?prev = "(replicate (skip_max_level S + 1) 0)[0 := b]"
  note d = table_repD [OF rep]
  obtain k where k: "RandomLevel coins S = Suc (Suc k)" using lev less_imp_Suc_add [of 1 "RandomLevel coins S"] by auto
  define S1 where "S1 = snd (new_skip_node (MemNode_new key val (Suc (Suc k)) seq deleted) S)"
  have a0: "skip_next S \<noteq> 0" using d(6) by auto
  have "0 \<notin> dom (skip_nodes S)" unfolding d(5) using d(6) by (meson atLeastLessThan_iff not_one_le_zero subsetD)
  then have null: "skip_nodes S1 0 = None" using a0 by (simp add: S1_def new_skip_node_def domIff)
  have z: "vec_get ?prev (Suc 0) = (if skip_max_level S = 0 then None else Some 0)" by (simp add: vec_defs nth_list_update)
  have keep: "set_forward a i p T = Some T' \<Longrightarrow> skip_nodes T 0 = None \<Longrightarrow> skip_nodes T' 0 = None" for a i p T T'
    by (auto simp: set_forward_def split: bind_splits intro!: gr0I)
  define body where "body i T = do {
      p \<leftarrow> vec_get ?prev i; f \<leftarrow> get_forward T p i; T \<leftarrow> set_forward (skip_next S) i f T; set_forward p i (skip_next S) T }" for i T
  have one: "body (Suc 0) T = None" if "skip_nodes T 0 = None" for T
    unfolding body_def z using that by (simp add: get_forward_def)
  have "body 0 T = Some T' \<Longrightarrow> skip_nodes T 0 = None \<Longrightarrow> skip_nodes T' 0 = None" for T T'
    unfolding body_def using keep by (auto split: bind_splits simp del: replicate_Suc)
  then have "for_range 0 (Suc (Suc k)) body S1 = None"
    using null one by (cases "body 0 S1") simp_all
  moreover have "skip_nodes S1 (skip_next S) = Some (MemNode_new key val (Suc (Suc k)) seq deleted)"
    by (simp add: S1_def new_skip_node_def)
  ultimately have "InsertNode (skip_next S) ?prev S1 = None"
    unfolding body_def by (simp add: InsertNode_def MemNode_new_def del: replicate_Suc for_range.simps)
  moreover have "new_skip_node (MemNode_new key val (Suc (Suc k)) seq deleted) S = (skip_next S, S1)"
    by (simp add: S1_def new_skip_node_def)
  ultimately show ?thesis by (simp add: insert_new_def k del: replicate_Suc)
qed

end
