(* ===== verification/MemTable_Steps.thy ===== *)
theory MemTable_Steps
  imports MemTable_Correct Cursor
begin

text \<open>
  The operations of the memory table on the sorted entries, and runs of operations.  A run pairs
  each operation with its coin tosses.
\<close>

datatype mem_op = MPut bytes bytes u64 | MDelete bytes u64

fun op_key :: "mem_op \<Rightarrow> bytes" where
  "op_key (MPut k v s) = k"
| "op_key (MDelete k s) = k"

fun op_seq :: "mem_op \<Rightarrow> u64" where
  "op_seq (MPut k v s) = s"
| "op_seq (MDelete k s) = s"

text \<open>What an operation stores, and what it does to the size counter.\<close>

fun op_item :: "mem_op \<Rightarrow> bytes \<times> u64 \<times> bool" where
  "op_item (MPut k v s) = (v, s, False)"
| "op_item (MDelete k s) = ([], s, True)"

definition mem_op_map :: "mem_op \<Rightarrow> (bytes \<rightharpoonup> bytes \<times> u64 \<times> bool) \<Rightarrow> (bytes \<rightharpoonup> bytes \<times> u64 \<times> bool)" where
  "mem_op_map op m = m(op_key op \<mapsto> op_item op)"

fun size_step :: "mem_op \<Rightarrow> (bytes \<rightharpoonup> bytes \<times> u64 \<times> bool) \<Rightarrow> u64 \<Rightarrow> u64" where
  "size_step (MPut k v s) m n = (if m k = None then n + 1 else n)"
| "size_step (MDelete k s) m n = (case m k of Some (v, q, d) \<Rightarrow> if d then n else n - 1 | None \<Rightarrow> n)"

fun mem_exec :: "(nat \<Rightarrow> nat) \<Rightarrow> bool list \<Rightarrow> mem_op \<Rightarrow> MemTable \<Rightarrow> (Status \<times> MemTable) option" where
  "mem_exec nb coins (MPut k v s) M = MemTable_Put nb coins k v s M"
| "mem_exec nb coins (MDelete k s) M = MemTable_Delete nb coins k s M"

definition item_bytes :: "(nat \<Rightarrow> nat) \<Rightarrow> nat \<times> mem_item \<Rightarrow> nat" where
  "item_bytes nb x = length (fst (snd x)) + length (fst (snd (snd x))) + nb 1"

definition mem_ok :: "Comparator option \<Rightarrow> (nat \<Rightarrow> nat) \<Rightarrow> MemTable \<Rightarrow> (nat \<times> mem_item) list \<Rightarrow> bool" where
  "mem_ok c nb M xs \<longleftrightarrow> table_rep c (table_impl M) xs \<and> memory_usage M = of_nat (sum_list (map (item_bytes nb) xs))"

lemma map_of_mid:
  assumes "k \<notin> fst ` set xs"
  shows "map_of (xs @ (k, y) # zs) = (map_of (xs @ (k, x) # zs))(k \<mapsto> y)"
    and "map_of (xs @ (k, y) # zs) = (map_of (xs @ zs))(k \<mapsto> y)"
proof -
  have "map_of xs k = None" using assms by (simp add: map_of_eq_None_iff)
  then show "map_of (xs @ (k, y) # zs) = (map_of (xs @ (k, x) # zs))(k \<mapsto> y)"
    "map_of (xs @ (k, y) # zs) = (map_of (xs @ zs))(k \<mapsto> y)"
    by (auto simp: fun_eq_iff map_add_def split: option.splits)
qed

lemma mem_map_key: "mem_map xs k = None \<longleftrightarrow> k \<notin> set (item_keys xs)"
  unfolding mem_map_def item_keys_def by (simp only: map_of_eq_None_iff set_map image_image) auto

text \<open>The operation at the place that the search finds.\<close>

lemma hit_split:
  assumes o: "key_order c" and s: "sorted_wrt (key_lt c) (item_keys xs)" and h: "mem_map xs key = Some x"
  obtains a rs where "from_key c key xs = (a, key, x) # rs" "xs = below c key xs @ (a, key, x) # rs"
    "key \<notin> fst ` set (map snd (below c key xs))"
proof -
  from h key_order.mem_map_from [OF o s, of key] obtain a rs where f: "from_key c key xs = (a, key, x) # rs"
    by (cases "from_key c key xs") (auto split: if_splits)
  have "key \<notin> fst ` set (map snd (below c key xs))"
    using key_order.sorted_split(1) [OF o s, of key] key_order.lt_irrefl [OF o] by auto
  with that f below_from [of c key xs] show thesis by metis
qed

lemma miss_sorted:
  assumes o: "key_order c" and s: "sorted_wrt (key_lt c) (item_keys xs)" and h: "mem_map xs key = None"
  shows "sorted_wrt (key_lt c) (item_keys (below c key xs) @ key # item_keys (from_key c key xs))"
    and "key \<notin> fst ` set (map snd (below c key xs))"
proof -
  note sp = key_order.sorted_split [OF o s, of key]
  have sx: "sorted_wrt (key_lt c) (item_keys (below c key xs) @ item_keys (from_key c key xs))"
    using s below_from [of c key xs] unfolding item_keys_def by (metis map_append)
  have "key \<notin> set (item_keys (from_key c key xs))"
    using h below_from [of c key xs] unfolding mem_map_key item_keys_def by (metis Un_iff map_append set_append)
  then have "key_lt c key (fst (snd z))" if "z \<in> set (from_key c key xs)" for z
    using sp(2) that key_order.lt_total [OF o] unfolding item_keys_def by (metis comp_apply image_eqI set_map)
  moreover have "key_lt c (fst (snd z)) key" if "z \<in> set (below c key xs)" for z using sp(1) that by blast
  ultimately show "sorted_wrt (key_lt c) (item_keys (below c key xs) @ key # item_keys (from_key c key xs))"
    using sx by (auto simp: sorted_wrt_append item_keys_def)
  show "key \<notin> fst ` set (map snd (below c key xs))"
    using sp(1) key_order.lt_irrefl [OF o] by auto
qed

lemma mem_node_write:
  "(mem_node (k, x) nx)\<lparr>node_value := v, node_seq := s, node_deleted := d\<rparr> = mem_node (k, v, s, d) nx"
  "(mem_node (k, v, q, b) nx)\<lparr>node_deleted := d, node_seq := s\<rparr> = mem_node (k, v, s, d) nx"
  "(mem_node (k, x) nx)\<lparr>node_value := []\<rparr> = mem_node (k, [], snd x) nx"
  by (cases x; simp)+

lemma table_fields:
  "skip_max_level (write_node a n S) = skip_max_level S"
  by (simp add: write_node_def)

lemma mem_step:
  assumes o: "key_order c" and ok: "mem_ok c nb M xs"
    and lev: "RandomLevel coins (table_impl M) = 1 \<or> mem_map xs (op_key op) \<noteq> None"
  shows "\<exists>M' ys. mem_exec nb coins op M = Some (Status_OK, M') \<and> mem_ok c nb M' ys \<and>
    mem_map ys = mem_op_map op (mem_map xs) \<and> table_size M' = size_step op (mem_map xs) (table_size M) \<and>
    max_sequence M' = max (max_sequence M) (op_seq op) \<and> table_options M' = table_options M \<and>
    skip_max_level (table_impl M') = skip_max_level (table_impl M)"
proof -
  let ?S = "table_impl M" and ?k = "op_key op"
  have rep: "table_rep c ?S xs" and mem: "memory_usage M = of_nat (sum_list (map (item_bytes nb) xs))"
    using ok by (simp_all add: mem_ok_def)
  note d = table_repD [OF rep]
  note find = search_table(1) [OF rep, of ?k True] and mat = matching_node_table [OF rep o, of ?k]
  show ?thesis
  proof (cases "mem_map xs ?k")
    case (Some x)
    obtain a rs where f: "from_key c ?k xs = (a, ?k, x) # rs" "xs = below c ?k xs @ (a, ?k, x) # rs"
      "?k \<notin> fst ` set (map snd (below c ?k xs))"
      by (rule hit_split [OF o d(7) Some])
    define ls where "ls = below c ?k xs"
    have xs: "xs = ls @ (a, ?k, x) # rs" using f(2) by (simp add: ls_def)
    define S' where "S' = write_node a (mem_node (?k, op_item op) (first_addr rs)) ?S"
    define ys where "ys = ls @ (a, ?k, op_item op) # rs"
    have "table_rep c S' ys"
      unfolding S'_def ys_def
    proof (rule write_table [of _ _ _ _ _ x])
      show "table_rep c ?S (ls @ (a, ?k, x) # rs)" using rep xs by simp
      show "snd (snd (op_item op)) \<longrightarrow> fst (op_item op) = []" by (cases op) simp_all
    qed
    moreover have "mem_map ys = mem_op_map op (mem_map xs)"
    proof -
      have "mem_map ys = map_of (map snd ls @ (?k, op_item op) # map snd rs)" by (simp add: ys_def mem_map_def)
      also have "\<dots> = (map_of (map snd ls @ (?k, x) # map snd rs))(?k \<mapsto> op_item op)"
        by (rule map_of_mid(1)) (use f(3) in \<open>simp add: ls_def\<close>)
      finally show ?thesis by (simp add: mem_op_map_def mem_map_def xs)
    qed
    moreover have "\<exists>M'. mem_exec nb coins op M = Some (Status_OK, M') \<and> table_impl M' = S' \<and>
        memory_usage M' = memory_usage M + (of_nat (length (fst (op_item op))) - of_nat (length (fst x))) \<and>
        table_size M' = size_step op (mem_map xs) (table_size M) \<and>
        max_sequence M' = max (max_sequence M) (op_seq op) \<and> table_options M' = table_options M"
    proof (cases op)
      case (MPut k v s)
      then show ?thesis using find mat Some f(1)
        by (simp add: MemTable_Put_def S'_def mem_node_write del: mem_node.simps replicate_Suc)
    next
      case (MDelete k s)
      obtain v q b where x: "x = (v, q, b)" by (metis prod_cases3)
      have "b \<longrightarrow> v = []" using d(8) xs x by auto
      then show ?thesis using find mat Some f(1) MDelete
        by (cases b) (simp_all add: MemTable_Delete_def S'_def mem_node_write x Let_def del: mem_node.simps replicate_Suc)
    qed
    moreover have "of_nat (sum_list (map (item_bytes nb) ys)) =
        (of_nat (sum_list (map (item_bytes nb) xs)) + (of_nat (length (fst (op_item op))) - of_nat (length (fst x))) :: u64)"
      by (simp add: ys_def xs item_bytes_def)
    ultimately show ?thesis using mem table_fields [of a _ ?S] unfolding mem_ok_def S'_def by metis
  next
    case None
    note m = miss_sorted [OF o d(7) None]
    define ls where "ls = below c ?k xs"
    define rs where "rs = from_key c ?k xs"
    have xs: "xs = ls @ rs" by (simp add: ls_def rs_def below_from)
    have l1: "RandomLevel coins ?S = 1" using lev None by simp
    have mat': "matching_node ?S (first_addr (from_key c ?k xs)) ?k = Some None"
    proof -
      have "fst (snd z) \<noteq> ?k" if "from_key c ?k xs = z # zs" for z zs
        using None that below_from [of c ?k xs] unfolding mem_map_key item_keys_def
        by (metis (no_types, lifting) comp_apply image_eqI in_set_conv_decomp set_map)
      then show ?thesis using mat by (auto split: list.splits)
    qed
    obtain v s b where x: "op_item op = (v, s, b)" by (metis prod_cases3)
    have bv: "b \<longrightarrow> v = []" using x by (cases op) auto
    obtain S' where S': "insert_new coins ?k v s b (Some ((replicate (skip_max_level ?S + 1) 0)[0 := last (skip_head ?S # map fst ls)])) ?S =
        Some (1, S')" "skip_max_level S' = skip_max_level ?S" "table_rep c S' (ls @ (skip_next ?S, ?k, v, s, b) # rs)"
      using insert_table [OF rep [unfolded xs] l1 m(1) [folded ls_def rs_def] bv refl] by blast
    define ys where "ys = ls @ (skip_next ?S, ?k, v, s, b) # rs"
    have "mem_map ys = mem_op_map op (mem_map xs)"
    proof -
      have "mem_map ys = map_of (map snd ls @ (?k, op_item op) # map snd rs)" by (simp add: ys_def mem_map_def x)
      also have "\<dots> = (map_of (map snd ls @ map snd rs))(?k \<mapsto> op_item op)"
        by (rule map_of_mid(2)) (use m(2) in \<open>simp add: ls_def\<close>)
      finally show ?thesis by (simp add: mem_op_map_def mem_map_def xs)
    qed
    moreover have "\<exists>M'. mem_exec nb coins op M = Some (Status_OK, M') \<and> table_impl M' = S' \<and>
        memory_usage M' = memory_usage M + of_nat (length ?k + length v + nb 1) \<and>
        table_size M' = size_step op (mem_map xs) (table_size M) \<and>
        max_sequence M' = max (max_sequence M) (op_seq op) \<and> table_options M' = table_options M"
    proof (cases op)
      case (MPut k w q)
      then show ?thesis using find mat' None S'(1) x by (simp add: MemTable_Put_def ls_def del: replicate_Suc)
    next
      case (MDelete k q)
      then show ?thesis using find mat' None S'(1) x by (auto simp: MemTable_Delete_def ls_def simp del: replicate_Suc)
    qed
    moreover have "of_nat (sum_list (map (item_bytes nb) ys)) =
        (of_nat (sum_list (map (item_bytes nb) xs)) + of_nat (length ?k + length v + nb 1) :: u64)"
      by (simp add: ys_def xs item_bytes_def)
    ultimately show ?thesis using mem S'(2,3) unfolding mem_ok_def ys_def by metis
  qed
qed

lemma mem_step_undefined:
  assumes o: "key_order c" and rep: "table_rep c (table_impl M) xs"
    and "1 < RandomLevel coins (table_impl M)" and "mem_map xs (op_key op) = None"
  shows "mem_exec nb coins op M = None"
proof -
  let ?S = "table_impl M" and ?k = "op_key op"
  note d = table_repD [OF rep]
  note find = search_table(1) [OF rep, of ?k True] and mat = matching_node_table [OF rep o, of ?k]
  have "fst (snd z) \<noteq> ?k" if "from_key c ?k xs = z # zs" for z zs
    using assms(4) that below_from [of c ?k xs] unfolding mem_map_key item_keys_def
    by (metis (no_types, lifting) comp_apply image_eqI in_set_conv_decomp set_map)
  then have "matching_node ?S (first_addr (from_key c ?k xs)) ?k = Some None" using mat by (auto split: list.splits)
  then show ?thesis using find insert_undefined [OF rep assms(3)]
    by (cases op) (simp_all add: MemTable_Put_def MemTable_Delete_def del: replicate_Suc)
qed

lemma mem_get:
  assumes o: "key_order c" and rep: "table_rep c (table_impl M) xs"
  shows "MemTable_Get key x q M = Some (case mem_map xs key of
      None \<Rightarrow> (Status_NotFound ''Key not found'', x, q)
    | Some (v, s, d) \<Rightarrow> if d then (Status_NotFound ''Key deleted'', x, q) else (Status_OK, v, map_option (\<lambda>_. s) q))"
    and "Contains key M = Some (mem_map xs key \<noteq> None)"
proof -
  note find = search_table(1) [OF rep, of key False] and mat = matching_node_table [OF rep o, of key]
  note m = key_order.mem_map_from [OF o table_repD(7) [OF rep], of key]
  show "MemTable_Get key x q M = Some (case mem_map xs key of
      None \<Rightarrow> (Status_NotFound ''Key not found'', x, q)
    | Some (v, s, d) \<Rightarrow> if d then (Status_NotFound ''Key deleted'', x, q) else (Status_OK, v, map_option (\<lambda>_. s) q))"
    using find mat m by (auto simp: MemTable_Get_def split: list.splits)
  show "Contains key M = Some (mem_map xs key \<noteq> None)"
    using find mat m by (auto simp: Contains_def split: list.splits)
qed

section \<open>Runs\<close>

fun mem_run :: "(nat \<Rightarrow> nat) \<Rightarrow> (mem_op \<times> bool list) list \<Rightarrow> MemTable \<Rightarrow> MemTable option" where
  "mem_run nb [] M = Some M"
| "mem_run nb ((op, coins) # ops) M = do { (_, M) \<leftarrow> mem_exec nb coins op M; mem_run nb ops M }"

text \<open>Coins that come up tails at once: a node of level 1.\<close>

definition tails :: "bool list \<Rightarrow> bool" where
  "tails coins \<longleftrightarrow> coins = [] \<or> \<not> hd coins"

lemma tails_level: "tails coins \<Longrightarrow> RandomLevel coins S = 1"
  by (cases coins) (simp_all add: tails_def RandomLevel_def)

abbreviation mem_ops_map :: "(mem_op \<times> bool list) list \<Rightarrow> bytes \<rightharpoonup> bytes \<times> u64 \<times> bool" where
  "mem_ops_map ops \<equiv> fold (mem_op_map \<circ> fst) ops Map.empty"

lemma mem_run_ok:
  assumes o: "key_order c"
  shows "list_all (\<lambda>x. tails (snd x)) ops \<Longrightarrow> mem_ok c nb M xs \<Longrightarrow>
    \<exists>M' ys. mem_run nb ops M = Some M' \<and> mem_ok c nb M' ys \<and> mem_map ys = fold (mem_op_map \<circ> fst) ops (mem_map xs) \<and>
      table_options M' = table_options M \<and> skip_max_level (table_impl M') = skip_max_level (table_impl M) \<and>
      max_sequence M' = fold (\<lambda>x m. max m (op_seq (fst x))) ops (max_sequence M)"
proof (induction ops arbitrary: M xs)
  case (Cons x ops)
  obtain op coins where x: "x = (op, coins)" by (cases x)
  obtain M1 ys where s: "mem_exec nb coins op M = Some (Status_OK, M1)" "mem_ok c nb M1 ys"
    "mem_map ys = mem_op_map op (mem_map xs)" "max_sequence M1 = max (max_sequence M) (op_seq op)"
    "table_options M1 = table_options M" "skip_max_level (table_impl M1) = skip_max_level (table_impl M)"
    using mem_step [OF o Cons.prems(2), of coins op] Cons.prems(1) tails_level x by auto
  from Cons.IH [OF _ s(2)] Cons.prems(1) s show ?case by (auto simp: x)
qed auto

lemma mem_new: "mem_ok (mem_comparator opts) nb (MemTable_new opts) []"
  using SkipList_new_rep [of opts] by (simp add: mem_ok_def MemTable_new_def)

section \<open>Iteration and Verify\<close>

fun mem_scan_loop :: "nat \<Rightarrow> MemTable \<Rightarrow> MemTableIterator \<Rightarrow> mem_item list option" where
  "mem_scan_loop 0 M it = None"
| "mem_scan_loop (Suc n) M it =
     (if \<not> mem_Valid it then Some []
      else do {
        k \<leftarrow> mem_key M it;
        v \<leftarrow> mem_value M it;
        s \<leftarrow> mem_sequence_number M it;
        d \<leftarrow> mem_is_deleted M it;
        it \<leftarrow> mem_Next M it;
        rest \<leftarrow> mem_scan_loop n M it;
        Some ((k, v, s, d) # rest)
      })"

definition mem_scan :: "MemTable \<Rightarrow> MemTableIterator \<Rightarrow> mem_item list option" where
  "mem_scan M it = mem_scan_loop (skip_fuel (table_impl M)) M it"

text \<open>
  The iterator of a memory table satisfies the contract of \<open>cursor\<close>: \<open>mem_at M it items\<close>
  says that the nodes from the current one on carry \<open>items\<close>.
\<close>

definition mem_at :: "MemTable \<Rightarrow> MemTableIterator \<Rightarrow> mem_item list \<Rightarrow> bool" where
  "mem_at M it items \<longleftrightarrow> iter_status it = Status_OK \<and>
     (\<exists>xs. skip_seg (skip_nodes (table_impl M)) (iter_current it) xs 0 \<and> map snd xs = items)"

definition mem_item_at :: "MemTable \<Rightarrow> MemTableIterator \<Rightarrow> mem_item option" where
  "mem_item_at M it = do {
     k \<leftarrow> mem_key M it;
     v \<leftarrow> mem_value M it;
     s \<leftarrow> mem_sequence_number M it;
     d \<leftarrow> mem_is_deleted M it;
     Some (k, v, s, d)
   }"

lemma mem_at_Cons:
  assumes "mem_at M it (e # es)"
  obtains a nx where "iter_current it = a" "a \<noteq> 0" "skip_nodes (table_impl M) a = Some (mem_node e nx)"
    "mem_at M (it\<lparr>iter_current := nx\<rparr>) es"
  using assms by (fastforce simp: mem_at_def map_eq_Cons_conv)

interpretation mem_cursor: cursor "mem_at M" "\<lambda>it. Some (mem_Valid it)" "mem_item_at M" "mem_Next M" for M
proof
  show "Some (mem_Valid it) = Some (es \<noteq> [])" if "mem_at M it es" for it es
  proof (cases es)
    case Nil
    with that show ?thesis by (auto simp: mem_at_def mem_Valid_def)
  next
    case (Cons e es)
    with that have "mem_at M it (e # es)" by simp
    then have "iter_current it \<noteq> 0" "iter_status it = Status_OK" by (auto elim: mem_at_Cons simp: mem_at_def)
    with Cons show ?thesis by (simp add: mem_Valid_def)
  qed
  show "mem_item_at M it = Some e" if "mem_at M it (e # es)" for it e es
    using that by (rule mem_at_Cons)
      (cases e; simp add: mem_item_at_def mem_key_def mem_value_def mem_sequence_number_def mem_is_deleted_def mem_read_def)
  show "\<exists>it'. mem_Next M it = Some it' \<and> mem_at M it' es" if "mem_at M it (e # es)" for it e es
    using that by (rule mem_at_Cons) (auto simp: mem_Next_def get_forward_node)
qed

lemma mem_item_eq: "mem_item_at M it = Some (k, v, s, d) \<longleftrightarrow> mem_key M it = Some k \<and> mem_value M it = Some v \<and>
    mem_sequence_number M it = Some s \<and> mem_is_deleted M it = Some d"
  by (auto simp: mem_item_at_def split: bind_splits)

lemma scan_seg:
  assumes "skip_seg (skip_nodes (table_impl M)) (iter_current it) xs 0" and "iter_status it = Status_OK" and "length xs < n"
  shows "mem_scan_loop n M it = Some (map snd xs)"
proof (rule mem_cursor.collects [where loop = "\<lambda>n. mem_scan_loop n M"])
  show "mem_at M it (map snd xs)" "length (map snd xs) < n" using assms by (auto simp: mem_at_def)
qed (auto simp: mem_item_eq map_conv_bind_option o_def)

lemma verify_seg:
  assumes o: "key_order c" and c: "skip_comparator S = c"
    and "skip_seg (skip_nodes S) p xs 0" "sorted_wrt (key_lt c) (item_keys xs)" "length xs < n"
  shows "verify_nodes n S p = Some True"
  using assms(3-)
proof (induction xs arbitrary: n p)
  case Nil
  then obtain m where "n = Suc m" by (cases n) auto
  with Nil show ?case by simp
next
  case (Cons x xs)
  obtain a e where x: "x = (a, e)" by (cases x)
  obtain m where n: "n = Suc m" using Cons.prems(3) by (cases n) auto
  obtain nx where a: "p = a" "a \<noteq> 0" "skip_nodes S a = Some (mem_node e nx)" "skip_seg (skip_nodes S) nx xs 0"
    using Cons.prems(1) x by auto
  have ih: "verify_nodes m S nx = Some True"
    using Cons.IH [OF a(4), of m] Cons.prems(2,3) n by (simp add: item_keys_def)
  show ?case
  proof (cases xs)
    case Nil
    then show ?thesis using a get_forward_node [OF a(3)] n by simp
  next
    case (Cons y ys)
    obtain b e' where y: "y = (b, e')" by (cases y)
    obtain nx' where b: "nx = b" "b \<noteq> 0" "skip_nodes S b = Some (mem_node e' nx')" using a(4) Cons y by auto
    have "key_lt c (fst e) (fst e')" using Cons.prems(2) Cons x y by (simp add: item_keys_def)
    then have "\<not> CompareKeys S (fst e) (fst e') \<ge> 0"
      using key_order.cmp_ge [OF o] CompareKeys_Compare [OF c] by simp
    then show ?thesis using a b ih get_forward_node [OF a(3)] n by simp
  qed
qed

lemma table_scan:
  assumes o: "key_order c" and rep: "table_rep c (table_impl M) xs"
  shows "\<exists>it. MemTableIterator_new M = Some it \<and> mem_scan M it = Some (map snd xs)"
    and "\<exists>it'. mem_Seek M key \<lparr>iter_current = p0, iter_status = Status_OK\<rparr> = Some it' \<and>
      mem_scan M it' = Some (map snd (from_key c key xs))"
    and "MemTable_Verify M = Some True"
proof -
  obtain p where p: "get_forward (table_impl M) (skip_head (table_impl M)) 0 = Some p" "skip_seg (skip_nodes (table_impl M)) p xs 0"
    by (rule table_rep_path [OF rep])
  note f = table_rep_fuel [OF rep]
  show "\<exists>it. MemTableIterator_new M = Some it \<and> mem_scan M it = Some (map snd xs)"
    using p(1) scan_seg [of M "\<lparr>iter_current = p, iter_status = Status_OK\<rparr>" xs "skip_fuel (table_impl M)"] p(2) f
    by (simp add: MemTableIterator_new_def mem_FindFirst_def mem_scan_def)
  obtain m where "skip_seg (skip_nodes (table_impl M)) m (from_key c key xs) 0"
    using p(2) below_from [of c key xs] skip_seg_append by metis
  moreover from skip_seg_start [OF this] have "m = first_addr (from_key c key xs)" .
  moreover have "length (from_key c key xs) < skip_fuel (table_impl M)"
    using f below_from [of c key xs] by (metis add_lessD1 add.commute length_append)
  ultimately show "\<exists>it'. mem_Seek M key \<lparr>iter_current = p0, iter_status = Status_OK\<rparr> = Some it' \<and>
      mem_scan M it' = Some (map snd (from_key c key xs))"
    using search_table(1) [OF rep, of key False] scan_seg [of M "\<lparr>iter_current = m, iter_status = Status_OK\<rparr>"]
    by (simp add: mem_Seek_def mem_scan_def)
  show "MemTable_Verify M = Some True"
    using p verify_seg [OF o table_repD(1) [OF rep] p(2) table_repD(7) [OF rep] f] by (simp add: MemTable_Verify_def)
qed

section \<open>Destruction\<close>

lemma delete_seg:
  assumes "skip_seg (skip_nodes S) p xs 0" and "distinct (map fst xs)" and "length xs < n"
  shows "\<exists>S'. delete_nodes n p S = Some S' \<and> skip_nodes S' = (skip_nodes S) |` (- (fst ` set xs)) \<and> skip_head S' = skip_head S"
  using assms
proof (induction xs arbitrary: n p S)
  case Nil
  then obtain m where "n = Suc m" by (cases n) auto
  with Nil show ?case by simp
next
  case (Cons x xs)
  obtain a e where x: "x = (a, e)" by (cases x)
  obtain m where n: "n = Suc m" using Cons.prems(3) by (cases n) auto
  obtain nx where a: "p = a" "a \<noteq> 0" "skip_nodes S a = Some (mem_node e nx)" "skip_seg (skip_nodes S) nx xs 0"
    using Cons.prems(1) x by auto
  let ?S = "S\<lparr>skip_nodes := (skip_nodes S)(a := None)\<rparr>"
  have seg: "skip_seg (skip_nodes ?S) nx xs 0" using a(4) Cons.prems(2) x by (simp add: skip_seg_frame)
  have "distinct (map fst xs)" and "length xs < m" using Cons.prems(2,3) n by simp_all
  from Cons.IH [OF seg this] obtain S' where S': "delete_nodes m nx ?S = Some S'"
    "skip_nodes S' = (skip_nodes ?S) |` (- (fst ` set xs))" "skip_head S' = skip_head ?S" by blast
  have "(skip_nodes ?S) |` (- (fst ` set xs)) = (skip_nodes S) |` (- (fst ` set (x # xs)))"
    by (rule ext) (simp add: x restrict_map_def)
  with S'(2) have "skip_nodes S' = (skip_nodes S) |` (- (fst ` set (x # xs)))" by (rule trans)
  then show ?case using a(1-3) get_forward_node [OF a(3)] n S'(1,3) by simp
qed

lemma table_destroy:
  assumes rep: "table_rep c S xs"
  shows "\<exists>S'. SkipList_destroy S = Some S' \<and> skip_nodes S' = Map.empty"
proof -
  note d = table_repD [OF rep]
  obtain p where p: "get_forward S (skip_head S) 0 = Some p" "skip_seg (skip_nodes S) p xs 0" by (rule table_rep_path [OF rep])
  have "length (skip_head S # map fst xs) \<le> card {1..<skip_next S}"
    using d(4,6) by (metis card_mono distinct_card finite_atLeastLessThan list.simps(15) set_map)
  then have "length xs < skip_next S" by simp
  from delete_seg [OF p(2) _ this] d(4) obtain S' where
    S': "delete_nodes (skip_next S) p S = Some S'" "skip_nodes S' = (skip_nodes S) |` (- (fst ` set xs))" "skip_head S' = skip_head S" by auto
  have "(skip_nodes S')(skip_head S := None) = Map.empty"
  proof (rule ext)
    fix a
    show "((skip_nodes S')(skip_head S := None)) a = None"
      using d(5) by (cases "a \<in> dom (skip_nodes S)") (auto simp: S'(2) restrict_map_def)
  qed
  then show ?thesis using p(1) S' by (simp add: SkipList_destroy_def)
qed

end
