(* ===== verification/MemTable_Properties.thy ===== *)
theory MemTable_Properties
  imports MemTable_Steps
begin

text \<open>
  The properties of the memory table: runs of \<open>Put\<close> and \<open>Delete\<close> on a new table, each with
  the coin tosses of its \<open>RandomLevel\<close>.  The table is correct as long as every node is of level 1,
  and the code is undefined as soon as a node of a higher level is to be linked.
\<close>

lemma mem_reach:
  assumes "key_order (mem_comparator opts)" and "list_all (\<lambda>x. tails (snd x)) ops"
  obtains M xs where "mem_run nb ops (MemTable_new opts) = Some M" "mem_ok (mem_comparator opts) nb M xs"
    "mem_map xs = mem_ops_map ops" "max_sequence M = fold (\<lambda>x m. max m (op_seq (fst x))) ops 0"
    "table_options M = opts" "skip_max_level (table_impl M) = max_level opts"
proof -
  have new: "mem_map [] = Map.empty" "max_sequence (MemTable_new opts) = 0" "table_options (MemTable_new opts) = opts"
    "skip_max_level (table_impl (MemTable_new opts)) = max_level opts"
    by (simp_all add: mem_map_def MemTable_new_def SkipList_new_def new_skip_node_def Let_def)
  from mem_run_ok [OF assms mem_new] show thesis using that unfolding new by metis
qed

abbreviation max_seq_fold :: "(mem_op \<times> bool list) list \<Rightarrow> u64" where
  "max_seq_fold ops \<equiv> fold (\<lambda>x m. max m (op_seq (fst x))) ops 0"

text \<open>
  C13. A run of puts and deletes whose new nodes are all of level 1 is defined, and the table is the
  map of its last writes: \<open>Get\<close> answers the value of the last put (and its sequence number, if
  asked), "Key deleted" where the last operation is a delete, and "Key not found" for a key never
  written; \<open>Contains\<close> is true for deleted keys too; the greatest sequence number is
  the greatest of the run, and \<open>Verify\<close> succeeds.
\<close>

theorem memtable_refines_map:
  assumes "key_order (mem_comparator opts)" and "list_all (\<lambda>x. tails (snd x)) ops"
  shows "\<exists>M. mem_run nb ops (MemTable_new opts) = Some M \<and>
    (\<forall>key x q. MemTable_Get key x q M = Some (case mem_ops_map ops key of
        None \<Rightarrow> (Status_NotFound ''Key not found'', x, q)
      | Some (v, s, d) \<Rightarrow> if d then (Status_NotFound ''Key deleted'', x, q) else (Status_OK, v, map_option (\<lambda>_. s) q)) \<and>
      Contains key M = Some (mem_ops_map ops key \<noteq> None)) \<and>
    max_sequence M = max_seq_fold ops \<and> MemTable_Verify M = Some True"
proof -
  obtain M xs where M: "mem_run nb ops (MemTable_new opts) = Some M" "mem_ok (mem_comparator opts) nb M xs"
    "mem_map xs = mem_ops_map ops" "max_sequence M = max_seq_fold ops"
    using assms by (rule mem_reach)
  have rep: "table_rep (mem_comparator opts) (table_impl M) xs" using M(2) by (simp add: mem_ok_def)
  note get = mem_get [OF assms(1) rep, unfolded M(3)] and ver = table_scan(3) [OF assms(1) rep]
  show ?thesis by (intro exI [of _ M] conjI allI M(1,4) get ver)
qed

lemma default_key_order: "key_order (mem_comparator MemTableOptions_default)"
  by (simp add: MemTableOptions_default_def default_order.key_order_axioms)

theorem memtable_refines_map_witness:
  "\<exists>M. mem_run (\<lambda>n. 120) [(MPut ''b'' ''1'' 1, []), (MPut ''a'' ''2'' 2, [False]), (MDelete ''b'' 3, [])]
      (MemTable_new MemTableOptions_default) = Some M \<and>
    MemTable_Get ''a'' [] (Some 0) M = Some (Status_OK, ''2'', Some 2) \<and>
    MemTable_Get ''b'' [] None M = Some (Status_NotFound ''Key deleted'', [], None)"
  using memtable_refines_map [OF default_key_order,
      of "[(MPut ''b'' ''1'' 1, []), (MPut ''a'' ''2'' 2, [False]), (MDelete ''b'' 3, [])]" "\<lambda>n. 120"]
  by (auto simp: tails_def mem_op_map_def)

text \<open>
  C23. The iterator of such a table delivers every entry (the deleted ones with their flag) once, in
  the strictly increasing order of the comparator, and \<open>Seek\<close> continues with exactly the entries
  whose key is not smaller than the target.
\<close>

theorem memtable_scan_sorted:
  assumes "key_order (mem_comparator opts)" and "list_all (\<lambda>x. tails (snd x)) ops"
  shows "\<exists>M it items. mem_run nb ops (MemTable_new opts) = Some M \<and> MemTableIterator_new M = Some it \<and>
    mem_scan M it = Some items \<and> sorted_wrt (key_lt (mem_comparator opts)) (map fst items) \<and> map_of items = mem_ops_map ops \<and>
    (\<forall>key. \<exists>it'. mem_Seek M key it = Some it' \<and>
      mem_scan M it' = Some (filter (\<lambda>x. \<not> key_lt (mem_comparator opts) (fst x) key) items))"
proof -
  let ?c = "mem_comparator opts"
  obtain M xs where M: "mem_run nb ops (MemTable_new opts) = Some M" "mem_ok ?c nb M xs" "mem_map xs = mem_ops_map ops"
    using assms by (rule mem_reach)
  have rep: "table_rep ?c (table_impl M) xs" using M(2) by (simp add: mem_ok_def)
  obtain it where it: "MemTableIterator_new M = Some it" "mem_scan M it = Some (map snd xs)"
    using table_scan(1) [OF assms(1) rep] by blast
  have st: "it = \<lparr>iter_current = iter_current it, iter_status = Status_OK\<rparr>"
    using it(1) by (auto simp: MemTableIterator_new_def mem_FindFirst_def split: bind_splits)
  have keys: "map fst (map snd xs) = item_keys xs" by (simp add: item_keys_def comp_def)
  have seek: "\<exists>it'. mem_Seek M key it = Some it' \<and> mem_scan M it' = Some (filter (\<lambda>x. \<not> key_lt ?c (fst x) key) (map snd xs))" for key
  proof -
    note sp = key_order.sorted_split [OF assms(1) table_repD(7) [OF rep], of key]
    have "filter (\<lambda>x. \<not> key_lt ?c (fst x) key) (map snd (below ?c key xs @ from_key ?c key xs)) = map snd (from_key ?c key xs)"
      using sp by (simp add: filter_map comp_def filter_empty_conv)
    then show ?thesis using table_scan(2) [OF assms(1) rep, of key "iter_current it"] st by (metis below_from)
  qed
  from M(3) have map: "map_of (map snd xs) = mem_ops_map ops" by (simp only: mem_map_def)
  show ?thesis
    by (intro exI [of _ M] exI [of _ it] exI [of _ "map snd xs"] conjI allI M(1) it map seek)
      (unfold keys, rule table_repD(7) [OF rep])
qed

theorem memtable_scan_sorted_witness:
  "\<exists>M it. mem_run (\<lambda>n. 120) [(MPut ''b'' ''1'' 1, [])] (MemTable_new MemTableOptions_default) = Some M \<and>
    MemTableIterator_new M = Some it \<and> mem_scan M it \<noteq> None"
  using memtable_scan_sorted [OF default_key_order, of "[(MPut ''b'' ''1'' 1, [])]" "\<lambda>n. 120"]
  by (auto simp: tails_def)

text \<open>
  C40. A node of a level above the table's current one has no predecessor there: the search leaves
  a null pointer in \<open>prev\<close>, and \<open>InsertNode\<close> reads through it.  So on every table reached by
  such a run, a put or a delete of a new key whose first coin comes up heads is undefined, if the table allows
  more than one level.
\<close>

theorem memtable_higher_level_undefined:
  assumes "key_order (mem_comparator opts)" and "list_all (\<lambda>x. tails (snd x)) ops"
    and "1 < max_level opts" and "mem_ops_map ops (op_key op) = None"
  shows "mem_run nb (ops @ [(op, True # coins)]) (MemTable_new opts) = None"
proof -
  obtain M xs where M: "mem_run nb ops (MemTable_new opts) = Some M" "mem_ok (mem_comparator opts) nb M xs"
    "mem_map xs = mem_ops_map ops" "skip_max_level (table_impl M) = max_level opts"
    using assms(1,2) by (rule mem_reach)
  have step: "RandomLevel_loop m cs l \<ge> l" for m cs l
    by (induction m cs l rule: RandomLevel_loop.induct) auto
  have "1 < RandomLevel (True # coins) (table_impl M)"
    using step [of 2 "max_level opts" coins] assms(3) M(4) by (simp add: RandomLevel_def numeral_2_eq_2)
  then have "mem_exec nb (True # coins) op M = None"
    using mem_step_undefined [OF assms(1), of M xs "True # coins" op] M(2,3) assms(4) by (simp add: mem_ok_def)
  moreover have "mem_run nb (as @ bs) T = mem_run nb as T \<bind> mem_run nb bs" for as bs T
    by (induction nb as T rule: mem_run.induct) (auto split: bind_splits)
  ultimately show ?thesis using M(1) by simp
qed

theorem memtable_higher_level_undefined_witness:
  "mem_run (\<lambda>n. 120) [(MPut ''a'' ''1'' 1, []), (MPut ''b'' ''2'' 2, [True, False])] (MemTable_new MemTableOptions_default) = None"
  using memtable_higher_level_undefined [OF default_key_order, of "[(MPut ''a'' ''1'' 1, [])]" "MPut ''b'' ''2'' 2" "\<lambda>n. 120" "[False]"]
  by (simp add: tails_def mem_op_map_def MemTableOptions_default_def)

text \<open>A put over a deleted entry revives it without counting it.\<close>

lemma revived_not_counted:
  "\<exists>M N. mem_run nb [(MPut key v s, []), (MDelete key s', []), (MPut key w t, [])] (MemTable_new MemTableOptions_default) = Some M \<and>
    MemTable_Get key [] None M = Some (Status_OK, w, None) \<and> table_size M = 0 \<and>
    MemTable_Delete nb [] key t' M = Some (Status_OK, N) \<and> table_size N = 2 ^ 64 - 1"
proof -
  let ?c = "mem_comparator MemTableOptions_default"
  have lev: "RandomLevel [] S = 1" for S by (simp add: RandomLevel_def)
  have ord: "key_order ?c" by (rule default_key_order)
  let ?M0 = "MemTable_new MemTableOptions_default"
  have 0: "mem_ok ?c nb ?M0 []" "mem_map [] = Map.empty" "table_size ?M0 = 0"
    by (rule mem_new) (simp_all add: mem_map_def MemTable_new_def)
  have step: "\<exists>M' ys. mem_exec nb [] op M = Some (Status_OK, M') \<and> mem_ok ?c nb M' ys \<and>
      mem_map ys = mem_op_map op (mem_map xs) \<and> table_size M' = size_step op (mem_map xs) (table_size M)"
    if "mem_ok ?c nb M xs" for M xs op
    using mem_step [OF ord that, of "[]" op] lev by blast
  from step [OF 0(1), of "MPut key v s"] 0(2,3) obtain M1 xs1 where
    1: "mem_exec nb [] (MPut key v s) ?M0 = Some (Status_OK, M1)" "mem_ok ?c nb M1 xs1" "mem_map xs1 key = Some (v, s, False)" "table_size M1 = 1"
    by (auto simp: mem_op_map_def)
  from step [OF 1(2), of "MDelete key s'"] 1(3,4) obtain M2 xs2 where
    2: "mem_exec nb [] (MDelete key s') M1 = Some (Status_OK, M2)" "mem_ok ?c nb M2 xs2" "mem_map xs2 key = Some ([], s', True)" "table_size M2 = 0"
    by (auto simp: mem_op_map_def)
  from step [OF 2(2), of "MPut key w t"] 2(3,4) obtain M3 xs3 where
    3: "mem_exec nb [] (MPut key w t) M2 = Some (Status_OK, M3)" "mem_ok ?c nb M3 xs3" "mem_map xs3 key = Some (w, t, False)" "table_size M3 = 0"
    by (auto simp: mem_op_map_def)
  from step [OF 3(2), of "MDelete key t'"] 3(3,4) obtain M4 where
    4: "MemTable_Delete nb [] key t' M3 = Some (Status_OK, M4)" "table_size M4 = 2 ^ 64 - 1" by auto
  have get: "MemTable_Get key [] None M3 = Some (Status_OK, w, None)"
    using mem_get(1) [OF ord, of M3 xs3 key "[]" None] 3(2,3) by (simp add: mem_ok_def)
  have run: "mem_run nb [(MPut key v s, []), (MDelete key s', []), (MPut key w t, [])] ?M0 = Some M3"
    using 1(1) 2(1) 3(1) by simp
  show ?thesis by (intro exI [of _ M3] exI [of _ M4] conjI run get 3(4) 4)
qed

text \<open>
  A put over a deleted entry revives it without counting it: after a put, a delete and a put of
  one key the table holds the key and \<open>Size\<close> is 0, and one more delete wraps \<open>Size\<close> around to the
  greatest \<open>size_t\<close>.
\<close>

theorem memtable_size_drift:
  "\<exists>M N. mem_run nb [(MPut key v s, []), (MDelete key s', []), (MPut key w t, [])] (MemTable_new MemTableOptions_default) = Some M \<and>
    MemTable_Get key [] None M = Some (Status_OK, w, None) \<and> table_size M = 0 \<and>
    MemTable_Delete nb [] key t' M = Some (Status_OK, N) \<and> table_size N = 2 ^ 64 - 1"
  by (rule revived_not_counted)

text \<open>
  \<open>MemoryUsage\<close> is the number of bytes of the keys, of the values and of the nodes of the
  entries in the table (modulo the width of \<open>size_t\<close>), and the destructor of the skip list frees
  every node.
\<close>

theorem memtable_memory:
  assumes "key_order (mem_comparator opts)" and "list_all (\<lambda>x. tails (snd x)) ops"
  shows "\<exists>M items S. mem_run nb ops (MemTable_new opts) = Some M \<and> distinct (map fst items) \<and> map_of items = mem_ops_map ops \<and>
    memory_usage M = of_nat (sum_list (map (\<lambda>x. length (fst x) + length (fst (snd x)) + nb 1) items)) \<and>
    SkipList_destroy (table_impl M) = Some S \<and> skip_nodes S = Map.empty"
proof -
  obtain M xs where M: "mem_run nb ops (MemTable_new opts) = Some M" "mem_ok (mem_comparator opts) nb M xs" "mem_map xs = mem_ops_map ops"
    using assms by (rule mem_reach)
  have rep: "table_rep (mem_comparator opts) (table_impl M) xs" using M(2) by (simp add: mem_ok_def)
  obtain S where S: "SkipList_destroy (table_impl M) = Some S" "skip_nodes S = Map.empty" using table_destroy [OF rep] by blast
  have mem: "memory_usage M = of_nat (sum_list (map (\<lambda>x. length (fst x) + length (fst (snd x)) + nb 1) (map snd xs)))"
  proof -
    have "(\<lambda>x. length (fst x) + length (fst (snd x)) + nb 1) \<circ> snd = item_bytes nb" by (simp add: fun_eq_iff item_bytes_def)
    then show ?thesis using M(2) by (simp only: mem_ok_def map_map)
  qed
  have "sorted_wrt (key_lt (mem_comparator opts)) (map fst (map snd xs))"
    using table_repD(7) [OF rep] by (simp add: item_keys_def comp_def)
  then have dist: "distinct (map fst (map snd xs))"
    using key_order.lt_irrefl [OF assms(1)] by (auto simp: sorted_wrt_iff_nth_less distinct_conv_nth) (metis nat_neq_iff)
  from M(3) have map: "map_of (map snd xs) = mem_ops_map ops" by (simp only: mem_map_def)
  show ?thesis by (intro exI [of _ M] exI [of _ "map snd xs"] exI [of _ S] conjI M(1) dist map mem S)
qed

theorem memtable_memory_witness:
  "\<exists>M. mem_run (\<lambda>n. 120) [(MPut ''b'' ''12'' 1, [])] (MemTable_new MemTableOptions_default) = Some M \<and>
    (\<exists>S. SkipList_destroy (table_impl M) = Some S \<and> skip_nodes S = Map.empty)"
  using memtable_memory [OF default_key_order, of "[(MPut ''b'' ''12'' 1, [])]" "\<lambda>n. 120"]
  by (auto simp: tails_def)

end
