(* ===== verification/Flush_Properties.thy ===== *)
theory Flush_Properties
  imports Flush MemTable_Properties SSTable_Build "HOL-Library.Multiset"
begin

text \<open>
  The properties of the flush: the flush of a table as the composition of the memory table and the
  table builder, and the system of a manager, its threads and its callers.
\<close>

section \<open>The flush of one table\<close>

text \<open>The loop adds every entry of a sorted table.\<close>

lemma flush_entries_run:
  assumes size: "17 \<le> sst_block_size opts" "0 < block_restart_interval opts" and o: "key_order (sst_comparator opts)"
    and it: "mem_at M it items" "length items < n"
  shows "sst_inv opts b acc \<Longrightarrow> sorted_wrt (key_lt (sst_comparator opts)) (map fst (acc @ items)) \<Longrightarrow>
    \<exists>it' b'. flush_entries n M it b = Some (Status_OK, it', b') \<and> iter_status it' = Status_OK \<and> sst_inv opts b' (acc @ items) \<and>
      sst_add_all items b = Some (replicate (length items) Status_OK, b')"
  using it
proof (induction n it items arbitrary: b acc rule: mem_cursor.drive [consumes 2, case_names stop step])
  case (stop n it)
  then show ?case by (simp add: mem_at_def)
next
  case (step n it e items it')
  obtain k v s d where e: "e = (k, v, s, d)" by (metis prod_cases4)
  have "acc = [] \<or> key_lt (sst_comparator opts) (fst (last acc)) k"
    using step.prems(2) by (cases "acc = []") (auto simp: e sorted_wrt_append)
  from sst_add_step [OF size step.prems(1) this o, of v s d] obtain b1 where
    b1: "SSTableBuilder_Add k v s d b = Some (Status_OK, b1)" "sst_inv opts b1 (acc @ [e])" unfolding e by blast
  from step(6) [OF b1(2)] step.prems(2) b1(1) step(2-4) show ?case by (auto simp: e mem_item_eq)
qed

lemma flush_loop:
  assumes size: "17 \<le> sst_block_size (sstable_options opts)" "0 < block_restart_interval (sstable_options opts)"
    and o: "key_order c" "sst_comparator (sstable_options opts) = c" and rep: "table_rep c (table_impl M) xs"
  obtains it it' b where "MemTableIterator_new M = Some it" "mem_FindFirst M it = Some it" "mem_scan M it = Some (map snd xs)"
    "flush_entries (skip_fuel (table_impl M)) M it (SSTableBuilder_new (sstable_options opts)) = Some (Status_OK, it', b)"
    "iter_status it' = Status_OK" "sst_inv (sstable_options opts) b (map snd xs)"
    "sst_add_all (map snd xs) (SSTableBuilder_new (sstable_options opts)) = Some (replicate (length xs) Status_OK, b)"
proof -
  obtain p where p: "get_forward (table_impl M) (skip_head (table_impl M)) 0 = Some p" "skip_seg (skip_nodes (table_impl M)) p xs 0"
    by (rule table_rep_path [OF rep])
  let ?it = "\<lparr>iter_current = p, iter_status = Status_OK\<rparr>"
  have it: "MemTableIterator_new M = Some ?it" "mem_FindFirst M ?it = Some ?it"
    using p(1) by (simp_all add: MemTableIterator_new_def mem_FindFirst_def)
  have scan: "mem_scan M ?it = Some (map snd xs)" using table_scan(1) [OF o(1) rep] it(1) by auto
  obtain it' b where "flush_entries (skip_fuel (table_impl M)) M ?it (SSTableBuilder_new (sstable_options opts)) = Some (Status_OK, it', b)"
    "iter_status it' = Status_OK" "sst_inv (sstable_options opts) b (map snd xs)"
    "sst_add_all (map snd xs) (SSTableBuilder_new (sstable_options opts)) = Some (replicate (length xs) Status_OK, b)"
    using flush_entries_run [OF size, of M ?it "map snd xs" "skip_fuel (table_impl M)" "SSTableBuilder_new (sstable_options opts)" "[]"]
      o p(2) table_rep_fuel [OF rep] sst_inv_new table_repD(7) [OF rep] by (auto simp: mem_at_def item_keys_def comp_def)
  from that [OF it scan this] show thesis .
qed

text \<open>What the flush does depends on whether the file can be opened.\<close>

lemma PerformFlush_unopened:
  assumes size: "17 \<le> sst_block_size (sstable_options opts)" "0 < block_restart_interval (sstable_options opts)"
    and o: "key_order c" "sst_comparator (sstable_options opts) = c" and rep: "table_rep c (table_impl M) xs"
    and "table_size M \<noteq> 0" and "\<not> sst_open_ok e"
  shows "PerformFlush e timestamp rnd opts (Some M) result files =
    Some (Status_IOError (''Failed to open file: '' @ flush_filename opts timestamp rnd), result, files)"
proof -
  obtain it it' b where l: "MemTableIterator_new M = Some it" "mem_FindFirst M it = Some it" "mem_scan M it = Some (map snd xs)"
    "flush_entries (skip_fuel (table_impl M)) M it (SSTableBuilder_new (sstable_options opts)) = Some (Status_OK, it', b)"
    "iter_status it' = Status_OK" "sst_inv (sstable_options opts) b (map snd xs)"
    "sst_add_all (map snd xs) (SSTableBuilder_new (sstable_options opts)) = Some (replicate (length xs) Status_OK, b)"
    by (rule flush_loop [OF size o rep])
  show ?thesis using l assms(6,7)
    by (simp add: PerformFlush_def Let_def SSTableBuilder_Finish_def sst_inv_def stream_open_def)
qed

text \<open>
  C39. A memory table with at least one counted entry, over any run whose coins are tails, cannot be flushed to a file
  that can be opened.  The loop runs to its end: the table's entries, each once and in order, are added to a new
  builder, which accepts every one of them.  It is \<open>Finish\<close> that is undefined, and there the call of
  \<open>WriteIndexBlock\<close>; so the flush is undefined.
\<close>

theorem flush_undefined:
  assumes "key_order (mem_comparator mopts)" and "sst_comparator (sstable_options opts) = mem_comparator mopts"
    and "17 \<le> sst_block_size (sstable_options opts)" and "0 < block_restart_interval (sstable_options opts)"
    and "list_all (\<lambda>x. tails (snd x)) ops" and "mem_run nb ops (MemTable_new mopts) = Some M" and "table_size M \<noteq> 0"
    and "sst_open_ok e"
  shows "\<exists>it items it' b. MemTableIterator_new M = Some it \<and> mem_FindFirst M it = Some it \<and> mem_scan M it = Some items \<and>
    sorted_wrt (key_lt (mem_comparator mopts)) (map fst items) \<and> map_of items = mem_ops_map ops \<and> items \<noteq> [] \<and>
    sst_add_all items (SSTableBuilder_new (sstable_options opts)) = Some (replicate (length items) Status_OK, b) \<and>
    flush_entries (skip_fuel (table_impl M)) M it (SSTableBuilder_new (sstable_options opts)) = Some (Status_OK, it', b) \<and>
    iter_status it' = Status_OK \<and>
    WriteIndexBlock (FlushBlock (stream_open e (b\<lparr>sst_filename := flush_filename opts timestamp rnd\<rparr>))) = None \<and>
    SSTableBuilder_Finish e (flush_filename opts timestamp rnd) b files = None \<and>
    PerformFlush e timestamp rnd opts (Some M) result files = None"
proof -
  obtain xs where xs: "mem_ok (mem_comparator mopts) nb M xs" "mem_map xs = mem_ops_map ops"
    using mem_reach [OF assms(1,5), of nb] assms(6) by (metis option.inject)
  have "ops \<noteq> []" using assms(6,7) by (auto simp: MemTable_new_def)
  then have "mem_ops_map ops (op_key (fst (last ops))) \<noteq> None"
    by (cases ops rule: rev_cases) (auto simp: mem_op_map_def)
  then have ne: "map snd xs \<noteq> []" using xs(2) by (auto simp: mem_map_def)
  have rep: "table_rep (mem_comparator mopts) (table_impl M) xs" using xs(1) by (simp add: mem_ok_def)
  obtain it it' b where l: "MemTableIterator_new M = Some it" "mem_FindFirst M it = Some it" "mem_scan M it = Some (map snd xs)"
    "flush_entries (skip_fuel (table_impl M)) M it (SSTableBuilder_new (sstable_options opts)) = Some (Status_OK, it', b)"
    "iter_status it' = Status_OK" "sst_inv (sstable_options opts) b (map snd xs)"
    "sst_add_all (map snd xs) (SSTableBuilder_new (sstable_options opts)) = Some (replicate (length xs) Status_OK, b)"
    by (rule flush_loop [OF assms(3,4,1,2) rep])
  note finish = sst_finish_undefined [OF l(6) ne assms(8)]
  have "PerformFlush e timestamp rnd opts (Some M) result files = None"
    using l(1,2,4,5) finish(2) assms(7) by (simp add: PerformFlush_def Let_def)
  moreover have "sorted_wrt (key_lt (mem_comparator mopts)) (map fst (map snd xs))"
    using table_repD(7) [OF rep] by (simp add: item_keys_def comp_def)
  moreover have "map_of (map snd xs) = mem_ops_map ops" using xs(2) by (simp only: mem_map_def)
  ultimately show ?thesis using l(1-5,7) ne finish by (metis length_map)
qed

text \<open>A table with one entry.\<close>

lemma one_entry_table:
  obtains M where "mem_run (\<lambda>n. 120) [(MPut ''a'' ''1'' 1, [])] (MemTable_new MemTableOptions_default) = Some M" "table_size M = 1"
    "mem_ops_map [(MPut ''a'' ''1'' 1, [])] = [''a'' \<mapsto> (''1'', 1, False)]"
proof -
  have new: "mem_ok None (\<lambda>n. 120) (MemTable_new MemTableOptions_default) []"
    using mem_new [of MemTableOptions_default "\<lambda>n. 120"] by (simp add: MemTableOptions_default_def)
  obtain M where "mem_exec (\<lambda>n. 120) [] (MPut ''a'' ''1'' 1) (MemTable_new MemTableOptions_default) = Some (Status_OK, M)" "table_size M = 1"
    using mem_step [OF default_order.key_order_axioms new, of "[]" "MPut ''a'' ''1'' 1"]
    by (auto simp: RandomLevel_def mem_map_def MemTable_new_def)
  then show thesis by (intro that) (simp_all add: mem_op_map_def)
qed

theorem flush_undefined_witness:
  "\<exists>M b it it'. mem_run (\<lambda>n. 120) [(MPut ''a'' ''1'' 1, [])] (MemTable_new MemTableOptions_default) = Some M \<and>
    flush_entries (skip_fuel (table_impl M)) M it (SSTableBuilder_new SSTableOptions_default) = Some (Status_OK, it', b) \<and>
    PerformFlush \<lparr>sst_open_ok = True, sst_limit = None\<rparr> 0 1000 FlushOptions_default (Some M) FlushResult_new Map.empty = None"
proof -
  obtain M where M: "mem_run (\<lambda>n. 120) [(MPut ''a'' ''1'' 1, [])] (MemTable_new MemTableOptions_default) = Some M" "table_size M = 1"
    by (rule one_entry_table)
  have opts: "sstable_options FlushOptions_default = SSTableOptions_default" "sst_comparator SSTableOptions_default = None"
    "mem_comparator MemTableOptions_default = None" "17 \<le> sst_block_size SSTableOptions_default" "0 < block_restart_interval SSTableOptions_default"
    by (simp_all add: FlushOptions_default_def SSTableOptions_default_def MemTableOptions_default_def)
  have t: "list_all (\<lambda>x. tails (snd x)) [(MPut ''a'' ''1'' 1, [])]" by (simp add: tails_def)
  show ?thesis
    using flush_undefined [OF default_key_order _ _ _ t M(1), of FlushOptions_default "\<lparr>sst_open_ok = True, sst_limit = None\<rparr>" 0 1000 Map.empty FlushResult_new]
      M opts by auto
qed

text \<open>
  A table whose only entry was deleted and written again counts no entry: the flush of it succeeds and
  writes nothing, although the table holds the value.
\<close>

theorem flush_drops_revived:
  "\<exists>M. mem_run nb [(MPut key v s, []), (MDelete key s', []), (MPut key w t, [])] (MemTable_new MemTableOptions_default) = Some M \<and>
    MemTable_Get key [] None M = Some (Status_OK, w, None) \<and>
    PerformFlush e timestamp rnd opts (Some M) result files = Some (Status_OK, result, files)"
  using revived_not_counted [of nb key v s s' w t] by (auto simp: PerformFlush_def)

section \<open>The manager and its threads\<close>

definition queue_of :: "FlushManager \<Rightarrow> FlushJob list" where
  "queue_of F = (case fm_impl F of None \<Rightarrow> [] | Some I \<Rightarrow> flush_queue I)"

text \<open>The jobs that a thread holds, and the job that a step has completed.\<close>

fun held_job :: "flush_pc \<Rightarrow> FlushJob list" where
  "held_job (Taken job) = [job]"
| "held_job (Flushing job) = [job]"
| "held_job pc = []"

definition counted :: "flush_pc \<Rightarrow> bool" where
  "counted pc \<longleftrightarrow> (case pc of Flushing job \<Rightarrow> True | Flushed \<Rightarrow> True | _ \<Rightarrow> False)"

definition completed :: "FlushImpl \<Rightarrow> FlushImpl \<Rightarrow> FlushJob list" where
  "completed I J = concat (map (\<lambda>(p, q). if q = Flushed then held_job p else []) (zip (flush_threads I) (flush_threads J)))"

text \<open>
  The reachable states: the calls of the owner and the steps of the threads, in any order.  The two
  lists are the jobs scheduled so far and the jobs completed.
\<close>

inductive flush_sys ::
  "SstEnv \<Rightarrow> FlushOptions \<Rightarrow> sst_files \<Rightarrow> FlushManager \<Rightarrow> FlushJob list \<Rightarrow> FlushJob list \<Rightarrow> bool"
  for e :: SstEnv and opts :: FlushOptions and files :: sst_files where
  init: "flush_sys e opts files (FlushManager_new opts files) [] []"
| start: "flush_sys e opts files F sched fin \<Longrightarrow> FlushManager_Start F = Some F' \<Longrightarrow> flush_sys e opts files F' sched fin"
| schedule: "flush_sys e opts files F sched fin \<Longrightarrow> ScheduleFlush memtable cb F = Some (s, F') \<Longrightarrow>
    flush_sys e opts files F' (sched @ drop (length (queue_of F)) (queue_of F')) fin"
| thread: "flush_sys e opts files F sched fin \<Longrightarrow> fm_impl F = Some I \<Longrightarrow> thread_step e I J \<Longrightarrow>
    flush_sys e opts files (F\<lparr>fm_impl := Some J\<rparr>) sched (fin @ completed I J)"
| stop_request: "flush_sys e opts files F sched fin \<Longrightarrow> Stop_request F = Some F' \<Longrightarrow> flush_sys e opts files F' sched fin"
| stop_end: "flush_sys e opts files F sched fin \<Longrightarrow> Stop_joined F \<Longrightarrow> Stop_end F = Some F' \<Longrightarrow> flush_sys e opts files F' sched fin"

inductive_cases thread_stepE: "thread_step e I J"

definition threads_inv :: "FlushImpl \<Rightarrow> FlushJob list \<Rightarrow> FlushJob list \<Rightarrow> bool" where
  "threads_inv I sched fin \<longleftrightarrow>
     (\<exists>popped. sched = popped @ flush_queue I \<and> mset popped = mset fin + mset (concat (map held_job (flush_threads I)))) \<and>
     active_flushes I = int (length (filter counted (flush_threads I))) \<and>
     map job_id sched = map of_nat [1..<length sched + 1] \<and> next_job_id I = of_nat (length sched + 1)"

lemma completed_same: "concat (map2 (\<lambda>p q. if q = Flushed then held_job p else []) ts ts) = []"
  by (induction ts) auto

text \<open>The three quantities of the invariant after thread \<open>i\<close> has moved.\<close>

lemma set_pc_completed:
  "i < length (flush_threads I) \<Longrightarrow> completed I (set_pc i pc (J\<lparr>flush_threads := flush_threads I\<rparr>)) =
    (if pc = Flushed then held_job (flush_threads I ! i) else [])"
  by (cases "i < length (flush_threads I)")
    (auto simp: completed_def set_pc_def completed_same upd_conv_take_nth_drop zip_append2 simp flip: Cons_nth_drop_Suc)

lemma set_pc_held:
  assumes "i < length ts"
  shows "mset (concat (map held_job (ts[i := pc]))) + mset (held_job (ts ! i)) = mset (concat (map held_job ts)) + mset (held_job pc)"
proof -
  let ?f = "\<lambda>us. mset (concat (map held_job us))"
  have "?f (ts[i := pc]) = ?f (take i ts) + mset (held_job pc) + ?f (drop (Suc i) ts)"
    using concat_map_update [OF assms, of held_job pc] by (metis mset_append add.assoc)
  moreover have "?f ts = ?f (take i ts) + mset (held_job (ts ! i)) + ?f (drop (Suc i) ts)"
    using concat_map_split [OF assms, of held_job] by (metis mset_append add.assoc)
  ultimately show ?thesis by simp
qed

lemma set_pc_counted:
  assumes "i < length ts"
  shows "int (length (filter counted (ts[i := pc]))) =
    int (length (filter counted ts)) - (if counted (ts ! i) then 1 else 0) + (if counted pc then 1 else 0)"
proof -
  have "length (filter counted (ts[i := pc])) =
      length (filter counted (take i ts)) + (if counted pc then 1 else 0) + length (filter counted (drop (Suc i) ts))"
    using assms by (simp add: upd_conv_take_nth_drop)
  moreover have "length (filter counted ts) =
      length (filter counted (take i ts)) + (if counted (ts ! i) then 1 else 0) + length (filter counted (drop (Suc i) ts))"
    using arg_cong [OF id_take_nth_drop [OF assms], of "\<lambda>us. length (filter counted us)"] by simp
  ultimately show ?thesis by simp
qed

lemma run_callback_fields [simp]:
  "flush_threads (run_callback cb r s I) = flush_threads I" "flush_queue (run_callback cb r s I) = flush_queue I"
  "active_flushes (run_callback cb r s I) = active_flushes I" "next_job_id (run_callback cb r s I) = next_job_id I"
  "stopping (run_callback cb r s I) = stopping I"
  by (simp_all add: run_callback_def split: option.splits)

lemma thread_inv_move:
  assumes inv: "threads_inv I sched fin" and i: "i < length (flush_threads I)"
    and J: "flush_threads J = (flush_threads I)[i := pc]" "next_job_id J = next_job_id I"
    and count: "active_flushes J = active_flushes I - (if counted (flush_threads I ! i) then 1 else 0) + (if counted pc then 1 else 0)"
    and jobs: "flush_queue I = taken @ flush_queue J" "mset taken + mset (held_job (flush_threads I ! i)) = mset fin' + mset (held_job pc)"
  shows "threads_inv J sched (fin @ fin')"
proof -
  let ?ts = "flush_threads I" and ?f = "\<lambda>us. mset (concat (map held_job us))"
  obtain popped where p: "sched = popped @ flush_queue I" "mset popped = mset fin + ?f ?ts"
    using inv by (auto simp: threads_inv_def)
  have "mset (popped @ taken) + mset (held_job (?ts ! i)) = mset fin + ?f ?ts + (mset taken + mset (held_job (?ts ! i)))"
    using p(2) by simp
  also have "\<dots> = mset (fin @ fin') + (?f ?ts + mset (held_job pc))" using jobs(2) by simp
  also have "?f ?ts + mset (held_job pc) = ?f (?ts[i := pc]) + mset (held_job (?ts ! i))" using set_pc_held [OF i, of pc] by simp
  finally have "mset (popped @ taken) = mset (fin @ fin') + ?f (flush_threads J)" unfolding J(1) by (simp add: add.assoc [symmetric])
  moreover have "sched = (popped @ taken) @ flush_queue J" using p(1) jobs(1) by simp
  moreover have "active_flushes J = int (length (filter counted (flush_threads J)))"
    using inv count set_pc_counted [OF i, of pc] unfolding J(1) by (simp add: threads_inv_def)
  ultimately show ?thesis using inv J(2) unfolding threads_inv_def by metis
qed

lemma completed_move:
  assumes "i < length (flush_threads I)" and "flush_threads J = (flush_threads I)[i := pc]"
  shows "completed I J = (if pc = Flushed then held_job (flush_threads I ! i) else [])"
  using set_pc_completed [OF assms(1), of pc J] assms(2) by (simp add: completed_def set_pc_def)

lemma thread_step_inv:
  assumes inv: "threads_inv I sched fin" and step: "thread_step e I J"
  shows "threads_inv J sched (fin @ completed I J)"
  using step
proof cases
  case (pop i job jobs)
  then show ?thesis
    using completed_move [of i I J "Taken job"]
    by (intro thread_inv_move [OF inv, of i _ "Taken job" "[job]"]) (simp_all add: set_pc_def counted_def)
next
  case (exit i)
  then show ?thesis
    using completed_move [of i I J Exited]
    by (intro thread_inv_move [OF inv, of i _ Exited "[]"]) (simp_all add: set_pc_def counted_def)
next
  case (count i job)
  then show ?thesis
    using completed_move [of i I J "Flushing job"]
    by (intro thread_inv_move [OF inv, of i _ "Flushing job" "[]"]) (simp_all add: set_pc_def counted_def)
next
  case (flush i job timestamp rnd s result files)
  then show ?thesis
    using completed_move [of i I J Flushed]
    by (intro thread_inv_move [OF inv, of i _ Flushed "[]"]) (simp_all add: set_pc_def counted_def)
next
  case (finish i)
  then show ?thesis
    using completed_move [of i I J Waiting]
    by (intro thread_inv_move [OF inv, of i _ Waiting "[]"]) (simp_all add: set_pc_def counted_def)
qed

lemma threads_inv_cong:
  assumes "threads_inv I sched fin" and "flush_queue J = flush_queue I" "active_flushes J = active_flushes I" "next_job_id J = next_job_id I"
    and "concat (map held_job (flush_threads J)) = concat (map held_job (flush_threads I))"
    and "filter counted (flush_threads J) = filter counted (flush_threads I)"
  shows "threads_inv J sched fin"
  using assms by (simp add: threads_inv_def)

lemma idle_threads:
  assumes "list_all (\<lambda>pc. pc = Waiting \<or> pc = Exited) ts"
  shows "concat (map held_job ts) = []" "filter counted ts = []"
  using assms by (induction ts) (auto simp: counted_def)

lemma schedule_inv:
  assumes inv: "threads_inv I sched fin" and F: "fm_impl F = Some I" and s: "ScheduleFlush memtable cb F = Some (s, F')"
  shows "\<exists>J. fm_impl F' = Some J \<and> threads_inv J (sched @ drop (length (queue_of F)) (queue_of F')) fin \<and>
    fm_options F' = fm_options F \<and> fm_memory_usage F' = fm_memory_usage F"
proof -
  have callback: "threads_inv (run_callback cb r st I) sched fin" for r st
    by (rule threads_inv_cong [OF inv]) simp_all
  show ?thesis
  proof (cases "running F \<and> (\<exists>M. memtable = Some M \<and> table_size M \<noteq> 0)")
    case False
    then show ?thesis using s F inv callback
      by (auto simp: ScheduleFlush_def queue_of_def split: if_splits option.splits)
  next
    case True
    then obtain M where M: "memtable = Some M" "table_size M \<noteq> 0" "running F" by blast
    define job where "job = \<lparr>job_memtable = M, job_callback = cb, job_id = next_job_id I\<rparr>"
    define J where "J = I\<lparr>next_job_id := next_job_id I + 1, flush_queue := flush_queue I @ [job]\<rparr>"
    have F': "F' = F\<lparr>fm_impl := Some J\<rparr>" using s M F by (simp add: ScheduleFlush_def J_def job_def)
    obtain popped where "sched = popped @ flush_queue I" "mset popped = mset fin + mset (concat (map held_job (flush_threads I)))"
      "active_flushes I = int (length (filter counted (flush_threads I)))" "map job_id sched = map of_nat [1..<length sched + 1]"
      "next_job_id I = of_nat (length sched + 1)" using inv by (auto simp: threads_inv_def)
    then have "threads_inv J (sched @ [job]) fin"
      by (simp add: threads_inv_def J_def job_def)
    then show ?thesis by (simp add: F' F queue_of_def J_def)
  qed
qed

lemma flush_sys_inv:
  assumes "flush_sys e opts files F sched fin"
  shows "\<exists>I. fm_impl F = Some I \<and> threads_inv I sched fin \<and> fm_options F = opts \<and> fm_memory_usage F = 0"
  using assms
proof induction
  case init
  then show ?case by (simp add: FlushManager_new_def FlushImpl_new_def threads_inv_def)
next
  case (start F sched fin F')
  then obtain I where I: "fm_impl F = Some I" "threads_inv I sched fin" "fm_options F = opts" "fm_memory_usage F = 0" by blast
  have "threads_inv (I\<lparr>stopping := False, flush_threads := flush_threads I @ replicate n Waiting\<rparr>) sched fin" for n
    by (rule threads_inv_cong [OF I(2)]) (simp_all add: idle_threads list_all_iff)
  with start(2) I show ?case by (auto simp: FlushManager_Start_def split: if_splits)
next
  case (schedule F sched fin memtable cb s F')
  then show ?case using schedule_inv by metis
next
  case (thread F sched fin I J)
  then show ?case using thread_step_inv by auto
next
  case (stop_request F sched fin F')
  then obtain I where I: "fm_impl F = Some I" "threads_inv I sched fin" "fm_options F = opts" "fm_memory_usage F = 0" by blast
  have "threads_inv (I\<lparr>stopping := True\<rparr>) sched fin" by (rule threads_inv_cong [OF I(2)]) simp_all
  with stop_request(2) I show ?case by (auto simp: Stop_request_def split: if_splits)
next
  case (stop_end F sched fin F')
  then obtain I where I: "fm_impl F = Some I" "threads_inv I sched fin" "fm_options F = opts" "fm_memory_usage F = 0" by blast
  show ?case
  proof (cases "running F")
    case True
    then have "list_all (\<lambda>pc. pc = Waiting \<or> pc = Exited) (flush_threads I)"
      using stop_end(2) I(1) by (auto simp: Stop_joined_def list_all_iff)
    then have "threads_inv (I\<lparr>flush_threads := []\<rparr>) sched fin"
      by (intro threads_inv_cong [OF I(2)]) (simp_all add: idle_threads)
    with stop_end(3) I True show ?thesis by (auto simp: Stop_end_def)
  qed (use stop_end(3) I in \<open>simp add: Stop_end_def\<close>)
qed

lemma flush_jobs_held:
  assumes "flush_sys e opts files F sched fin"
  shows "\<exists>I popped. fm_impl F = Some I \<and> sched = popped @ flush_queue I \<and>
    mset popped = mset fin + mset (concat (map held_job (flush_threads I))) \<and>
    active_flushes I = int (length (filter counted (flush_threads I))) \<and> map job_id sched = map of_nat [1..<length sched + 1]"
  using flush_sys_inv [OF assms] by (auto simp: threads_inv_def)

text \<open>
  C17. In every reachable state of a manager, its threads and its callers, each scheduled job is exactly once in the queue,
  in the hands of a thread, or completed; the jobs leave the queue in the order in which they were
  scheduled; \<open>active_flushes\<close> counts the threads that are flushing; and the jobs are numbered from 1 on (where
  the calls of \<open>ScheduleFlush\<close> come one after the other: each is one step here).
\<close>

theorem flush_jobs_conserved:
  assumes "flush_sys e opts files F sched fin"
  shows "\<exists>I popped. fm_impl F = Some I \<and> sched = popped @ flush_queue I \<and>
    mset popped = mset fin + mset (concat (map held_job (flush_threads I))) \<and>
    active_flushes I = int (length (filter counted (flush_threads I))) \<and> map job_id sched = map of_nat [1..<length sched + 1]"
  using flush_jobs_held [OF assms] .

section \<open>Runs of the manager\<close>

lemma counted_table: "\<exists>M :: MemTable. table_size M = 1"
  by (rule exI [of _ "(MemTable_new MemTableOptions_default)\<lparr>table_size := 1\<rparr>"]) simp

text \<open>The manager after \<open>Start\<close>, with one job scheduled and popped by the first thread.\<close>

lemma flush_job_popped:
  assumes "0 < max_background_flushes opts" and M: "table_size M \<noteq> 0"
  shows "\<exists>F I job. flush_sys e opts files F [job] [] \<and> job_memtable job = M \<and> running F \<and> fm_impl F = Some I \<and>
    flush_queue I = [] \<and> active_flushes I = 0 \<and> flush_threads I ! 0 = Taken job \<and> impl_options I = opts"
proof -
  let ?n = "nat (max_background_flushes opts)"
  let ?I0 = "(FlushImpl_new opts files)\<lparr>flush_threads := replicate ?n Waiting\<rparr>"
  let ?F0 = "(FlushManager_new opts files)\<lparr>running := True, fm_impl := Some ?I0\<rparr>"
  let ?job = "\<lparr>job_memtable = M, job_callback = None, job_id = 1\<rparr>"
  let ?I1 = "?I0\<lparr>next_job_id := 2, flush_queue := [?job]\<rparr>"
  let ?F1 = "?F0\<lparr>fm_impl := Some ?I1\<rparr>"
  let ?I2 = "set_pc 0 (Taken ?job) (?I1\<lparr>flush_queue := []\<rparr>)"
  have s0: "flush_sys e opts files ?F0 [] []"
    by (rule flush_sys.start [OF flush_sys.init]) (simp add: FlushManager_Start_def FlushManager_new_def FlushImpl_new_def)
  have "ScheduleFlush (Some M) None ?F0 = Some (Status_OK, ?F1)"
    using M by (simp add: ScheduleFlush_def FlushImpl_new_def)
  from flush_sys.schedule [OF s0 this] have s1: "flush_sys e opts files ?F1 [?job] []"
    by (simp add: queue_of_def FlushImpl_new_def)
  have "thread_step e ?I1 ?I2" by (rule thread_step.pop) (use assms(1) in simp_all)
  from flush_sys.thread [OF s1 _ this] have s2: "flush_sys e opts files (?F1\<lparr>fm_impl := Some ?I2\<rparr>) [?job] (completed ?I1 ?I2)"
    by simp
  have "completed ?I1 ?I2 = []" using completed_move [of 0 ?I1 ?I2 "Taken ?job"] assms(1) by (simp add: set_pc_def)
  with s2 assms(1) show ?thesis
    by (intro exI [of _ "?F1\<lparr>fm_impl := Some ?I2\<rparr>"] exI [of _ ?I2] exI [of _ ?job])
      (simp add: set_pc_def FlushImpl_new_def)
qed

theorem flush_jobs_conserved_witness:
  "\<exists>F I job. flush_sys \<lparr>sst_open_ok = True, sst_limit = None\<rparr> FlushOptions_default Map.empty F [job] [] \<and> fm_impl F = Some I \<and>
    flush_queue I = [] \<and> mset [job] = mset (concat (map held_job (flush_threads I)))"
proof -
  obtain M :: MemTable where M: "table_size M = 1" using counted_table by blast
  obtain F I job where F: "flush_sys \<lparr>sst_open_ok = True, sst_limit = None\<rparr> FlushOptions_default Map.empty F [job] []"
    "fm_impl F = Some I" "flush_queue I = []"
    using flush_job_popped [of FlushOptions_default M "\<lparr>sst_open_ok = True, sst_limit = None\<rparr>" Map.empty] M
    by (auto simp: FlushOptions_default_def)
  from flush_jobs_conserved [OF F(1)] F(2,3) show ?thesis by (intro exI [of _ F] exI [of _ I] exI [of _ job]) (auto simp: F)
qed

text \<open>
  A thread takes its job out of the queue before it counts itself: in between the condition of
  \<open>WaitForFlushes\<close> holds, and \<open>FlushAll\<close> returns although the scheduled job is not flushed.
\<close>

theorem wait_returns_early:
  assumes "0 < max_background_flushes opts"
  shows "\<exists>F sched. flush_sys e opts files F sched [] \<and> sched \<noteq> [] \<and> FlushAll F = Some (True, Status_OK)"
proof -
  obtain M :: MemTable where M: "table_size M = 1" using counted_table by blast
  obtain F I job where "flush_sys e opts files F [job] []" "fm_impl F = Some I" "flush_queue I = []" "active_flushes I = 0"
    using flush_job_popped [OF assms, of M e files] M by auto
  then show ?thesis by (intro exI [of _ F] exI [of _ "[job]"]) (simp add: FlushAll_def flushes_done_def)
qed

theorem wait_returns_early_witness:
  "\<exists>F sched. flush_sys \<lparr>sst_open_ok = True, sst_limit = None\<rparr> FlushOptions_default Map.empty F sched [] \<and> sched \<noteq> [] \<and>
    FlushAll F = Some (True, Status_OK)"
  by (rule wait_returns_early) (simp add: FlushOptions_default_def)

text \<open>All waiting threads can return once \<open>Stop\<close> has asked for it.\<close>

lemma threads_exit:
  assumes s: "flush_sys e opts files (F\<lparr>fm_impl := Some (I\<lparr>flush_threads := replicate n Waiting\<rparr>)\<rparr>) sched fin"
    and I: "stopping I" "flush_queue I = []"
  shows "k \<le> n \<Longrightarrow> flush_sys e opts files (F\<lparr>fm_impl := Some (I\<lparr>flush_threads := replicate k Exited @ replicate (n - k) Waiting\<rparr>)\<rparr>) sched fin"
proof (induction k)
  case (Suc k)
  let ?J = "I\<lparr>flush_threads := replicate k Exited @ replicate (n - k) Waiting\<rparr>"
  let ?K = "I\<lparr>flush_threads := replicate (Suc k) Exited @ replicate (n - Suc k) Waiting\<rparr>"
  have "replicate (n - k) Waiting = Waiting # replicate (n - Suc k) Waiting"
    using Suc.prems by (metis Suc_diff_Suc Suc_le_lessD replicate_Suc)
  then have K: "?K = set_pc k Exited ?J"
    by (simp add: set_pc_def list_update_append replicate_app_Cons_same)
  have "thread_step e ?J (set_pc k Exited ?J)"
    by (rule thread_step.exit) (use I Suc.prems in \<open>simp_all add: nth_append\<close>)
  then have step: "thread_step e ?J ?K" unfolding K .
  have "completed ?J ?K = []"
    using completed_move [of k ?J ?K Exited] Suc.prems unfolding K by (simp add: set_pc_def)
  moreover have "flush_sys e opts files (F\<lparr>fm_impl := Some ?J\<rparr>) sched fin" using Suc by simp
  from flush_sys.thread [OF this _ step] have "flush_sys e opts files (F\<lparr>fm_impl := Some ?K\<rparr>) sched (fin @ completed ?J ?K)" by simp
  ultimately show ?case by (simp only: append_Nil2)
qed (use s in simp)

text \<open>
  \<open>running_\<close> is cleared only after the threads were joined: a job that is scheduled in between is accepted
  with an OK status, and stays in the queue of the stopped manager.
\<close>

theorem stop_strands_job:
  assumes "table_size M \<noteq> 0"
  shows "\<exists>E F G job. flush_sys e opts files E [] [] \<and> ScheduleFlush (Some M) cb E = Some (Status_OK, F) \<and>
    Stop_joined F \<and> Stop_end F = Some G \<and> flush_sys e opts files G [job] [] \<and> \<not> running G \<and> queue_of G = [job]"
proof -
  let ?n = "nat (max_background_flushes opts)"
  let ?I = "(FlushImpl_new opts files)\<lparr>flush_threads := replicate ?n Waiting\<rparr>"
  let ?F0 = "(FlushManager_new opts files)\<lparr>running := True, fm_impl := Some ?I\<rparr>"
  let ?J = "(FlushImpl_new opts files)\<lparr>stopping := True\<rparr>"
  define E where "E = ?F0\<lparr>fm_impl := Some (?J\<lparr>flush_threads := replicate ?n Exited\<rparr>)\<rparr>"
  let ?job = "\<lparr>job_memtable = M, job_callback = cb, job_id = 1\<rparr>"
  define F where "F = E\<lparr>fm_impl := Some (?J\<lparr>flush_threads := replicate ?n Exited, next_job_id := 2, flush_queue := [?job]\<rparr>)\<rparr>"
  define G where "G = F\<lparr>fm_impl := Some (?J\<lparr>flush_threads := [], next_job_id := 2, flush_queue := [?job]\<rparr>), running := False\<rparr>"
  have s0: "flush_sys e opts files ?F0 [] []"
    by (rule flush_sys.start [OF flush_sys.init]) (simp add: FlushManager_Start_def FlushManager_new_def FlushImpl_new_def)
  have "Stop_request ?F0 = Some (?F0\<lparr>fm_impl := Some (?J\<lparr>flush_threads := replicate ?n Waiting\<rparr>)\<rparr>)"
    by (simp add: Stop_request_def FlushImpl_new_def)
  from threads_exit [OF flush_sys.stop_request [OF s0 this], of ?n] have sE: "flush_sys e opts files E [] []"
    by (simp add: E_def FlushImpl_new_def)
  have sched: "ScheduleFlush (Some M) cb E = Some (Status_OK, F)"
    using assms by (simp add: ScheduleFlush_def E_def F_def FlushImpl_new_def)
  have sF: "flush_sys e opts files F [?job] []"
    using flush_sys.schedule [OF sE sched] by (simp add: queue_of_def E_def F_def FlushImpl_new_def)
  have joined: "Stop_joined F" and stop: "Stop_end F = Some G"
    by (simp_all add: Stop_joined_def Stop_end_def E_def F_def G_def list_all_iff)
  have "\<not> running G" "queue_of G = [?job]" by (simp_all add: G_def queue_of_def)
  with sE sched joined stop flush_sys.stop_end [OF sF joined stop] show ?thesis by blast
qed

theorem stop_strands_job_witness:
  "\<exists>E F. flush_sys \<lparr>sst_open_ok = True, sst_limit = None\<rparr> FlushOptions_default Map.empty E [] [] \<and>
    ScheduleFlush (Some (MemTable_new MemTableOptions_default\<lparr>table_size := 1\<rparr>)) None E = Some (Status_OK, F)"
  using stop_strands_job [of "MemTable_new MemTableOptions_default\<lparr>table_size := 1\<rparr>"] by simp blast

text \<open>
  The move constructor copies \<open>running_\<close> and leaves it set in the manager that lost its
  implementation: after a move of a started manager, \<open>Stop\<close> (and so the destructor) of the old one is undefined.
\<close>

theorem moved_from_stop_undefined:
  assumes "FlushManager_Start (FlushManager_new opts files) = Some F"
  shows "running (fst (FlushManager_move left F)) \<and> Stop_request (fst (FlushManager_move left F)) \<noteq> None \<and>
    Stop_request (snd (FlushManager_move left F)) = None"
  using assms by (auto simp: FlushManager_Start_def FlushManager_new_def FlushManager_move_def Stop_request_def)

theorem moved_from_stop_undefined_witness:
  "\<exists>F. FlushManager_Start (FlushManager_new FlushOptions_default Map.empty) = Some F \<and> Stop_request (snd (FlushManager_move left F)) = None"
proof -
  obtain F where F: "FlushManager_Start (FlushManager_new FlushOptions_default Map.empty) = Some F"
    by (simp add: FlushManager_Start_def FlushManager_new_def)
  then show ?thesis using moved_from_stop_undefined [OF F] by blast
qed

lemma bit_len_bound: "0 < p \<Longrightarrow> 2 ^ (bit_len p - 1) \<le> p"
proof (induction p rule: bit_len.induct)
  case (1 n)
  show ?case
  proof (cases "n div 2 = 0")
    case True
    then show ?thesis using 1(2) by (simp add: bit_len.simps [of n] bit_len.simps [of 0])
  next
    case False
    then have "2 ^ (bit_len (n div 2) - 1) \<le> n div 2" using 1 by simp
    moreover have "bit_len (n div 2) \<noteq> 0" using False by (simp add: bit_len.simps [of "n div 2"])
    ultimately have "2 ^ bit_len (n div 2) \<le> 2 * (n div 2)" by (cases "bit_len (n div 2)") auto
    then show ?thesis using 1(2) by (simp add: bit_len.simps [of n])
  qed
qed

lemma round_53_pos: "0 < p \<Longrightarrow> 0 < round_53 p"
proof -
  assume p: "0 < p"
  let ?e = "bit_len p - 53"
  have "(2 :: nat) ^ ?e \<le> 2 ^ (bit_len p - 1)" by simp
  also have "\<dots> \<le> p" by (rule bit_len_bound [OF p])
  finally have "0 < p div 2 ^ ?e" by (simp add: div_greater_zero_iff)
  then show ?thesis by (simp add: round_53_def Let_def)
qed

text \<open>
  Nothing updates \<open>memory_usage_\<close>: in every reachable state \<open>MemoryUsage\<close> is 0 and \<open>NeedsFlush\<close> is false,
  unless the write buffer is configured to be empty.
\<close>

theorem needs_flush_never:
  assumes "flush_sys e opts files F sched fin" and "max_write_buffer_size opts \<noteq> 0"
  shows "FlushManager_MemoryUsage F = 0 \<and> \<not> NeedsFlush F"
proof -
  have F: "fm_options F = opts" "fm_memory_usage F = 0" using flush_sys_inv [OF assms(1)] by auto
  have "0 < round_53 (round_53 (unat (max_write_buffer_size opts)) * 7205759403792794)"
    using assms(2) by (simp add: round_53_pos unat_gt_0)
  moreover have "round_53 0 = 0" by (simp add: round_53_def bit_len.simps)
  ultimately show ?thesis
    by (simp add: F FlushManager_MemoryUsage_def NeedsFlush_def double_le_def double_mul_def double_of_def double_08_def)
qed

theorem needs_flush_never_witness:
  "\<not> NeedsFlush (FlushManager_new FlushOptions_default Map.empty)"
  using needs_flush_never [OF flush_sys.init [of "\<lparr>sst_open_ok = True, sst_limit = None\<rparr>" FlushOptions_default Map.empty]]
  by (simp add: FlushOptions_default_def)

section \<open>The scheduler\<close>

text \<open>
  \<open>OnMemTableSizeChange\<close> adds the new size of the table, not the change: after a table has
  grown through a list of sizes the scheduler accounts for their sum.
\<close>

theorem scheduler_adds_sizes:
  "total_write_buffer_size (fold OnMemTableSizeChange sizes (FlushScheduler_new opts)) = sum_list sizes \<and>
   current_memtable_size (fold OnMemTableSizeChange sizes (FlushScheduler_new opts)) = (if sizes = [] then 0 else last sizes)"
proof -
  have "total_write_buffer_size (fold OnMemTableSizeChange sizes S) = total_write_buffer_size S + sum_list sizes \<and>
    current_memtable_size (fold OnMemTableSizeChange sizes S) = (if sizes = [] then current_memtable_size S else last sizes)" for S
    by (induction sizes arbitrary: S) (auto simp: OnMemTableSizeChange_def)
  then show ?thesis by (simp add: FlushScheduler_new_def)
qed

end
