(* ===== verification/Flush_Liveness.thy ===== *)
theory Flush_Liveness
  imports Flush_Properties
begin

text \<open>
  Progress of the flush threads: left to themselves they make at most four steps for each job and thread, and where they
  cannot go on every scheduled job has been completed.
\<close>

section \<open>Every step makes progress\<close>

fun remaining :: "flush_pc \<Rightarrow> nat" where
  "remaining (Taken job) = 4"
| "remaining (Flushing job) = 3"
| "remaining Flushed = 2"
| "remaining Waiting = 1"
| "remaining Exited = 0"

definition work_left :: "FlushImpl \<Rightarrow> nat" where
  "work_left I = 4 * length (flush_queue I) + sum_list (map remaining (flush_threads I))"

lemma remaining_move:
  "i < length ts \<Longrightarrow> sum_list (map remaining (ts[i := pc])) + remaining (ts ! i) = sum_list (map remaining ts) + remaining pc"
  by (induction ts arbitrary: i) (auto split: nat.splits)

lemma thread_step_decreases: "thread_step e I J \<Longrightarrow> work_left J < work_left I"
proof (induction rule: thread_step.induct)
  case (pop i I job jobs)
  then show ?case using remaining_move [of i "flush_threads I" "Taken job"] by (simp add: work_left_def set_pc_def)
next
  case (exit i I)
  then show ?case using remaining_move [of i "flush_threads I" Exited] by (simp add: work_left_def set_pc_def)
next
  case (count i I job)
  then show ?case using remaining_move [of i "flush_threads I" "Flushing job"] by (simp add: work_left_def set_pc_def)
next
  case (flush i I job timestamp rnd s result files)
  then show ?case using remaining_move [of i "flush_threads I" Flushed] by (simp add: work_left_def set_pc_def)
next
  case (finish i I)
  then show ?case using remaining_move [of i "flush_threads I" Waiting] by (simp add: work_left_def set_pc_def)
qed

lemma run_bounded: "(thread_step e ^^ n) I J \<Longrightarrow> n + work_left J \<le> work_left I"
proof (induction n arbitrary: J)
  case (Suc n)
  then obtain K where "(thread_step e ^^ n) I K" "thread_step e K J" by auto
  with Suc.IH thread_step_decreases show ?case by fastforce
qed simp

lemma work_left_bound: "work_left I \<le> 4 * (length (flush_queue I) + length (flush_threads I))"
proof -
  have "remaining pc \<le> 4" for pc by (cases pc) simp_all
  then have "sum_list (map remaining ts) \<le> 4 * length ts" for ts
    by (induction ts) (auto intro: add_mono)
  then show ?thesis by (simp add: work_left_def)
qed

section \<open>Where the threads stop\<close>

definition open_jobs :: "FlushImpl \<Rightarrow> FlushJob set" where
  "open_jobs I = set (flush_queue I) \<union> set (concat (map held_job (flush_threads I)))"

text \<open>The flush of a job returns, whatever files there are.\<close>

definition flush_returns :: "SstEnv \<Rightarrow> FlushOptions \<Rightarrow> FlushJob \<Rightarrow> bool" where
  "flush_returns e opts job \<longleftrightarrow> (\<forall>files. \<exists>timestamp rnd r. PerformFlush e timestamp rnd opts (Some (job_memtable job)) FlushResult_new files = Some r)"

text \<open>Jobs that wait have a thread that has not returned.\<close>

definition attended :: "FlushImpl \<Rightarrow> bool" where
  "attended I \<longleftrightarrow> flush_queue I = [] \<or> (\<exists>i<length (flush_threads I). flush_threads I ! i \<noteq> Exited)"

lemma held_move: "set (concat (map held_job (ts[i := pc]))) \<subseteq> set (concat (map held_job ts)) \<union> set (held_job pc)"
  using set_update_subset_insert [of ts i pc] by fastforce

lemma held_here: "i < length ts \<Longrightarrow> set (held_job (ts ! i)) \<subseteq> set (concat (map held_job ts))"
  by (force simp: in_set_conv_nth)

lemma thread_step_open:
  assumes "thread_step e I J" and "attended I"
  shows "open_jobs J \<subseteq> open_jobs I" and "attended J" and "impl_options J = impl_options I"
  using assms
proof (induction rule: thread_step.induct)
  case (pop i I job jobs)
  case 1 show ?case using pop held_move [of "flush_threads I" i "Taken job"] by (auto simp: open_jobs_def set_pc_def)
  case 2 show ?case using pop by (auto simp: attended_def set_pc_def intro!: exI [of _ i])
  case 3 show ?case by (simp add: set_pc_def)
next
  case (exit i I)
  case 1 show ?case using held_move [of "flush_threads I" i Exited] by (auto simp: open_jobs_def set_pc_def)
  case 2 show ?case using exit by (simp add: attended_def set_pc_def)
  case 3 show ?case by (simp add: set_pc_def)
next
  case (count i I job)
  case 1 show ?case using count held_move [of "flush_threads I" i "Flushing job"] held_here [of i "flush_threads I"]
    by (auto simp: open_jobs_def set_pc_def)
  case 2 show ?case using count by (auto simp: attended_def set_pc_def intro!: exI [of _ i])
  case 3 show ?case by (simp add: set_pc_def)
next
  case (flush i I job timestamp rnd s result files)
  case 1 show ?case using held_move [of "flush_threads I" i Flushed] by (auto simp: open_jobs_def set_pc_def)
  case 2 show ?case using flush by (auto simp: attended_def set_pc_def intro!: exI [of _ i])
  case 3 show ?case by (simp add: set_pc_def run_callback_def split: option.splits)
next
  case (finish i I)
  case 1 show ?case using held_move [of "flush_threads I" i Waiting] by (auto simp: open_jobs_def set_pc_def)
  case 2 show ?case using finish by (auto simp: attended_def set_pc_def intro!: exI [of _ i])
  case 3 show ?case by (simp add: set_pc_def)
qed

lemma stuck_done:
  assumes stuck: "\<And>J. \<not> thread_step e I J" and "attended I" and "\<forall>job\<in>open_jobs I. flush_returns e (impl_options I) job"
  shows "flush_queue I = []" and "\<forall>pc\<in>set (flush_threads I). pc = Waiting \<or> pc = Exited"
proof -
  show pcs: "\<forall>pc\<in>set (flush_threads I). pc = Waiting \<or> pc = Exited"
  proof
    fix pc assume "pc \<in> set (flush_threads I)"
    then obtain i where i: "i < length (flush_threads I)" "flush_threads I ! i = pc" by (auto simp: in_set_conv_nth)
    show "pc = Waiting \<or> pc = Exited"
    proof (cases pc)
      case (Taken job)
      then show ?thesis using stuck thread_step.count [OF i(1)] i(2) by blast
    next
      case (Flushing job)
      then have "job \<in> open_jobs I" using held_here [OF i(1)] i(2) by (auto simp: open_jobs_def)
      then obtain timestamp rnd r where "PerformFlush e timestamp rnd (impl_options I) (Some (job_memtable job)) FlushResult_new (flush_files I) = Some r"
        using assms(3) unfolding flush_returns_def by blast
      moreover obtain s result files where "r = (s, result, files)" by (cases r) auto
      ultimately show ?thesis using stuck thread_step.flush [OF i(1)] i(2) Flushing by blast
    next
      case Flushed
      then show ?thesis using stuck thread_step.finish [OF i(1)] i(2) by blast
    qed simp_all
  qed
  show "flush_queue I = []"
  proof (rule ccontr)
    assume q: "flush_queue I \<noteq> []"
    then obtain i where i: "i < length (flush_threads I)" "flush_threads I ! i \<noteq> Exited" using assms(2) by (auto simp: attended_def)
    then have "flush_threads I ! i = Waiting" using pcs by (metis nth_mem)
    then show False using stuck thread_step.pop [OF i(1)] q by (metis list.exhaust)
  qed
qed

lemma threads_run:
  assumes "(thread_step e)\<^sup>*\<^sup>* I J" and "flush_sys e opts files F sched fin" and "fm_impl F = Some I" and "attended I"
  shows "\<exists>G fin'. flush_sys e opts files G sched fin' \<and> fm_impl G = Some J \<and> attended J \<and> open_jobs J \<subseteq> open_jobs I \<and>
    impl_options J = impl_options I"
  using assms(1)
proof induction
  case base
  then show ?case using assms(2-4) by blast
next
  case (step J K)
  then obtain G fin' where G: "flush_sys e opts files G sched fin'" "fm_impl G = Some J" "attended J" "open_jobs J \<subseteq> open_jobs I"
    "impl_options J = impl_options I" by blast
  from flush_sys.thread [OF G(1,2) step.hyps(2)] thread_step_open [OF step.hyps(2) G(3)] G(4,5)
  show ?case by (intro exI [of _ "G\<lparr>fm_impl := Some K\<rparr>"] exI [of _ "fin' @ completed J K"]) auto
qed

text \<open>
  C18.  From every reachable state of the manager the threads alone make at most four steps for each queued job and
  each thread.  If no job is queued or some thread has not returned, and the flush of every open job returns, then
  wherever the threads end up without a next step the queue is empty, no flush is active, and the completed jobs
  are exactly the scheduled ones: \<open>FlushAll\<close> and \<open>WaitForFlushes\<close> do not wait for ever.
  Both conditions are needed: see \<open>stop_strands_job\<close> for a job that no thread is left to take, and C39 for
  flushes that do not return, those of counted tables whose file could be opened.  A flush does return where the
  table counts no entry, and where the file cannot be opened (\<open>unopened_returns\<close>).
\<close>

theorem flush_completes:
  assumes "flush_sys e opts files F sched fin" and "fm_impl F = Some I"
    and "flush_queue I = [] \<or> (\<exists>i<length (flush_threads I). flush_threads I ! i \<noteq> Exited)"
    and "\<forall>job\<in>open_jobs I. flush_returns e (impl_options I) job"
  shows "(\<forall>n J. (thread_step e ^^ n) I J \<longrightarrow> n \<le> 4 * (length (flush_queue I) + length (flush_threads I))) \<and>
    (\<forall>J. (thread_step e)\<^sup>*\<^sup>* I J \<and> (\<forall>K. \<not> thread_step e J K) \<longrightarrow>
       flush_queue J = [] \<and> active_flushes J = 0 \<and> flushes_done J \<and>
       (\<exists>G fin'. flush_sys e opts files G sched fin' \<and> fm_impl G = Some J \<and> mset fin' = mset sched))"
proof -
  have "flush_queue J = [] \<and> active_flushes J = 0 \<and> flushes_done J \<and>
      (\<exists>G fin'. flush_sys e opts files G sched fin' \<and> fm_impl G = Some J \<and> mset fin' = mset sched)"
    if run: "(thread_step e)\<^sup>*\<^sup>* I J" and stuck: "\<forall>K. \<not> thread_step e J K" for J
  proof -
    have "attended I" using assms(3) by (simp add: attended_def)
    from threads_run [OF run assms(1,2) this] obtain G fin' where G: "flush_sys e opts files G sched fin'" "fm_impl G = Some J"
      "attended J" "open_jobs J \<subseteq> open_jobs I" "impl_options J = impl_options I" by blast
    then have "\<forall>job\<in>open_jobs J. flush_returns e (impl_options J) job" using assms(4) by auto
    note d = stuck_done [OF stuck [THEN spec] G(3) this]
    have held: "concat (map held_job (flush_threads J)) = []" using d(2) by auto
    have "filter counted (flush_threads J) = []" using d(2) by (auto simp: filter_empty_conv counted_def)
    with flush_sys_inv [OF G(1)] G(2) held d(1) have "active_flushes J = 0" "mset fin' = mset sched"
      by (auto simp: threads_inv_def)
    with G(1,2) d(1) show ?thesis by (auto simp: flushes_done_def)
  qed
  moreover have "n \<le> 4 * (length (flush_queue I) + length (flush_threads I))" if "(thread_step e ^^ n) I J" for n J
    using run_bounded [OF that] work_left_bound [of I] by simp
  ultimately show ?thesis by blast
qed

text \<open>Where no file can be opened, the flush of every table that puts and deletes have built ends with an error.\<close>

definition full_disk :: SstEnv where
  "full_disk = \<lparr>sst_open_ok = False, sst_limit = None\<rparr>"

lemma unopened_returns:
  assumes "key_order (mem_comparator mopts)" and "sst_comparator (sstable_options opts) = mem_comparator mopts"
    and "17 \<le> sst_block_size (sstable_options opts)" and "0 < block_restart_interval (sstable_options opts)"
    and "list_all (\<lambda>x. tails (snd x)) ops" and "mem_run nb ops (MemTable_new mopts) = Some (job_memtable job)" and "\<not> sst_open_ok e"
  shows "flush_returns e opts job"
proof -
  obtain xs where "mem_ok (mem_comparator mopts) nb (job_memtable job) xs"
    using mem_reach [OF assms(1,5), of nb] assms(6) by (metis option.inject)
  then have rep: "table_rep (mem_comparator mopts) (table_impl (job_memtable job)) xs" by (simp add: mem_ok_def)
  show ?thesis
  proof (cases "table_size (job_memtable job) = 0")
    case True
    then show ?thesis by (simp add: flush_returns_def PerformFlush_def)
  next
    case False
    then show ?thesis using PerformFlush_unopened [OF assms(3,4,1,2) rep False assms(7)] by (auto simp: flush_returns_def)
  qed
qed

theorem flush_completes_witness:
  "\<exists>M F I job. mem_run (\<lambda>n. 120) [(MPut ''a'' ''1'' 1, [])] (MemTable_new MemTableOptions_default) = Some M \<and> job_memtable job = M \<and>
    flush_sys full_disk FlushOptions_default Map.empty F [job] [] \<and> fm_impl F = Some I \<and> flush_threads I ! 0 = Taken job \<and>
    (\<forall>n J. (thread_step full_disk ^^ n) I J \<longrightarrow> n \<le> 4 * (length (flush_queue I) + length (flush_threads I))) \<and>
    (\<forall>J. (thread_step full_disk)\<^sup>*\<^sup>* I J \<and> (\<forall>K. \<not> thread_step full_disk J K) \<longrightarrow> flushes_done J)"
proof -
  obtain M where M: "mem_run (\<lambda>n. 120) [(MPut ''a'' ''1'' 1, [])] (MemTable_new MemTableOptions_default) = Some M" "table_size M = 1"
    by (rule one_entry_table)
  obtain F I job where F: "flush_sys full_disk FlushOptions_default Map.empty F [job] []" "job_memtable job = M"
    "fm_impl F = Some I" "flush_queue I = []" "flush_threads I ! 0 = Taken job" "impl_options I = FlushOptions_default"
    using flush_job_popped [of FlushOptions_default M full_disk Map.empty] M(2) by (auto simp: FlushOptions_default_def)
  have t: "list_all (\<lambda>x. tails (snd x)) [(MPut ''a'' ''1'' 1, [])]" by (simp add: tails_def)
  have opts: "sst_comparator (sstable_options FlushOptions_default) = mem_comparator MemTableOptions_default"
    "17 \<le> sst_block_size (sstable_options FlushOptions_default)" "0 < block_restart_interval (sstable_options FlushOptions_default)"
    "\<not> sst_open_ok full_disk"
    by (simp_all add: FlushOptions_default_def SSTableOptions_default_def MemTableOptions_default_def full_disk_def)
  have returns: "flush_returns full_disk FlushOptions_default job"
    using unopened_returns [OF default_key_order opts(1-3) t _ opts(4)] M(1) F(2) by blast
  have "mset [job] = mset (concat (map held_job (flush_threads I)))"
    using flush_jobs_held [OF F(1)] F(3,4) by auto
  then have "set (concat (map held_job (flush_threads I))) = {job}" by (metis list.set(1,2) mset_eq_setD)
  then have "\<forall>j\<in>open_jobs I. flush_returns full_disk (impl_options I) j"
    using F(4,6) returns by (simp add: open_jobs_def)
  note c = flush_completes [OF F(1,3) _ this]
  show ?thesis using c F M(1) by blast
qed

end
