(* ===== verification/Benchmark.thy ===== *)
theory Benchmark
  imports Complex_Main Engine Text
begin

text \<open>
  \<open>include/benchmark/benchmark.h\<close>, \<open>src/benchmark/benchmark.cpp\<close> and
  \<open>src/benchmark_main.cpp\<close>: the workloads that time the engine, and the statistics of their
  latencies.  What a run reads from outside of the engine is an argument: the random letters of the
  keys and values, the shuffled order and the drawn positions, the two sets of system calls of each
  \<open>Put\<close> and \<open>Delete\<close>, and the measured latencies.  A finite \<open>double\<close> is a real number,
  \<open>rounded\<close> the rounding of its arithmetic.  A field that is never assigned is \<^term>\<open>None\<close>,
  and reading it is undefined.
\<close>

section \<open>Results and configuration\<close>

datatype bench_rate = Finite real | NotFinite

record BenchmarkResult =
  bench_name :: string
  operations :: nat
  duration_ms :: "real option"
  ops_per_sec :: "bench_rate option"
  avg_latency_us :: "real option"
  p50_latency_us :: "real option"
  p95_latency_us :: "real option"
  p99_latency_us :: "real option"
  memory_bytes :: "nat option"

record BenchmarkConfig =
  num_operations :: nat
  key_size :: nat
  value_size :: nat
  bench_seed :: int
  use_random_keys :: bool
  read_ratio :: real

definition BenchmarkConfig_default :: BenchmarkConfig where
  "BenchmarkConfig_default = \<lparr>num_operations = 100000, key_size = 16, value_size = 100, bench_seed = 42,
     use_random_keys = True, read_ratio = 1 / 2\<rparr>"

record BenchEnv =
  key_letter :: "nat \<Rightarrow> char"
  value_letter :: "nat \<Rightarrow> char"
  setup_calls :: "nat \<Rightarrow> WalEnv \<times> WalEnv"
  timed_calls :: "nat \<Rightarrow> WalEnv \<times> WalEnv"
  shuffled :: "bytes list \<Rightarrow> bytes list"
  drawn_index :: "u64 \<Rightarrow> nat \<Rightarrow> u64"
  drawn_real :: "nat \<Rightarrow> real"
  latency_us :: "nat \<Rightarrow> real"
  rounded :: "real \<Rightarrow> real"
  bench_crc :: "bytes \<Rightarrow> u32"
  bench_memory :: "KVEngine \<Rightarrow> nat"

section \<open>Keys and values\<close>

definition key_prefix :: bytes where
  "key_prefix = ''key_''"

text \<open>\<open>while (key.size() < key_size) key.insert(prefix.size(), 1, dist(rng))\<close>; the number of draws is threaded.\<close>

function pad_key :: "(nat \<Rightarrow> char) \<Rightarrow> nat \<Rightarrow> nat \<times> bytes \<Rightarrow> nat \<times> bytes" where
  "pad_key letter len (draws, key) =
     (if length key < len
      then pad_key letter len (draws + 1, take (length key_prefix) key @ letter draws # drop (length key_prefix) key)
      else (draws, key))"
  by pat_completeness auto
termination by (relation "measure (\<lambda>(letter, len, draws, key). len - length key)") auto

declare pad_key.simps [simp del]

definition key_digits :: "nat \<Rightarrow> nat" where
  "key_digits len = max 1 (if len > length key_prefix then len - length key_prefix else 1)"

definition key_suffix :: "nat \<Rightarrow> nat \<Rightarrow> bytes" where
  "key_suffix digits i =
     (let suffix = to_dec i
      in if length suffix < digits then replicate (digits - length suffix) CHR ''0'' @ suffix else suffix)"

definition GenerateKeys :: "(nat \<Rightarrow> char) \<Rightarrow> nat \<Rightarrow> nat \<Rightarrow> bytes list" where
  "GenerateKeys letter cnt len =
     snd (fold (\<lambda>i (draws, keys).
       let (draws, key) = pad_key letter len (draws, key_prefix @ key_suffix (key_digits len) i)
       in (draws, keys @ [key])) [0..<cnt] (0, []))"

definition GenerateValues :: "(nat \<Rightarrow> char) \<Rightarrow> nat \<Rightarrow> nat \<Rightarrow> bytes list" where
  "GenerateValues letter cnt len =
     snd (fold (\<lambda>i (draws, vals).
       let (draws, val) = fold (\<lambda>j (draws, val). (draws + 1, val @ [letter draws])) [0..<len] (draws, [])
       in (draws, vals @ [val])) [0..<cnt] (0, []))"

section \<open>Latencies\<close>

text \<open>
  A loop that times each of its operations.  An operation also tells what it did; the code discards that, and
  the list of it is kept here so that the calls of a workload, with what they answered, can be stated.
\<close>

definition timed_loop :: "(nat \<Rightarrow> real) \<Rightarrow> nat \<Rightarrow> (nat \<Rightarrow> 's \<Rightarrow> ('e \<times> 's) option) \<Rightarrow> 's \<Rightarrow> ('s \<times> 'e list \<times> real list) option" where
  "timed_loop latency n operation s =
     for_range 0 n (\<lambda>i (s, events, latencies). do {
       (event, s) \<leftarrow> operation i s;
       Some (s, events @ [event], latencies @ [latency i])
     }) (s, [], [])"

definition MeasureLatencies :: "(nat \<Rightarrow> real) \<Rightarrow> ('s \<Rightarrow> 's option) \<Rightarrow> nat \<Rightarrow> 's \<Rightarrow> ('s \<times> real list) option" where
  "MeasureLatencies latency operation cnt s = do {
     (s, events, latencies) \<leftarrow> timed_loop latency cnt (\<lambda>i s. map_option (Pair ()) (operation s)) s;
     Some (s, latencies)
   }"

text \<open>The division of a \<open>double\<close>; only a zero divisor needs its own result.\<close>

definition divided :: "(real \<Rightarrow> real) \<Rightarrow> real \<Rightarrow> real \<Rightarrow> bench_rate" where
  "divided rnd x y = (if y = 0 then NotFinite else Finite (rnd (x / y)))"

definition CalculateStats :: "(real \<Rightarrow> real) \<Rightarrow> string \<Rightarrow> nat \<Rightarrow> real list \<Rightarrow> nat \<Rightarrow> BenchmarkResult option" where
  "CalculateStats rnd name ops latencies_us memory =
     (let result = \<lparr>bench_name = name, operations = ops, duration_ms = None, ops_per_sec = None,
        avg_latency_us = None, p50_latency_us = None, p95_latency_us = None, p99_latency_us = None, memory_bytes = None\<rparr>
      in if latencies_us = [] \<or> ops = 0 then Some result
      else do {
        let ops = min ops (length latencies_us);
        let sorted = sort latencies_us;
        let total_us = foldl (\<lambda>a x. rnd (a + x)) 0 sorted;
        let duration = rnd (total_us / 1000);
        p50 \<leftarrow> vec_get sorted (min (length sorted - 1) (ops * 50 div 100));
        p95 \<leftarrow> vec_get sorted (min (length sorted - 1) (ops * 95 div 100));
        p99 \<leftarrow> vec_get sorted (min (length sorted - 1) (ops * 99 div 100));
        Some (result\<lparr>operations := ops, duration_ms := Some duration,
          ops_per_sec := Some (divided rnd (rnd (real ops)) (rnd (duration / 1000))),
          avg_latency_us := Some (rnd (total_us / rnd (real ops))),
          p50_latency_us := Some p50, p95_latency_us := Some p95, p99_latency_us := Some p99,
          memory_bytes := Some memory\<rparr>)
      })"

section \<open>The workloads\<close>

text \<open>A call of a workload: its arguments with the status, the value or the count that it got.\<close>

datatype bench_event =
    Stored bytes bytes Status
  | Looked bytes Status "bytes option"
  | Removed bytes Status
  | Scanned bytes bytes nat

text \<open>\<open>engine_.Put(keys[i], values[i])\<close> and its siblings: every workload ignores the status.\<close>

definition bench_put :: "(bytes \<Rightarrow> u32) \<Rightarrow> (nat \<Rightarrow> WalEnv \<times> WalEnv) \<Rightarrow> bytes list \<Rightarrow> bytes list \<Rightarrow> nat \<Rightarrow> nat \<Rightarrow> KVEngine \<Rightarrow>
    (bench_event \<times> KVEngine) option" where
  "bench_put crc calls keys vals i call E = do {
     key \<leftarrow> vec_get keys i;
     val \<leftarrow> vec_get vals i;
     (s, E) \<leftarrow> KVEngine_Put crc (fst (calls call)) (snd (calls call)) key val E;
     Some (Stored key val s, E)
   }"

definition bench_delete :: "(bytes \<Rightarrow> u32) \<Rightarrow> (nat \<Rightarrow> WalEnv \<times> WalEnv) \<Rightarrow> bytes list \<Rightarrow> nat \<Rightarrow> KVEngine \<Rightarrow>
    (bench_event \<times> KVEngine) option" where
  "bench_delete crc calls keys i E = do {
     key \<leftarrow> vec_get keys i;
     (s, E) \<leftarrow> KVEngine_Delete crc (fst (calls i)) (snd (calls i)) key E;
     Some (Removed key s, E)
   }"

definition bench_get :: "bytes list \<Rightarrow> nat \<Rightarrow> KVEngine \<times> bytes option \<Rightarrow> (bench_event \<times> KVEngine \<times> bytes option) option" where
  "bench_get keys i Ev = do {
     key \<leftarrow> vec_get keys i;
     (s, val) \<leftarrow> KVEngine_Get (fst Ev) key (snd Ev);
     Some (Looked key s val, fst Ev, val)
   }"

text \<open>The loop that fills the engine, and the keys and values of a configuration.\<close>

definition put_all :: "BenchEnv \<Rightarrow> bytes list \<Rightarrow> bytes list \<Rightarrow> nat \<Rightarrow> KVEngine \<Rightarrow> KVEngine option" where
  "put_all B keys vals n E = for_range 0 n (\<lambda>i E. map_option snd (bench_put (bench_crc B) (setup_calls B) keys vals i i E)) E"

definition config_keys :: "BenchEnv \<Rightarrow> BenchmarkConfig \<Rightarrow> bytes list" where
  "config_keys B config = GenerateKeys (key_letter B) (num_operations config) (key_size config)"

definition config_values :: "BenchEnv \<Rightarrow> BenchmarkConfig \<Rightarrow> bytes list" where
  "config_values B config = GenerateValues (value_letter B) (num_operations config) (value_size config)"

definition RunInsertBenchmark ::
  "BenchEnv \<Rightarrow> BenchmarkConfig \<Rightarrow> KVEngine \<Rightarrow> (BenchmarkResult \<times> bench_event list \<times> KVEngine) option" where
  "RunInsertBenchmark B config E = do {
     let keys = config_keys B config;
     let vals = config_values B config;
     (E, events, latencies) \<leftarrow> timed_loop (latency_us B) (num_operations config)
       (\<lambda>i. bench_put (bench_crc B) (timed_calls B) keys vals i i) E;
     result \<leftarrow> CalculateStats (rounded B) ''Insert'' (num_operations config) latencies (bench_memory B E);
     Some (result, events, E)
   }"

definition RunLookupBenchmark ::
  "BenchEnv \<Rightarrow> BenchmarkConfig \<Rightarrow> KVEngine \<Rightarrow> (BenchmarkResult \<times> bench_event list \<times> KVEngine) option" where
  "RunLookupBenchmark B config E = do {
     let keys = config_keys B config;
     let vals = config_values B config;
     E \<leftarrow> put_all B keys vals (num_operations config) E;
     let keys = shuffled B keys;
     ((E, val), events, latencies) \<leftarrow> timed_loop (latency_us B) (num_operations config) (bench_get keys) (E, Some []);
     result \<leftarrow> CalculateStats (rounded B) ''Lookup'' (num_operations config) latencies (bench_memory B E);
     Some (result, events, E)
   }"

text \<open>
  One range scan: the number of its entries.  The fuel is one more than the size of the tree.
\<close>

fun count_entries :: "nat \<Rightarrow> BPlusTree \<Rightarrow> Iterator \<Rightarrow> nat \<Rightarrow> nat option" where
  "count_entries 0 T iter cnt = None"
| "count_entries (Suc n) T iter cnt = do {
     v \<leftarrow> Valid T iter;
     if \<not> v then Some cnt else do { iter \<leftarrow> Next T iter; count_entries n T iter (cnt + 1) }
   }"

definition scan_between :: "bytes \<Rightarrow> bytes \<Rightarrow> KVEngine \<Rightarrow> nat option" where
  "scan_between start limit E = do {
     iter \<leftarrow> KVEngine_NewIterator_range E start limit;
     iter \<leftarrow> SeekToFirst (engine_tree E) iter;
     count_entries (Suc (tree_size (engine_tree E))) (engine_tree E) iter 0
   }"

definition bench_scan :: "BenchEnv \<Rightarrow> bytes list \<Rightarrow> nat \<Rightarrow> KVEngine \<Rightarrow> (bench_event \<times> KVEngine) option" where
  "bench_scan B keys i E = do {
     let last = of_nat (length keys) - 1;
     let start_idx = drawn_index B last i;
     let end_idx = min (start_idx + 100) last;
     start \<leftarrow> vec_get keys (unat start_idx);
     limit \<leftarrow> vec_get keys (unat end_idx);
     n \<leftarrow> scan_between start limit E;
     Some (Scanned start limit n, E)
   }"

definition RunRangeScanBenchmark ::
  "BenchEnv \<Rightarrow> BenchmarkConfig \<Rightarrow> KVEngine \<Rightarrow> (BenchmarkResult \<times> bench_event list \<times> KVEngine) option" where
  "RunRangeScanBenchmark B config E = do {
     let keys = config_keys B config;
     let vals = config_values B config;
     E \<leftarrow> put_all B keys vals (num_operations config) E;
     let num_scans = num_operations config div 100;
     let num_scans = (if num_scans = 0 then 1 else num_scans);
     (E, events, latencies) \<leftarrow> timed_loop (latency_us B) num_scans (bench_scan B keys) E;
     result \<leftarrow> CalculateStats (rounded B) ''RangeScan'' num_scans latencies (bench_memory B E);
     Some (result, events, E)
   }"

definition RunDeleteBenchmark ::
  "BenchEnv \<Rightarrow> BenchmarkConfig \<Rightarrow> KVEngine \<Rightarrow> (BenchmarkResult \<times> bench_event list \<times> KVEngine) option" where
  "RunDeleteBenchmark B config E = do {
     let keys = config_keys B config;
     let vals = config_values B config;
     E \<leftarrow> put_all B keys vals (num_operations config) E;
     let keys = shuffled B keys;
     (E, events, latencies) \<leftarrow> timed_loop (latency_us B) (num_operations config)
       (bench_delete (bench_crc B) (timed_calls B) keys) E;
     result \<leftarrow> CalculateStats (rounded B) ''Delete'' (num_operations config) latencies (bench_memory B E);
     Some (result, events, E)
   }"

definition mixed_operation ::
  "BenchEnv \<Rightarrow> real \<Rightarrow> bytes list \<Rightarrow> bytes list \<Rightarrow> nat \<Rightarrow> KVEngine \<times> bytes option \<Rightarrow>
    (bench_event \<times> KVEngine \<times> bytes option) option" where
  "mixed_operation B ratio keys vals i Ev =
     (let op = drawn_real B i;
          key_idx = unat (drawn_index B (of_nat (length keys) - 1) i)
      in if op < ratio then bench_get keys key_idx Ev
         else map_option (\<lambda>(event, E). (event, E, snd Ev)) (bench_put (bench_crc B) (timed_calls B) keys vals key_idx i (fst Ev)))"

definition RunMixedWorkloadBenchmark ::
  "BenchEnv \<Rightarrow> BenchmarkConfig \<Rightarrow> KVEngine \<Rightarrow> (BenchmarkResult \<times> bench_event list \<times> KVEngine) option" where
  "RunMixedWorkloadBenchmark B config E = do {
     let keys = config_keys B config;
     let vals = config_values B config;
     E \<leftarrow> put_all B keys vals (num_operations config div 2) E;
     ((E, val), events, latencies) \<leftarrow> timed_loop (latency_us B) (num_operations config)
       (mixed_operation B (read_ratio config) keys vals) (E, Some []);
     result \<leftarrow> CalculateStats (rounded B) ''MixedWorkload'' (num_operations config) latencies (bench_memory B E);
     Some (result, events, E)
   }"

text \<open>The same insertions into \<open>std::map\<close> and \<open>std::unordered_map\<close>.\<close>

definition container_insert :: "bytes list \<Rightarrow> bytes list \<Rightarrow> nat \<Rightarrow> (bytes \<rightharpoonup> bytes) \<Rightarrow> (bytes \<rightharpoonup> bytes) option" where
  "container_insert keys vals i m = do { key \<leftarrow> vec_get keys i; val \<leftarrow> vec_get vals i; Some (m(key \<mapsto> val)) }"

definition RunStdMapComparison :: "BenchEnv \<Rightarrow> BenchmarkConfig \<Rightarrow> BenchmarkResult option" where
  "RunStdMapComparison B config = do {
     let keys = config_keys B config;
     let vals = config_values B config;
     (std_map, events, latencies) \<leftarrow> timed_loop (latency_us B) (num_operations config)
       (\<lambda>i m. map_option (Pair ()) (container_insert keys vals i m)) Map.empty;
     CalculateStats (rounded B) ''std::map Insert'' (num_operations config) latencies 0
   }"

definition RunStdUnorderedMapComparison :: "BenchEnv \<Rightarrow> BenchmarkConfig \<Rightarrow> BenchmarkResult option" where
  "RunStdUnorderedMapComparison B config = do {
     let keys = config_keys B config;
     let vals = config_values B config;
     (std_map, events, latencies) \<leftarrow> timed_loop (latency_us B) (num_operations config)
       (\<lambda>i m. map_option (Pair ()) (container_insert keys vals i m)) Map.empty;
     CalculateStats (rounded B) ''std::unordered_map Insert'' (num_operations config) latencies 0
   }"

section \<open>Printing\<close>

text \<open>The conversion of a \<open>double\<close> to \<open>size_t\<close> truncates; out of range it is undefined.\<close>

definition double_to_size :: "bench_rate \<Rightarrow> nat option" where
  "double_to_size d = (case d of
     NotFinite \<Rightarrow> None
   | Finite x \<Rightarrow> if - 1 < x \<and> x < 2 ^ 64 then Some (nat \<lfloor>x\<rfloor>) else None)"

definition text_line :: "string \<Rightarrow> string \<Rightarrow> string \<Rightarrow> string" where
  "text_line label val unit_text = ''    '' @ label @ val @ unit_text @ [CHR 0x0A]"

text \<open>\<open>show_double\<close> stands for the text an output stream makes of a \<open>double\<close>.\<close>

definition PrintResult :: "(real \<Rightarrow> string) \<Rightarrow> BenchmarkResult \<Rightarrow> string option" where
  "PrintResult show_double result = do {
     duration \<leftarrow> duration_ms result;
     rate \<leftarrow> ops_per_sec result;
     ops \<leftarrow> double_to_size rate;
     avg \<leftarrow> avg_latency_us result;
     p50 \<leftarrow> p50_latency_us result;
     p95 \<leftarrow> p95_latency_us result;
     p99 \<leftarrow> p99_latency_us result;
     memory \<leftarrow> memory_bytes result;
     Some (''  '' @ bench_name result @ '':'' @ [CHR 0x0A] @
       text_line ''Operations:     '' (to_dec (operations result)) [] @
       text_line ''Duration:       '' (show_double duration) '' ms'' @
       text_line ''Throughput:     '' (to_dec ops) '' ops/sec'' @
       text_line ''Avg Latency:    '' (show_double avg) '' us'' @
       text_line ''P50 Latency:    '' (show_double p50) '' us'' @
       text_line ''P95 Latency:    '' (show_double p95) '' us'' @
       text_line ''P99 Latency:    '' (show_double p99) '' us'' @
       (if memory > 0 then text_line ''Memory:         '' (to_dec memory) '' bytes'' else []))
   }"

fun print_results :: "(real \<Rightarrow> string) \<Rightarrow> BenchmarkResult list \<Rightarrow> string option" where
  "print_results show_double [] = Some []"
| "print_results show_double (r # rs) = do {
     out \<leftarrow> PrintResult show_double r;
     more_out \<leftarrow> print_results show_double rs;
     Some (out @ [CHR 0x0A] @ more_out)
   }"

definition PrintComparison :: "(real \<Rightarrow> string) \<Rightarrow> BenchmarkResult list \<Rightarrow> string option" where
  "PrintComparison show_double results = do {
     out \<leftarrow> print_results show_double results;
     Some ([CHR 0x0A] @ ''=== Benchmark Comparison ==='' @ [CHR 0x0A, CHR 0x0A] @ out)
   }"

text \<open>The workloads in turn, on one engine; each has its own inputs.\<close>

definition workload :: "nat \<Rightarrow> BenchEnv \<Rightarrow> BenchmarkConfig \<Rightarrow> KVEngine \<Rightarrow> (BenchmarkResult \<times> bench_event list \<times> KVEngine) option" where
  "workload i = [RunInsertBenchmark, RunLookupBenchmark, RunRangeScanBenchmark, RunDeleteBenchmark, RunMixedWorkloadBenchmark] ! i"

definition workload_heading :: "nat \<Rightarrow> string" where
  "workload_heading i = [''[1/5] Insert benchmark...'', ''[2/5] Lookup benchmark...'', ''[3/5] Range Scan benchmark...'',
     ''[4/5] Delete benchmark...'', ''[5/5] Mixed Workload benchmark...''] ! i @ [CHR 0x0A]"

definition RunAllBenchmarks ::
  "(real \<Rightarrow> string) \<Rightarrow> (nat \<Rightarrow> BenchEnv) \<Rightarrow> BenchmarkConfig \<Rightarrow> KVEngine \<Rightarrow> (BenchmarkResult list \<times> string \<times> KVEngine) option" where
  "RunAllBenchmarks show_double B config E =
     for_range 0 5 (\<lambda>i (results, out, E). do {
       (result, events, E) \<leftarrow> workload i (B i) config E;
       text \<leftarrow> PrintResult show_double result;
       Some (results @ [result], out @ (if i = 0 then [] else [CHR 0x0A]) @ workload_heading i @ text, E)
     }) ([], ''Running benchmarks with '' @ to_dec (num_operations config) @ '' operations...'' @ [CHR 0x0A, CHR 0x0A], E)"

section \<open>The program\<close>

definition MakeOptions :: "string \<Rightarrow> KVEngineOptions" where
  "MakeOptions dir =
     KVEngineOptions_default\<lparr>enable_wal := False,
       btree_options := BTreeOptions_default\<lparr>max_keys_per_node := 64\<rparr>,
       engine_wal_options := WalOptions_default\<lparr>wal_dir := dir\<rparr>\<rparr>"

text \<open>One block of \<open>main\<close>: a new engine and one workload.\<close>

definition bench_block ::
  "(real \<Rightarrow> string) \<Rightarrow> (BenchEnv \<Rightarrow> BenchmarkConfig \<Rightarrow> KVEngine \<Rightarrow> (BenchmarkResult \<times> bench_event list \<times> KVEngine) option) \<Rightarrow>
    BenchEnv \<Rightarrow> WalEnv \<Rightarrow> string \<Rightarrow> BenchmarkConfig \<Rightarrow> string option" where
  "bench_block show_double run B e dir config = do {
     E \<leftarrow> KVEngine_new (bench_crc B) e (\<lambda>name. True) (MakeOptions dir) [];
     (result, events, E) \<leftarrow> run B config E;
     PrintResult show_double result
   }"

definition benchmark_main :: "(real \<Rightarrow> string) \<Rightarrow> (nat \<Rightarrow> BenchEnv) \<Rightarrow> WalEnv \<Rightarrow> string \<Rightarrow> string option" where
  "benchmark_main show_double B e base = do {
     let config = BenchmarkConfig_default\<lparr>num_operations := 100000, key_size := 16, value_size := 100, bench_seed := 42\<rparr>;
     ins \<leftarrow> bench_block show_double RunInsertBenchmark (B 0) e (base @ ''/bplustree'') config;
     look \<leftarrow> bench_block show_double RunLookupBenchmark (B 1) e (base @ ''/lookup'') config;
     scans \<leftarrow> bench_block show_double RunRangeScanBenchmark (B 2) e (base @ ''/scan'') config;
     del \<leftarrow> bench_block show_double RunDeleteBenchmark (B 3) e (base @ ''/delete'') config;
     E \<leftarrow> KVEngine_new (bench_crc (B 4)) e (\<lambda>name. True) (MakeOptions (base @ ''/map'')) [];
     ordered_result \<leftarrow> RunStdMapComparison (B 4) config;
     map_text \<leftarrow> PrintResult show_double ordered_result;
     unordered \<leftarrow> RunStdUnorderedMapComparison (B 5) config;
     unordered_text \<leftarrow> PrintResult show_double unordered;
     Some (''=== KV Engine Benchmark ==='' @ [CHR 0x0A] @ ''Operations: '' @ to_dec (num_operations config) @ [CHR 0x0A, CHR 0x0A] @
       ins @ look @ scans @ del @ map_text @ unordered_text)
   }"

end
