(* ===== verification/Benchmark_Correct.thy ===== *)
theory Benchmark_Correct
  imports Benchmark "HOL-Library.Multiset"
begin

text \<open>
  The workloads of the benchmark on an engine without a log (the one \<open>benchmark_main\<close>
  uses): the keys they generate, and what each leaves in the tree.
\<close>

section \<open>The generated keys\<close>

lemma length_key_suffix: "length (key_suffix d i) = max d (length (to_dec i))"
  by (simp add: key_suffix_def Let_def)

lemma foldl_zeros [simp]: "foldl (\<lambda>a c. a * 10 + digit_val c) 0 (replicate n CHR ''0'') = 0"
  by (induction n) (simp_all add: digit_val_def)

lemma dec_val_suffix: "dec_val (key_suffix d i) = i"
  using dec_val_to_dec [of i] by (simp add: key_suffix_def Let_def dec_val_def)

lemma key_suffix_digits: "\<forall>c\<in>set (key_suffix d i). is_digit c"
  using to_dec_digits [of i] by (auto simp: key_suffix_def Let_def is_digit_def)

lemma length_to_dec: "i < 10 ^ d \<Longrightarrow> 0 < d \<Longrightarrow> length (to_dec i) \<le> d"
proof (induction i arbitrary: d rule: to_dec.induct)
  case (1 i)
  show ?case
  proof (cases "i < 10")
    case True
    then show ?thesis using "1.prems" by (subst to_dec.simps) simp
  next
    case False
    then obtain d' where d: "d = Suc d'" "0 < d'" using "1.prems" by (cases d; cases "d - 1") auto
    have "i div 10 < 10 ^ d'" using "1.prems"(1) d(1) by (simp add: less_mult_imp_div_less mult.commute)
    from "1.IH" [OF False this d(2)] show ?thesis using False d(1) by (subst to_dec.simps) simp
  qed
qed

text \<open>No letter is ever drawn: the keys are long enough without.\<close>

definition bench_key :: "nat \<Rightarrow> nat \<Rightarrow> bytes" where
  "bench_key len i = key_prefix @ key_suffix (key_digits len) i"

lemma bench_key_long: "len \<le> length (bench_key len i)"
  by (auto simp: bench_key_def length_key_suffix key_digits_def key_prefix_def max_def)

lemma generate_loop:
  "fold (\<lambda>i (draws, keys).
       let (draws, key) = pad_key letter len (draws, key_prefix @ key_suffix (key_digits len) i)
       in (draws, keys @ [key])) is (0, ks) = (0, ks @ map (bench_key len) is)"
proof (induction "is" arbitrary: ks)
  case (Cons i "is")
  have "pad_key letter len (0, key_prefix @ key_suffix (key_digits len) i) = (0, bench_key len i)"
    using bench_key_long [of len i] by (simp add: pad_key.simps bench_key_def)
  with Cons show ?case by simp
qed simp

lemma GenerateKeys_eq: "GenerateKeys letter cnt len = map (bench_key len) [0..<cnt]"
  unfolding GenerateKeys_def generate_loop by simp

lemma bench_key_inj: "bench_key len i = bench_key len j \<longleftrightarrow> i = j"
  using dec_val_suffix by (auto simp: bench_key_def) metis

lemma bench_key_not_Nil [simp]: "bench_key len i \<noteq> []"
  by (simp add: bench_key_def key_prefix_def)

text \<open>Digit strings of one length are ordered like the numbers.\<close>

lemma foldl_digits:
  "foldl (\<lambda>a c. a * 10 + digit_val c) n ds = n * 10 ^ length ds + foldl (\<lambda>a c. a * 10 + digit_val c) 0 ds"
proof (induction ds arbitrary: n)
  case (Cons d ds)
  show ?case
    by (simp only: foldl_Cons) (subst Cons, subst (2) Cons, simp add: algebra_simps)
qed simp

lemma dec_val_Cons: "dec_val (d # ds) = digit_val d * 10 ^ length ds + dec_val ds"
  using foldl_digits [of "digit_val d" ds] by (simp add: dec_val_def)

lemma dec_val_less: "\<forall>c\<in>set ds. is_digit c \<Longrightarrow> dec_val ds < 10 ^ length ds"
proof (induction ds)
  case (Cons d ds)
  then have "digit_val d \<le> 9" "dec_val ds < 10 ^ length ds" by (auto simp: is_digit_def digit_val_def)
  then have "digit_val d * 10 ^ length ds + dec_val ds < 9 * 10 ^ length ds + 10 ^ length ds"
    by (intro add_le_less_mono mult_right_mono) simp_all
  then show ?case by (simp add: dec_val_Cons)
qed (simp add: dec_val_def)

lemma digits_ordered:
  assumes "length a = length b" and "\<forall>c\<in>set a. is_digit c" and "\<forall>c\<in>set b. is_digit c" and "dec_val a < dec_val b"
  shows "lex_compare a b < 0"
  using assms
proof (induction a b rule: list_induct2)
  case (Cons x a y b)
  then have tails: "dec_val a < 10 ^ length a" "dec_val b < 10 ^ length a" using dec_val_less [of a] dec_val_less [of b] by auto
  show ?case
  proof (cases "x = y")
    case True
    with Cons show ?thesis by (simp add: dec_val_Cons)
  next
    case False
    have d: "is_digit x" "is_digit y" using Cons.prems by simp_all
    have "\<not> digit_val y < digit_val x"
    proof
      assume "digit_val y < digit_val x"
      then have "(digit_val y + 1) * 10 ^ length a \<le> digit_val x * 10 ^ length a" by (intro mult_right_mono) simp_all
      then show False using Cons.prems(3) Cons.hyps tails by (simp add: dec_val_Cons algebra_simps)
    qed
    then have "(of_char x :: nat) \<le> of_char y" using d by (auto simp: digit_val_def is_digit_def)
    moreover have "(of_char x :: nat) \<noteq> of_char y" using False by simp
    ultimately have "(of_char x :: nat) < of_char y" by (rule order.not_eq_order_implies_strict [rotated])
    then show ?thesis using False by (simp add: byte_val_def)
  qed
qed (simp add: dec_val_def)

lemma lex_compare_append: "lex_compare (p @ a) (p @ b) = lex_compare a b"
  by (induction p) simp_all

lemma key_digits_pos: "0 < key_digits len"
  by (simp add: key_digits_def)

lemma bench_key_less:
  assumes "i < j" and "j < 10 ^ key_digits len"
  shows "key_lt None (bench_key len i) (bench_key len j)"
proof -
  have "length (key_suffix (key_digits len) n) = key_digits len" if "n < 10 ^ key_digits len" for n
    using length_to_dec [OF that key_digits_pos] by (simp add: length_key_suffix)
  then have "length (key_suffix (key_digits len) i) = length (key_suffix (key_digits len) j)" using assms by simp
  from digits_ordered [OF this key_suffix_digits key_suffix_digits] show ?thesis
    using assms(1) by (simp add: dec_val_suffix bench_key_def lex_compare_append key_lt_def Compare_def Slice_compare_lex)
qed

lemma bench_keys_sorted: "cnt \<le> 10 ^ key_digits len \<Longrightarrow> sorted_wrt (key_lt None) (map (bench_key len) [0..<cnt])"
  by (auto simp: sorted_wrt_map sorted_wrt_iff_nth_less intro: bench_key_less)

lemma length_GenerateValues [simp]: "length (GenerateValues letter cnt len) = cnt"
proof -
  have "length (snd (fold (\<lambda>i (draws, vals). let (draws, val) = f i draws in (draws, vals @ [val])) is (d, vs))) = length vs + length is"
    for f :: "nat \<Rightarrow> nat \<Rightarrow> nat \<times> bytes" and "is" d vs
    by (induction "is" arbitrary: d vs) (auto simp: split_beta Let_def)
  then show ?thesis by (simp add: GenerateValues_def)
qed

section \<open>Loops\<close>

text \<open>What every operation of a timed loop keeps and tells.\<close>

lemma timed_loop_total:
  assumes "\<And>i s. i < n \<Longrightarrow> P i s \<Longrightarrow> \<exists>ev s'. f i s = Some (ev, s') \<and> Q i ev \<and> P (Suc i) s'" and "P 0 s"
  shows "\<exists>s' evs. timed_loop latency n f s = Some (s', evs, map latency [0..<n]) \<and> P n s' \<and> length evs = n \<and> (\<forall>i<n. Q i (evs ! i))"
proof -
  define R where "R i = (\<lambda>(s, evs, ls). P i s \<and> length evs = i \<and> (\<forall>j<i. Q j (evs ! j)) \<and> ls = map latency [0..<i])" for i
  have "\<exists>t. for_range 0 n (\<lambda>i (s, events, latencies). do {
       (event, s) \<leftarrow> f i s;
       Some (s, events @ [event], latencies @ [latency i])
     }) (s, [], []) = Some t \<and> R (0 + n) t"
  proof (rule for_range_total)
    fix i t assume "i < 0 + n" and R: "R i t"
    then obtain s evs where t: "t = (s, evs, map latency [0..<i])" "P i s" "length evs = i" "\<forall>j<i. Q j (evs ! j)"
      by (auto simp: R_def split: prod.splits)
    then obtain ev s' where "f i s = Some (ev, s')" "Q i ev" "P (Suc i) s'" using assms(1) [of i s] \<open>i < 0 + n\<close> by auto
    then show "\<exists>t'. (case t of (s, events, latencies) \<Rightarrow> do {
       (event, s) \<leftarrow> f i s;
       Some (s, events @ [event], latencies @ [latency i])
     }) = Some t' \<and> R (Suc i) t'"
      using t by (auto simp: R_def nth_append less_Suc_eq)
  qed (simp add: R_def assms(2))
  then show ?thesis by (auto simp: R_def timed_loop_def split: prod.splits)
qed

lemma timed_loop_events:
  assumes "\<And>i s. i < n \<Longrightarrow> P i s \<Longrightarrow> \<exists>s'. f i s = Some (g i, s') \<and> P (Suc i) s'" and "P 0 s"
  shows "\<exists>s'. timed_loop latency n f s = Some (s', map g [0..<n], map latency [0..<n]) \<and> P n s'"
proof -
  obtain s' evs where t: "timed_loop latency n f s = Some (s', evs, map latency [0..<n])" "P n s'" "length evs = n" "\<forall>i<n. evs ! i = g i"
    using timed_loop_total [of n P f "\<lambda>i ev. ev = g i" s latency] assms by blast
  from t(3,4) have "evs = map g [0..<n]" by (intro nth_equalityI) simp_all
  with t(1,2) show ?thesis by blast
qed

section \<open>An engine without a log\<close>

definition memory_store :: "KVEngine \<Rightarrow> entry list \<Rightarrow> bool" where
  "memory_store E es \<longleftrightarrow> engine_wal E = None \<and> tree_store None (engine_tree E) es"

lemma memory_put:
  "memory_store E es \<Longrightarrow> \<exists>s E'. KVEngine_Put crc e e' k v E = Some (s, E') \<and> memory_store E' (op_spec None (PutOp k v) es) \<and>
    tree_options (engine_tree E') = tree_options (engine_tree E)"
proof -
  assume "memory_store E es"
  then have w: "engine_wal E = None" and t: "tree_store None (engine_tree E) es" by (simp_all add: memory_store_def)
  obtain s T where "BPlusTree_Put k v (engine_tree E) = Some (s, T)" "tree_store None T (op_spec None (PutOp k v) es)"
    "tree_options T = tree_options (engine_tree E)"
    using run_ops_tree [OF default_order.key_order_axioms t, of "[PutOp k v]"] default_tree.put_total [OF t, of k v]
    by (auto simp del: op_spec.simps)
  then show ?thesis by (simp add: KVEngine_Put_def log_and_sync_def Let_def w memory_store_def del: op_spec.simps)
qed

lemma memory_delete:
  "memory_store E es \<Longrightarrow> \<exists>s E'. KVEngine_Delete crc e e' k E = Some (s, E') \<and> memory_store E' (del_spec k es) \<and>
    tree_options (engine_tree E') = tree_options (engine_tree E)"
proof -
  assume "memory_store E es"
  then have w: "engine_wal E = None" and t: "tree_store None (engine_tree E) es" by (simp_all add: memory_store_def)
  obtain s T where "BPlusTree_Delete k (engine_tree E) = Some (s, T)" "tree_store None T (del_spec k es)"
    "tree_options T = tree_options (engine_tree E)"
    using run_ops_tree [OF default_order.key_order_axioms t, of "[DeleteOp k]"] default_tree.del_total [OF t, of k] by auto
  then show ?thesis by (simp add: KVEngine_Delete_def log_and_sync_def Let_def w memory_store_def)
qed

lemma memory_get: "memory_store E es \<Longrightarrow> KVEngine_Get E k (Some x) =
    Some (case map_of es k of Some v \<Rightarrow> (Status_OK, Some v) | None \<Rightarrow> (Status_NotFound ''Key not found'', Some x))"
  by (simp add: memory_store_def KVEngine_Get_def default_tree.get_ok)

lemma memory_size: "memory_store E es \<Longrightarrow> KVEngine_Size E = length es"
  unfolding memory_store_def tree_store_def KVEngine_Size_def using rep_leaves by metis

lemma memory_ordered: "memory_store E es \<Longrightarrow> sorted_wrt (key_lt None) (keys_of es)"
  using default_tree.rep_ordered unfolding memory_store_def by blast

lemma memory_engine:
  "\<exists>E. KVEngine_new crc e readable (MakeOptions dir) d = Some E \<and> memory_store E [] \<and> tree_max (engine_tree E) = 64"
proof -
  obtain T where "BPlusTree_new (btree_options (MakeOptions dir)) = Some T" "tree_store None T []"
    "tree_options T = btree_options (MakeOptions dir)\<lparr>max_keys_per_node := 64\<rparr>"
    using new_tree_store [of "btree_options (MakeOptions dir)"]
    by (auto simp: MakeOptions_def KVEngineOptions_default_def BTreeOptions_default_def)
  then show ?thesis
    by (simp add: KVEngine_new_def Let_def memory_store_def MakeOptions_def KVEngineOptions_default_def BTreeOptions_default_def)
qed

end
