(* ===== verification/Benchmark_Properties.thy ===== *)
theory Benchmark_Properties
  imports Benchmark_Correct
begin

text \<open>
  Properties of the benchmark: what its keys look like, that the timed lookups and deletions hit the
  keys inserted before, how many entries each range scan visits, and where the percentiles come from.
\<close>

section \<open>Filling the engine\<close>

lemma put_range:
  assumes "memory_store E es" and "lo + n \<le> length keys" and "lo + n \<le> length vals"
  shows "\<exists>E'. for_range lo n (\<lambda>i E. map_option snd (bench_put crc calls keys vals i i E)) E = Some E' \<and>
    memory_store E' (fold (\<lambda>i. op_spec None (PutOp (keys ! i) (vals ! i))) [lo..<lo + n] es) \<and>
    tree_options (engine_tree E') = tree_options (engine_tree E)"
  using assms
proof (induction n arbitrary: lo E es)
  case (Suc n)
  obtain s E1 where E1: "KVEngine_Put crc (fst (calls lo)) (snd (calls lo)) (keys ! lo) (vals ! lo) E = Some (s, E1)"
    "memory_store E1 (op_spec None (PutOp (keys ! lo) (vals ! lo)) es)" "tree_options (engine_tree E1) = tree_options (engine_tree E)"
    using memory_put [OF Suc.prems(1)] by blast
  have "[lo..<lo + Suc n] = lo # [Suc lo..<Suc lo + n]" by (simp add: upt_rec)
  then show ?case using Suc.IH [OF E1(2), of "Suc lo"] Suc.prems(2,3) E1(1,3)
    by (simp add: bench_put_def vec_get_def del: op_spec.simps)
qed simp

text \<open>What the insertion of the generated keys leaves.\<close>

definition bench_entries :: "nat \<Rightarrow> bytes list \<Rightarrow> nat \<Rightarrow> entry list" where
  "bench_entries len vals n = fold (\<lambda>i. op_spec None (PutOp (bench_key len i) (vals ! i))) [0..<n] []"

lemma bench_entries_facts:
  shows "map_of (bench_entries len vals n) (bench_key len i) = (if i < n then Some (vals ! i) else None)"
    and "set (keys_of (bench_entries len vals n)) = bench_key len ` {..<n}"
  by (induction n)
    (auto simp: bench_entries_def default_order.map_of_put_spec default_order.set_put_spec bench_key_inj lessThan_Suc less_Suc_eq)

lemma put_all_keys:
  fixes B config
  defines "n \<equiv> num_operations config" and "vals \<equiv> config_values B config"
  assumes "memory_store E []" and "m \<le> n"
  shows "\<exists>E'. for_range 0 m (\<lambda>i E. map_option snd (bench_put crc calls (config_keys B config) vals i i E)) E = Some E' \<and>
    memory_store E' (bench_entries (key_size config) vals m) \<and> tree_options (engine_tree E') = tree_options (engine_tree E)"
proof -
  let ?keys = "config_keys B config"
  have keys: "?keys = map (bench_key (key_size config)) [0..<n]" by (simp add: config_keys_def GenerateKeys_eq n_def)
  have len: "0 + m \<le> length ?keys" "0 + m \<le> length vals"
    using assms(4) by (simp_all add: keys vals_def config_values_def n_def)
  have "fold (\<lambda>i. op_spec None (PutOp (?keys ! i) (vals ! i))) [0..<m] [] = bench_entries (key_size config) vals m"
    unfolding bench_entries_def by (rule fold_cong) (use assms(4) in \<open>auto simp: keys\<close>)
  then show ?thesis using put_range [OF assms(3) len, of crc calls] by simp
qed

lemma memory_length: "memory_store E es \<Longrightarrow> length es = card (set (keys_of es))"
  using distinct_card [OF default_order.ordered_distinct [OF memory_ordered], of E es] by simp

lemma bench_size: "memory_store E (bench_entries len vals n) \<Longrightarrow> KVEngine_Size E = n"
  by (simp add: memory_size memory_length bench_entries_facts(2) card_image inj_on_def bench_key_inj)

section \<open>Statistics\<close>

text \<open>The positions read are in bounds, so the result is defined.\<close>

definition percentile :: "nat \<Rightarrow> nat \<Rightarrow> real list \<Rightarrow> real" where
  "percentile q n xs = sort xs ! min (length xs - 1) (n * q div 100)"

lemma percentile_get: "xs \<noteq> [] \<Longrightarrow> vec_get (sort xs) (min (length xs - 1) (n * q div 100)) = Some (percentile q n xs)"
  by (cases xs) (simp_all add: vec_get_def percentile_def)

lemma stats_defined:
  assumes "xs \<noteq> []" and "0 < n"
  shows "\<exists>r. CalculateStats rnd name n xs mem = Some r \<and> operations r = min n (length xs) \<and>
    p50_latency_us r = Some (percentile 50 (min n (length xs)) xs) \<and>
    p95_latency_us r = Some (percentile 95 (min n (length xs)) xs) \<and>
    p99_latency_us r = Some (percentile 99 (min n (length xs)) xs)"
  unfolding CalculateStats_def Let_def length_sort percentile_get [OF assms(1)] using assms by simp

lemma stats_total: "\<exists>r. CalculateStats rnd name n xs mem = Some r"
proof (cases "xs = [] \<or> n = 0")
  case True
  then show ?thesis by (auto simp: CalculateStats_def)
next
  case False
  then show ?thesis using stats_defined [of xs n] by blast
qed

section \<open>Scans\<close>





section \<open>The properties\<close>

text \<open>
  C36.  The keys of a benchmark are distinct, start with the prefix and are at least as long as
  requested; they do not depend on the random letters (nor the seed), and while the numbers fit their
  digits they are in increasing order.
\<close>

theorem benchmark_keys:
  shows "length (config_keys B config) = num_operations config \<and> distinct (config_keys B config) \<and>
    (\<forall>key\<in>set (config_keys B config). take 4 key = ''key_'' \<and> key_size config \<le> length key) \<and>
    config_keys B' config = config_keys B config \<and>
    (num_operations config \<le> 10 ^ key_digits (key_size config) \<longrightarrow> sorted_wrt (key_lt None) (config_keys B config))"
  using bench_key_long bench_keys_sorted
  by (auto simp: config_keys_def GenerateKeys_eq distinct_map inj_on_def bench_key_inj)
    (auto simp: bench_key_def key_prefix_def)

lemma config_key: "i < num_operations config \<Longrightarrow> config_keys B config ! i = bench_key (key_size config) i"
  by (simp add: config_keys_def GenerateKeys_eq)

lemma bench_keys_distinct: "distinct (config_keys B config)"
  by (simp add: config_keys_def GenerateKeys_eq distinct_map inj_on_def bench_key_inj)

lemma put_all_fresh:
  fixes B config
  assumes "KVEngine_new (bench_crc B) e readable (MakeOptions dir) d = Some E"
  defines "n \<equiv> num_operations config"
  obtains E' where "put_all B (config_keys B config) (config_values B config) n E = Some E'"
    "memory_store E' (bench_entries (key_size config) (config_values B config) n)" "tree_max (engine_tree E') = 64"
proof -
  have E: "memory_store E []" "tree_max (engine_tree E) = 64"
    using memory_engine [of "bench_crc B" e readable dir d] assms(1) by auto
  show thesis
    using put_all_keys [OF E(1), of n config "bench_crc B" "setup_calls B" B] that E(2) by (auto simp: put_all_def n_def)
qed

text \<open>
  C34.  On a new engine the lookup benchmark stores every generated key with its value, and times exactly one lookup
  of each key, in the shuffled order: the lookup returns OK and the value that was stored with the key.
  The engine ends with all pairs.
\<close>

theorem benchmark_lookups_hit:
  assumes "KVEngine_new (bench_crc B) e readable (MakeOptions dir) d = Some E"
    and "mset (shuffled B (config_keys B config)) = mset (config_keys B config)"
  shows "\<exists>r E'. RunLookupBenchmark B config E = Some (r,
      map (\<lambda>key. Looked key Status_OK (map_of (zip (config_keys B config) (config_values B config)) key)) (shuffled B (config_keys B config)), E') \<and>
    KVEngine_Size E' = num_operations config \<and>
    set (shuffled B (config_keys B config)) = dom (map_of (zip (config_keys B config) (config_values B config)))"
proof -
  let ?n = "num_operations config" and ?keys = "config_keys B config" and ?vals = "config_values B config"
  let ?m = "map_of (zip ?keys ?vals)" and ?ks = "shuffled B ?keys"
  obtain E' where E': "put_all B ?keys ?vals ?n E = Some E'" "memory_store E' (bench_entries (key_size config) ?vals ?n)"
    using put_all_fresh [OF assms(1)] by metis
  have lens: "length ?keys = ?n" "length ?vals = ?n" by (simp_all add: config_keys_def GenerateKeys_eq config_values_def)
  have len: "length ?ks = ?n" using mset_eq_length [OF assms(2)] lens by simp
  have dom: "set ?ks = dom ?m" using mset_eq_setD [OF assms(2)] lens by (simp add: dom_map_of_zip)
  have hit: "KVEngine_Get E' (?ks ! i) (Some x) = Some (Status_OK, ?m (?ks ! i)) \<and> ?m (?ks ! i) \<noteq> None" if "i < ?n" for i x
  proof -
    have "?ks ! i \<in> set ?keys" using that len dom lens by (metis dom_map_of_zip nth_mem)
    then obtain j where j: "j < ?n" "?keys ! j = ?ks ! i" using lens by (metis in_set_conv_nth)
    then have m: "?m (?ks ! i) = Some (?vals ! j)"
      using lens bench_keys_distinct [of B config] by (metis map_of_zip_nth)
    have "map_of (bench_entries (key_size config) ?vals ?n) (?ks ! i) = Some (?vals ! j)"
      using bench_entries_facts(1) [of "key_size config" ?vals ?n j] config_key [of j config B] j by simp
    then show ?thesis using memory_get [OF E'(2), of "?ks ! i" x] m by simp
  qed
  have "\<exists>s'. timed_loop (latency_us B) ?n (bench_get ?ks) (E', Some []) =
      Some (s', map (\<lambda>i. Looked (?ks ! i) Status_OK (?m (?ks ! i))) [0..<?n], map (latency_us B) [0..<?n]) \<and> (\<exists>v. s' = (E', Some v))"
  proof (rule timed_loop_events)
    fix i and s :: "KVEngine \<times> bytes option" assume i: "i < ?n" and "\<exists>v. s = (E', Some v)"
    then obtain v where "s = (E', Some v)" by blast
    then show "\<exists>s'. bench_get ?ks i s = Some (Looked (?ks ! i) Status_OK (?m (?ks ! i)), s') \<and> (\<exists>v. s' = (E', Some v))"
      using hit [OF i, of v] i len by (auto simp: bench_get_def vec_get_def)
  qed simp
  then obtain v where loop: "timed_loop (latency_us B) ?n (bench_get ?ks) (E', Some []) =
      Some ((E', Some v), map (\<lambda>i. Looked (?ks ! i) Status_OK (?m (?ks ! i))) [0..<?n], map (latency_us B) [0..<?n])" by blast
  have "map (\<lambda>i. Looked (?ks ! i) Status_OK (?m (?ks ! i))) [0..<?n] = map (\<lambda>key. Looked key Status_OK (?m key)) (map ((!) ?ks) [0..<?n])"
    by simp
  also have "map ((!) ?ks) [0..<?n] = ?ks" using map_nth [of ?ks] len by simp
  finally have events: "map (\<lambda>i. Looked (?ks ! i) Status_OK (?m (?ks ! i))) [0..<?n] = map (\<lambda>key. Looked key Status_OK (?m key)) ?ks" .
  obtain r where "CalculateStats (rounded B) ''Lookup'' ?n (map (latency_us B) [0..<?n]) (bench_memory B E') = Some r"
    using stats_total by blast
  then have "RunLookupBenchmark B config E = Some (r, map (\<lambda>key. Looked key Status_OK (?m key)) ?ks, E')"
    using E'(1) loop unfolding events by (simp add: RunLookupBenchmark_def Let_def)
  then show ?thesis using bench_size [OF E'(2)] dom by blast
qed

text \<open>
  On a new engine the delete benchmark, in whatever order it is shuffled, leaves the engine empty.
\<close>

theorem benchmark_deletes_all:
  assumes "KVEngine_new (bench_crc B) e readable (MakeOptions dir) d = Some E"
    and "mset (shuffled B (config_keys B config)) = mset (config_keys B config)"
  shows "\<exists>r events E'. RunDeleteBenchmark B config E = Some (r, events, E') \<and> KVEngine_Size E' = 0"
proof -
  let ?n = "num_operations config" and ?keys = "config_keys B config" and ?vals = "config_values B config"
  let ?ks = "shuffled B ?keys" and ?es = "bench_entries (key_size config) ?vals ?n"
  obtain E1 where E1: "put_all B ?keys ?vals ?n E = Some E1" "memory_store E1 ?es"
    using put_all_fresh [OF assms(1)] by metis
  have len: "length ?ks = ?n" using mset_eq_length [OF assms(2)] by (simp add: config_keys_def GenerateKeys_eq)
  have "\<exists>E2 evs. timed_loop (latency_us B) ?n (bench_delete (bench_crc B) (timed_calls B) ?ks) E1 =
      Some (E2, evs, map (latency_us B) [0..<?n]) \<and> memory_store E2 (fold (\<lambda>i. del_spec (?ks ! i)) [0..<?n] ?es) \<and>
      length evs = ?n \<and> (\<forall>i<?n. True)"
  proof (rule timed_loop_total [where P = "\<lambda>i F. memory_store F (fold (\<lambda>i. del_spec (?ks ! i)) [0..<i] ?es)" and Q = "\<lambda>i ev. True"])
    fix i F assume i: "i < ?n" and "memory_store F (fold (\<lambda>i. del_spec (?ks ! i)) [0..<i] ?es)"
    from memory_delete [OF this(2), of "bench_crc B" "fst (timed_calls B i)" "snd (timed_calls B i)" "?ks ! i"]
    show "\<exists>ev F'. bench_delete (bench_crc B) (timed_calls B) ?ks i F = Some (ev, F') \<and> True \<and>
        memory_store F' (fold (\<lambda>i. del_spec (?ks ! i)) [0..<Suc i] ?es)"
      using i len by (auto simp: bench_delete_def vec_get_def)
  qed (simp add: E1(2))
  then obtain E2 evs where E2: "timed_loop (latency_us B) ?n (bench_delete (bench_crc B) (timed_calls B) ?ks) E1 =
      Some (E2, evs, map (latency_us B) [0..<?n])" "memory_store E2 (fold (\<lambda>i. del_spec (?ks ! i)) [0..<?n] ?es)" by blast
  obtain r where "CalculateStats (rounded B) ''Delete'' ?n (map (latency_us B) [0..<?n]) (bench_memory B E2) = Some r"
    using stats_total by blast
  then have run: "RunDeleteBenchmark B config E = Some (r, evs, E2)"
    using E1(1) E2(1) by (simp add: RunDeleteBenchmark_def Let_def)
  have deleted: "set (keys_of (fold (\<lambda>i. del_spec (?ks ! i)) is es)) = set (keys_of es) - (\<lambda>i. ?ks ! i) ` set is" for "is" es
    by (induction "is" arbitrary: es) (auto simp: set_del_spec)
  have "(\<lambda>i. ?ks ! i) ` {0..<?n} = set ?ks" using len by (auto simp: set_conv_nth)
  also have "\<dots> = bench_key (key_size config) ` {..<?n}"
    using mset_eq_setD [OF assms(2)] by (simp add: config_keys_def GenerateKeys_eq lessThan_atLeast0)
  finally have "set (keys_of (fold (\<lambda>i. del_spec (?ks ! i)) [0..<?n] ?es)) = {}"
    using deleted [of "[0..<?n]" ?es] by (simp add: bench_entries_facts(2))
  then show ?thesis using run memory_size [OF E2(2)] by auto
qed



text \<open>Without operations there are no keys, and the first scan indexes the empty vector.\<close>

lemma benchmark_scan_no_keys: "num_operations config = 0 \<Longrightarrow> RunRangeScanBenchmark B config E = None"
  by (simp add: RunRangeScanBenchmark_def Let_def timed_loop_def config_keys_def GenerateKeys_eq bench_scan_def vec_get_def
      put_all_def bind_eq_None_conv)

text \<open>And a result without operations cannot be printed: its fields are not initialised.\<close>

lemma benchmark_print_undefined: "CalculateStats rnd name 0 xs mem = Some r \<Longrightarrow> PrintResult show_double r = None"
  by (auto simp: CalculateStats_def PrintResult_def)

lemma sorted_filters:
  assumes "i < length xs"
  shows "Suc i \<le> length (filter (\<lambda>x. x \<le> sort xs ! i) xs)" and "length xs - i \<le> length (filter (\<lambda>x. sort xs ! i \<le> x) xs)"
proof -
  let ?s = "sort xs"
  have same: "length (filter P xs) = length (filter P ?s)" for P
    by (metis mset_filter mset_sort size_mset)
  have i: "i < length ?s" using assms by simp
  have s: "sorted ?s" by simp
  have "filter (\<lambda>x. x \<le> ?s ! i) (take (Suc i) ?s) = take (Suc i) ?s"
    using i by (auto simp: filter_id_conv in_set_conv_nth sorted_nth_mono [OF s])
  then have "length (filter (\<lambda>x. x \<le> ?s ! i) (take (Suc i) ?s @ drop (Suc i) ?s)) \<ge> Suc i"
    unfolding filter_append using i by simp
  then show "Suc i \<le> length (filter (\<lambda>x. x \<le> ?s ! i) xs)" unfolding same append_take_drop_id .
  have "filter (\<lambda>x. ?s ! i \<le> x) (drop i ?s) = drop i ?s"
    using i by (auto simp: filter_id_conv in_set_conv_nth sorted_nth_mono [OF s])
  then have "length (filter (\<lambda>x. ?s ! i \<le> x) (take i ?s @ drop i ?s)) \<ge> length xs - i"
    unfolding filter_append by simp
  then show "length xs - i \<le> length (filter (\<lambda>x. ?s ! i \<le> x) xs)" unfolding same append_take_drop_id .
qed

lemma percentile_split:
  assumes "xs \<noteq> []" and "q \<le> 100"
  defines "p \<equiv> percentile q (length xs) xs"
  shows "p \<in> set xs" and "q * length xs \<le> 100 * length (filter (\<lambda>x. x \<le> p) xs)"
    and "(100 - q) * length xs \<le> 100 * length (filter (\<lambda>x. p \<le> x) xs)"
proof -
  define i where "i = min (length xs - 1) (length xs * q div 100)"
  have i: "i < length xs" using assms(1) by (cases xs) (simp_all add: i_def)
  have p: "p = sort xs ! i" by (simp add: p_def percentile_def i_def)
  have "sort xs ! i \<in> set (sort xs)" by (rule nth_mem) (simp add: i)
  then show "p \<in> set xs" by (simp add: p)
  have "q * length xs \<le> 100 * Suc i"
  proof (cases "length xs - 1 \<le> length xs * q div 100")
    case True
    then have "Suc i = length xs" using assms(1) by (cases xs) (simp_all add: i_def min_def)
    then show ?thesis using assms(2) by simp
  next
    case False
    then have "i = length xs * q div 100" by (simp add: i_def)
    then show ?thesis by (simp add: mult.commute [of q])
  qed
  then show "q * length xs \<le> 100 * length (filter (\<lambda>x. x \<le> p) xs)" using sorted_filters(1) [OF i] unfolding p by (meson mult_le_mono2 order_trans)
  have "100 * i \<le> length xs * q" by (auto simp: i_def min_def)
  then have "(100 - q) * length xs \<le> 100 * (length xs - i)" by (simp add: diff_mult_distrib diff_mult_distrib2 mult.commute)
  then show "(100 - q) * length xs \<le> 100 * length (filter (\<lambda>x. p \<le> x) xs)" using sorted_filters(2) [OF i] unfolding p by (meson mult_le_mono2 order_trans)
qed

text \<open>
  C37.  The three percentiles of a result are measured latencies in increasing order; at least 50, 95
  and 99 percent of the operations took at most as long, and at least 50, 5 and 1 percent at least as
  long.
\<close>

theorem benchmark_percentiles:
  assumes "xs \<noteq> []"
  shows "\<exists>r p50 p95 p99. CalculateStats rnd name (length xs) xs mem = Some r \<and>
    p50_latency_us r = Some p50 \<and> p95_latency_us r = Some p95 \<and> p99_latency_us r = Some p99 \<and>
    {p50, p95, p99} \<subseteq> set xs \<and> p50 \<le> p95 \<and> p95 \<le> p99 \<and>
    50 * length xs \<le> 100 * length (filter (\<lambda>x. x \<le> p50) xs) \<and> 50 * length xs \<le> 100 * length (filter (\<lambda>x. p50 \<le> x) xs) \<and>
    95 * length xs \<le> 100 * length (filter (\<lambda>x. x \<le> p95) xs) \<and> 5 * length xs \<le> 100 * length (filter (\<lambda>x. p95 \<le> x) xs) \<and>
    99 * length xs \<le> 100 * length (filter (\<lambda>x. x \<le> p99) xs) \<and> length xs \<le> 100 * length (filter (\<lambda>x. p99 \<le> x) xs)"
proof -
  define P where "P q = percentile q (length xs) xs" for q
  have "0 < length xs" using assms by simp
  from stats_defined [OF assms this, of rnd name mem] obtain r where r: "CalculateStats rnd name (length xs) xs mem = Some r"
    "p50_latency_us r = Some (P 50)" "p95_latency_us r = Some (P 95)" "p99_latency_us r = Some (P 99)"
    by (auto simp: P_def)
  have mono: "P a \<le> P b" if "a \<le> b" for a b
  proof -
    have "length xs * a div 100 \<le> length xs * b div 100" using that by (simp add: div_le_mono)
    then show ?thesis using assms unfolding P_def percentile_def
      by (intro sorted_nth_mono) (auto simp: min_def)
  qed
  note split = percentile_split [OF assms, folded P_def]
  have "{P 50, P 95, P 99} \<subseteq> set xs" using split(1) by simp
  moreover have "50 * length xs \<le> 100 * length (filter (\<lambda>x. x \<le> P 50) xs)" "50 * length xs \<le> 100 * length (filter (\<lambda>x. P 50 \<le> x) xs)"
    using split(2,3) [of 50] by simp_all
  moreover have "95 * length xs \<le> 100 * length (filter (\<lambda>x. x \<le> P 95) xs)" "5 * length xs \<le> 100 * length (filter (\<lambda>x. P 95 \<le> x) xs)"
    using split(2,3) [of 95] by simp_all
  moreover have "99 * length xs \<le> 100 * length (filter (\<lambda>x. x \<le> P 99) xs)" "length xs \<le> 100 * length (filter (\<lambda>x. P 99 \<le> x) xs)"
    using split(2,3) [of 99] by simp_all
  ultimately show ?thesis using r mono [of 50 95] mono [of 95 99] by simp
qed

section \<open>Witnesses\<close>

definition sample_env :: BenchEnv where
  "sample_env = \<lparr>key_letter = (\<lambda>i. CHR ''a''), value_letter = (\<lambda>i. CHR ''z''), setup_calls = (\<lambda>i. (quiet, quiet)), timed_calls = (\<lambda>i. (quiet, quiet)),
     shuffled = rev, drawn_index = (\<lambda>m i. 0), drawn_real = (\<lambda>i. 0), latency_us = real, rounded = id,
     bench_crc = (\<lambda>bs. 0), bench_memory = (\<lambda>E. 0)\<rparr>"

definition sample_config :: BenchmarkConfig where
  "sample_config = BenchmarkConfig_default\<lparr>num_operations := 3, key_size := 6, value_size := 1\<rparr>"

lemma sample_bench [simp]:
  "shuffled sample_env = rev" "drawn_index sample_env m i = 0" "num_operations sample_config = 3" "key_size sample_config = 6"
  by (simp_all add: sample_env_def sample_config_def)

lemma digit_chars: "char_of (48 :: nat) = CHR ''0''" "char_of (49 :: nat) = CHR ''1''" "char_of (50 :: nat) = CHR ''2''"
  by code_simp+

lemma sample_keys: "config_keys sample_env sample_config = [''key_00'', ''key_01'', ''key_02'']"
  by (simp add: config_keys_def GenerateKeys_eq upt_rec numeral_3_eq_3 bench_key_def key_prefix_def key_suffix_def key_digits_def
      to_dec.simps digit_char_def digit_chars)

lemma sample_values: "config_values sample_env sample_config = [''z'', ''z'', ''z'']"
  by (simp add: config_values_def GenerateValues_def sample_env_def sample_config_def upt_rec numeral_3_eq_3)

theorem benchmark_keys_witness:
  "sorted_wrt (key_lt None) (config_keys sample_env sample_config) \<and> distinct (config_keys sample_env sample_config)"
  using benchmark_keys [of sample_env sample_config sample_env] by (simp add: key_digits_def key_prefix_def)

theorem benchmark_lookups_hit_witness:
  "\<exists>E r E'. KVEngine_new (bench_crc sample_env) quiet (\<lambda>name. True) (MakeOptions []) [] = Some E \<and>
    RunLookupBenchmark sample_env sample_config E =
      Some (r, [Looked ''key_02'' Status_OK (Some ''z''), Looked ''key_01'' Status_OK (Some ''z''), Looked ''key_00'' Status_OK (Some ''z'')], E') \<and>
    KVEngine_Size E' = 3"
proof -
  obtain E where E: "KVEngine_new (bench_crc sample_env) quiet (\<lambda>name. True) (MakeOptions []) [] = Some E"
    using memory_engine by blast
  have s: "mset (shuffled sample_env (config_keys sample_env sample_config)) = mset (config_keys sample_env sample_config)" by simp
  obtain r E' where r: "RunLookupBenchmark sample_env sample_config E = Some (r,
      map (\<lambda>key. Looked key Status_OK (map_of (zip (config_keys sample_env sample_config) (config_values sample_env sample_config)) key))
        (shuffled sample_env (config_keys sample_env sample_config)), E')" "KVEngine_Size E' = num_operations sample_config"
    using benchmark_lookups_hit [OF E s] by blast
  have "map (\<lambda>key. Looked key Status_OK (map_of (zip (config_keys sample_env sample_config) (config_values sample_env sample_config)) key))
        (shuffled sample_env (config_keys sample_env sample_config)) =
      [Looked ''key_02'' Status_OK (Some ''z''), Looked ''key_01'' Status_OK (Some ''z''), Looked ''key_00'' Status_OK (Some ''z'')]"
    unfolding sample_keys sample_values by simp
  then show ?thesis using E r by auto
qed

theorem benchmark_deletes_all_witness:
  "\<exists>E r events E'. KVEngine_new (bench_crc sample_env) quiet (\<lambda>name. True) (MakeOptions []) [] = Some E \<and>
    RunDeleteBenchmark sample_env sample_config E = Some (r, events, E') \<and> KVEngine_Size E' = 0"
proof -
  obtain E where E: "KVEngine_new (bench_crc sample_env) quiet (\<lambda>name. True) (MakeOptions []) [] = Some E"
    using memory_engine by blast
  from benchmark_deletes_all [OF E, of sample_config] E show ?thesis by auto
qed


theorem benchmark_percentiles_witness:
  "\<exists>r p50. CalculateStats id ''t'' (length [3, 1, 2 :: real]) [3, 1, 2] 0 = Some r \<and> p50_latency_us r = Some p50 \<and> p50 \<in> {1, 2, 3}"
  using benchmark_percentiles [of "[3, 1, 2]" id "''t''" 0] by auto

end
