(* ===== verification/Programs.thy ===== *)
theory Programs
  imports Rest Cli
begin

text \<open>
  \<open>src/main.cpp\<close> and \<open>src/rest_server_main.cpp\<close>: the two programs that put the engine behind
  the command line and behind the server.  The arguments are those after the program name; \<open>d\<close> is
  the log directory as the program finds it.  An \<open>unsigned long\<close> has 64 bits.
\<close>

section \<open>The server program\<close>

definition stoul :: "string \<Rightarrow> u64 option" where
  "stoul s = map_option fst (stoull s)"

definition rest_engine_options :: KVEngineOptions where
  "rest_engine_options = KVEngineOptions_default\<lparr>enable_wal := True,
     engine_wal_options := WalOptions_default\<lparr>wal_dir := ''./wal_data'', wal_sync_on_write := True\<rparr>\<rparr>"

text \<open>The port argument: \<^term>\<open>None\<close> where an exception leads to the usage text.\<close>

definition rest_port_argument :: "string \<Rightarrow> 16 word option" where
  "rest_port_argument arg =
     (case stoul arg of
        None \<Rightarrow> None
      | Some n \<Rightarrow> if n = 0 \<or> n > 65535 then None else Some (ucast n))"

definition rest_server_options :: "string list \<Rightarrow> RestServerOptions option" where
  "rest_server_options args = do {
     opts \<leftarrow> (case args of
       [] \<Rightarrow> Some RestServerOptions_default
     | arg # _ \<Rightarrow> map_option (\<lambda>p. RestServerOptions_default\<lparr>port := p\<rparr>) (rest_port_argument arg));
     let opts = (if length args \<ge> 2 then opts\<lparr>host := args ! 1\<rparr> else opts);
     if length args > 2 then None else Some opts
   }"

text \<open>
  \<open>main\<close> returns 1 with a message, and leaves a log directory, or it serves: the loop at its end only waits
  for the server to stop.  The system calls \<open>e'\<close> are those of the engine's destructor.
\<close>

datatype rest_outcome = Returned int string disk | Serving KVEngine RestServer string

definition rest_usage :: string where
  "rest_usage = ''Usage: kv_rest_server [port] [host]'' @ nl"

definition rest_banner :: "RestServerOptions \<Rightarrow> string" where
  "rest_banner opts =
     ''KV Engine REST API'' @ nl @
     ''Listening on http://'' @ host opts @ '':'' @ to_dec (unat (port opts)) @ nl @
     ''Endpoints:'' @ nl @
     ''  GET    /health'' @ nl @
     ''  GET    /kv/{key}'' @ nl @
     ''  PUT    /kv/{key}'' @ nl @
     ''  DELETE /kv/{key}'' @ nl @
     ''  GET    /stats'' @ nl @
     ''  POST   /flush'' @ nl @
     ''  POST   /sync'' @ nl @
     ''Press Ctrl+C to stop.'' @ nl"

definition rest_main ::
  "(bytes \<Rightarrow> u32) \<Rightarrow> WalEnv \<Rightarrow> WalEnv \<Rightarrow> (string \<Rightarrow> bool) \<Rightarrow> disk \<Rightarrow> StartEnv \<Rightarrow> int set \<Rightarrow> string list \<Rightarrow>
    rest_outcome option" where
  "rest_main crc e e' readable d env sockets args =
     (case rest_server_options args of
        None \<Rightarrow> Some (Returned 1 rest_usage d)
      | Some server_options \<Rightarrow> do {
          engine \<leftarrow> KVEngine_new crc e readable rest_engine_options d;
          let (status, server) = RestServer_Start env (RestServer_new server_options sockets);
          if \<not> Status_ok status
          then Some (Returned 1 (''Failed to start REST server: '' @ Status_ToString status @ nl)
            (case KVEngine_destroy e' engine of Some w \<Rightarrow> wal_disk w | None \<Rightarrow> d))
          else Some (Serving engine server (rest_banner server_options))
        })"

text \<open>
  The connections that reach the engine, in the order in which they do: each is served by
  \<open>HandleClient\<close> in a thread of its own, and the call it makes of the engine holds the engine's mutex.
\<close>

fun serve_clients ::
  "(bytes \<Rightarrow> u32) \<Rightarrow> (KVEngine \<Rightarrow> nat) \<Rightarrow> RestServerOptions \<Rightarrow> (bytes list \<times> int list \<times> WalEnv \<times> WalEnv) list \<Rightarrow> KVEngine \<Rightarrow>
    (bytes list \<times> KVEngine) option" where
  "serve_clients crc mem opts [] E = Some ([], E)"
| "serve_clients crc mem opts ((packets, sends, e, e') # clients) E = do {
     (E, out) \<leftarrow> HandleClient crc mem e e' opts E packets sends;
     (outs, E) \<leftarrow> serve_clients crc mem opts clients E;
     Some (out # outs, E)
   }"

section \<open>The command line program\<close>

definition cli_engine_options :: KVEngineOptions where
  "cli_engine_options = KVEngineOptions_default\<lparr>enable_wal := True,
     engine_wal_options := WalOptions_default\<lparr>wal_dir := ''./wal_data'', wal_sync_on_write := False\<rparr>\<rparr>"

text \<open>The output, and the log after the destructor of the engine (\<open>e'\<close> are its system calls).\<close>

definition cli_main ::
  "(bytes \<Rightarrow> u32) \<Rightarrow> (KVEngine \<Rightarrow> nat) \<Rightarrow> WalEnv \<Rightarrow> (string \<Rightarrow> bool) \<Rightarrow> disk \<Rightarrow> (string \<times> WalEnv \<times> WalEnv) list \<Rightarrow> WalEnv \<Rightarrow>
    (string \<times> Wal option) option" where
  "cli_main crc mem e readable d lines e' = do {
     engine \<leftarrow> KVEngine_new crc e readable cli_engine_options d;
     (engine, out) \<leftarrow> CLI_Run crc mem lines engine;
     Some (''KV Engine v1.0.0'' @ nl @ ''Persistent B+ Tree Key-Value Store'' @ nl @ ''Type '' @ [CHR 0x27] @ ''help'' @
       [CHR 0x27] @ '' for commands.'' @ nl @ nl @ out, KVEngine_destroy e' engine)
   }"

end
