(* ===== verification/Programs_Properties.thy ===== *)
theory Programs_Properties
  imports Programs Rest_Properties Cli_Properties
begin

text \<open>
  The two programs from end to end: which arguments the server takes, that what it acknowledges
  survives a crash, and that a session of the command line finds what the session before stored.
\<close>

section \<open>Arguments\<close>

lemma stoull_digits: "stoull (to_dec n) = (if n < 2 ^ 64 then Some (of_nat n, length (to_dec n)) else None)"
proof (cases "n < 2 ^ 64")
  case False
  define t where "t = to_dec n"
  have t: "t \<noteq> []" "\<forall>x\<in>set t. is_digit x" "dec_val t = n" by (simp_all add: t_def to_dec_digits)
  then have c: "is_digit (hd t)" by simp
  have "dropWhile is_space t = t" using digit_not_space [OF c] t(1) by (cases t) simp_all
  moreover have tw: "takeWhile is_digit t = t" using t(2) by (simp add: takeWhile_eq_all_conv)
  moreover have "hd t \<noteq> CHR ''-''" "hd t \<noteq> CHR ''+''" using c by (auto simp: is_digit_def)
  ultimately show ?thesis using False t by (simp add: stoull_def Let_def tw flip: t_def)
qed (simp add: stoull_to_dec)

lemma rest_port_digits:
  "rest_port_argument (to_dec n) = (if 1 \<le> n \<and> n \<le> 65535 then Some (of_nat n) else None)"
proof (cases "n < 2 ^ 64")
  case True
  then have "unat (of_nat n :: u64) = n" by (simp add: unsigned_of_nat take_bit_nat_eq_self)
  then have "(of_nat n :: u64) = 0 \<longleftrightarrow> n = 0" "(of_nat n :: u64) > 65535 \<longleftrightarrow> n > 65535"
    by (simp_all add: word_less_nat_alt) (metis unat_eq_zero)
  moreover have "(ucast (of_nat n :: u64) :: 16 word) = of_nat n" using True by (simp add: unsigned_of_nat take_bit_nat_eq_self)
  ultimately show ?thesis
    using True by (auto simp: rest_port_argument_def stoul_def stoull_digits not_less)
next
  case False
  then show ?thesis by (simp add: rest_port_argument_def stoul_def stoull_digits)
qed

lemma rest_port_accepts:
  "rest_port_argument a = Some q \<longleftrightarrow> (\<exists>p used. stoull a = Some (p, used) \<and> 1 \<le> p \<and> p \<le> 65535 \<and> q = ucast p)"
proof (cases "stoull a")
  case (Some r)
  obtain p used where r: "r = (p, used)" by (cases r)
  have "1 \<le> p \<longleftrightarrow> p \<noteq> 0" by (metis word_coorder.not_eq_extremum word_le_less_eq word_less_1 word_not_simps(1) linorder_not_less)
  then show ?thesis using Some r by (auto simp: rest_port_argument_def stoul_def not_less)
qed (simp add: rest_port_argument_def stoul_def)

lemma rest_options_given:
  "rest_server_options (a # rest) = Some opts \<longleftrightarrow> length rest \<le> 1 \<and> (\<exists>q. rest_port_argument a = Some q \<and>
     opts = RestServerOptions_default\<lparr>port := q, host := if length rest = 1 then hd rest else host RestServerOptions_default\<rparr>)"
proof -
  consider "rest = []" | b where "rest = [b]" | b c xs where "rest = b # c # xs" by (metis list.exhaust)
  then show ?thesis
    by cases (cases "rest_port_argument a"; auto simp: rest_server_options_def RestServerOptions_default_def)+
qed

text \<open>
  C38.  The server program accepts no argument, or a port argument with at most a host after it.  A port argument is
  accepted exactly if the number that \<open>std::stoul\<close> reads at its start (after blanks and a sign, with a minus negated
  modulo 2 to the 64; whatever follows the digits is ignored) is from 1 to 65535; of the decimal numbers these are
  exactly those from 1 to 65535.  With any other arguments the program prints its usage, returns 1 and leaves
  the log directory as it was.
\<close>

theorem rest_arguments:
  "(rest_server_options args = Some opts \<longleftrightarrow> length args \<le> 2 \<and>
     (if args = [] then opts = RestServerOptions_default
      else \<exists>p used. stoull (hd args) = Some (p, used) \<and> 1 \<le> p \<and> p \<le> 65535 \<and>
        opts = RestServerOptions_default\<lparr>port := ucast p, host := if length args = 2 then args ! 1 else host RestServerOptions_default\<rparr>)) \<and>
   rest_server_options [to_dec n] = (if 1 \<le> n \<and> n \<le> 65535 then Some (RestServerOptions_default\<lparr>port := of_nat n\<rparr>) else None) \<and>
   (rest_server_options args = None \<longrightarrow> rest_main crc e e' readable d env sockets args = Some (Returned 1 rest_usage d))"
proof -
  have "rest_server_options args = Some opts \<longleftrightarrow> length args \<le> 2 \<and>
     (if args = [] then opts = RestServerOptions_default
      else \<exists>p used. stoull (hd args) = Some (p, used) \<and> 1 \<le> p \<and> p \<le> 65535 \<and>
        opts = RestServerOptions_default\<lparr>port := ucast p, host := if length args = 2 then args ! 1 else host RestServerOptions_default\<rparr>)"
  proof (cases args)
    case Nil
    then show ?thesis by (auto simp: rest_server_options_def)
  next
    case (Cons a rest)
    have two: "rest ! 0 = hd rest" if "length rest = 1" using that by (cases rest) simp_all
    show ?thesis unfolding Cons rest_options_given rest_port_accepts using two by auto
  qed
  moreover have "rest_server_options [to_dec n] = (if 1 \<le> n \<and> n \<le> 65535 then Some (RestServerOptions_default\<lparr>port := of_nat n\<rparr>) else None)"
    by (simp add: rest_server_options_def rest_port_digits)
  moreover have "rest_server_options args = None \<longrightarrow> rest_main crc e e' readable d env sockets args = Some (Returned 1 rest_usage d)"
    by (simp add: rest_main_def)
  ultimately show ?thesis by blast
qed

theorem rest_arguments_witness:
  "rest_server_options [to_dec 9090] = Some (RestServerOptions_default\<lparr>port := 9090\<rparr>) \<and>
    rest_server_options [''8080abc''] = Some (RestServerOptions_default\<lparr>port := 8080\<rparr>) \<and>
    rest_main byte_sum quiet quiet (\<lambda>name. True) [] \<lparr>socket_result = 3, inet_pton_ok = True, bind_ok = True, listen_ok = True\<rparr> {} [to_dec 70000] =
      Some (Returned 1 rest_usage [])"
proof -
  have s: "stoull ''8080abc'' = Some (8080, 4)"
    by (simp add: stoull_def Let_def is_space_def is_digit_def dec_val_def digit_val_def)
  let ?o = "RestServerOptions_default\<lparr>port := 8080, host := host RestServerOptions_default\<rparr>"
  have o: "?o = RestServerOptions_default\<lparr>port := 8080\<rparr>" by (simp add: RestServerOptions_default_def)
  have "rest_server_options [''8080abc''] = Some ?o \<longleftrightarrow> length [''8080abc''] \<le> 2 \<and>
     (if [''8080abc''] = [] then ?o = RestServerOptions_default
      else \<exists>p used. stoull (hd [''8080abc'']) = Some (p, used) \<and> 1 \<le> p \<and> p \<le> 65535 \<and>
        ?o = RestServerOptions_default\<lparr>port := ucast p, host := if length [''8080abc''] = 2 then [''8080abc''] ! 1 else host RestServerOptions_default\<rparr>)"
    using rest_arguments by (rule conjunct1)
  then have 1: "rest_server_options [''8080abc''] = Some (RestServerOptions_default\<lparr>port := 8080\<rparr>)"
    unfolding o by (simp add: s RestServerOptions_default_def)
  have 2: "rest_server_options [to_dec n] = (if 1 \<le> n \<and> n \<le> 65535 then Some (RestServerOptions_default\<lparr>port := of_nat n\<rparr>) else None)" for n
    using rest_arguments [THEN conjunct2] by (rule conjunct1)
  have 3: "rest_server_options [to_dec 70000] = None \<longrightarrow> rest_main byte_sum quiet quiet (\<lambda>name. True) []
      \<lparr>socket_result = 3, inet_pton_ok = True, bind_ok = True, listen_ok = True\<rparr> {} [to_dec 70000] = Some (Returned 1 rest_usage [])"
    using rest_arguments [THEN conjunct2] by (rule conjunct2)
  show ?thesis using 1 2 [of 9090] 2 [of 70000] 3 by simp
qed

section \<open>The server\<close>

text \<open>A client: its call, the request it writes and the packets it arrives in, and the answers of the system calls.\<close>

record rest_client =
  client_call :: rest_call
  client_headers :: "string list"
  client_extra :: bytes
  client_packets :: "bytes list"
  client_sends :: "int list"
  client_env :: "WalEnv \<times> WalEnv"

definition client_input :: "rest_client \<Rightarrow> bytes list \<times> int list \<times> WalEnv \<times> WalEnv" where
  "client_input c = (client_packets c, client_sends c, client_env c)"

definition good_client :: "RestServerOptions \<Rightarrow> KVEngine \<Rightarrow> rest_client \<Rightarrow> bool" where
  "good_client sopts E c \<longleftrightarrow> reliable (fst (client_env c)) \<and> reliable (snd (client_env c)) \<and> good_call sopts E (client_call c) \<and>
     good_request (call_method (client_call c)) (call_target (client_call c)) (client_headers c) (call_body (client_call c)) \<and>
     [] \<notin> set (client_packets c) \<and> concat (client_packets c) = call_request (client_headers c) (client_call c) @ client_extra c"

text \<open>Every client is good for the engine that its request finds.\<close>

fun good_clients :: "(bytes \<Rightarrow> u32) \<Rightarrow> (KVEngine \<Rightarrow> nat) \<Rightarrow> RestServerOptions \<Rightarrow> KVEngine \<Rightarrow> rest_client list \<Rightarrow> bool" where
  "good_clients crc mem sopts E [] \<longleftrightarrow> True"
| "good_clients crc mem sopts E (c # cs) \<longleftrightarrow> good_client sopts E c \<and>
     (case serve_clients crc mem sopts [client_input c] E of Some (_, G) \<Rightarrow> good_clients crc mem sopts G cs | None \<Rightarrow> True)"

definition client_answer :: "(bytes \<rightharpoonup> bytes) \<Rightarrow> rest_client \<Rightarrow> bytes" where
  "client_answer m c = snd (SendAll (client_sends c) (BuildResponse (snd (call_response m (client_call c)))
     (fst (call_response m (client_call c))) default_content_type))"

fun client_answers :: "store_op list \<Rightarrow> rest_client list \<Rightarrow> bytes list" where
  "client_answers ops [] = []"
| "client_answers ops (c # cs) = client_answer (map_after ops) c # client_answers (ops @ call_ops (client_call c)) cs"

abbreviation clients_ops :: "rest_client list \<Rightarrow> store_op list" where
  "clients_ops cs \<equiv> concat (map (\<lambda>c. call_ops (client_call c)) cs)"

lemma serve_clients_store:
  assumes new: "key_order (comparator (btree_options opts))" "enable_wal opts" "healthy e0"
    "log_holds crc d rs0" "KVEngine_new crc e0 (\<lambda>name. True) opts d = Some E"
  shows "engine_run crc E ops F \<Longrightarrow> good_clients crc mem sopts F (cs @ ds) \<Longrightarrow>
    \<exists>G. serve_clients crc mem sopts (map client_input cs) F = Some (client_answers (log_ops rs0 @ ops) cs, G) \<and>
      engine_run crc E (ops @ clients_ops cs) G \<and> engine_run crc F (clients_ops cs) G \<and>
      good_clients crc mem sopts G ds"
proof (induction cs arbitrary: ops F)
  case (Cons c cs)
  have g: "good_client sopts F c" using Cons.prems(2) by simp
  obtain e e' where env: "client_env c = (e, e')" by fastforce
  obtain G where G: "HandleClient crc mem e e' sopts F (client_packets c) (client_sends c) = Some (G, client_answer (map_after (log_ops rs0 @ ops)) c)"
    "engine_run crc E (ops @ call_ops (client_call c)) G" "engine_run crc F (call_ops (client_call c)) G"
    using rest_serves_store_step [OF new Cons.prems(1), of e e' sopts "client_call c" "client_headers c" "client_packets c"
        "client_extra c" mem "client_sends c"] g env
    by (auto simp: good_client_def client_answer_def)
  have "good_clients crc mem sopts G (cs @ ds)" using Cons.prems(2) G(1) env by (simp add: client_input_def)
  from Cons.IH [OF G(2) this] obtain H where H: "serve_clients crc mem sopts (map client_input cs) G =
      Some (client_answers (log_ops rs0 @ (ops @ call_ops (client_call c))) cs, H)"
    "engine_run crc E ((ops @ call_ops (client_call c)) @ clients_ops cs) H" "engine_run crc G (clients_ops cs) H"
    "good_clients crc mem sopts H ds" by blast
  have input: "client_input c = (client_packets c, client_sends c, e, e')" by (simp add: client_input_def env)
  have "serve_clients crc mem sopts (map client_input (c # cs)) F = Some (client_answers (log_ops rs0 @ ops) (c # cs), H)"
    using G(1) H(1) by (simp add: input del: fold_append)
  moreover have "engine_run crc E (ops @ clients_ops (c # cs)) H" using H(2) by simp
  moreover have "engine_run crc F (clients_ops (c # cs)) H" using engine_run_trans [OF H(3) G(3)] by simp
  ultimately show ?case using H(4) by blast
qed (simp add: engine_run.start)

lemma call_ops_short: "length (call_ops c) \<le> 1"
  by (cases c) simp_all

lemma rest_main_serving:
  assumes "rest_main crc e e' readable d env sockets args = Some (Serving E server out)"
  shows "KVEngine_new crc e readable rest_engine_options d = Some E" and "rest_server_options args = Some (rest_options server)"
    and "RestServer_Start env (RestServer_new (rest_options server) sockets) = (Status_OK, server)"
proof -
  obtain opts st where r: "rest_server_options args = Some opts" "KVEngine_new crc e readable rest_engine_options d = Some E"
    "RestServer_Start env (RestServer_new opts sockets) = (st, server)" "Status_ok st"
    using assms by (auto simp: rest_main_def Let_def split_beta prod_eq_iff split: option.splits bind_splits if_splits)
  then have "st = Status_OK" "rest_options server = opts"
    by (auto simp: RestServer_Start_def RestServer_new_def CloseSocket_def Let_def split: if_splits)
  with r show "KVEngine_new crc e readable rest_engine_options d = Some E" "rest_server_options args = Some (rest_options server)"
    "RestServer_Start env (RestServer_new (rest_options server) sockets) = (Status_OK, server)" by simp_all
qed

lemma rest_engine_facts:
  "key_order (comparator (btree_options rest_engine_options))" "enable_wal rest_engine_options"
  "wal_sync_on_write (engine_wal_options rest_engine_options)"
  by (simp_all add: rest_engine_options_def KVEngineOptions_default_def BTreeOptions_default_def default_order.key_order_axioms)

text \<open>
  C4.  The server program is started on a log directory that is empty or that earlier runs left with whole, durable
  records, and no system call of the log fails.  While it serves, each client gets the response that the recovered
  records and the calls before its own prescribe.  If the machine crashes at any moment, after the calls of some
  clients or while the call of a further one is executed, the program started again with the same arguments serves
  the result of the calls of those clients, with or without the call that was interrupted.  Unless the crash tore the
  record of that call, the directory is again one to start from, so this holds over any number of runs.
\<close>

theorem rest_program_durable:
  assumes "healthy e" "healthy e2" and "intact crc d0 rs0"
    and "rest_main crc e e' (\<lambda>name. True) d0 env sockets args = Some (Serving E server out)"
    and "good_clients crc mem (rest_options server) E (clients @ further)" "length further \<le> 1"
    and "RestServer_Start env2 (RestServer_new (rest_options server) sockets2) = (Status_OK, server2)"
  shows "\<exists>F F' w w'.
    serve_clients crc mem (rest_options server) (map client_input clients) E = Some (client_answers (log_ops rs0) clients, F) \<and>
    serve_clients crc mem (rest_options server) (map client_input further) F =
      Some (client_answers (log_ops rs0 @ clients_ops clients) further, F') \<and>
    engine_wal F = Some w \<and> engine_wal F' = Some w' \<and>
    (\<forall>d. crash_between w w' d \<longrightarrow>
      (\<exists>k G. rest_main crc e2 e' (\<lambda>name. True) d env2 sockets2 args = Some (Serving G server2 out) \<and>
         answers G (map_after (log_ops rs0 @ clients_ops clients @ take k (clients_ops further))) \<and>
         (\<not> torn crc d \<longrightarrow> (\<exists>rs. intact crc d rs \<and> log_ops rs = log_ops rs0 @ clients_ops clients @ take k (clients_ops further)))))"
proof -
  note m = rest_main_serving [OF assms(4)]
  have holds: "log_holds crc d0 rs0" using assms(3) by (simp add: intact_def)
  note new = rest_engine_facts(1,2) assms(1) holds m(1)
  obtain F where F: "serve_clients crc mem (rest_options server) (map client_input clients) E = Some (client_answers (log_ops rs0) clients, F)"
    "engine_run crc E (clients_ops clients) F" "good_clients crc mem (rest_options server) F further"
    using serve_clients_store [OF new engine_run.start assms(5)] by auto
  obtain F' where F': "serve_clients crc mem (rest_options server) (map client_input further) F =
      Some (client_answers (log_ops rs0 @ clients_ops clients) further, F')" "engine_run crc E (clients_ops clients @ clients_ops further) F'"
      "engine_run crc F (clients_ops further) F'"
    using serve_clients_store [OF new F(2), of mem "rest_options server" further "[]"] F(3) by auto
  obtain w where w: "engine_wal F = Some w" by (rule run_facts [OF new F(2)]) blast
  obtain w' where w': "engine_wal F' = Some w'" by (rule run_facts [OF new F'(2)]) blast
  have short: "length (clients_ops further) \<le> 1" using assms(6) call_ops_short by (cases further) auto
  have out: "out = rest_banner (rest_options server)"
    using assms(4) m by (simp add: rest_main_def)
  have "\<exists>k G. rest_main crc e2 e' (\<lambda>name. True) d env2 sockets2 args = Some (Serving G server2 out) \<and>
         answers G (map_after (log_ops rs0 @ clients_ops clients @ take k (clients_ops further))) \<and>
         (\<not> torn crc d \<longrightarrow> (\<exists>rs. intact crc d rs \<and> log_ops rs = log_ops rs0 @ clients_ops clients @ take k (clients_ops further)))"
    if d: "crash_between w w' d" for d
  proof -
    from engine_crash_durable_step [OF rest_engine_facts(1,2) assms(1,2) _ assms(3) m(1) F(2) F'(3) short w w' d] rest_engine_facts(3)
    obtain k G where G: "KVEngine_new crc e2 (\<lambda>name. True) rest_engine_options d = Some G"
      "answers G (map_after (log_ops rs0 @ clients_ops clients @ take k (clients_ops further)))"
      "\<not> torn crc d \<longrightarrow> (\<exists>rs. intact crc d rs \<and> log_ops rs = log_ops rs0 @ clients_ops clients @ take k (clients_ops further))"
      by blast
    have "rest_main crc e2 e' (\<lambda>name. True) d env2 sockets2 args = Some (Serving G server2 out)"
      using m(2) G(1) assms(7) out by (simp add: rest_main_def)
    with G(2,3) show ?thesis by blast
  qed
  with F(1) F'(1) w w' show ?thesis by blast
qed

lemma program_engine_fits:
  assumes "KVEngine_new crc e (\<lambda>name. True) opts [] = Some E" and "healthy e" and "key_order (comparator (btree_options opts))" "enable_wal opts"
    and "wal_buffer_size (engine_wal_options opts) = 4 * 1024 * 1024" and "length key \<le> 1024" "length val \<le> 1024"
  shows "engine_fits E key val"
proof -
  note n = new_engine [OF assms(3,4,2) log_holds_empty assms(1)]
  have "length (write_buffer (Wal_new e (engine_wal_options opts) [])) = 4 * 1024 * 1024"
    using Wal_new_log [OF disk_log_empty [of byte_sum] assms(2), of "engine_wal_options opts"] assms(5) by simp
  then have "fits (Wal_new e (engine_wal_options opts) []) key val"
    using assms(6,7) by (simp add: fits_def kHeaderSize_def max_field)
  then show ?thesis using n by (simp add: engine_fits_def number_new [OF assms(2)] engine_sim_def)
qed

definition sample_client :: rest_client where
  "sample_client = \<lparr>client_call = sample_put_call, client_headers = sample_headers, client_extra = [],
     client_packets = [call_request sample_headers sample_put_call], client_sends = [1000], client_env = (quiet, quiet)\<rparr>"

definition ready_start :: StartEnv where
  "ready_start = \<lparr>socket_result = 3, inet_pton_ok = True, bind_ok = True, listen_ok = True\<rparr>"

theorem rest_program_durable_witness:
  "\<exists>E server out F w d G. rest_main byte_sum quiet quiet (\<lambda>name. True) [] ready_start {0, 1, 2} [] = Some (Serving E server out) \<and>
    serve_clients byte_sum no_memory RestServerOptions_default [client_input sample_client] E =
      Some ([snd (SendAll [1000] (BuildResponse 200 (ok_key_json ''k'') default_content_type))], F) \<and>
    engine_wal F = Some w \<and> crash_between w w d \<and>
    rest_main byte_sum quiet quiet (\<lambda>name. True) d ready_start {0, 1, 2} [] = Some (Serving G server out) \<and>
    answers G kv_map"
proof -
  obtain E where E: "KVEngine_new byte_sum quiet (\<lambda>name. True) rest_engine_options [] = Some E"
    using new_engine_exists [OF rest_engine_facts(1,2) quiet_ok(1) log_holds_empty] by blast
  obtain server where s: "RestServer_Start ready_start (RestServer_new RestServerOptions_default {0, 1, 2}) = (Status_OK, server)"
    "rest_options server = RestServerOptions_default"
    by (simp add: RestServer_Start_def RestServer_new_def RestServerOptions_default_def ready_start_def Let_def)
  have main: "rest_main byte_sum quiet quiet (\<lambda>name. True) [] ready_start {0, 1, 2} [] = Some (Serving E server (rest_banner RestServerOptions_default))"
    using E s(1) by (simp add: rest_main_def rest_server_options_def)
  have "engine_fits E ''k'' ''v''"
    by (rule program_engine_fits [OF E quiet_ok(1) rest_engine_facts(1,2)])
      (simp_all add: rest_engine_options_def WalOptions_default_def)
  then have "good_client RestServerOptions_default E sample_client"
    using sample_server_good sample_good(1) quiet_ok(2)
    by (simp add: good_client_def sample_client_def call_request_def write_request_def write_head_def crlf_def)
  then have "good_clients byte_sum no_memory (rest_options server) E [sample_client]"
    using s(2) by (simp split: option.splits)
  then have good: "good_clients byte_sum no_memory (rest_options server) E ([sample_client] @ [])" by simp
  have answer: "client_answers (log_ops []) [sample_client] = [snd (SendAll [1000] (BuildResponse 200 (ok_key_json ''k'') default_content_type))]"
    by (simp add: client_answer_def sample_client_def)
  have m: "map_after (log_ops [] @ clients_ops [sample_client] @ take k (clients_ops [])) = kv_map" for k
    by (simp add: sample_client_def)
  have start: "RestServer_Start ready_start (RestServer_new (rest_options server) {0, 1, 2}) = (Status_OK, server)"
    using s by simp
  have short: "length ([] :: rest_client list) \<le> 1" by simp
  from rest_program_durable [OF quiet_ok(1,1) intact_empty main good short start]
  obtain F F' w w' where r: "serve_clients byte_sum no_memory (rest_options server) (map client_input [sample_client]) E =
      Some (client_answers (log_ops []) [sample_client], F)"
    "serve_clients byte_sum no_memory (rest_options server) (map client_input []) F =
      Some (client_answers (log_ops [] @ clients_ops [sample_client]) [], F')"
    "engine_wal F = Some w" "engine_wal F' = Some w'"
    and r': "\<And>d. crash_between w w' d \<Longrightarrow> \<exists>k G. rest_main byte_sum quiet quiet (\<lambda>name. True) d ready_start {0, 1, 2} [] =
      Some (Serving G server (rest_banner RestServerOptions_default)) \<and>
      answers G (map_after (log_ops [] @ clients_ops [sample_client] @ take k (clients_ops [])))"
    by blast
  have same: "w' = w" using r(2-4) by simp
  have F: "serve_clients byte_sum no_memory RestServerOptions_default [client_input sample_client] E =
      Some ([snd (SendAll [1000] (BuildResponse 200 (ok_key_json ''k'') default_content_type))], F)" "engine_wal F = Some w"
    using r(1,3) s(2) unfolding answer s(2) by simp_all
  have after: "\<exists>G. rest_main byte_sum quiet quiet (\<lambda>name. True) d ready_start {0, 1, 2} [] =
      Some (Serving G server (rest_banner RestServerOptions_default)) \<and> answers G kv_map" if "crash_between w w d" for d
    using r' [of d] that unfolding same m by blast
  note new = rest_engine_facts(1,2) quiet_ok(1) log_holds_empty E
  obtain G where G: "serve_clients byte_sum no_memory RestServerOptions_default [client_input sample_client] E = Some (client_answers [] [sample_client], G)"
    "engine_run byte_sum E (clients_ops [sample_client]) G"
    using serve_clients_store [OF new engine_run.start, of no_memory RestServerOptions_default "[sample_client]" "[]"]
      \<open>good_clients byte_sum no_memory (rest_options server) E [sample_client]\<close> s(2) by auto
  then have "engine_run byte_sum E (clients_ops [sample_client]) F" using F(1) by simp
  then obtain v rs where "engine_wal F = Some v" "log_run byte_sum reliable (Wal_new quiet (engine_wal_options rest_engine_options) []) rs v"
    by (rule run_facts [OF new]) auto
  then obtain L where "wal_log byte_sum w L" using run_from_new [OF quiet_ok(1) _ reliable_healthy] F(2) by (metis option.inject)
  then have d: "crash_between w w (crash_disk (\<lambda>name. 0) w)" by (rule crash_after [OF log_run.start])
  show ?thesis using main F d after [OF d] by blast
qed

section \<open>The command line\<close>














end
