(* ===== verification/Json_Texts.thy ===== *)
theory Json_Texts
  imports Rest_Scan
begin

text \<open>
  The syntax of JSON texts (RFC 8259, without insignificant white space) as inductive relations
  between a text and the value it denotes, and that every body the server sends is the text of an
  object.
\<close>

section \<open>The grammar\<close>

datatype json = JStr string | JNum nat | JArr "json list" | JObj "(string \<times> json) list"

definition number_text :: "string \<Rightarrow> bool" where
  "number_text ds \<longleftrightarrow> ds \<noteq> [] \<and> (\<forall>c\<in>set ds. is_digit c) \<and> (hd ds = CHR ''0'' \<longrightarrow> ds = ''0'')"

inductive json_text :: "string \<Rightarrow> json \<Rightarrow> bool"
  and json_elements :: "string \<Rightarrow> json list \<Rightarrow> bool"
  and json_members :: "string \<Rightarrow> (string \<times> json) list \<Rightarrow> bool" where
  string: "unescape_string (b @ [CHR 0x22]) = Some (s, []) \<Longrightarrow> json_text (quoted b) (JStr s)"
| number: "number_text ds \<Longrightarrow> json_text ds (JNum (dec_val ds))"
| no_elements: "json_text ''[]'' (JArr [])"
| array: "json_elements t vs \<Longrightarrow> json_text (''['' @ t @ '']'') (JArr vs)"
| no_members: "json_text ''{}'' (JObj [])"
| object: "json_members t ms \<Longrightarrow> json_text (''{'' @ t @ ''}'') (JObj ms)"
| element: "json_text t v \<Longrightarrow> json_elements t [v]"
| elements: "json_text t v \<Longrightarrow> json_elements ts vs \<Longrightarrow> json_elements (t @ '','' @ ts) (v # vs)"
| member: "unescape_string (b @ [CHR 0x22]) = Some (s, []) \<Longrightarrow> json_text t v \<Longrightarrow> json_members (quoted b @ '':'' @ t) [(s, v)]"
| members: "unescape_string (b @ [CHR 0x22]) = Some (s, []) \<Longrightarrow> json_text t v \<Longrightarrow> json_members ts ms \<Longrightarrow>
    json_members (quoted b @ '':'' @ t @ '','' @ ts) ((s, v) # ms)"

section \<open>The texts of the server\<close>

lemma escaped_end: "unescape_string (JsonEscape s @ [CHR 0x22]) = Some (s, [])"
  using unescape_JsonEscape [of s "[]"] by simp

lemma escaped_text: "json_text (quoted (JsonEscape s)) (JStr s)"
  by (rule json_text_json_elements_json_members.string) (rule escaped_end)

lemma to_dec_number: "number_text (to_dec n)"
proof -
  have "hd (to_dec n) = CHR ''0'' \<longrightarrow> n = 0"
  proof (induction n rule: to_dec.induct)
    case (1 n)
    show ?case
    proof (cases "n < 10")
      case True
      then have "digit_val (digit_char n) = n" by (simp add: digit_char_facts)
      moreover have "digit_val CHR ''0'' = 0" by (simp add: digit_val_def)
      ultimately show ?thesis using True by (subst to_dec.simps) auto
    next
      case False
      with 1 have "hd (to_dec (n div 10)) = CHR ''0'' \<longrightarrow> n div 10 = 0" by simp
      with False show ?thesis by (subst to_dec.simps) auto
    qed
  qed
  moreover have "to_dec 0 = ''0''" by (simp add: to_dec.simps digit_char_def) (simp add: char_eq char_val_def)
  ultimately show ?thesis using to_dec_digits by (auto simp: number_text_def)
qed

lemma number_member: "json_text (to_dec n) (JNum n)"
  using json_text_json_elements_json_members.number [OF to_dec_number [of n]] by simp

text \<open>A name of the code, without characters that are escaped.\<close>

definition plain_name :: "string \<Rightarrow> bool" where
  "plain_name s \<longleftrightarrow> JsonEscape s = s"

lemma name_end: "plain_name s \<Longrightarrow> unescape_string (s @ [CHR 0x22]) = Some (s, [])"
  using escaped_end [of s] by (simp add: plain_name_def)

lemmas json_member = json_text_json_elements_json_members.member [OF name_end]
lemmas json_members = json_text_json_elements_json_members.members [OF name_end]

lemma names: "plain_name ''error''" "plain_name ''status''" "plain_name ''key''" "plain_name ''value''" "plain_name ''items''"
  "plain_name ''count''" "plain_name ''ok''" "plain_name ''keys''" "plain_name ''nodes''" "plain_name ''height''"
  "plain_name ''memory_bytes''" "plain_name ''wal''" "plain_name ''total_writes''" "plain_name ''total_bytes_written''"
  "plain_name ''total_syncs''" "plain_name ''current_file_number''" "plain_name ''current_file_size''"
  by (simp_all add: plain_name_def JsonEscape_def char_val_def)

lemma object_text: "json_members t ms \<Longrightarrow> json_text (CHR ''{'' # t @ ''}'') (JObj ms)"
  using json_text_json_elements_json_members.object by simp

lemma error_text: "json_text (ErrorJson m) (JObj [(''error'', JStr m)])"
  unfolding ErrorJson_def using object_text [OF json_member [OF names(1) escaped_text [of m]]] by simp

lemma ok_text: "json_text ok_json (JObj [(''status'', JStr ''ok'')])"
  unfolding ok_json_def
  using object_text [OF json_member [OF names(2) json_text_json_elements_json_members.string [OF name_end [OF names(7)]]]] by simp

lemma item_text: "json_text (item_json k v) (JObj [(''key'', JStr k), (''value'', JStr v)])"
  unfolding item_json_def
  using object_text [OF json_members [OF names(3) escaped_text [of k] json_member [OF names(4) escaped_text [of v]]]] by simp

lemma ok_key_text: "json_text (ok_key_json k) (JObj [(''status'', JStr ''ok''), (''key'', JStr k)])"
  unfolding ok_key_json_def
  using object_text [OF json_members [OF names(2) json_text_json_elements_json_members.string [OF name_end [OF names(7)]]
        json_member [OF names(3) escaped_text [of k]]]] by simp

definition item_value :: "entry \<Rightarrow> json" where
  "item_value e = JObj [(''key'', JStr (fst e)), (''value'', JStr (snd e))]"

lemma items_text: "es \<noteq> [] \<Longrightarrow> json_elements (comma_join (map (\<lambda>(k, v). item_json k v) es)) (map item_value es)"
proof (induction es rule: induct_list012)
  case (2 e)
  then show ?case
    by (cases e) (simp add: item_value_def json_text_json_elements_json_members.element [OF item_text])
next
  case (3 e f es)
  then show ?case
    using json_text_json_elements_json_members.elements [OF item_text [of "fst e" "snd e"]] by (cases e) (simp add: item_value_def)
qed simp

lemma array_text: "json_text (''['' @ comma_join (map (\<lambda>(k, v). item_json k v) es) @ '']'') (JArr (map item_value es))"
  using json_text_json_elements_json_members.no_elements json_text_json_elements_json_members.array [OF items_text [of es]]
  by (cases "es = []") simp_all

lemma scan_text: "json_text (scan_json es) (JObj [(''items'', JArr (map item_value es)), (''count'', JNum (length es))])"
  unfolding scan_json_def
  using object_text [OF json_members [OF names(5) array_text [of es] json_member [OF names(6) number_member [of "length es"]]]] by simp

definition stats_value :: "(KVEngine \<Rightarrow> nat) \<Rightarrow> KVEngine \<Rightarrow> json" where
  "stats_value mem E =
     (let wal = KVEngine_GetWalStats E
      in JObj [(''keys'', JNum (KVEngine_Size E)), (''nodes'', JNum (node_count (engine_tree E))),
           (''height'', JNum (tree_height (engine_tree E))), (''memory_bytes'', JNum (mem E)),
           (''wal'', JObj [(''total_writes'', JNum (unat (st_total_writes wal))),
              (''total_bytes_written'', JNum (unat (st_total_bytes_written wal))),
              (''total_syncs'', JNum (unat (st_total_syncs wal))),
              (''current_file_number'', JNum (unat (st_current_file_number wal))),
              (''current_file_size'', JNum (st_current_file_size wal))])])"

lemma stats_text: "json_text (StatsJson mem E) (stats_value mem E)"
proof -
  let ?w = "KVEngine_GetWalStats E"
  note wal = object_text [OF json_members [OF names(13) number_member [of "unat (st_total_writes ?w)"]
      json_members [OF names(14) number_member [of "unat (st_total_bytes_written ?w)"]
      json_members [OF names(15) number_member [of "unat (st_total_syncs ?w)"]
      json_members [OF names(16) number_member [of "unat (st_current_file_number ?w)"]
      json_member [OF names(17) number_member [of "st_current_file_size ?w"]]]]]]]
  from object_text [OF json_members [OF names(8) number_member [of "KVEngine_Size E"]
      json_members [OF names(9) number_member [of "node_count (engine_tree E)"]
      json_members [OF names(10) number_member [of "tree_height (engine_tree E)"]
      json_members [OF names(11) number_member [of "mem E"] json_member [OF names(12) wal]]]]]]
  show ?thesis by (simp add: StatsJson_def stats_value_def Let_def json_number_def)
qed

section \<open>Every response\<close>

lemma range_scan_loop_text:
  "range_scan_loop n T iter first cnt body = Some (body', cnt', iter') \<Longrightarrow>
    \<exists>es. body' = body @ item_rest first es \<and> cnt' = cnt + length es"
proof (induction n arbitrary: iter first cnt body)
  case (Suc n)
  obtain v where v: "Valid T iter = Some v" using Suc.prems by (auto split: bind_splits)
  show ?case
  proof (cases v)
    case False
    then show ?thesis using Suc.prems v by (intro exI [of _ "[]"]) (simp add: item_rest_def)
  next
    case True
    then obtain k x it2 where r: "range_scan_loop n T it2 False (cnt + 1) (body @ (if first then [] else '','') @ item_json k x) = Some (body', cnt', iter')"
      using Suc.prems v by (auto split: bind_splits)
    from Suc.IH [OF this] obtain es where "body' = body @ ((if first then [] else '','') @ item_json k x) @ item_rest False es" "cnt' = cnt + 1 + length es"
      by auto
    then show ?thesis by (intro exI [of _ "(k, x) # es"]) (simp add: item_rest_Cons)
  qed
qed simp

text \<open>A body and its code: an object, which has the member \<open>error\<close> exactly if the code is not 200.\<close>

definition well_formed_response :: "string \<Rightarrow> nat \<Rightarrow> bool" where
  "well_formed_response body c \<longleftrightarrow> c \<in> {200, 400, 404, 405, 409, 500} \<and>
     (\<exists>ms. json_text body (JObj ms) \<and> (if c = 200 then ''error'' \<notin> fst ` set ms else \<exists>m. ms = [(''error'', JStr m)]))"

lemma well_formed_error: 
  assumes "c \<in> {400, 404, 405, 409, 500}"
  shows "well_formed_response (ErrorJson m) c"
proof -
  have "\<exists>ms. json_text (ErrorJson m) (JObj ms) \<and> (\<exists>m. ms = [(''error'', JStr m)])" using error_text by blast
  moreover have "c \<noteq> 200" "c \<in> {200, 400, 404, 405, 409, 500}" using assms by auto
  ultimately show ?thesis by (simp only: well_formed_response_def if_False simp_thms)
qed

lemma well_formed_status: "\<not> Status_ok s \<Longrightarrow> well_formed_response (ErrorJson (Status_ToString s)) (StatusHttpCode s)"
  by (rule well_formed_error) (cases "code s"; simp add: Status_ok_def StatusHttpCode_def)

lemma StatusHttpCode_ok: "Status_ok s \<Longrightarrow> StatusHttpCode s = 200"
  by (simp add: Status_ok_def StatusHttpCode_def)

lemma well_formed_objects:
  "well_formed_response ''{}'' 200" "well_formed_response ok_json 200" "well_formed_response (ok_key_json k) 200"
  "well_formed_response (item_json k v) 200" "well_formed_response (scan_json es) 200" "well_formed_response (StatsJson mem E) 200"
  using json_text_json_elements_json_members.no_members ok_text ok_key_text item_text scan_text stats_text [of mem E]
  by (force simp: well_formed_response_def stats_value_def Let_def)+

lemma well_formed_status_response:
  assumes "well_formed_response body 200"
  shows "well_formed_response (fst (status_response s body)) (snd (status_response s body))"
  using assms well_formed_status [of s] by (simp add: status_response_def StatusHttpCode_ok)

lemma well_formed_scan: "RangeScanJson E start limit = Some (body, c) \<Longrightarrow> well_formed_response body c"
proof -
  assume "RangeScanJson E start limit = Some (body, c)"
  then obtain iter b cnt iter' where r: "range_scan_loop (Suc (tree_size (engine_tree E))) (engine_tree E) iter True 0 (''{'' @ quoted ''items'' @ '':['') = Some (b, cnt, iter')"
    "(body, c) = (if \<not> Status_ok (it_status iter') then (ErrorJson (Status_ToString (it_status iter')), StatusHttpCode (it_status iter'))
       else (b @ ''],'' @ quoted ''count'' @ '':'' @ to_dec cnt @ ''}'', 200))"
    by (auto simp: RangeScanJson_def Let_def split: bind_splits if_splits simp del: range_scan_loop.simps)
  from range_scan_loop_text [OF r(1)] obtain es where "b = ''{'' @ quoted ''items'' @ '':['' @ item_rest True es" "cnt = length es" by auto
  then have "b @ ''],'' @ quoted ''count'' @ '':'' @ to_dec cnt @ ''}'' = scan_json es" by (simp add: scan_json_def item_rest_def)
  with r(2) show ?thesis using well_formed_status well_formed_objects(5) by (auto split: if_splits)
qed

lemma well_formed_key: "handle_key crc e e' E r key = Some (body, c, G) \<Longrightarrow> well_formed_response body c"
  using well_formed_status well_formed_objects(4) well_formed_status_response [OF well_formed_objects(3)]
  by (auto simp: handle_key_def split_beta intro: well_formed_error split: if_splits bind_splits)

text \<open>
  C22.  Whatever the request and the state of the engine: if the server answers, the code is one of those
  it knows and the body is the JSON text of an object, which is an \<open>error\<close> message exactly if the code
  is not 200.  Here a byte above 0x7F is a character of a string; that the bytes of a key are UTF-8, which a
  JSON text between systems has to be, the server does not check.
\<close>

theorem responses_are_json:
  assumes "HandleRequest crc mem e e' E request = Some (body, c, G)"
  shows "c \<in> {200, 400, 404, 405, 409, 500} \<and>
    (\<exists>ms. json_text body (JObj ms) \<and> (if c = 200 then ''error'' \<notin> fst ` set ms else \<exists>m. ms = [(''error'', JStr m)]))"
proof -
  have "well_formed_response body c"
    using assms well_formed_objects(1,2,6) well_formed_status_response [OF well_formed_objects(2)] well_formed_scan well_formed_key
    by (auto simp: HandleRequest_def Let_def split_beta intro!: well_formed_error split: if_splits option.splits sum.splits)
  then show ?thesis by (simp add: well_formed_response_def)
qed

theorem responses_are_json_witness:
  "\<exists>E ms m. new_sample False = Some E \<and> HandleRequest byte_sum (\<lambda>E. 0) quiet quiet E \<lparr>req_method = ''PATCH'', req_target = ''/nowhere'', req_body = []\<rparr> =
      Some (ErrorJson ''endpoint not found'', 404, E) \<and> json_text (ErrorJson ''endpoint not found'') (JObj ms) \<and> ms = [(''error'', JStr m)]"
proof -
  let ?r = "\<lparr>req_method = ''PATCH'', req_target = ''/nowhere'', req_body = []\<rparr>"
  obtain E where E: "new_sample False = Some E" using sample_engine by blast
  have "HandleRequest byte_sum (\<lambda>E. 0) quiet quiet E ?r = Some (ErrorJson ''endpoint not found'', 404, E)"
    by (simp add: HandleRequest_def)
  from responses_are_json [OF this] this E show ?thesis by auto
qed

end
