(* ===== verification/Memory.thy ===== *)
theory Memory
  imports Tree_Properties
begin

text \<open>
  \<open>BPlusTree::MemoryUsage\<close> of \<open>src/btree/btree.cpp\<close>.  The sizes of the types and the
  capacities of the strings and vectors are the library's choice and parameters of the model
  (\<open>Layout\<close>); the standard only says that a capacity is not below the size
  (\<open>capacities_cover\<close>).  A capacity belongs to an object, so it is looked up by the node's id,
  the vector (0 for the keys, 1 for the values or children) and the position.
\<close>

record Layout =
  sizeof_tree :: nat
  sizeof_node :: nat
  sizeof_string :: nat
  sizeof_id :: nat
  vector_capacity :: "nat \<Rightarrow> nat \<Rightarrow> nat"
  string_capacity :: "nat \<Rightarrow> nat \<Rightarrow> nat \<Rightarrow> nat"

definition string_capacities :: "Layout \<Rightarrow> nat \<Rightarrow> nat \<Rightarrow> bytes list \<Rightarrow> nat" where
  "string_capacities L nid v xs = sum_list (map (string_capacity L nid v) [0..<length xs])"

definition node_usage :: "Layout \<Rightarrow> nat \<Rightarrow> BTreeNode \<Rightarrow> nat" where
  "node_usage L nid node = sizeof_node L +
     (case node of
        Leaf leaf \<Rightarrow>
          vector_capacity L nid 0 * sizeof_string L + vector_capacity L nid 1 * sizeof_string L +
          string_capacities L nid 0 (leaf_keys leaf) + string_capacities L nid 1 (leaf_values leaf)
      | Internal inn \<Rightarrow>
          vector_capacity L nid 0 * sizeof_string L + vector_capacity L nid 1 * sizeof_id L +
          string_capacities L nid 0 (inner_keys inn))"

definition MemoryUsage :: "Layout \<Rightarrow> BPlusTree \<Rightarrow> nat" where
  "MemoryUsage L T = sizeof_tree L +
     sum_list (map (\<lambda>(nid, p). case p of None \<Rightarrow> 0 | Some node \<Rightarrow> node_usage L nid node)
       (enumerate 0 (nodes (tree_impl T))))"

text \<open>What the standard says of a capacity.\<close>

definition strings_cover :: "Layout \<Rightarrow> nat \<Rightarrow> nat \<Rightarrow> bytes list \<Rightarrow> bool" where
  "strings_cover L nid v xs \<longleftrightarrow> length xs \<le> vector_capacity L nid v \<and> (\<forall>j<length xs. length (xs ! j) \<le> string_capacity L nid v j)"

fun node_covered :: "Layout \<Rightarrow> nat \<Rightarrow> BTreeNode \<Rightarrow> bool" where
  "node_covered L nid (Leaf leaf) \<longleftrightarrow> strings_cover L nid 0 (leaf_keys leaf) \<and> strings_cover L nid 1 (leaf_values leaf)"
| "node_covered L nid (Internal inn) \<longleftrightarrow> strings_cover L nid 0 (inner_keys inn) \<and> length (inner_children inn) \<le> vector_capacity L nid 1"

definition capacities_cover :: "Layout \<Rightarrow> BPlusTree \<Rightarrow> bool" where
  "capacities_cover L T \<longleftrightarrow> (\<forall>nid<length (nodes (tree_impl T)). \<forall>node. nodes (tree_impl T) ! nid = Some node \<longrightarrow> node_covered L nid node)"

section \<open>The sum over the arena is the sum over the tree\<close>

lemma MemoryUsage_arena:
  assumes "arena_ok (tree_impl T) U"
  shows "MemoryUsage L T = sizeof_tree L + (\<Sum>nid\<in>U. node_usage L nid (the (GetNode T nid)))"
proof -
  let ?ns = "nodes (tree_impl T)"
  let ?f = "\<lambda>nid. case ?ns ! nid of None \<Rightarrow> 0 | Some node \<Rightarrow> node_usage L nid node"
  have U: "U \<subseteq> {0..<length ?ns}" "\<forall>i\<in>{0..<length ?ns} - U. ?f i = 0"
    using assms by (auto simp: arena_ok_def)
  have g: "?f i = node_usage L i (the (GetNode T i))" if "i \<in> U" for i
    using assms that by (auto simp: arena_ok_def GetNode_def Impl_GetNode_def)
  have "sum_list (map (\<lambda>(nid, p). case p of None \<Rightarrow> 0 | Some node \<Rightarrow> node_usage L nid node) (enumerate 0 ?ns)) =
      sum_list (map ?f [0..<length ?ns])"
    by (intro arg_cong [where f = sum_list] nth_equalityI) (simp_all add: nth_enumerate_eq split: option.split)
  also have "\<dots> = sum ?f {0..<length ?ns}" by (simp only: interv_sum_list_conv_sum_set_nat set_upt)
  also have "\<dots> = sum ?f U" by (rule sum.mono_neutral_right) (use U in auto)
  also have "\<dots> = (\<Sum>nid\<in>U. node_usage L nid (the (GetNode T nid)))" by (rule sum.cong) (simp_all add: g)
  finally show ?thesis by (simp add: MemoryUsage_def)
qed

lemma strings_cover_sum:
  assumes "strings_cover L nid v xs"
  shows "sum_list (map length xs) \<le> string_capacities L nid v xs"
proof -
  have "sum_list (map length xs) = (\<Sum>j = 0..<length xs. length (xs ! j))" by (simp add: sum_list_sum_nth)
  also have "\<dots> \<le> (\<Sum>j = 0..<length xs. string_capacity L nid v j)"
    by (rule sum_mono) (use assms in \<open>auto simp: strings_cover_def\<close>)
  also have "\<dots> = string_capacities L nid v xs" by (simp add: string_capacities_def sum_list_sum_nth)
  finally show ?thesis .
qed

definition entry_bytes :: "Layout \<Rightarrow> entry list \<Rightarrow> nat" where
  "entry_bytes L es = sum_list (map (\<lambda>(k, v). 2 * sizeof_string L + length k + length v) es)"

lemma entry_bytes_append [simp]: "entry_bytes L (es @ fs) = entry_bytes L es + entry_bytes L fs"
  by (simp add: entry_bytes_def)

lemma entry_bytes_concat: "entry_bytes L (concat ess) = sum_list (map (entry_bytes L) ess)"
  by (induction ess) (simp_all add: entry_bytes_def)

lemma entry_bytes_sums:
  "entry_bytes L es = length es * sizeof_string L + length es * sizeof_string L +
     sum_list (map length (keys_of es)) + sum_list (map length (map snd es))"
  by (induction es) (auto simp: entry_bytes_def keys_of_def)

lemma leaf_usage:
  assumes "node_covered L nid (lnode M nx kvs)"
  shows "sizeof_node L + entry_bytes L kvs \<le> node_usage L nid (lnode M nx kvs)"
proof -
  have c: "strings_cover L nid 0 (keys_of kvs)" "strings_cover L nid 1 (map snd kvs)"
    using assms by (simp_all add: lnode_def)
  then have v: "length kvs * sizeof_string L \<le> vector_capacity L nid 0 * sizeof_string L"
    "length kvs * sizeof_string L \<le> vector_capacity L nid 1 * sizeof_string L"
    by (simp_all add: strings_cover_def)
  have "node_usage L nid (lnode M nx kvs) = sizeof_node L + vector_capacity L nid 0 * sizeof_string L +
      vector_capacity L nid 1 * sizeof_string L + string_capacities L nid 0 (keys_of kvs) + string_capacities L nid 1 (map snd kvs)"
    by (simp add: node_usage_def lnode_def)
  with strings_cover_sum [OF c(1)] strings_cover_sum [OF c(2)] v entry_bytes_sums [of L kvs] show ?thesis
    by linarith
qed

text \<open>The nodes of a tree, each counted once, cover its entries.\<close>

lemma tree_usage:
  "sits M (GetNode T) t \<Longrightarrow> distinct (ids t) \<Longrightarrow> \<forall>nid\<in>set (ids t). node_covered L nid (the (GetNode T nid)) \<Longrightarrow>
    length (ids t) * sizeof_node L + entry_bytes L (entries (er t)) \<le> (\<Sum>nid\<in>set (ids t). node_usage L nid (the (GetNode T nid)))"
proof (induction t)
  case (GLeaf i nx kvs)
  then show ?case using leaf_usage [of L i M nx kvs] by simp
next
  case (GNode i ks ts)
  let ?u = "\<lambda>nid. node_usage L nid (the (GetNode T nid))"
  have all: "length (allids us) * sizeof_node L + entry_bytes L (concat (map (entries \<circ> er) us)) \<le> (\<Sum>nid\<in>set (allids us). ?u nid)"
    if "set us \<subseteq> set ts" "distinct (allids us)" for us
    using that
  proof (induction us)
    case (Cons u us)
    have "length (ids u) * sizeof_node L + entry_bytes L (entries (er u)) \<le> (\<Sum>nid\<in>set (ids u). ?u nid)"
      using GNode.IH [of u] Cons.prems GNode.prems by auto
    moreover have "(\<Sum>nid\<in>set (ids u) \<union> set (allids us). ?u nid) = (\<Sum>nid\<in>set (ids u). ?u nid) + (\<Sum>nid\<in>set (allids us). ?u nid)"
      by (rule sum.union_disjoint) (use Cons.prems in auto)
    ultimately show ?case using Cons by (auto simp: algebra_simps)
  qed (simp add: entry_bytes_def)
  have "sizeof_node L \<le> ?u i" by (simp add: node_usage_def)
  moreover have "(\<Sum>nid\<in>set (ids (GNode i ks ts)). ?u nid) = ?u i + (\<Sum>nid\<in>set (allids ts). ?u nid)"
    using GNode.prems(2) by (simp add: sum.insert)
  ultimately show ?case using all [of ts] GNode.prems(2) by (simp add: o_def)
qed

lemma tree_store_usage:
  assumes "tree_store c T es" and "capacities_cover L T"
  shows "sizeof_tree L + node_count T * sizeof_node L + entry_bytes L es \<le> MemoryUsage L T"
proof -
  obtain t h where t: "tree_rep T t h" "entries (er t) = es"
    using assms(1) by (auto simp: tree_store_def represents_def)
  then have o: "live T (set (ids t))" "distinct (ids t)" "sits (tree_max T) (GetNode T) t"
    by (simp_all add: tree_rep_def occupies_def)
  then have a: "arena_ok (tree_impl T) (set (ids t))" "node_count T = length (ids t)"
    by (simp_all add: live_def distinct_card)
  have "node_covered L nid (the (GetNode T nid))" if "nid \<in> set (ids t)" for nid
    using a(1) assms(2) that by (fastforce simp: arena_ok_def capacities_cover_def GetNode_def Impl_GetNode_def)
  with tree_usage [OF o(3,2)] a(2) t(2) show ?thesis by (simp add: MemoryUsage_arena [OF a(1)])
qed

section \<open>The bound\<close>

text \<open>
  C30.  The memory usage of every tree that \<open>Put\<close> and \<open>Delete\<close> build is the tree object plus the
  usage of the allocated nodes, each counted once and freed nodes not at all, and it is not less than
  the bytes of the live keys and values together with their string objects and the nodes.
\<close>

theorem memory_usage_bounds:
  assumes "key_order (comparator opts)" and "build_tree opts ops = Some T" and "capacities_cover L T"
  shows "\<exists>es U. distinct (map fst es) \<and> map_of es = fold op_map ops Map.empty \<and> card U = node_count T \<and>
    MemoryUsage L T = sizeof_tree L + (\<Sum>nid\<in>U. node_usage L nid (the (GetNode T nid))) \<and>
    sizeof_tree L + node_count T * sizeof_node L + (\<Sum>(k, v)\<leftarrow>es. 2 * sizeof_string L + length k + length v) \<le> MemoryUsage L T"
proof -
  obtain es where es: "tree_store (comparator opts) T es" "map_of es = fold op_map ops Map.empty"
    using build_tree_ok [OF assms(1), of ops] assms(2) by auto
  then obtain U where U: "arena_ok (tree_impl T) U" "node_count T = card U"
    by (auto simp: tree_store_def represents_def tree_rep_def occupies_def live_def)
  have "sorted_wrt (key_lt (comparator opts)) (keys_of es)"
    using kv_store.rep_ordered [OF tree_kv_store [OF assms(1)] es(1)] by simp
  then have "distinct (map fst es)"
    using key_order.ordered_distinct [OF assms(1)] by (simp add: keys_of_def)
  then show ?thesis
    using es(2) U MemoryUsage_arena [OF U(1), of L] tree_store_usage [OF es(1) assms(3)]
    by (auto simp: entry_bytes_def)
qed

text \<open>A layout as of a 64-bit library whose strings hold 15 bytes inside the object.\<close>

definition sample_layout :: Layout where
  "sample_layout = \<lparr>sizeof_tree = 200, sizeof_node = 8, sizeof_string = 32, sizeof_id = 8,
     vector_capacity = (\<lambda>nid v. 5), string_capacity = (\<lambda>nid v j. 15)\<rparr>"

theorem memory_usage_bounds_witness:
  "\<exists>T. build_tree small_options [PutOp ''b'' ''1'', PutOp ''a'' ''2''] = Some T \<and>
    200 + 8 + 2 * (2 * 32 + 1 + 1) \<le> MemoryUsage sample_layout T"
proof -
  let ?ops = "[PutOp ''b'' ''1'', PutOp ''a'' ''2'']"
  have a: "key_order (comparator small_options)" using default_order.key_order_axioms by (simp add: small_options_def)
  have b: "map_option (\<lambda>T. (nodes (tree_impl T), node_count T)) (build_tree small_options ?ops) =
      Some ([None, Some (Leaf \<lparr>leaf_keys = [''a'', ''b''], leaf_values = [''2'', ''1''], leaf_next = 0, leaf_max_keys = 3\<rparr>)], 1)"
    by code_simp
  then obtain T where T: "build_tree small_options ?ops = Some T" "node_count T = 1"
      "nodes (tree_impl T) = [None, Some (Leaf \<lparr>leaf_keys = [''a'', ''b''], leaf_values = [''2'', ''1''], leaf_next = 0, leaf_max_keys = 3\<rparr>)]"
    by auto
  have c: "capacities_cover sample_layout T"
    by (auto simp: capacities_cover_def T(3) less_Suc_eq sample_layout_def strings_cover_def)
  obtain es where es: "distinct (map fst es)" "map_of es = fold op_map ?ops Map.empty"
      "sizeof_tree sample_layout + node_count T * sizeof_node sample_layout +
        (\<Sum>(k, v)\<leftarrow>es. 2 * sizeof_string sample_layout + length k + length v) \<le> MemoryUsage sample_layout T"
    using memory_usage_bounds [OF a T(1) c] by blast
  have "x \<in> set es \<longleftrightarrow> map_of es (fst x) = Some (snd x)" for x
    using es(1) by (cases x) simp
  then have "set es = {(''a'', ''2''), (''b'', ''1'')}" by (auto simp: es(2) split: if_splits)
  moreover have "distinct es" using es(1) by (simp add: distinct_map)
  then have "(\<Sum>(k, v)\<leftarrow>es. 2 * sizeof_string sample_layout + length k + length v) =
      (\<Sum>(k, v)\<in>set es. 2 * sizeof_string sample_layout + length k + length v)"
    by (simp add: sum_list_distinct_conv_sum_set)
  ultimately show ?thesis using es(3) T(1,2) by (auto simp: sample_layout_def)
qed

end
