(* ===== verification/Objects.thy ===== *)
theory Objects
  imports Engine_Properties MemTable_Properties Memory SSTable Flush
begin

text \<open>
  The move operations.  The classes keep their state behind a pointer \<open>impl_\<close>, which is null in
  an object that has been moved from; the other members are reset or kept as the code says.  The
  operations of such an object have their own results (\<open>tree_object\<close> is an object with its
  implementation); where they follow the null pointer they are undefined.  In an assignment \<open>self\<close>
  says that both sides are the same object.
\<close>

section \<open>The B+ tree\<close>

record TreeObject =
  obj_impl :: "Impl option"
  obj_root_id :: nat
  obj_root_is_leaf :: bool
  obj_options :: BTreeOptions
  obj_size :: nat
  obj_node_count :: nat
  obj_height :: nat

definition tree_object :: "BPlusTree \<Rightarrow> TreeObject" where
  "tree_object T = \<lparr>obj_impl = Some (tree_impl T), obj_root_id = root_id T, obj_root_is_leaf = root_is_leaf T,
     obj_options = tree_options T, obj_size = tree_size T, obj_node_count = node_count T, obj_height = tree_height T\<rparr>"

definition object_tree :: "TreeObject \<Rightarrow> BPlusTree option" where
  "object_tree Ob = map_option (\<lambda>I. \<lparr>tree_impl = I, root_id = obj_root_id Ob, root_is_leaf = obj_root_is_leaf Ob,
     tree_options = obj_options Ob, tree_size = obj_size Ob, node_count = obj_node_count Ob, tree_height = obj_height Ob\<rparr>) (obj_impl Ob)"

lemma object_tree_object [simp]: "object_tree (tree_object T) = Some T"
  by (simp add: object_tree_def tree_object_def)

text \<open>The move constructor: the new object, and what is left of the old one.\<close>

definition BPlusTree_move :: "TreeObject \<Rightarrow> TreeObject \<times> TreeObject" where
  "BPlusTree_move other =
     (other, other\<lparr>obj_impl := None, obj_root_id := 0, obj_size := 0, obj_node_count := 0, obj_height := 1\<rparr>)"

definition BPlusTree_assign :: "bool \<Rightarrow> TreeObject \<Rightarrow> TreeObject \<Rightarrow> TreeObject \<times> TreeObject" where
  "BPlusTree_assign self this other = (if self then (this, this) else BPlusTree_move other)"

definition obj_Put :: "bytes \<Rightarrow> bytes \<Rightarrow> TreeObject \<Rightarrow> (Status \<times> TreeObject) option" where
  "obj_Put key val Ob =
     (case object_tree Ob of
        Some T \<Rightarrow> map_option (map_prod id tree_object) (BPlusTree_Put key val T)
      | None \<Rightarrow> if key = [] then Some (Status_InvalidArgument ''Key cannot be empty'', Ob) else None)"

definition obj_Get :: "TreeObject \<Rightarrow> bytes \<Rightarrow> bytes option \<Rightarrow> (Status \<times> bytes option) option" where
  "obj_Get Ob key val =
     (case object_tree Ob of
        Some T \<Rightarrow> BPlusTree_Get T key val
      | None \<Rightarrow>
          if val = None then Some (Status_InvalidArgument ''value output cannot be null'', val)
          else if obj_root_id Ob = 0 then Some (Status_InternalError ''Leaf not found'', val)
          else None)"

definition obj_Delete :: "bytes \<Rightarrow> TreeObject \<Rightarrow> (Status \<times> TreeObject) option" where
  "obj_Delete key Ob =
     (case object_tree Ob of
        Some T \<Rightarrow> map_option (map_prod id tree_object) (BPlusTree_Delete key T)
      | None \<Rightarrow> if obj_size Ob = 0 then Some (Status_NotFound ''Key not found'', Ob) else None)"

definition obj_Verify :: "TreeObject \<Rightarrow> bool option" where
  "obj_Verify Ob = (case object_tree Ob of Some T \<Rightarrow> Verify T | None \<Rightarrow> Some False)"

text \<open>An iterator is valid only with an implementation.\<close>

definition Iterator_status :: "Iterator option \<Rightarrow> Status" where
  "Iterator_status it = (case it of Some it \<Rightarrow> Iterator.it_status it | None \<Rightarrow> Status_InternalError ''Iterator not initialized'')"

section \<open>The log and the engine\<close>

type_synonym WalObject = "Wal option"

definition WriteAheadLog_move :: "WalObject \<Rightarrow> WalObject \<times> WalObject" where
  "WriteAheadLog_move other = (other, None)"

text \<open>The assignment destroys the log that the object had; the third component is what becomes of it.\<close>

definition WriteAheadLog_assign :: "bool \<Rightarrow> WalEnv \<Rightarrow> WalObject \<Rightarrow> WalObject \<Rightarrow> WalObject \<times> WalObject \<times> WalObject" where
  "WriteAheadLog_assign self e this other =
     (if self then (this, this, None) else (other, None, map_option (Wal_destroy e) this))"

record EngineObject =
  eo_options :: KVEngineOptions
  eo_tree :: TreeObject
  eo_wal :: WalObject
  eo_sequence_number :: u64

definition engine_object :: "KVEngine \<Rightarrow> EngineObject" where
  "engine_object E = \<lparr>eo_options = engine_options E, eo_tree = tree_object (engine_tree E), eo_wal = engine_wal E,
     eo_sequence_number = sequence_number E\<rparr>"

definition object_engine :: "EngineObject \<Rightarrow> KVEngine option" where
  "object_engine Ob = map_option (\<lambda>T. \<lparr>engine_options = eo_options Ob, engine_tree = T, engine_wal = eo_wal Ob,
     sequence_number = eo_sequence_number Ob\<rparr>) (object_tree (eo_tree Ob))"

lemma object_engine_object [simp]: "object_engine (engine_object E) = Some E"
  by (simp add: object_engine_def engine_object_def)

text \<open>\<open>left\<close> is what the moved string \<open>wal_dir\<close> holds afterwards, which the standard leaves open.\<close>

definition KVEngine_move :: "string \<Rightarrow> EngineObject \<Rightarrow> EngineObject \<times> EngineObject" where
  "KVEngine_move left other =
     (let (tree, old_tree) = BPlusTree_move (eo_tree other);
          opts = eo_options other
      in (other\<lparr>eo_tree := tree\<rparr>,
          \<lparr>eo_options = opts\<lparr>engine_wal_options := (engine_wal_options opts)\<lparr>wal_dir := left\<rparr>\<rparr>,
           eo_tree = old_tree, eo_wal = None, eo_sequence_number = 1\<rparr>))"

definition KVEngine_assign ::
  "bool \<Rightarrow> WalEnv \<Rightarrow> string \<Rightarrow> EngineObject \<Rightarrow> EngineObject \<Rightarrow> EngineObject \<times> EngineObject \<times> WalObject" where
  "KVEngine_assign self e left this other =
     (if self then (this, this, None)
      else let (new, old) = KVEngine_move left other in (new, old, map_option (Wal_destroy e) (eo_wal this)))"

definition eo_destroy :: "WalEnv \<Rightarrow> EngineObject \<Rightarrow> WalObject" where
  "eo_destroy e Ob = map_option (Wal_destroy e) (eo_wal Ob)"

definition KVEngine_MemoryUsage :: "Layout \<Rightarrow> KVEngine \<Rightarrow> nat" where
  "KVEngine_MemoryUsage L E = MemoryUsage L (engine_tree E)"

section \<open>Memory tables, builders and flush managers\<close>

record MemObject =
  mo_impl :: "SkipList option"
  mo_options :: MemTableOptions
  mo_size :: u64
  mo_memory_usage :: u64
  mo_max_sequence :: u64

definition mem_object :: "MemTable \<Rightarrow> MemObject" where
  "mem_object M = \<lparr>mo_impl = Some (table_impl M), mo_options = table_options M, mo_size = table_size M,
     mo_memory_usage = memory_usage M, mo_max_sequence = max_sequence M\<rparr>"

definition MemTable_move :: "MemObject \<Rightarrow> MemObject \<times> MemObject" where
  "MemTable_move other = (other, other\<lparr>mo_impl := None, mo_size := 0, mo_memory_usage := 0, mo_max_sequence := 0\<rparr>)"

text \<open>The assignment destroys the skip list that the table had (the fourth component).\<close>

definition MemTable_assign ::
  "bool \<Rightarrow> MemObject \<Rightarrow> MemObject \<Rightarrow> (MemObject \<times> MemObject \<times> SkipList option) option" where
  "MemTable_assign self this other =
     (if self then Some (this, this, None)
      else let (new, old) = MemTable_move other
        in case mo_impl this of
             None \<Rightarrow> Some (new, old, None)
           | Some S \<Rightarrow> do { S \<leftarrow> SkipList_destroy S; Some (new, old, Some S) })"

text \<open>The accessors of a builder, which ask for the implementation first.\<close>

definition builder_min_sequence :: "SSTableBuilder option \<Rightarrow> u64" where
  "builder_min_sequence b = (case b of Some b \<Rightarrow> min_seq b | None \<Rightarrow> - 1)"

definition builder_max_sequence :: "SSTableBuilder option \<Rightarrow> u64" where
  "builder_max_sequence b = (case b of Some b \<Rightarrow> max_seq b | None \<Rightarrow> 0)"

definition builder_num_entries :: "SSTableBuilder option \<Rightarrow> nat" where
  "builder_num_entries b = (case b of Some b \<Rightarrow> num_entries b | None \<Rightarrow> 0)"

definition builder_smallest_key :: "SSTableBuilder option \<Rightarrow> bytes" where
  "builder_smallest_key b = (case b of Some b \<Rightarrow> smallest_key b | None \<Rightarrow> [])"

definition builder_largest_key :: "SSTableBuilder option \<Rightarrow> bytes" where
  "builder_largest_key b = (case b of Some b \<Rightarrow> largest_key b | None \<Rightarrow> [])"

text \<open>
  The move assignment of a flush manager after its \<open>Stop\<close>: the old implementation is destroyed
  with the jobs that are still in its queue.
\<close>

definition FlushManager_assign :: "bool \<Rightarrow> string \<Rightarrow> FlushManager \<Rightarrow> FlushManager \<Rightarrow> FlushManager \<times> FlushManager" where
  "FlushManager_assign self left this other = (if self then (this, this) else FlushManager_move left other)"

section \<open>What a move leaves\<close>

text \<open>
  The new engine is the old one.  The old object has no log, so its destructor writes nothing; it is
  empty, lookups fail with an internal error, deletions with \<open>NotFound\<close>, its check fails, and a
  \<open>Put\<close> of any key follows the null pointer.
\<close>

lemma engine_move:
  "object_engine (fst (KVEngine_move left (engine_object E))) = Some E"
  "eo_destroy e (snd (KVEngine_move left (engine_object E))) = None"
  "obj_Get (eo_tree (snd (KVEngine_move left (engine_object E)))) key (Some x) = Some (Status_InternalError ''Leaf not found'', Some x)"
  "map_option fst (obj_Delete key (eo_tree (snd (KVEngine_move left (engine_object E))))) = Some (Status_NotFound ''Key not found'')"
  "obj_Verify (eo_tree (snd (KVEngine_move left (engine_object E)))) = Some False"
  "key \<noteq> [] \<Longrightarrow> obj_Put key val (eo_tree (snd (KVEngine_move left (engine_object E)))) = None"
  by (simp_all add: KVEngine_move_def BPlusTree_move_def eo_destroy_def obj_Get_def obj_Delete_def obj_Verify_def obj_Put_def
      object_tree_def object_engine_def engine_object_def tree_object_def Let_def)

text \<open>An assignment closes the log of the engine it replaces, and nothing else.\<close>

lemma engine_assign:
  "KVEngine_assign False e left (engine_object E) (engine_object E') =
     (fst (KVEngine_move left (engine_object E')), snd (KVEngine_move left (engine_object E')), KVEngine_destroy e E)"
  by (simp add: KVEngine_assign_def KVEngine_destroy_def engine_object_def case_prod_unfold Let_def)

text \<open>Assigning to a memory table frees every node it had.\<close>

lemma memtable_assign_frees:
  assumes "key_order (mem_comparator opts)" and "list_all (\<lambda>x. tails (snd x)) ops"
  shows "\<exists>M S. mem_run nb ops (MemTable_new opts) = Some M \<and> skip_nodes S = Map.empty \<and>
    MemTable_assign False (mem_object M) (mem_object M') =
      Some (mem_object M', (mem_object M')\<lparr>mo_impl := None, mo_size := 0, mo_memory_usage := 0, mo_max_sequence := 0\<rparr>, Some S)"
proof -
  obtain M xs where M: "mem_run nb ops (MemTable_new opts) = Some M" "mem_ok (mem_comparator opts) nb M xs" "mem_map xs = mem_ops_map ops"
    using assms by (rule mem_reach)
  then obtain S where "SkipList_destroy (table_impl M) = Some S" "skip_nodes S = Map.empty"
    using table_destroy [of "mem_comparator opts" "table_impl M" xs] by (auto simp: mem_ok_def)
  with M(1) show ?thesis by (auto simp: MemTable_assign_def MemTable_move_def mem_object_def)
qed

lemma BinarySearchKeys_slices_eq: "BinarySearchKeys_slices T keys key = BinarySearchKeys T keys key"
  by (simp add: BinarySearchKeys_slices_def BinarySearchKeys_def LowerBound_def)

end
