(* ===== verification/Options.thy ===== *)
theory Options
  imports Slice
begin

text \<open>
  The option structs of \<open>include/kv_types.h\<close> with their default values, and the block types of
  \<open>include/sstable/sstable.h\<close>.  No code of the repository reads them yet: the components have
  options of their own.  A comparator pointer is an optional comparator, an \<open>int\<close> or \<open>size_t\<close> setting a number.
\<close>

datatype CompactionStyle = LEVELED | TIERED | UNIVERSAL

record Options =
  db_comparator :: "Comparator option"
  create_if_missing :: bool
  error_if_exists :: bool
  write_buffer_size :: nat
  max_open_files :: int
  db_block_size :: nat
  block_cache_size :: nat
  bloom_bits_per_key :: int
  compaction_style :: CompactionStyle
  db_target_file_size :: nat
  max_bytes_for_level_base :: nat
  max_bytes_for_level_multiplier :: int
  num_levels :: int
  db_enable_wal :: bool
  wal_sync :: bool
  max_background_compactions :: int
  db_max_background_flushes :: int

definition Options_default :: Options where
  "Options_default = \<lparr>db_comparator = None, create_if_missing = True, error_if_exists = False,
     write_buffer_size = 4 * 1024 * 1024, max_open_files = 1000, db_block_size = 4096,
     block_cache_size = 8 * 1024 * 1024, bloom_bits_per_key = 10, compaction_style = LEVELED,
     db_target_file_size = 2 * 1024 * 1024, max_bytes_for_level_base = 10 * 1024 * 1024,
     max_bytes_for_level_multiplier = 10, num_levels = 7, db_enable_wal = True, wal_sync = False,
     max_background_compactions = 1, db_max_background_flushes = 1\<rparr>"

text \<open>\<open>snapshot\<close> points to a class that is declared and never defined, so the pointer can only be null or foreign.\<close>

record ReadOptions =
  read_verify_checksums :: bool
  fill_cache :: bool
  snapshot :: "nat option"

definition ReadOptions_default :: ReadOptions where
  "ReadOptions_default = \<lparr>read_verify_checksums = False, fill_cache = True, snapshot = None\<rparr>"

record WriteOptions =
  sync :: bool
  disable_wal :: bool

definition WriteOptions_default :: WriteOptions where
  "WriteOptions_default = \<lparr>sync = False, disable_wal = False\<rparr>"

record Range =
  range_start :: bytes
  range_limit :: bytes
  start_inclusive :: bool
  limit_inclusive :: bool

definition Range_default :: Range where
  "Range_default = \<lparr>range_start = [], range_limit = [], start_inclusive = True, limit_inclusive = False\<rparr>"

datatype BlockType = DataBlock | IndexBlock | FilterBlock | MetaBlock

fun BlockType_code :: "BlockType \<Rightarrow> u8" where
  "BlockType_code DataBlock = 1"
| "BlockType_code IndexBlock = 2"
| "BlockType_code FilterBlock = 3"
| "BlockType_code MetaBlock = 4"

lemma BlockType_code_inj: "BlockType_code a = BlockType_code b \<Longrightarrow> a = b"
  by (cases a; cases b) simp_all

end
