(* ===== verification/Spec2Isabelle.thy ===== *)
theory Spec2Isabelle
  imports Rest_Properties Cli_Properties SSTable_Reads Flush_Liveness Benchmark_Properties Programs_Properties Json_Texts Objects Options
begin

text \<open>
  Verification of the persistent key-value engine, a C++ program: a B+ tree in memory, a write-ahead
  log on disk, a command line and a REST server in front of them, and an LSM write path (memory table,
  sorted table, flush) beside them.  All paths below are relative to \<open>src/\<close>.

  \<^bold>\<open>The program.\<close>  \<open>KVEngine\<close> owns a \<open>BPlusTree\<close> and, unless disabled, a \<open>WriteAheadLog\<close>.
  \<open>Put\<close> and \<open>Delete\<close> first append a record to the log and then change the tree; the constructor replays
  the log.  \<open>cli.cpp\<close> and \<open>rest_server.cpp\<close> translate text commands and HTTP requests into calls of
  the engine, \<open>main.cpp\<close> and \<open>rest_server_main.cpp\<close> are the programs around them, and
  \<open>benchmark.cpp\<close> times the engine.  \<open>MemTable\<close> (a skip list), \<open>SSTableBuilder\<close>,
  \<open>SSTableReader\<close>, \<open>FlushManager\<close> and \<open>FlushScheduler\<close> form a second storage stack: the flush manager
  writes memory tables to sorted tables in background threads.  The engine does not use it yet.

  \<^bold>\<open>How code is rendered.\<close>  An operation is a function from the object's record (and its arguments) to the
  results and the changed record, with the source's name.  What C++ leaves undefined (an index outside a vector, a null
  or mistyped pointer, a copy past a buffer, a recursion that never returns) is \<^term>\<open>None\<close>; a
  theorem that an operation yields \<^term>\<open>Some\<close> something is therefore a proof of memory safety and of
  termination.  Errors the code reports are \<open>Status\<close> values and ordinary results.  Integers whose
  wrap-around the code can reach keep their width as words; lengths are natural numbers.
  Keys, values and texts are lists of bytes.

  \<^bold>\<open>Theories.\<close>

  \<^item> \<open>Prelude\<close> (the option monad, vectors, counting loops, the collections of simplification rules),
    \<open>Text\<close> (decimal numbers as the standard library writes and reads them),
    \<open>Status\<close> (\<open>include/error/status.h\<close>), \<open>Slice\<close> (slices and comparators of
    \<open>include/kv_types.h\<close>), \<open>Options\<close> (its option structs),
    \<open>Codec\<close> (fixed-width little-endian integers), \<open>Cursor\<close> (the contract of iterators).
  \<^item> The tree, \<open>include/btree/btree.h\<close> and \<open>src/btree/btree.cpp\<close>.  Code: \<open>Key_Search\<close> (binary searches),
    \<open>BTree_Nodes\<close> (nodes and the arena with its free list), \<open>BTree\<close> (lookup, insertion, deletion),
    \<open>BTree_Iter\<close> (the iterator), \<open>BTree_Verify\<close> (the run-time check), \<open>Memory\<close> (memory usage).
    Specification: \<open>Ordered_Lists\<close> (the contents as a sorted list, \<open>put_spec\<close> and \<open>del_spec\<close>) and
    \<open>BTree_Spec\<close> (the algorithm on trees without pointers).  Refinement: \<open>BTree_Ghost\<close> (where a tree lies in the
    arena), \<open>BTree_Insert\<close>, \<open>BTree_Erase\<close>, \<open>BTree_Correct\<close>.  Contract and results: \<open>Store\<close>, \<open>Tree_Properties\<close>.
  \<^item> The log, \<open>include/wal/wal.h\<close> and \<open>src/wal/wal.cpp\<close>: \<open>Wal\<close> (the code over an explicit disk),
    \<open>Wal_Log\<close> (the file format), \<open>Wal_Correct\<close> (the log as a sequence of records), \<open>Wal_Crash\<close> (runs, and crashes after a call),
    \<open>Wal_Reopen\<close> (crashes between two states, and starting again), \<open>Wal_Actions\<close> (the actions a call is made of, and
    so the crashes inside it), \<open>Wal_Properties\<close>.
  \<^item> The engine, \<open>include/kv_engine.h\<close> and \<open>src/kv_engine.cpp\<close>: \<open>Engine\<close>, \<open>Engine_Correct\<close> (it simulates its log and
    its tree at once), \<open>Engine_Properties\<close>.
  \<^item> The server, \<open>include/api/rest_server.h\<close> and \<open>src/api/rest_server.cpp\<close>: \<open>Json\<close> and \<open>Http\<close> (texts and packets),
    \<open>Rest\<close> (endpoints, connections, life cycle); \<open>Http_Correct\<close>, \<open>Http_Requests\<close> (reading what a client writes),
    \<open>Rest_Correct\<close>, \<open>Rest_Scan\<close>, \<open>Rest_Properties\<close>, \<open>Json_Texts\<close> (the grammar of the answers).
  \<^item> The command line, \<open>src/cli/cli.cpp\<close>: \<open>Cli\<close>, \<open>Cli_Properties\<close>.  The programs, \<open>src/main.cpp\<close> and
    \<open>src/rest_server_main.cpp\<close>: \<open>Programs\<close>, \<open>Programs_Properties\<close>.  The benchmark,
    \<open>src/benchmark/benchmark.cpp\<close> and \<open>src/benchmark_main.cpp\<close>: \<open>Benchmark\<close> (with the list of the timed calls and
    their answers, which the code does not keep), \<open>Benchmark_Correct\<close>, \<open>Benchmark_Properties\<close>.
  \<^item> The memory table, \<open>src/memtable/memtable.cpp\<close>: \<open>MemTable\<close> (the skip list over an explicit heap),
    \<open>MemTable_Correct\<close>, \<open>MemTable_Steps\<close>, \<open>MemTable_Properties\<close>.
  \<^item> The sorted table, \<open>src/sstable/sstable.cpp\<close>: \<open>SSTable\<close> (encodings and builder), \<open>SSTable_Reader\<close>;
    \<open>SSTable_Correct\<close>, \<open>SSTable_Build\<close>, \<open>SSTable_Lookup\<close>, \<open>SSTable_Properties\<close>, \<open>SSTable_Reads\<close>.
  \<^item> The flush, \<open>src/flush/flush.cpp\<close>: \<open>Flush\<close> (the threads as a step relation), \<open>Flush_Properties\<close>, \<open>Flush_Liveness\<close>.
  \<^item> \<open>Objects\<close>: the move operations of all classes, and what a moved-from object still does.

  \<^bold>\<open>Interfaces.\<close>  Where components meet, the contract is a locale.  \<open>key_order\<close> (in \<open>Slice\<close>): a comparator is a
    total order; interpreted on the default and the byte-wise comparator.  \<open>kv_store\<close> (in \<open>Store\<close>): what
    \<open>Put\<close>, \<open>Delete\<close> and \<open>Get\<close> promise; interpreted on the B+ tree with these two comparators, and the engine,
    the server and the command line are proved from its facts.  \<open>cursor\<close>: what \<open>Valid\<close>, the accessors
    and \<open>Next\<close> promise to a loop; a sublocale for the tree's iterator under every \<open>key_order\<close>, interpreted on the
    iterator of the memory table, and used for the range scans of the server, the command line and the benchmark and
    for the loop of the flush.  \<open>field_codec\<close> (in \<open>Codec\<close>): a field of fixed width is read back; interpreted on
    32-bit and 64-bit integers and on the header of a log record.

  \<^bold>\<open>What is shown.\<close>

  \<^item> Tree.  \<open>tree_rep\<close> states the structure: uniform depth, node fill, separators, the chain of
    leaves, exact counters, and no other node in the arena.  Every operation keeps it, returns, and acts on the contents as
    the sorted list does (\<open>Put_refines\<close>, \<open>Delete_refines\<close>); lookups, scans, statuses, \<open>Verify\<close>, the logarithmic height
    and the bounds of the memory usage follow for all sequences of calls on a new tree.
  \<^item> Log.  Records are read back wherever they stand, a closed log is recovered completely and in order.  For a log that was
    started on a directory of whole records, by system calls that do not fail: after a crash, be it between two calls or
    inside one, recovery delivers records that were written, in their order, and with \<open>sync_on_write\<close> all that were acknowledged.
    Whether the directory is again one of whole records depends on the record that the crash cut (\<open>torn\<close>): the code
    appends behind a torn record, which then hides what follows (\<open>wal_torn_tail_hides_later_records\<close>), and it
    acknowledges records although their sync failed (\<open>wal_ignores_failed_sync\<close>).
  \<^item> Engine.  Under the same conditions restart and crash recovery answer all lookups as the engine did before, with or
    without the call in flight; \<open>Sync\<close> is a barrier.
  \<^item> Server and command line.  However a request is cut into packets, its answer is what the map of live keys prescribes;
    scans list the range; answers are texts of the JSON grammar; both programs are followed from their
    arguments to the store that the next run finds.
  \<^item> Second stack.  The memory table is a map with tombstones as long as its nodes are of level 1, and undefined otherwise;
    blocks, filters, footers and lookups are right under the stated conditions; each job of the flush
    manager is at every moment queued, held by a thread or completed, and the threads complete all of them in a bounded number
    of steps as long as the flush of each table returns and no job arrives after they have exited.  In the present code
    the flush of a table with counted entries returns only where its file cannot be opened (\<open>flush_undefined\<close>).  The code has faults here, which
    are theorems as well (for example \<open>builder_finish_undefined\<close>, \<open>first_block_rejected\<close>,
    \<open>memtable_higher_level_undefined\<close>).

  \<^bold>\<open>Fuel.\<close>  Loops that walk pointers take fuel, and running out of it is \<^term>\<open>None\<close>, so every theorem
  with a result \<^term>\<open>Some\<close> shows that it was enough.  A descent in the tree gets one unit per slot of the arena
  (\<open>tree_fuel\<close>): the height of a well-formed tree is smaller, and a longer walk would visit a node twice and never
  end.  A walk along the leaves gets one unit more, for the null id at the end.  A scan gets \<open>Suc (tree_size T)\<close>: one
  unit per entry and one for the final test.  A walk in the skip list gets \<open>skip_fuel\<close>, the number of allocated
  addresses plus the number of levels, since every step moves to a later node or down one level.  All other loops
  terminate by a measure.

  \<^bold>\<open>Parameters.\<close>  zlib's \<open>crc32\<close> is an arbitrary function; recovery relies only on its being a function.
  The answers of the operating system are records of the model (\<open>WalEnv\<close>, \<open>SstEnv\<close>, \<open>StartEnv\<close>, the deliveries
  of \<open>recv\<close> and the results of \<open>send\<close>), with failures; a crash keeps of each file at least the
  bytes made durable and a prefix of those after them, and the name of a file of which bytes are durable.  Clocks, random draws, coin tosses, the rounding of
  floating-point arithmetic, and the sizes and capacities that the C++ library chooses (\<open>Layout\<close>) are arguments.

  \<^bold>\<open>Not modelled.\<close>  Mutexes: every operation of the engine holds its mutex from start to end, exclusively if it
  writes, and an iterator holds the read lock of the tree, so concurrent calls are sequences of calls; the threads of the flush manager, which give the mutex up between their
  critical sections, are modelled as steps.  The unbounded memory of the machine: allocations succeed.  Exceptions
  of \<open>std::filesystem\<close> and the Windows branches.  The private helpers of the tree that \<open>btree.cpp\<close> defines as empty
  stubs and nothing calls, and the defaulted move operations.  Deletion of the benchmark's temporary directory.  Class declarations
  have no definition beyond the operations they declare, and the tests under \<open>tests/\<close> are not part of the program.
\<close>

end
